(* ===== verification/Prelude.thy ===== *)
theory Prelude
  imports Complex_Main "HOL-Library.AList"
begin

text \<open>
  Shared vocabulary of the development: Python's insertion-ordered dictionaries as
  association lists, the result type that carries exceptions as values, reachability
  of a labelled transition system, and the locales that state the interfaces several
  components share (a keyed store, an inductive invariant, a counted claim).
\<close>

named_theorems dict_simps \<open>rewriting of dictionary reads after writes\<close>
named_theorems res_simps \<open>rewriting of exception-carrying results\<close>

section \<open>Results\<close>

text \<open>\<open>Inl\<close> is a raised exception, \<open>Inr\<close> a returned value.\<close>

definition rbind :: "'e + 'a \<Rightarrow> ('a \<Rightarrow> 'e + 'b) \<Rightarrow> 'e + 'b" where
  "rbind r f = (case r of Inl e \<Rightarrow> Inl e | Inr x \<Rightarrow> f x)"

lemma rbind_simps [simp, res_simps]:
  "rbind (Inl e) f = Inl e"
  "rbind (Inr x) f = f x"
  by (simp_all add: rbind_def)

lemma rbind_Inr_iff [res_simps]:
  "rbind r f = Inr y \<longleftrightarrow> (\<exists>x. r = Inr x \<and> f x = Inr y)"
  by (cases r) auto

lemma rbind_Inl_iff [res_simps]:
  "rbind r f = Inl e \<longleftrightarrow> r = Inl e \<or> (\<exists>x. r = Inr x \<and> f x = Inl e)"
  by (cases r) auto

lemma rbind_split:
  "P (rbind r f) \<longleftrightarrow> (\<forall>e. r = Inl e \<longrightarrow> P (Inl e)) \<and> (\<forall>x. r = Inr x \<longrightarrow> P (f x))"
  by (cases r) auto

section \<open>Operations on a state\<close>

text \<open>
  A call that may raise and that changes a state: its result and the state it leaves, the
  changes made before an exception included.
\<close>

type_synonym ('s, 'e, 'a) op = "'s \<Rightarrow> ('e + 'a) \<times> 's"

definition oret :: "'a \<Rightarrow> ('s, 'e, 'a) op" where
  "oret x s = (Inr x, s)"

definition oraise :: "'e \<Rightarrow> ('s, 'e, 'a) op" where
  "oraise e s = (Inl e, s)"

definition olift :: "'e + 'a \<Rightarrow> ('s, 'e, 'a) op" where
  "olift r s = (r, s)"

definition obind :: "('s, 'e, 'a) op \<Rightarrow> ('a \<Rightarrow> ('s, 'e, 'b) op) \<Rightarrow> ('s, 'e, 'b) op" where
  "obind m f s = (case m s of (Inl e, s') \<Rightarrow> (Inl e, s') | (Inr x, s') \<Rightarrow> f x s')"

text \<open>\<open>try\<close>: the handler sees the exception in the state it was raised in.\<close>

definition otry :: "('s, 'e, 'a) op \<Rightarrow> ('e \<Rightarrow> ('s, 'e, 'b) op) \<Rightarrow> ('a \<Rightarrow> ('s, 'e, 'b) op) \<Rightarrow> ('s, 'e, 'b) op" where
  "otry m h f s = (case m s of (Inl e, s') \<Rightarrow> h e s' | (Inr x, s') \<Rightarrow> f x s')"

lemma op_simps [simp, res_simps]:
  "oret x s = (Inr x, s)"
  "oraise e s = (Inl e, s)"
  "olift r s = (r, s)"
  by (simp_all add: oret_def oraise_def olift_def)

lemma obind_simps [simp, res_simps]:
  "m s = (Inl e, s') \<Longrightarrow> obind m f s = (Inl e, s')"
  "m s = (Inr x, s') \<Longrightarrow> obind m f s = f x s'"
  by (simp_all add: obind_def)

lemma obind_assoc: "obind (obind m f) g = obind m (\<lambda>x. obind (f x) g)"
  by (rule ext) (simp add: obind_def split: prod.splits sum.splits)

lemma obind_Inr:
  "obind m f s = (Inr y, t) \<longleftrightarrow> (\<exists>x s'. m s = (Inr x, s') \<and> f x s' = (Inr y, t))"
  by (auto simp: obind_def split: prod.splits sum.splits)

lemma obind_Inl:
  "obind m f s = (Inl e, t) \<longleftrightarrow>
     m s = (Inl e, t) \<or> (\<exists>x s'. m s = (Inr x, s') \<and> f x s' = (Inl e, t))"
  by (auto simp: obind_def split: prod.splits sum.splits)

section \<open>Dictionaries\<close>

text \<open>
  A Python dictionary keeps insertion order, and assigning to a present key keeps its
  place: exactly \<open>AList.update\<close>. Reads are \<open>map_of\<close>, \<open>pop\<close> and
  \<open>del\<close> are \<open>AList.delete\<close>.
\<close>

type_synonym ('k, 'v) dict = "('k \<times> 'v) list"

abbreviation dget :: "('k, 'v) dict \<Rightarrow> 'k \<Rightarrow> 'v option" where
  "dget d k \<equiv> map_of d k"

abbreviation dset :: "'k \<Rightarrow> 'v \<Rightarrow> ('k, 'v) dict \<Rightarrow> ('k, 'v) dict" where
  "dset \<equiv> AList.update"

abbreviation ddel :: "'k \<Rightarrow> ('k, 'v) dict \<Rightarrow> ('k, 'v) dict" where
  "ddel \<equiv> AList.delete"

abbreviation dkeys :: "('k, 'v) dict \<Rightarrow> 'k list" where
  "dkeys d \<equiv> map fst d"

definition dict_wf :: "('k, 'v) dict \<Rightarrow> bool" where
  "dict_wf d \<longleftrightarrow> distinct (map fst d)"

definition dget_or :: "'v \<Rightarrow> ('k, 'v) dict \<Rightarrow> 'k \<Rightarrow> 'v" where
  "dget_or v d k = (case map_of d k of None \<Rightarrow> v | Some x \<Rightarrow> x)"

lemma dict_wf_empty [simp, intro]: "dict_wf []"
  by (simp add: dict_wf_def)

lemma dict_wf_dset [simp, intro]: "dict_wf d \<Longrightarrow> dict_wf (dset k v d)"
  by (simp add: dict_wf_def distinct_update)

lemma dict_wf_ddel [simp, intro]: "dict_wf d \<Longrightarrow> dict_wf (ddel k d)"
  by (simp add: dict_wf_def distinct_delete)

lemma dget_dset [simp, dict_simps]: "dget (dset k v d) j = (if j = k then Some v else dget d j)"
  by (simp add: update_conv')

lemma dget_ddel [simp, dict_simps]: "dget (ddel k d) j = (if j = k then None else dget d j)"
  by (simp add: delete_conv')

lemma dget_or_dset [simp, dict_simps]:
  "dget_or x (dset k v d) j = (if j = k then v else dget_or x d j)"
  by (simp add: dget_or_def)

lemma dget_or_ddel [simp, dict_simps]:
  "dget_or x (ddel k d) j = (if j = k then x else dget_or x d j)"
  by (simp add: dget_or_def)

lemma dget_or_Some [simp]: "dget d k = Some v \<Longrightarrow> dget_or x d k = v"
  by (simp add: dget_or_def)

lemma dget_or_None [simp]: "dget d k = None \<Longrightarrow> dget_or x d k = x"
  by (simp add: dget_or_def)

lemma dget_None_iff: "dget d k = None \<longleftrightarrow> k \<notin> set (dkeys d)"
  by (simp add: map_of_eq_None_iff)

lemma dkeys_dset: "set (dkeys (dset k v d)) = insert k (set (dkeys d))"
  by (simp add: dom_update)

lemma dkeys_ddel: "set (dkeys (ddel k d)) = set (dkeys d) - {k}"
  by (auto simp: AList.delete_keys)

lemma dget_in_set: "dget d k = Some v \<Longrightarrow> (k, v) \<in> set d"
  by (rule map_of_SomeD)

lemma dget_eq_iff: "dict_wf d \<Longrightarrow> dget d k = Some v \<longleftrightarrow> (k, v) \<in> set d"
  unfolding dict_wf_def by (rule map_of_eq_Some_iff)

lemma length_ddel_le: "length (ddel k d) \<le> length d"
  by (rule length_delete_le)

lemma length_ddel_less: "dget d k = Some v \<Longrightarrow> length (ddel k d) < length d"
  by (induction d) (auto split: if_splits simp: le_imp_less_Suc length_delete_le)

section \<open>Interface: a keyed store\<close>

text \<open>
  What a client of a cache relies on: a read after a write, and a read after a removal.
  \<open>put_once\<close> is the write that never replaces (first writer wins).
\<close>

locale keyed_store =
  fixes lookup :: "'s \<Rightarrow> 'k \<Rightarrow> 'v option"
    and put :: "'k \<Rightarrow> 'v \<Rightarrow> 's \<Rightarrow> 's"
    and remove_key :: "'k \<Rightarrow> 's \<Rightarrow> 's"
  assumes lookup_put: "lookup (put k v s) j = (if j = k then Some v else lookup s j)"
    and lookup_remove: "lookup (remove_key k s) j = (if j = k then None else lookup s j)"
begin

definition put_once :: "'k \<Rightarrow> 'v \<Rightarrow> 's \<Rightarrow> 's" where
  "put_once k v s = (if lookup s k = None then put k v s else s)"

lemma put_once_keeps: "lookup s j = Some w \<Longrightarrow> lookup (put_once k v s) j = Some w"
  by (auto simp: put_once_def lookup_put)

lemma put_once_present: "\<exists>w. lookup (put_once k v s) k = Some w"
  by (cases "lookup s k") (auto simp: put_once_def lookup_put)

lemma put_once_idem: "put_once k w (put_once k v s) = put_once k v s"
  using put_once_present [of k v s] by (auto simp: put_once_def)

lemma fold_put_once_keeps:
  "lookup s j = Some w \<Longrightarrow> lookup (fold (\<lambda>(k, v). put_once k v) kvs s) j = Some w"
  by (induction kvs arbitrary: s) (auto simp: put_once_keeps)

lemma fold_put_once_first:
  assumes "lookup s k = None"
  shows "lookup (fold (\<lambda>(j, v). put_once j v) kvs s) k = map_of kvs k"
  using assms
proof (induction kvs arbitrary: s)
  case Nil
  then show ?case by simp
next
  case (Cons p kvs)
  obtain j v where p: "p = (j, v)" by fastforce
  show ?case
  proof (cases "j = k")
    case True
    with Cons.prems have "lookup (put_once j v s) k = Some v"
      by (simp add: put_once_def lookup_put)
    with True p show ?thesis by (simp add: fold_put_once_keeps)
  next
    case False
    with Cons.prems have "lookup (put_once j v s) k = None"
      by (simp add: put_once_def lookup_put)
    with Cons.IH False p show ?thesis by simp
  qed
qed

end

interpretation pydict: keyed_store dget dset ddel
  by unfold_locales simp_all

section \<open>Interface: an inductive invariant\<close>

inductive reachable :: "('s \<Rightarrow> bool) \<Rightarrow> ('s \<Rightarrow> 'e \<Rightarrow> 's \<Rightarrow> bool) \<Rightarrow> 's \<Rightarrow> bool"
  for start :: "'s \<Rightarrow> bool" and step :: "'s \<Rightarrow> 'e \<Rightarrow> 's \<Rightarrow> bool" where
  reach_start: "start s \<Longrightarrow> reachable start step s"
| reach_step: "reachable start step s \<Longrightarrow> step s e t \<Longrightarrow> reachable start step t"

locale inductive_invariant =
  fixes start :: "'s \<Rightarrow> bool"
    and step :: "'s \<Rightarrow> 'e \<Rightarrow> 's \<Rightarrow> bool"
    and inv :: "'s \<Rightarrow> bool"
  assumes inv_start: "start s \<Longrightarrow> inv s"
    and inv_step: "inv s \<Longrightarrow> step s e t \<Longrightarrow> inv t"
begin

lemma reachable_inv: "reachable start step s \<Longrightarrow> inv s"
  by (induction rule: reachable.induct) (blast intro: inv_start inv_step)+

end

section \<open>Interface: counted claims\<close>

text \<open>
  An owner takes a claim on a key and gives it back. The laws say that taking adds one
  to that key only, that giving back takes one off that key only when one is held, and
  that a refused release changes no count. The client lemma: balanced histories leave
  every count where it was.
\<close>

datatype 'k claim_op = Take 'k | Give 'k

locale counted_claims =
  fixes ok :: "'s \<Rightarrow> bool"
    and count :: "'s \<Rightarrow> 'k \<Rightarrow> nat"
    and take_claim :: "'k \<Rightarrow> 's \<Rightarrow> 's"
    and give_claim :: "'k \<Rightarrow> 's \<Rightarrow> 's"
  assumes ok_take: "ok s \<Longrightarrow> ok (take_claim k s)"
    and ok_give: "ok s \<Longrightarrow> ok (give_claim k s)"
    and count_take: "ok s \<Longrightarrow> count (take_claim k s) j = count s j + (if j = k then 1 else 0)"
    and count_give: "ok s \<Longrightarrow> count (give_claim k s) j = count s j - (if j = k then 1 else 0)"
begin

fun run :: "'k claim_op list \<Rightarrow> 's \<Rightarrow> 's" where
  "run [] s = s"
| "run (Take k # ops) s = run ops (take_claim k s)"
| "run (Give k # ops) s = run ops (give_claim k s)"

text \<open>\<open>never_short k n ops\<close>: starting from \<open>n\<close>, no release of \<open>k\<close> finds a zero count.\<close>

fun never_short :: "'k \<Rightarrow> nat \<Rightarrow> 'k claim_op list \<Rightarrow> bool" where
  "never_short k n [] = True"
| "never_short k n (Take j # ops) = never_short k (if j = k then Suc n else n) ops"
| "never_short k n (Give j # ops) =
     (if j = k then 0 < n \<and> never_short k (n - 1) ops else never_short k n ops)"

lemma run_ok: "ok s \<Longrightarrow> ok (run ops s)"
  by (induction ops s rule: run.induct) (auto simp: ok_take ok_give)

lemma count_run:
  "ok s \<Longrightarrow> never_short k (count s k) ops \<Longrightarrow>
     count (run ops s) k + count_list ops (Give k) = count s k + count_list ops (Take k)"
  by (induction ops s rule: run.induct)
     (auto simp: ok_take ok_give count_take count_give split: if_splits)

lemma count_balanced:
  assumes "ok s" and "never_short k (count s k) ops"
    and "count_list ops (Take k) = count_list ops (Give k)"
  shows "count (run ops s) k = count s k"
  using count_run [OF assms(1,2)] assms(3) by simp

end

end
