(* ===== verification/PyText.thy ===== *)
theory PyText
  imports Prelude "HOL-Library.Word" "HOL-Library.List_Lexorder"
begin

text \<open>
  Python's \<open>bytes\<close> and \<open>str\<close>: bytes are 8-bit words, a string is its list of code
  points. \<open>str.encode()\<close> and \<open>bytes.decode()\<close> are CPython's strict UTF-8
  codec (overlong forms, surrogates and values above U+10FFFF are refused), and
  \<open>bytes.hex\<close> / \<open>bytes.fromhex\<close> its hexadecimal one.
\<close>

type_synonym byte = "8 word"
type_synonym bytes = "byte list"
type_synonym ustr = "nat list"

definition u :: "string \<Rightarrow> ustr" where
  "u s = map of_char s"

definition ascii :: "string \<Rightarrow> bytes" where
  "ascii s = map (\<lambda>c. of_nat (of_char c)) s"

definition nl :: string where
  "nl = [CHR 0x0A]"

section \<open>UTF-8\<close>

definition scalar_value :: "nat \<Rightarrow> bool" where
  "scalar_value c \<longleftrightarrow> c < 55296 \<or> (57343 < c \<and> c < 1114112)"

definition utf8_char :: "nat \<Rightarrow> nat list option" where
  "utf8_char c =
     (if c < 128 then Some [c]
      else if c < 2048 then Some [192 + c div 64, 128 + c mod 64]
      else if c < 65536 then
        (if 55296 \<le> c \<and> c < 57344 then None
         else Some [224 + c div 4096, 128 + c div 64 mod 64, 128 + c mod 64])
      else if c < 1114112 then
        Some [240 + c div 262144, 128 + c div 4096 mod 64, 128 + c div 64 mod 64, 128 + c mod 64]
      else None)"

fun utf8_encode_nat :: "ustr \<Rightarrow> nat list option" where
  "utf8_encode_nat [] = Some []"
| "utf8_encode_nat (c # cs) =
     (case (utf8_char c, utf8_encode_nat cs) of
        (Some xs, Some ys) \<Rightarrow> Some (xs @ ys)
      | _ \<Rightarrow> None)"

definition is_cont :: "nat \<Rightarrow> bool" where
  "is_cont b \<longleftrightarrow> 128 \<le> b \<and> b < 192"

text \<open>One code point off the front of a byte list, with the bytes left.\<close>

fun utf8_next :: "nat list \<Rightarrow> (nat \<times> nat list) option" where
  "utf8_next [] = None"
| "utf8_next (a # bs) =
     (if a < 128 then Some (a, bs)
      else if 194 \<le> a \<and> a < 224 then
        (case bs of b # rest \<Rightarrow>
           (if is_cont b then Some ((a - 192) * 64 + (b - 128), rest) else None)
         | _ \<Rightarrow> None)
      else if 224 \<le> a \<and> a < 240 then
        (case bs of b # c # rest \<Rightarrow>
           (if is_cont b \<and> is_cont c \<and> (a = 224 \<longrightarrow> 160 \<le> b) \<and> (a = 237 \<longrightarrow> b < 160)
            then Some ((a - 224) * 4096 + (b - 128) * 64 + (c - 128), rest) else None)
         | _ \<Rightarrow> None)
      else if 240 \<le> a \<and> a < 245 then
        (case bs of b # c # d # rest \<Rightarrow>
           (if is_cont b \<and> is_cont c \<and> is_cont d \<and> (a = 240 \<longrightarrow> 144 \<le> b) \<and> (a = 244 \<longrightarrow> b < 144)
            then Some ((a - 240) * 262144 + (b - 128) * 4096 + (c - 128) * 64 + (d - 128), rest)
            else None)
         | _ \<Rightarrow> None)
      else None)"

lemma utf8_next_shorter: "utf8_next bs = Some (c, rest) \<Longrightarrow> length rest < length bs"
  by (cases bs) (auto split: if_splits list.splits)

function utf8_decode_nat :: "nat list \<Rightarrow> ustr option" where
  "utf8_decode_nat bs =
     (if bs = [] then Some []
      else case utf8_next bs of
        None \<Rightarrow> None
      | Some (c, rest) \<Rightarrow> map_option ((#) c) (utf8_decode_nat rest))"
  by pat_completeness auto
termination
  by (relation "measure length") (auto dest: utf8_next_shorter)

declare utf8_decode_nat.simps [simp del]

lemma utf8_decode_nat_Nil [simp]: "utf8_decode_nat [] = Some []"
  by (subst utf8_decode_nat.simps) simp

definition encode :: "ustr \<Rightarrow> bytes option" where
  "encode t = map_option (map of_nat) (utf8_encode_nat t)"

definition decode :: "bytes \<Rightarrow> ustr option" where
  "decode bs = utf8_decode_nat (map unat bs)"

lemma utf8_next_utf8_char:
  assumes "utf8_char c = Some xs"
  shows "utf8_next (xs @ rest) = Some (c, rest)"
proof -
  consider "c < 128" | "128 \<le> c" "c < 2048" | "2048 \<le> c" "c < 65536" | "65536 \<le> c" "c < 1114112"
    using assms by (fastforce simp: utf8_char_def split: if_splits)
  then show ?thesis
  proof cases
    case 1
    with assms show ?thesis by (auto simp: utf8_char_def)
  next
    case 2
    then have "2 \<le> c div 64" "c div 64 < 32" "c div 64 * 64 + c mod 64 = c" by auto
    with assms 2 show ?thesis by (auto simp: utf8_char_def is_cont_def)
  next
    case 3
    then have q: "c div 4096 < 16" "c div 4096 = c div 64 div 64"
      "c div 64 div 64 * 64 + c div 64 mod 64 = c div 64" "c div 64 * 64 + c mod 64 = c"
      by (auto simp: div_mult2_eq [of c 64 64, simplified])
    have r: "\<not> (55296 \<le> c \<and> c < 57344)" and xs: "xs = [224 + c div 4096, 128 + c div 64 mod 64, 128 + c mod 64]"
      using assms 3 by (auto simp: utf8_char_def split: if_splits)
    have e: "c div 4096 * 4096 + c div 64 mod 64 * 64 + c mod 64 = c" using q by linarith
    have "c div 4096 = 0 \<Longrightarrow> 32 \<le> c div 64 mod 64" using 3 q by linarith
    moreover have "c div 4096 = 13 \<Longrightarrow> c div 64 mod 64 < 32"
    proof (rule ccontr)
      assume a: "c div 4096 = 13" "\<not> c div 64 mod 64 < 32"
      have "c mod 64 < 64" "c div 64 mod 64 < 64" by auto
      with e a have "55296 \<le> c" "c < 57344" by linarith+
      with r show False by simp
    qed
    ultimately show ?thesis using xs e q(1) by (auto simp: is_cont_def)
  next
    case 4
    define p q r e where "p = c div 262144" and "q = c div 4096 mod 64" and "r = c div 64 mod 64"
      and "e = c mod 64"
    have "c div 262144 * 64 + c div 4096 mod 64 = c div 4096"
      using div_mult_mod_eq [of "c div 4096" 64] by (simp add: div_mult2_eq [of c 4096 64, simplified])
    moreover have "c div 4096 * 64 + c div 64 mod 64 = c div 64"
      using div_mult_mod_eq [of "c div 64" 64] by (simp add: div_mult2_eq [of c 64 64, simplified])
    moreover have "c div 64 * 64 + c mod 64 = c" by simp
    ultimately have c: "p * 262144 + q * 4096 + r * 64 + e = c"
      unfolding p_def q_def r_def e_def by linarith
    have lt: "q < 64" "r < 64" "e < 64" by (simp_all add: q_def r_def e_def)
    have p: "p < 5" using 4 by (simp add: p_def)
    have lo: "p = 0 \<Longrightarrow> 16 \<le> q" using 4 c lt by linarith
    have hi: "p = 4 \<Longrightarrow> q < 16" using 4 c lt by linarith
    have xs: "xs = [240 + p, 128 + q, 128 + r, 128 + e]"
      using assms 4 by (auto simp: utf8_char_def p_def q_def r_def e_def split: if_splits)
    show ?thesis using p lo hi lt c by (auto simp: xs is_cont_def)
  qed
qed

lemma utf8_char_nonempty: "utf8_char c = Some xs \<Longrightarrow> xs \<noteq> []"
  by (auto simp: utf8_char_def split: if_splits)

lemma utf8_char_bytes: "utf8_char c = Some xs \<Longrightarrow> \<forall>x\<in>set xs. x < 256"
  by (auto simp: utf8_char_def split: if_splits)

lemma utf8_decode_encode_nat: "utf8_encode_nat t = Some bs \<Longrightarrow> utf8_decode_nat bs = Some t"
proof (induction t arbitrary: bs)
  case Nil
  then show ?case by simp
next
  case (Cons c cs)
  then obtain xs ys where xs: "utf8_char c = Some xs" and ys: "utf8_encode_nat cs = Some ys"
    and bs: "bs = xs @ ys" by (auto split: option.splits)
  from Cons.IH [OF ys] show ?case
    by (subst utf8_decode_nat.simps)
       (simp add: bs utf8_next_utf8_char [OF xs] utf8_char_nonempty [OF xs])
qed

lemma utf8_encode_bytes: "utf8_encode_nat t = Some bs \<Longrightarrow> \<forall>x\<in>set bs. x < 256"
  by (induction t arbitrary: bs) (auto split: option.splits dest!: utf8_char_bytes)

lemma unat_of_nat_bytes: "\<forall>x\<in>set xs. x < 256 \<Longrightarrow> map unat (map (of_nat :: nat \<Rightarrow> byte) xs) = xs"
  by (induction xs) (auto simp: unat_of_nat)

lemma decode_encode: "encode t = Some bs \<Longrightarrow> decode bs = Some t"
  unfolding encode_def decode_def
  using unat_of_nat_bytes [OF utf8_encode_bytes] by (auto dest: utf8_decode_encode_nat)

lemma encode_defined: "\<forall>c\<in>set t. scalar_value c \<Longrightarrow> \<exists>bs. encode t = Some bs"
  unfolding encode_def
  by (induction t) (auto simp: scalar_value_def utf8_char_def split: option.splits)

section \<open>Hexadecimal digits\<close>

definition hex_digit :: "nat \<Rightarrow> nat" where
  "hex_digit n = (if n < 10 then 48 + n else 87 + n)"

definition hexval :: "nat \<Rightarrow> nat option" where
  "hexval c =
     (if 48 \<le> c \<and> c \<le> 57 then Some (c - 48)
      else if 97 \<le> c \<and> c \<le> 102 then Some (c - 87)
      else if 65 \<le> c \<and> c \<le> 70 then Some (c - 55)
      else None)"

definition is_ascii_space :: "nat \<Rightarrow> bool" where
  "is_ascii_space c \<longleftrightarrow> c = 32 \<or> (9 \<le> c \<and> c \<le> 13)"

definition is_hex_lower :: "nat \<Rightarrow> bool" where
  "is_hex_lower c \<longleftrightarrow> (48 \<le> c \<and> c \<le> 57) \<or> (97 \<le> c \<and> c \<le> 102)"

fun hex_bytes :: "bytes \<Rightarrow> ustr" where
  "hex_bytes [] = []"
| "hex_bytes (b # bs) = hex_digit (unat b div 16) # hex_digit (unat b mod 16) # hex_bytes bs"

text \<open>\<open>bytes.fromhex\<close> skips ASCII white space between the pairs, never inside one.\<close>

fun fromhex :: "ustr \<Rightarrow> bytes option" where
  "fromhex [] = Some []"
| "fromhex (c # cs) =
     (if is_ascii_space c then fromhex cs
      else case cs of
        [] \<Rightarrow> None
      | d # ds \<Rightarrow>
          (case (hexval c, hexval d) of
             (Some x, Some y) \<Rightarrow> map_option ((#) (of_nat (16 * x + y))) (fromhex ds)
           | _ \<Rightarrow> None))"

lemma hexval_hex_digit: "n < 16 \<Longrightarrow> hexval (hex_digit n) = Some n"
  by (auto simp: hexval_def hex_digit_def)

lemma not_space_hex_digit: "n < 16 \<Longrightarrow> \<not> is_ascii_space (hex_digit n)"
  by (auto simp: is_ascii_space_def hex_digit_def)

lemma hex_lower_hex_digit: "n < 16 \<Longrightarrow> is_hex_lower (hex_digit n)"
  by (auto simp: is_hex_lower_def hex_digit_def)

lemma byte_less: "unat (b :: byte) < 256"
  using unsigned_less [of b] by simp

lemma byte_div_less: "unat (b :: byte) div 16 < 16"
  using byte_less [of b] by simp

lemma fromhex_hex_bytes: "fromhex (hex_bytes bs) = Some bs"
  by (induction bs)
     (simp_all add: not_space_hex_digit byte_div_less hexval_hex_digit unat_of_nat)

lemma length_hex_bytes [simp]: "length (hex_bytes bs) = 2 * length bs"
  by (induction bs) simp_all

lemma hex_bytes_lower: "\<forall>c\<in>set (hex_bytes bs). is_hex_lower c"
  by (induction bs) (auto simp: hex_lower_hex_digit byte_div_less)

lemma hex_bytes_inject [simp]: "hex_bytes a = hex_bytes b \<longleftrightarrow> a = b"
  by (metis fromhex_hex_bytes option.inject)

lemma hexval_lower_digit: "is_hex_lower c \<Longrightarrow> \<exists>n<16. hexval c = Some n \<and> hex_digit n = c"
  by (auto simp: is_hex_lower_def hexval_def hex_digit_def)

lemma hex_fromhex_lower:
  "\<forall>c\<in>set t. is_hex_lower c \<Longrightarrow> fromhex t = Some bs \<Longrightarrow> hex_bytes bs = t"
proof (induction t arbitrary: bs rule: fromhex.induct)
  case 1
  then show ?case by simp
next
  case (2 c cs)
  from "2.prems"(1) have lc: "is_hex_lower c" and nsp: "\<not> is_ascii_space c"
    by (auto simp: is_ascii_space_def is_hex_lower_def)
  with "2.prems"(2) obtain d ds where cs: "cs = d # ds" by (auto split: list.splits)
  with "2.prems"(1) have ld: "is_hex_lower d" by simp
  from lc obtain x where x: "x < 16" "hexval c = Some x" "hex_digit x = c"
    using hexval_lower_digit by blast
  from ld obtain y where y: "y < 16" "hexval d = Some y" "hex_digit y = d"
    using hexval_lower_digit by blast
  from "2.prems"(2) nsp cs x y obtain rest where rest: "fromhex ds = Some rest"
    and bs: "bs = of_nat (16 * x + y) # rest" by auto
  have "unat (of_nat (16 * x + y) :: byte) = 16 * x + y"
    using x(1) y(1) by (simp only: unat_of_nat) simp
  with "2.IH"(2) [OF nsp cs refl] x y rest bs cs "2.prems"(1) show ?case
    by (auto simp: nsp)
qed

lemma fromhex_odd: "\<forall>c\<in>set t. is_hex_lower c \<Longrightarrow> even (length t) \<Longrightarrow> \<exists>bs. fromhex t = Some bs"
proof (induction t rule: fromhex.induct)
  case 1
  then show ?case by simp
next
  case (2 c cs)
  from "2.prems"(1) have nsp: "\<not> is_ascii_space c" and lc: "is_hex_lower c"
    by (auto simp: is_ascii_space_def is_hex_lower_def)
  from "2.prems"(2) obtain d ds where cs: "cs = d # ds" by (cases cs) auto
  with "2.prems"(1) have ld: "is_hex_lower d" by simp
  obtain x y where xy: "hexval c = Some x" "hexval d = Some y"
    using hexval_lower_digit [OF lc] hexval_lower_digit [OF ld] by blast
  from "2.IH"(2) [OF nsp cs refl xy] "2.prems" cs obtain rest where "fromhex ds = Some rest"
    by auto
  with nsp cs xy show ?case by simp
qed

end
