(* ===== verification/Checksums.thy ===== *)
theory Checksums
  imports PyText
begin

text \<open>
  \<open>seamless/checksum_class.py\<close> (construction, hexadecimal form, ordering, recursive
  validation), \<open>seamless/checksum/null.py\<close> and \<open>seamless/checksum/virtual.py\<close>
  (the canonical null and the values a checksum encodes by itself), and the exceptions
  the whole package raises. SHA-256 comes from \<open>hashlib\<close>: it is the argument
  \<open>sha\<close> of every definition that hashes, and a theorem that needs the digests of the
  constant buffers to differ says so.
\<close>

section \<open>The Checksum class\<close>

datatype checksum = Checksum (digest: bytes)

text \<open>
  \<open>fingertip_category\<close> of a \<open>CacheMissError\<close>, with the order of the
  \<open>IntEnum\<close> (seamless/__init__.py).
\<close>

datatype fingertip_category =
  MATERIALIZATION | FAILED_TRANSFORMATION | IRREPRODUCIBLE_TRANSFORMATION | IRREPRODUCIBLE_EXPRESSION

fun category_value :: "fingertip_category \<Rightarrow> nat" where
  "category_value MATERIALIZATION = 1"
| "category_value FAILED_TRANSFORMATION = 2"
| "category_value IRREPRODUCIBLE_TRANSFORMATION = 3"
| "category_value IRREPRODUCIBLE_EXPRESSION = 4"

lemma category_value_inject: "category_value a = category_value b \<Longrightarrow> a = b"
  by (cases a; cases b) simp_all

definition category_le :: "fingertip_category \<Rightarrow> fingertip_category \<Rightarrow> bool" where
  "category_le a b \<longleftrightarrow> category_value a \<le> category_value b"

instantiation fingertip_category :: linorder
begin
definition less_eq_fingertip_category :: "fingertip_category \<Rightarrow> fingertip_category \<Rightarrow> bool" where
  "less_eq_fingertip_category a b \<longleftrightarrow> category_le a b"
definition less_fingertip_category :: "fingertip_category \<Rightarrow> fingertip_category \<Rightarrow> bool" where
  "less_fingertip_category a b \<longleftrightarrow> category_value a < category_value b"
instance
  by standard
     (auto simp: less_eq_fingertip_category_def less_fingertip_category_def category_le_def
       intro: category_value_inject)
end

datatype exc =
    TypeError | ValueError | KeyError | IndexError | AttributeError | EOFError | RuntimeError | AssertionError
  | NotImplementedError | UnicodeDecodeError | SyntaxError | CancelledError
  | SeamlessConversionError | HashTypeValidationError | ExpressionEvaluationError
  | NeedsBuffer | CacheMissError checksum "fingertip_category option" | OtherError string

type_synonym 'a result = "exc + 'a"

text \<open>\<open>HashTypeValidationError\<close>, \<open>SeamlessConversionError\<close>,
  \<open>ExpressionEvaluationError\<close> and \<open>UnicodeDecodeError\<close> are subclasses of
  \<open>ValueError\<close>.\<close>

definition is_ValueError :: "exc \<Rightarrow> bool" where
  "is_ValueError e \<longleftrightarrow> e \<in> {ValueError, UnicodeDecodeError, SeamlessConversionError,
     HashTypeValidationError, ExpressionEvaluationError}"

text \<open>The argument of the constructor: a Checksum, a string, bytes, None, or anything else.\<close>

datatype ck_arg = ArgNone | ArgChecksum checksum | ArgStr ustr | ArgBytes bytes | ArgOther

fun checksum_init :: "ck_arg \<Rightarrow> checksum result" where
  "checksum_init ArgNone = Inl TypeError"
| "checksum_init (ArgChecksum c) = Inr c"
| "checksum_init (ArgStr s) =
     (case fromhex s of
        None \<Rightarrow> Inl ValueError
      | Some b \<Rightarrow> if length b \<noteq> 32 then Inl ValueError else Inr (Checksum b))"
| "checksum_init (ArgBytes b) = (if length b \<noteq> 32 then Inl ValueError else Inr (Checksum b))"
| "checksum_init ArgOther = Inl TypeError"

definition hex :: "checksum \<Rightarrow> ustr" where
  "hex c = hex_bytes (digest c)"

definition checksum_wf :: "checksum \<Rightarrow> bool" where
  "checksum_wf c \<longleftrightarrow> length (digest c) = 32"

text \<open>\<open>__lt__\<close> and \<open>__gt__\<close> compare the digests as Python compares bytes.\<close>

definition checksum_lt :: "checksum \<Rightarrow> checksum \<Rightarrow> bool" where
  "checksum_lt a b \<longleftrightarrow> digest a < digest b"

definition checksum_gt :: "checksum \<Rightarrow> checksum \<Rightarrow> bool" where
  "checksum_gt a b \<longleftrightarrow> digest a > digest b"

instantiation checksum :: linorder
begin
definition less_eq_checksum :: "checksum \<Rightarrow> checksum \<Rightarrow> bool" where
  "less_eq_checksum a b \<longleftrightarrow> \<not> checksum_gt a b"
definition less_checksum :: "checksum \<Rightarrow> checksum \<Rightarrow> bool" where
  "less_checksum a b \<longleftrightarrow> checksum_lt a b"
instance
  by standard (auto simp: less_eq_checksum_def less_checksum_def checksum_lt_def checksum_gt_def checksum.expand)
end

text \<open>\<open>validate_checksum\<close>: a Checksum, a 64-character string, or a list or dict of them.\<close>

datatype ck_tree =
    TreeChecksum checksum
  | TreeStr ustr
  | TreeList "ck_tree list"
  | TreeDict "(ustr \<times> ck_tree) list"
  | TreeOther

fun validate_checksum :: "ck_tree \<Rightarrow> unit result"
and validate_checksum_list :: "ck_tree list \<Rightarrow> unit result"
and validate_checksum_items :: "(ustr \<times> ck_tree) list \<Rightarrow> unit result" where
  "validate_checksum (TreeChecksum c) = Inr ()"
| "validate_checksum (TreeStr s) =
     (if length s \<noteq> 64 then Inl ValueError
      else rbind (checksum_init (ArgStr s)) (\<lambda>_. Inr ()))"
| "validate_checksum (TreeList vs) = validate_checksum_list vs"
| "validate_checksum (TreeDict kvs) = validate_checksum_items kvs"
| "validate_checksum TreeOther = Inl TypeError"
| "validate_checksum_list [] = Inr ()"
| "validate_checksum_list (v # vs) = rbind (validate_checksum v) (\<lambda>_. validate_checksum_list vs)"
| "validate_checksum_items [] = Inr ()"
| "validate_checksum_items ((k, v) # kvs) =
     rbind (validate_checksum v) (\<lambda>_. validate_checksum_items kvs)"

section \<open>Null and the virtual values\<close>

definition null_line :: bytes where
  "null_line = ascii (''null'' @ nl)"

text \<open>\<open>NULL_BUFFER\<close> and \<open>NULL_CHECKSUM\<close>.\<close>

definition NULL_BUFFER :: bytes where
  "NULL_BUFFER = null_line"

definition NULL_CHECKSUM :: "(bytes \<Rightarrow> checksum) \<Rightarrow> ustr" where
  "NULL_CHECKSUM sha = hex (sha NULL_BUFFER)"

definition NULL_CHECKSUMS :: "(bytes \<Rightarrow> checksum) \<Rightarrow> ustr list" where
  "NULL_CHECKSUMS sha = map (\<lambda>b. hex (sha b)) [ascii ''null'', ascii (''null'' @ nl)]"

definition TRUE_CHECKSUMS :: "(bytes \<Rightarrow> checksum) \<Rightarrow> ustr list" where
  "TRUE_CHECKSUMS sha = map (\<lambda>b. hex (sha b)) [ascii ''true'', ascii (''true'' @ nl)]"

definition FALSE_CHECKSUMS :: "(bytes \<Rightarrow> checksum) \<Rightarrow> ustr list" where
  "FALSE_CHECKSUMS sha = map (\<lambda>b. hex (sha b)) [ascii ''false'', ascii (''false'' @ nl)]"

text \<open>The ASCII bytes of a hexadecimal string.\<close>

definition ascii_bytes :: "ustr \<Rightarrow> bytes" where
  "ascii_bytes t = map of_nat t"

fun is_null :: "(bytes \<Rightarrow> checksum) \<Rightarrow> ck_arg \<Rightarrow> bool" where
  "is_null sha (ArgBytes b) =
     (b \<in> {digest (sha NULL_BUFFER), ascii_bytes (NULL_CHECKSUM sha)})"
| "is_null sha ArgNone = False"
| "is_null sha a = (case checksum_init a of Inl _ \<Rightarrow> False | Inr c \<Rightarrow> hex c = NULL_CHECKSUM sha)"

definition ascii_decode :: "bytes \<Rightarrow> ustr option" where
  "ascii_decode bs = (if \<forall>b\<in>set bs. unat b < 128 then Some (map unat bs) else None)"

fun is_null_value :: "(bytes \<Rightarrow> checksum) \<Rightarrow> ck_arg \<Rightarrow> bool" where
  "is_null_value sha ArgNone = False"
| "is_null_value sha (ArgBytes b) =
     (if length b = 32 then hex_bytes b \<in> set (NULL_CHECKSUMS sha)
      else if length b = 64 then
        (case ascii_decode b of
           None \<Rightarrow> False
         | Some t \<Rightarrow> t \<in> set (NULL_CHECKSUMS sha))
      else False)"
| "is_null_value sha a =
     (case checksum_init a of Inl _ \<Rightarrow> False | Inr c \<Rightarrow> hex c \<in> set (NULL_CHECKSUMS sha))"

text \<open>Celltypes are strings in the code; \<open>CtOther\<close> stands for any string outside the
  seventeen the package knows.\<close>

datatype celltype =
    CtBinary | CtMixed | CtText | CtPython | CtIPython | CtPlain | CtYaml | CtStr | CtBytes
  | CtInt | CtFloat | CtBool | CtChecksum
  | CtDeepcell | CtDeepfolder | CtFolder | CtModule | CtOther string

definition canonicalize_checksum :: "(bytes \<Rightarrow> checksum) \<Rightarrow> ck_arg \<Rightarrow> celltype \<Rightarrow> ck_arg result" where
  "canonicalize_checksum sha a ct =
     (if a \<noteq> ArgNone \<and> ct = CtBytes then
        rbind (checksum_init a) (\<lambda>c.
          if hex c = hex (sha []) then
            rbind (checksum_init (ArgStr (NULL_CHECKSUM sha))) (\<lambda>n. Inr (ArgChecksum n))
          else Inr a)
      else Inr a)"

text \<open>On a Checksum object, which is how every caller in the package uses it.\<close>

definition canonical_checksum :: "(bytes \<Rightarrow> checksum) \<Rightarrow> checksum \<Rightarrow> celltype \<Rightarrow> checksum" where
  "canonical_checksum sha c ct =
     (case canonicalize_checksum sha (ArgChecksum c) ct of
        Inr (ArgChecksum d) \<Rightarrow> d
      | _ \<Rightarrow> c)"

text \<open>
  Values. \<open>'nd\<close> is the type of numpy arrays and scalars, which belong to numpy; floats
  are reals with the three non-finite values apart.
\<close>

datatype pyfloat = FFin real | FInf | FNegInf | FNaN

datatype 'nd pyval =
    VNone | VBool bool | VInt int | VFloat pyfloat | VStr ustr | VBytes bytes
  | VList "'nd pyval list" | VDict "(ustr \<times> 'nd pyval) list" | VArray 'nd | VChecksum checksum

text \<open>\<open>Option.None\<close> is \<open>NOT_VIRTUAL\<close>.\<close>

fun checksum_hex :: "ck_arg \<Rightarrow> ustr result" where
  "checksum_hex (ArgBytes b) =
     (if length b = 64 then
        (case ascii_decode b of
           None \<Rightarrow> Inl UnicodeDecodeError
         | Some t \<Rightarrow> rbind (checksum_init (ArgStr t)) (\<lambda>c. Inr (hex c)))
      else rbind (checksum_init (ArgBytes b)) (\<lambda>c. Inr (hex c)))"
| "checksum_hex a = rbind (checksum_init a) (\<lambda>c. Inr (hex c))"

definition virtual_value_hex ::
  "(bytes \<Rightarrow> checksum) \<Rightarrow> ustr \<Rightarrow> celltype \<Rightarrow> 'nd pyval option result" where
  "virtual_value_hex sha h ct =
     (if h \<in> set (NULL_CHECKSUMS sha) then
        Inr (Some (if ct = CtBytes then VBytes [] else VNone))
      else if h \<notin> set (TRUE_CHECKSUMS sha) \<and> h \<notin> set (FALSE_CHECKSUMS sha) then
        (if ct = CtBool then Inl ValueError else Inr None)
      else
        let value = h \<in> set (TRUE_CHECKSUMS sha) in
        if ct \<in> {CtBool, CtPlain, CtMixed} then Inr (Some (VBool value))
        else if ct = CtStr then Inr (Some (VStr (u (if value then ''True'' else ''False''))))
        else if ct \<in> {CtInt, CtFloat} then Inl ValueError
        else Inr None)"

definition virtual_value ::
  "(bytes \<Rightarrow> checksum) \<Rightarrow> ck_arg \<Rightarrow> celltype \<Rightarrow> 'nd pyval option result" where
  "virtual_value sha a ct = rbind (checksum_hex a) (\<lambda>h. virtual_value_hex sha h ct)"

abbreviation virtual :: "(bytes \<Rightarrow> checksum) \<Rightarrow> checksum \<Rightarrow> celltype \<Rightarrow> 'nd pyval option result" where
  "virtual sha c ct \<equiv> virtual_value sha (ArgChecksum c) ct"

section \<open>Facts\<close>

lemma hex_inject [simp]: "hex a = hex b \<longleftrightarrow> a = b"
  by (cases a; cases b) (simp add: hex_def)

lemma checksum_init_wf: "checksum_init a = Inr c \<Longrightarrow> (\<forall>d. a \<noteq> ArgChecksum d) \<Longrightarrow> checksum_wf c"
  by (cases a) (auto simp: checksum_wf_def split: option.splits if_splits)

lemma checksum_init_hex: "checksum_wf c \<Longrightarrow> checksum_init (ArgStr (hex c)) = Inr c"
  by (simp add: checksum_wf_def hex_def fromhex_hex_bytes)

lemma length_hex: "checksum_wf c \<Longrightarrow> length (hex c) = 64"
  by (simp add: checksum_wf_def hex_def)

lemma hex_digit_less: "m < 16 \<Longrightarrow> n < 16 \<Longrightarrow> hex_digit m < hex_digit n \<longleftrightarrow> m < n"
  by (auto simp: hex_digit_def)

lemma hex_digit_eq: "m < 16 \<Longrightarrow> n < 16 \<Longrightarrow> hex_digit m = hex_digit n \<longleftrightarrow> m = n"
  by (auto simp: hex_digit_def)

lemma nat_split_less:
  "(m :: nat) < n \<longleftrightarrow> m div 16 < n div 16 \<or> (m div 16 = n div 16 \<and> m mod 16 < n mod 16)"
proof -
  define a b c d where "a = m div 16" and "b = m mod 16" and "c = n div 16" and "d = n mod 16"
  have "m = 16 * a + b" "n = 16 * c + d" "b < 16" "d < 16"
    by (simp_all add: a_def b_def c_def d_def)
  then have "m < n \<longleftrightarrow> a < c \<or> (a = c \<and> b < d)" by auto
  then show ?thesis by (simp add: a_def b_def c_def d_def)
qed

lemma byte_split_less:
  "(a :: byte) < b \<longleftrightarrow>
     unat a div 16 < unat b div 16 \<or> (unat a div 16 = unat b div 16 \<and> unat a mod 16 < unat b mod 16)"
  unfolding word_less_nat_alt by (rule nat_split_less)

lemma byte_split_eq:
  "(a :: byte) = b \<longleftrightarrow> unat a div 16 = unat b div 16 \<and> unat a mod 16 = unat b mod 16"
  by (metis div_mult_mod_eq word_unat_eq_iff)

lemma hex_bytes_less: "hex_bytes a < hex_bytes b \<longleftrightarrow> a < b"
proof (induction a arbitrary: b)
  case Nil
  then show ?case by (cases b) simp_all
next
  case (Cons x xs)
  show ?case
  proof (cases b)
    case Nil
    then show ?thesis by simp
  next
    case (Cons y ys)
    have "hex_digit (unat x div 16) < hex_digit (unat y div 16) \<longleftrightarrow> unat x div 16 < unat y div 16"
      "hex_digit (unat x mod 16) < hex_digit (unat y mod 16) \<longleftrightarrow> unat x mod 16 < unat y mod 16"
      "hex_digit (unat x div 16) = hex_digit (unat y div 16) \<longleftrightarrow> unat x div 16 = unat y div 16"
      "hex_digit (unat x mod 16) = hex_digit (unat y mod 16) \<longleftrightarrow> unat x mod 16 = unat y mod 16"
      using byte_div_less by (auto simp: hex_digit_less hex_digit_eq)
    then show ?thesis
      by (auto simp: Cons Cons.IH byte_split_less [of x y] byte_split_eq [of x y])
  qed
qed

lemma canonical_checksum_eq:
  assumes "checksum_wf (sha NULL_BUFFER)"
  shows "canonical_checksum sha c ct =
    (if ct = CtBytes \<and> c = sha [] then sha NULL_BUFFER else c)"
  using checksum_init_hex [OF assms]
  by (auto simp: canonical_checksum_def canonicalize_checksum_def NULL_CHECKSUM_def)

lemma virtual_eq: "virtual sha c ct = virtual_value_hex sha (hex c) ct"
  by (simp add: virtual_value_def)

definition null_checksum :: "(bytes \<Rightarrow> checksum) \<Rightarrow> checksum \<Rightarrow> bool" where
  "null_checksum sha c \<longleftrightarrow> c = sha (ascii ''null'') \<or> c = sha (ascii (''null'' @ nl))"

definition true_checksum :: "(bytes \<Rightarrow> checksum) \<Rightarrow> checksum \<Rightarrow> bool" where
  "true_checksum sha c \<longleftrightarrow> c = sha (ascii ''true'') \<or> c = sha (ascii (''true'' @ nl))"

definition false_checksum :: "(bytes \<Rightarrow> checksum) \<Rightarrow> checksum \<Rightarrow> bool" where
  "false_checksum sha c \<longleftrightarrow> c = sha (ascii ''false'') \<or> c = sha (ascii (''false'' @ nl))"

lemma in_NULL_CHECKSUMS [simp]: "hex c \<in> set (NULL_CHECKSUMS sha) \<longleftrightarrow> null_checksum sha c"
  by (auto simp: NULL_CHECKSUMS_def null_checksum_def)

lemma in_TRUE_CHECKSUMS [simp]: "hex c \<in> set (TRUE_CHECKSUMS sha) \<longleftrightarrow> true_checksum sha c"
  by (auto simp: TRUE_CHECKSUMS_def true_checksum_def)

lemma in_FALSE_CHECKSUMS [simp]: "hex c \<in> set (FALSE_CHECKSUMS sha) \<longleftrightarrow> false_checksum sha c"
  by (auto simp: FALSE_CHECKSUMS_def false_checksum_def)

lemma is_null_value_checksum [simp]:
  "is_null_value sha (ArgChecksum c) \<longleftrightarrow> null_checksum sha c"
  by simp

lemma is_null_checksum [simp]: "is_null sha (ArgChecksum c) \<longleftrightarrow> c = sha NULL_BUFFER"
  by (simp add: NULL_CHECKSUM_def)

lemma is_null_imp_null_value: "is_null sha (ArgChecksum c) \<Longrightarrow> is_null_value sha (ArgChecksum c)"
  unfolding is_null_checksum is_null_value_checksum
  by (simp add: null_checksum_def NULL_BUFFER_def null_line_def)

text \<open>\<open>sha\<close> keeps the six constant buffers apart: what every virtual-value argument uses.\<close>

definition constants_distinct :: "(bytes \<Rightarrow> checksum) \<Rightarrow> bool" where
  "constants_distinct sha \<longleftrightarrow>
     distinct (map sha [ascii ''null'', ascii (''null'' @ nl), ascii ''true'', ascii (''true'' @ nl),
       ascii ''false'', ascii (''false'' @ nl), []])"

lemma constants_distinct_kinds:
  "constants_distinct sha \<Longrightarrow>
     \<not> (null_checksum sha c \<and> true_checksum sha c) \<and>
     \<not> (null_checksum sha c \<and> false_checksum sha c) \<and>
     \<not> (true_checksum sha c \<and> false_checksum sha c)"
  by (auto simp: constants_distinct_def null_checksum_def true_checksum_def false_checksum_def)

text \<open>A concrete digest function for the witnesses: the first 32 bytes, padded.\<close>

definition pad_sha :: "bytes \<Rightarrow> checksum" where
  "pad_sha b = Checksum (take 32 (b @ replicate 32 0))"

lemma pad_sha_wf [simp]: "checksum_wf (pad_sha b)"
  by (simp add: pad_sha_def checksum_wf_def)

lemma pad_sha_constants: "constants_distinct pad_sha"
  by code_simp

end
