(* ===== verification/Conversions.thy ===== *)
theory Conversions
  imports Checksums
begin

text \<open>
  \<open>seamless/checksum/celltypes.py\<close> and \<open>seamless/checksum/conversion.py\<close>: the
  celltypes, the tables that classify every conversion between two of them, and the
  import-time check of those tables. Sets and dictionaries are lists in source order.
\<close>

section \<open>Celltypes\<close>

fun celltype_name :: "celltype \<Rightarrow> string" where
  "celltype_name CtBinary = ''binary''"
| "celltype_name CtMixed = ''mixed''"
| "celltype_name CtText = ''text''"
| "celltype_name CtPython = ''python''"
| "celltype_name CtIPython = ''ipython''"
| "celltype_name CtPlain = ''plain''"
| "celltype_name CtYaml = ''yaml''"
| "celltype_name CtStr = ''str''"
| "celltype_name CtBytes = ''bytes''"
| "celltype_name CtInt = ''int''"
| "celltype_name CtFloat = ''float''"
| "celltype_name CtBool = ''bool''"
| "celltype_name CtChecksum = ''checksum''"
| "celltype_name CtDeepcell = ''deepcell''"
| "celltype_name CtDeepfolder = ''deepfolder''"
| "celltype_name CtFolder = ''folder''"
| "celltype_name CtModule = ''module''"
| "celltype_name (CtOther s) = s"

definition celltypes :: "celltype list" where
  "celltypes = [CtBinary, CtMixed, CtText, CtPython, CtIPython, CtPlain, CtYaml, CtStr, CtBytes,
     CtInt, CtFloat, CtBool, CtChecksum]"

definition text_types :: "celltype list" where
  "text_types = [CtText, CtPython, CtIPython, CtYaml, CtStr, CtInt, CtFloat, CtBool]"

definition text_types2 :: "celltype list" where
  "text_types2 = [CtText, CtPython, CtIPython, CtYaml]"

section \<open>The conversion tables\<close>

type_synonym conv = "celltype \<times> celltype"

definition conversion_trivial :: "(celltype \<times> celltype) list" where
  "conversion_trivial = [
      (CtText, CtBytes), (CtIPython, CtText), (CtPython, CtText), (CtPython, CtIPython),
      (CtYaml, CtText), (CtPlain, CtYaml), (CtPlain, CtBytes), (CtBinary, CtMixed),
      (CtPlain, CtMixed), (CtStr, CtPlain), (CtInt, CtPlain), (CtFloat, CtPlain),
      (CtBool, CtPlain), (CtInt, CtFloat), (CtFloat, CtInt), (CtInt, CtStr), (CtFloat, CtStr),
      (CtBool, CtStr)]"

text \<open>The loop that adds every reverse of a trivial conversion which is not itself trivial, and
  the two pairs taken out again.\<close>

definition conversion_reinterpret :: "conv list" where
  "conversion_reinterpret =
     filter (\<lambda>c. c \<notin> set [(CtIPython, CtPython), (CtYaml, CtPlain)])
       (filter (\<lambda>c. c \<notin> set conversion_trivial) (map prod.swap conversion_trivial))"

definition conversion_reformat :: "(celltype \<times> celltype) list" where
  "conversion_reformat = [
      (CtBytes, CtBinary), (CtBytes, CtMixed), (CtBinary, CtBytes), (CtMixed, CtBytes),
      (CtPlain, CtText), (CtText, CtPlain), (CtText, CtStr), (CtStr, CtText), (CtYaml, CtPlain),
      (CtIPython, CtPython)]"

definition conversion_possible :: "(celltype \<times> celltype) list" where
  "conversion_possible = [
      (CtBinary, CtInt), (CtBinary, CtFloat), (CtBinary, CtBool), (CtMixed, CtStr),
      (CtMixed, CtInt), (CtMixed, CtFloat), (CtMixed, CtBool)]"

definition conversion_equivalent :: "((celltype \<times> celltype) \<times> (celltype \<times> celltype)) list" where
  "conversion_equivalent = [
      ((CtYaml, CtStr), (CtText, CtStr)), ((CtText, CtMixed), (CtText, CtStr)),
      ((CtYaml, CtMixed), (CtText, CtStr)), ((CtPython, CtStr), (CtText, CtStr)),
      ((CtIPython, CtStr), (CtText, CtStr)), ((CtPython, CtMixed), (CtText, CtStr)),
      ((CtIPython, CtMixed), (CtText, CtStr)), ((CtPython, CtPlain), (CtText, CtStr)),
      ((CtIPython, CtPlain), (CtText, CtStr)), ((CtStr, CtYaml), (CtStr, CtText)),
      ((CtStr, CtPython), (CtStr, CtText)), ((CtStr, CtIPython), (CtStr, CtText)),
      ((CtPython, CtBytes), (CtPython, CtText)), ((CtIPython, CtBytes), (CtIPython, CtText)),
      ((CtStr, CtMixed), (CtStr, CtPlain)), ((CtInt, CtMixed), (CtInt, CtPlain)),
      ((CtFloat, CtMixed), (CtFloat, CtPlain)), ((CtBool, CtMixed), (CtBool, CtPlain)),
      ((CtStr, CtBinary), (CtPlain, CtBinary)), ((CtFloat, CtBinary), (CtPlain, CtBinary)),
      ((CtInt, CtBinary), (CtPlain, CtBinary)), ((CtBool, CtBinary), (CtPlain, CtBinary)),
      ((CtPython, CtBinary), (CtText, CtBinary)), ((CtIPython, CtBinary), (CtText, CtBinary)),
      ((CtYaml, CtBytes), (CtText, CtBytes)), ((CtStr, CtBytes), (CtPlain, CtBytes)),
      ((CtInt, CtBytes), (CtPlain, CtBytes)), ((CtFloat, CtBytes), (CtPlain, CtBytes)),
      ((CtBool, CtBytes), (CtPlain, CtBytes)), ((CtInt, CtText), (CtPlain, CtText)),
      ((CtFloat, CtText), (CtPlain, CtText)), ((CtBool, CtText), (CtPlain, CtText))]"

definition conversion_chain :: "((celltype \<times> celltype) \<times> celltype) list" where
  "conversion_chain = [
      ((CtMixed, CtText), CtPlain), ((CtMixed, CtYaml), CtText), ((CtMixed, CtIPython), CtText),
      ((CtMixed, CtPython), CtText), ((CtBinary, CtText), CtPlain), ((CtBinary, CtYaml), CtText),
      ((CtBinary, CtIPython), CtText), ((CtBinary, CtPython), CtText),
      ((CtBytes, CtStr), CtPlain), ((CtBytes, CtFloat), CtPlain), ((CtBytes, CtInt), CtPlain),
      ((CtBytes, CtBool), CtPlain), ((CtBytes, CtYaml), CtText), ((CtBytes, CtIPython), CtText),
      ((CtBytes, CtPython), CtText), ((CtBinary, CtStr), CtBytes), ((CtPlain, CtPython), CtText),
      ((CtPlain, CtIPython), CtText), ((CtText, CtBinary), CtMixed), ((CtText, CtFloat), CtPlain),
      ((CtText, CtInt), CtPlain), ((CtText, CtBool), CtPlain), ((CtYaml, CtBinary), CtPlain),
      ((CtYaml, CtInt), CtPlain), ((CtYaml, CtFloat), CtPlain), ((CtYaml, CtBool), CtPlain),
      ((CtInt, CtYaml), CtPlain), ((CtFloat, CtYaml), CtPlain), ((CtBool, CtYaml), CtPlain)]"

definition conversion_values :: "(celltype \<times> celltype) list" where
  "conversion_values = [
      (CtBinary, CtPlain), (CtPlain, CtBinary), (CtBool, CtInt), (CtInt, CtBool),
      (CtFloat, CtBool), (CtBool, CtFloat), (CtChecksum, CtBytes), (CtChecksum, CtMixed),
      (CtChecksum, CtBinary), (CtChecksum, CtPlain), (CtChecksum, CtStr), (CtChecksum, CtInt),
      (CtChecksum, CtFloat), (CtChecksum, CtBool), (CtChecksum, CtText), (CtChecksum, CtYaml),
      (CtChecksum, CtPython), (CtChecksum, CtIPython), (CtBytes, CtChecksum),
      (CtMixed, CtChecksum), (CtBinary, CtChecksum), (CtPlain, CtChecksum), (CtStr, CtChecksum),
      (CtInt, CtChecksum), (CtFloat, CtChecksum), (CtBool, CtChecksum), (CtText, CtChecksum),
      (CtYaml, CtChecksum), (CtPython, CtChecksum), (CtIPython, CtChecksum)]"

definition conversion_forbidden :: "(celltype \<times> celltype) list" where
  "conversion_forbidden = [
      (CtPython, CtYaml), (CtPython, CtInt), (CtPython, CtFloat), (CtPython, CtBool),
      (CtIPython, CtYaml), (CtIPython, CtInt), (CtIPython, CtFloat), (CtIPython, CtBool),
      (CtYaml, CtPython), (CtYaml, CtIPython), (CtInt, CtPython), (CtInt, CtIPython),
      (CtFloat, CtPython), (CtFloat, CtIPython), (CtBool, CtPython), (CtBool, CtIPython)]"

definition conversion_equivalent_get :: "conv \<Rightarrow> conv" where
  "conversion_equivalent_get c = dget_or c conversion_equivalent c"

section \<open>check\_conversions\<close>

definition categories :: "conv list list" where
  "categories = [conversion_trivial, conversion_reformat, conversion_reinterpret,
     conversion_possible, dkeys conversion_equivalent, dkeys conversion_chain,
     conversion_values, conversion_forbidden]"

definition covered :: "conv list list \<Rightarrow> conv \<Rightarrow> nat" where
  "covered cats c = length (filter (\<lambda>cat. c \<in> set cat) cats)"

definition classified :: "conv list list \<Rightarrow> conv set" where
  "classified cats = \<Union> (set ` set cats)"

lemma finite_classified [simp]: "finite (classified cats)"
  by (simp add: classified_def)

lemma covered_pos_iff: "0 < covered cats c \<longleftrightarrow> c \<in> classified cats"
  by (auto simp: covered_def classified_def filter_empty_conv)

definition check_measure :: "conv list list \<Rightarrow> conv list \<Rightarrow> conv \<Rightarrow> nat" where
  "check_measure cats done c =
     card (classified cats - set done) + (if c \<in> classified cats then 1 else 0)"

lemma check_measure_decreases:
  assumes "covered cats c \<noteq> 0" and "c' \<notin> set done"
  shows "check_measure cats (done @ [c']) c' < check_measure cats done c"
proof -
  have c: "c \<in> classified cats" using assms(1) covered_pos_iff by auto
  show ?thesis
  proof (cases "c' \<in> classified cats")
    case True
    with assms(2) have "card (classified cats - set done - {c'}) < card (classified cats - set done)"
      by (intro card_Diff1_less) auto
    moreover have "classified cats - set (done @ [c']) = classified cats - set done - {c'}" by auto
    ultimately show ?thesis using c True by (simp add: check_measure_def)
  next
    case False
    then have "classified cats - set (done @ [c']) = classified cats - set done" by auto
    with c False show ?thesis by (simp add: check_measure_def)
  qed
qed

text \<open>
  The \<open>while 1\<close> loop of one pair, on the tables \<open>eqv\<close> and \<open>chn\<close> and the
  categories \<open>cats\<close>. It stops because \<open>done\<close> only grows, with classified pairs.
\<close>

function check_pair ::
  "conv list list \<Rightarrow> (conv \<times> conv) list \<Rightarrow> (conv \<times> celltype) list \<Rightarrow> conv list \<Rightarrow> conv \<Rightarrow> unit result"
where
  "check_pair cats eqv chn done c =
     (if covered cats c = 0 then Inl SeamlessConversionError
      else if covered cats c > 1 then Inl SeamlessConversionError
      else if dget eqv c = None \<and> dget chn c = None then Inr ()
      else if dget eqv c \<noteq> None \<and> dget chn c \<noteq> None then Inl SeamlessConversionError
      else
        let c' = (case dget eqv c of
                    Some e \<Rightarrow> e
                  | None \<Rightarrow> (the (dget chn c), snd c))
        in if c' \<in> set done then Inl SeamlessConversionError
           else check_pair cats eqv chn (done @ [c']) c')"
  by pat_completeness auto

termination
  by (relation "measure (\<lambda>(cats, eqv, chn, done, c). check_measure cats done c)")
     (auto intro: check_measure_decreases)

declare check_pair.simps [simp del]

definition check_pair_list ::
  "conv list list \<Rightarrow> (conv \<times> conv) list \<Rightarrow> (conv \<times> celltype) list \<Rightarrow> conv list \<Rightarrow> unit result" where
  "check_pair_list cats eqv chn cs =
     fold (\<lambda>c r. rbind r (\<lambda>_. check_pair cats eqv chn [c] c)) cs (Inr ())"

definition distinct_pairs :: "celltype list \<Rightarrow> conv list" where
  "distinct_pairs cts = [(a, b). a \<leftarrow> cts, b \<leftarrow> cts, a \<noteq> b]"

definition check_conversions :: "unit result" where
  "check_conversions =
     check_pair_list categories conversion_equivalent conversion_chain (distinct_pairs celltypes)"

section \<open>How a pair resolves to elementary rules\<close>

text \<open>
  \<open>convert.py\<close>'s \<open>_convert\<close> follows the two indirection tables: an equivalent pair
  replaces the pair, a chain splits it at the intermediate celltype. \<open>conv_rank\<close> is the
  depth of that recursion; nothing in \<open>check_conversions\<close> bounds it on the first half of
  a chain, so the tables are evaluated here.
\<close>

fun conv_depth :: "nat \<Rightarrow> conv \<Rightarrow> nat" where
  "conv_depth 0 c = 0"
| "conv_depth (Suc n) (a, c) =
     (if a = c then 0
      else case dget conversion_equivalent (a, c) of
        Some e \<Rightarrow> Suc (conv_depth n e)
      | None \<Rightarrow>
          (case dget conversion_chain (a, c) of
             Some b \<Rightarrow> Suc (max (conv_depth n (a, b)) (conv_depth n (b, c)))
           | None \<Rightarrow> 0))"

definition conv_rank :: "conv \<Rightarrow> nat" where
  "conv_rank c = conv_depth 6 c"

lemma rank_equivalent_table:
  "list_all (\<lambda>(c, e). conv_rank e < conv_rank c) conversion_equivalent"
  by code_simp

lemma rank_chain_table:
  "list_all (\<lambda>((a, c), b). conv_rank (a, b) < conv_rank (a, c) \<and> conv_rank (b, c) < conv_rank (a, c))
     conversion_chain"
  by code_simp

lemma rank_equivalent: "dget conversion_equivalent c = Some e \<Longrightarrow> conv_rank e < conv_rank c"
  using rank_equivalent_table by (auto simp: list_all_iff dest!: map_of_SomeD)

lemma rank_chain:
  assumes "dget conversion_chain (a, c) = Some b"
  shows "conv_rank (a, b) < conv_rank (a, c)" and "conv_rank (b, c) < conv_rank (a, c)"
  using rank_chain_table map_of_SomeD [OF assms] by (auto simp: list_all_iff)

function conv_rules :: "conv \<Rightarrow> conv list" where
  "conv_rules (a, c) =
     (if a = c then []
      else case dget conversion_equivalent (a, c) of
        Some e \<Rightarrow> conv_rules e
      | None \<Rightarrow>
          (case dget conversion_chain (a, c) of
             Some b \<Rightarrow> conv_rules (a, b) @ conv_rules (b, c)
           | None \<Rightarrow> [(a, c)]))"
  by pat_completeness auto
termination
  by (relation "measure conv_rank") (auto dest: rank_equivalent rank_chain)

declare conv_rules.simps [simp del]

definition elementary :: "conv list" where
  "elementary = conversion_trivial @ conversion_reinterpret @ conversion_reformat @
     conversion_possible @ conversion_values @ conversion_forbidden"

text \<open>A pair that reaches a forbidden rule at any depth.\<close>

definition conv_forbidden_deep :: "conv \<Rightarrow> bool" where
  "conv_forbidden_deep c \<longleftrightarrow> (\<exists>r\<in>set (conv_rules c). r \<in> set conversion_forbidden)"

section \<open>What the check establishes\<close>

text \<open>One turn of the loop: where a pair is sent by the two indirection tables.\<close>

inductive redirects :: "(conv \<times> conv) list \<Rightarrow> (conv \<times> celltype) list \<Rightarrow> conv \<Rightarrow> conv \<Rightarrow> bool"
  for eqv :: "(conv \<times> conv) list" and chn :: "(conv \<times> celltype) list" where
  by_equivalent: "dget eqv c = Some e \<Longrightarrow> redirects eqv chn c e"
| by_chain: "dget eqv c = None \<Longrightarrow> dget chn c = Some b \<Longrightarrow> redirects eqv chn c (b, snd c)"

inductive_cases redirectsE: "redirects eqv chn c d"

definition terminal :: "(conv \<times> conv) list \<Rightarrow> (conv \<times> celltype) list \<Rightarrow> conv \<Rightarrow> bool" where
  "terminal eqv chn c \<longleftrightarrow> dget eqv c = None \<and> dget chn c = None"

lemma terminal_no_redirect: "terminal eqv chn c \<Longrightarrow> \<not> redirects eqv chn c d"
  by (auto simp: terminal_def elim: redirectsE)

lemma redirects_det: "redirects eqv chn c d \<Longrightarrow> redirects eqv chn c e \<Longrightarrow> d = e"
  by (auto elim!: redirectsE)

definition walk_ok :: "conv list list \<Rightarrow> (conv \<times> conv) list \<Rightarrow> (conv \<times> celltype) list \<Rightarrow> conv \<Rightarrow> bool" where
  "walk_ok cats eqv chn c \<longleftrightarrow>
     (\<exists>t. (redirects eqv chn)\<^sup>*\<^sup>* c t \<and> terminal eqv chn t) \<and>
     (\<forall>d. (redirects eqv chn)\<^sup>*\<^sup>* c d \<longrightarrow> covered cats d = 1)"

lemma walk_ok_terminal: "terminal eqv chn c \<Longrightarrow> covered cats c = 1 \<Longrightarrow> walk_ok cats eqv chn c"
  unfolding walk_ok_def
  by (metis converse_rtranclpE rtranclp.rtrancl_refl terminal_no_redirect)

lemma walk_ok_step:
  assumes r: "redirects eqv chn c d" and c: "covered cats c = 1" and d: "walk_ok cats eqv chn d"
  shows "walk_ok cats eqv chn c"
  unfolding walk_ok_def
proof (intro conjI allI impI)
  from d obtain t where "(redirects eqv chn)\<^sup>*\<^sup>* d t" "terminal eqv chn t"
    unfolding walk_ok_def by blast
  with r show "\<exists>t. (redirects eqv chn)\<^sup>*\<^sup>* c t \<and> terminal eqv chn t"
    by (meson converse_rtranclp_into_rtranclp)
next
  fix e assume "(redirects eqv chn)\<^sup>*\<^sup>* c e"
  then show "covered cats e = 1"
  proof (cases rule: converse_rtranclpE)
    case base
    with c show ?thesis by simp
  next
    case (step y)
    with r have "y = d" using redirects_det by metis
    with step d show ?thesis unfolding walk_ok_def by blast
  qed
qed

lemma check_pair_walk: "check_pair cats eqv chn done c = Inr () \<Longrightarrow> walk_ok cats eqv chn c"
proof (induction cats eqv chn "done" c rule: check_pair.induct)
  case (1 cats eqv chn "done" c)
  have cov: "covered cats c = 1"
    using "1.prems" by (subst (asm) check_pair.simps) (auto split: if_splits)
  define c' where "c' = (case dget eqv c of Some e \<Rightarrow> e | None \<Rightarrow> (the (dget chn c), snd c))"
  show ?case
  proof (cases "terminal eqv chn c")
    case True
    with cov show ?thesis by (simp add: walk_ok_terminal)
  next
    case False
    then have nt: "\<not> (dget eqv c = None \<and> dget chn c = None)" by (simp add: terminal_def)
    with cov "1.prems" have nb: "\<not> (dget eqv c \<noteq> None \<and> dget chn c \<noteq> None)"
      and nd: "c' \<notin> set done" and rec: "check_pair cats eqv chn (done @ [c']) c' = Inr ()"
      by (subst (asm) (1) check_pair.simps, force simp: c'_def Let_def split: if_splits)+
    have "walk_ok cats eqv chn c'"
      using "1.IH" [OF _ _ nt nb c'_def nd rec] cov by simp
    moreover have "redirects eqv chn c c'"
      using nt by (auto simp: c'_def split: option.splits intro: redirects.intros)
    ultimately show ?thesis using cov walk_ok_step by blast
  qed
qed

lemma check_list_error: "fold (\<lambda>c r. rbind r (\<lambda>_. f c)) cs (Inl e) = Inl e"
  by (induction cs) auto

lemma check_pair_list_all:
  "check_pair_list cats eqv chn cs = Inr () \<longleftrightarrow> (\<forall>c\<in>set cs. check_pair cats eqv chn [c] c = Inr ())"
proof (induction cs)
  case Nil
  then show ?case by (simp add: check_pair_list_def)
next
  case (Cons c cs)
  show ?case
  proof (cases "check_pair cats eqv chn [c] c")
    case (Inl e)
    then show ?thesis by (simp add: check_pair_list_def check_list_error)
  next
    case (Inr x)
    with Cons show ?thesis by (simp add: check_pair_list_def)
  qed
qed

lemma check_conversions_returns: "check_conversions = Inr ()"
  by code_simp

text \<open>The import-time check is sound. For any tables, when the loop over a list of
  celltype pairs returns, every pair of the list is in exactly one category, and so is
  every pair it is redirected to, and the redirections reach a pair that neither table
  redirects any further (there is no circular equivalence).\<close>

theorem check_conversions_sound:
  assumes "check_pair_list cats eqv chn cs = Inr ()" and "c \<in> set cs"
  shows "(\<exists>t. (redirects eqv chn)\<^sup>*\<^sup>* c t \<and> terminal eqv chn t) \<and>
     (\<forall>d. (redirects eqv chn)\<^sup>*\<^sup>* c d \<longrightarrow> covered cats d = 1)"
  using assms check_pair_walk unfolding check_pair_list_all walk_ok_def by blast

theorem check_conversions_sound_witness:
  "check_conversions = Inr () \<and>
   (\<exists>t. (redirects conversion_equivalent conversion_chain)\<^sup>*\<^sup>* (CtPython, CtBinary) t \<and>
      terminal conversion_equivalent conversion_chain t) \<and>
   covered categories (CtPython, CtBinary) = 1"
proof -
  have m: "(CtPython, CtBinary) \<in> set (distinct_pairs celltypes)" by code_simp
  show ?thesis
    using check_conversions_sound
      [OF check_conversions_returns [unfolded check_conversions_def] m] check_conversions_returns
    by blast
qed

text \<open>The tables of the package pass their own check, and resolving a pair as the
  conversion engine does (equivalences replaced, both halves of a chain followed, which the
  check itself does not do) ends, for each of the 156 pairs of different celltypes, in a
  non-empty sequence of at most three elementary rules, each in exactly one of the six
  elementary tables; a forbidden rule is reached only by the pairs the table forbids.\<close>

theorem conversion_tables_resolve:
  "check_conversions = Inr () \<and> length (distinct_pairs celltypes) = 156 \<and>
   list_all
     (\<lambda>c. conv_rules c \<noteq> [] \<and> length (conv_rules c) \<le> 3 \<and>
        list_all (\<lambda>r. count_list elementary r = 1) (conv_rules c) \<and>
        (conv_forbidden_deep c \<longleftrightarrow> c \<in> set conversion_forbidden))
     (distinct_pairs celltypes)"
  by code_simp

end
