(* ===== verification/HashTypes.thy ===== *)
theory HashTypes
  imports Conversions
begin

text \<open>
  \<open>seamless/checksum/hash_type.py\<close>: the packed 13-bit HashType word, the classifier
  that computes it from a buffer, the process-wide cache that only ever tightens, and the
  three-valued questions the rest of the package asks of it. orjson, json, numpy and
  \<open>float(str)\<close> are the fields of the record \<open>lib\<close>.
\<close>

unbundle bit_operations_syntax

section \<open>Fields\<close>

datatype kind =
    RAW_BYTES | NUMPY | MIXED_OBJECT | MIXED_ARRAY | RAW_TEXT | JSON_OBJECT | JSON_ARRAY
  | JSON_STRING | JSON_NUMBER | UNTESTED | UTF8_UNTESTED | JSON_UNTESTED | JSON_NULL

datatype len_bucket = SHORT | EQ64 | MEDIUM | LONG

datatype dtype = NA | NUMERIC | NONNUMERIC | STRUCTURED

datatype rank = SCALAR | D1 | D2 | D3PLUS

definition kinds :: "kind list" where
  "kinds = [RAW_BYTES, NUMPY, MIXED_OBJECT, MIXED_ARRAY, RAW_TEXT, JSON_OBJECT, JSON_ARRAY,
     JSON_STRING, JSON_NUMBER, UNTESTED, UTF8_UNTESTED, JSON_UNTESTED, JSON_NULL]"

fun kind_val :: "kind \<Rightarrow> int" where
  "kind_val RAW_BYTES = 0" | "kind_val NUMPY = 1" | "kind_val MIXED_OBJECT = 2"
| "kind_val MIXED_ARRAY = 3" | "kind_val RAW_TEXT = 4" | "kind_val JSON_OBJECT = 5"
| "kind_val JSON_ARRAY = 6" | "kind_val JSON_STRING = 7" | "kind_val JSON_NUMBER = 8"
| "kind_val UNTESTED = 9" | "kind_val UTF8_UNTESTED = 10" | "kind_val JSON_UNTESTED = 11"
| "kind_val JSON_NULL = 12"

fun length_val :: "len_bucket \<Rightarrow> int" where
  "length_val SHORT = 0" | "length_val EQ64 = 1" | "length_val MEDIUM = 2" | "length_val LONG = 3"

fun dtype_val :: "dtype \<Rightarrow> int" where
  "dtype_val NA = 0" | "dtype_val NUMERIC = 1" | "dtype_val NONNUMERIC = 2"
| "dtype_val STRUCTURED = 3"

fun rank_val :: "rank \<Rightarrow> int" where
  "rank_val SCALAR = 0" | "rank_val D1 = 1" | "rank_val D2 = 2" | "rank_val D3PLUS = 3"

text \<open>The enum constructors \<open>Kind(n)\<close>, \<open>Length(n)\<close>, \dots raise on an unknown value.\<close>

definition enum_of :: "('a \<Rightarrow> int) \<Rightarrow> 'a list \<Rightarrow> int \<Rightarrow> 'a result" where
  "enum_of val xs n = (case filter (\<lambda>x. val x = n) xs of [] \<Rightarrow> Inl ValueError | x # _ \<Rightarrow> Inr x)"

definition kind_of :: "int \<Rightarrow> kind result" where
  "kind_of = enum_of kind_val kinds"

definition length_of :: "int \<Rightarrow> len_bucket result" where
  "length_of = enum_of length_val [SHORT, EQ64, MEDIUM, LONG]"

definition dtype_of :: "int \<Rightarrow> dtype result" where
  "dtype_of = enum_of dtype_val [NA, NUMERIC, NONNUMERIC, STRUCTURED]"

definition rank_of :: "int \<Rightarrow> rank result" where
  "rank_of = enum_of rank_val [SCALAR, D1, D2, D3PLUS]"

text \<open>\<open>Flag\<close> is an \<open>IntFlag\<close>: an integer, tested bit by bit.\<close>

type_synonym flags = int

definition NUMERIC_SCALAR :: flags where "NUMERIC_SCALAR = 1"
definition NUMPY_BYTES :: flags where "NUMPY_BYTES = 2"
definition SEMANTIC :: flags where "SEMANTIC = 4"

definition has_flag :: "flags \<Rightarrow> flags \<Rightarrow> bool" where
  "has_flag fs f \<longleftrightarrow> fs AND f \<noteq> 0"

record hash_type =
  ht_kind :: kind
  ht_length :: len_bucket
  ht_dtype :: dtype
  ht_rank :: rank
  ht_flags :: flags

abbreviation HT :: "kind \<Rightarrow> len_bucket \<Rightarrow> dtype \<Rightarrow> rank \<Rightarrow> flags \<Rightarrow> hash_type" where
  "HT k l d r f \<equiv> \<lparr>ht_kind = k, ht_length = l, ht_dtype = d, ht_rank = r, ht_flags = f\<rparr>"

text \<open>The dataclass defaults: \<open>dtype = NA\<close>, \<open>rank = SCALAR\<close>, no flags.\<close>

abbreviation HT2 :: "kind \<Rightarrow> len_bucket \<Rightarrow> hash_type" where
  "HT2 k l \<equiv> HT k l NA SCALAR 0"

section \<open>Packing\<close>

definition pack :: "kind \<Rightarrow> len_bucket \<Rightarrow> dtype \<Rightarrow> rank \<Rightarrow> flags \<Rightarrow> int" where
  "pack k l d r f =
     push_bit 0 (kind_val k) OR push_bit 4 (length_val l) OR push_bit 6 (dtype_val d)
       OR push_bit 8 (rank_val r) OR push_bit 10 f"

definition MAX_WORD :: int where
  "MAX_WORD = push_bit 13 1"

definition unpack :: "int \<Rightarrow> hash_type result" where
  "unpack w =
     (if w < 0 \<or> w \<ge> MAX_WORD then Inl ValueError
      else
        rbind (kind_of (drop_bit 0 w AND 15)) (\<lambda>k.
        rbind (length_of (drop_bit 4 w AND 3)) (\<lambda>l.
        rbind (dtype_of (drop_bit 6 w AND 3)) (\<lambda>d.
        rbind (rank_of (drop_bit 8 w AND 3)) (\<lambda>r.
        Inr (HT k l d r (drop_bit 10 w AND 7)))))))"

definition word :: "hash_type \<Rightarrow> int" where
  "word h = pack (ht_kind h) (ht_length h) (ht_dtype h) (ht_rank h) (ht_flags h)"

definition is_valid_word :: "int \<Rightarrow> bool" where
  "is_valid_word w =
     (case unpack w of
        Inl _ \<Rightarrow> False
      | Inr h \<Rightarrow>
          (if (ht_dtype h \<noteq> NA) \<noteq> (ht_kind h = NUMPY) then False
           else if ht_rank h \<noteq> SCALAR \<and> ht_kind h \<noteq> NUMPY then False
           else if has_flag (ht_flags h) NUMPY_BYTES \<and>
             \<not> (ht_kind h = NUMPY \<and> ht_dtype h = NONNUMERIC \<and> ht_rank h = SCALAR) then False
           else if ht_kind h = JSON_NUMBER \<and> \<not> has_flag (ht_flags h) NUMERIC_SCALAR then False
           else if has_flag (ht_flags h) NUMERIC_SCALAR \<and>
             ht_kind h \<notin> {JSON_NUMBER, JSON_STRING} then False
           else if has_flag (ht_flags h) SEMANTIC then False
           else True))"

section \<open>Derived properties\<close>

definition is_utf8 :: "hash_type \<Rightarrow> bool" where
  "is_utf8 h \<longleftrightarrow> ht_kind h \<in> {RAW_TEXT, JSON_OBJECT, JSON_ARRAY, JSON_STRING, JSON_NUMBER,
     JSON_NULL, UTF8_UNTESTED, JSON_UNTESTED}"

definition is_json :: "hash_type \<Rightarrow> bool" where
  "is_json h \<longleftrightarrow> ht_kind h \<in> {JSON_OBJECT, JSON_ARRAY, JSON_STRING, JSON_NUMBER, JSON_NULL,
     JSON_UNTESTED}"

definition is_untested :: "hash_type \<Rightarrow> bool" where
  "is_untested h \<longleftrightarrow> ht_kind h \<in> {UNTESTED, UTF8_UNTESTED, JSON_UNTESTED}"

definition is_numpy :: "hash_type \<Rightarrow> bool" where
  "is_numpy h \<longleftrightarrow> ht_kind h = NUMPY"

definition is_mixed :: "hash_type \<Rightarrow> bool" where
  "is_mixed h \<longleftrightarrow> ht_kind h \<in> {MIXED_OBJECT, MIXED_ARRAY}"

definition is_json_numeric_scalar :: "hash_type \<Rightarrow> bool" where
  "is_json_numeric_scalar h \<longleftrightarrow> has_flag (ht_flags h) NUMERIC_SCALAR"

fun MIC_BY_KIND :: "kind \<Rightarrow> celltype" where
  "MIC_BY_KIND RAW_BYTES = CtBytes" | "MIC_BY_KIND RAW_TEXT = CtText"
| "MIC_BY_KIND NUMPY = CtBinary" | "MIC_BY_KIND MIXED_OBJECT = CtMixed"
| "MIC_BY_KIND MIXED_ARRAY = CtMixed" | "MIC_BY_KIND JSON_OBJECT = CtPlain"
| "MIC_BY_KIND JSON_ARRAY = CtPlain" | "MIC_BY_KIND JSON_STRING = CtStr"
| "MIC_BY_KIND JSON_NUMBER = CtFloat" | "MIC_BY_KIND UNTESTED = CtBytes"
| "MIC_BY_KIND UTF8_UNTESTED = CtText" | "MIC_BY_KIND JSON_UNTESTED = CtPlain"
| "MIC_BY_KIND JSON_NULL = CtPlain"

section \<open>The classifier\<close>

text \<open>What numpy reports of a parsed \<open>.npy\<close> buffer: named fields or not, the dtype's
  kind character, the number of dimensions.\<close>

record npy_info =
  np_has_fields :: bool
  np_dtype_kind :: char
  np_ndim :: nat

record 'nd lib =
  orjson_loads :: "ustr \<Rightarrow> 'nd pyval result"
  json_loads :: "ustr \<Rightarrow> 'nd pyval result"
  py_float :: "ustr \<Rightarrow> pyfloat result"
  np_load :: "bytes \<Rightarrow> npy_info result"

definition HASH_TYPE_CELLTYPES :: "celltype list" where
  "HASH_TYPE_CELLTYPES = [CtBinary, CtMixed, CtText, CtPython, CtIPython, CtPlain, CtYaml, CtStr,
     CtBytes, CtInt, CtFloat, CtBool, CtChecksum]"

definition FLAT_SEQ_CELLTYPES :: "celltype list" where
  "FLAT_SEQ_CELLTYPES = [CtText, CtStr, CtPython, CtIPython, CtYaml]"

definition MAGIC_NUMPY :: bytes where
  "MAGIC_NUMPY = 147 # ascii ''NUMPY''"

definition MAGIC_SEAMLESS_MIXED :: bytes where
  "MAGIC_SEAMLESS_MIXED = 148 # ascii ''SEAMLESS-MIXED''"

definition startswith :: "'a list \<Rightarrow> 'a list \<Rightarrow> bool" where
  "startswith xs p \<longleftrightarrow> take (length p) xs = p"

definition length_bucket :: "nat \<Rightarrow> len_bucket" where
  "length_bucket n =
     (if n < 64 then SHORT else if n = 64 then EQ64 else if n \<le> 1000 then MEDIUM else LONG)"

definition numpy_type :: "'nd lib \<Rightarrow> bytes \<Rightarrow> (dtype \<times> rank \<times> flags) result" where
  "numpy_type L raw = rbind (np_load L raw) (\<lambda>a.
     let hd = (if np_has_fields a then STRUCTURED
               else if np_dtype_kind a \<in> set ''biufc'' then NUMERIC
               else NONNUMERIC);
         r = (if np_ndim a = 0 then SCALAR else if np_ndim a = 1 then D1
              else if np_ndim a = 2 then D2 else D3PLUS);
         f = (if hd = NONNUMERIC \<and> r = SCALAR \<and> np_dtype_kind a = CHR ''S'' then NUMPY_BYTES else 0)
     in Inr (hd, r, f))"

text \<open>Python slices clip; \<open>raw[i]\<close> past the end raises \<open>IndexError\<close>.\<close>

definition slice :: "'a list \<Rightarrow> nat \<Rightarrow> nat \<Rightarrow> 'a list" where
  "slice xs i j = take (j - i) (drop i xs)"

fun from_bytes_little :: "bytes \<Rightarrow> nat" where
  "from_bytes_little [] = 0"
| "from_bytes_little (b # bs) = unat b + 256 * from_bytes_little bs"

text \<open>The root type in the parsed form: \<open>form.get("type")\<close>.\<close>

definition form_root_kind :: "'nd pyval \<Rightarrow> kind result" where
  "form_root_kind form =
     (case form of
        VDict kvs \<Rightarrow>
          (if dget kvs (u ''type'') = Some (VStr (u ''object'')) then Inr MIXED_OBJECT
           else if dget kvs (u ''type'') = Some (VStr (u ''array'')) then Inr MIXED_ARRAY
           else Inl ValueError)
      | _ \<Rightarrow> Inl AttributeError)"

definition mixed_kind :: "'nd lib \<Rightarrow> bytes \<Rightarrow> kind result" where
  "mixed_kind L raw =
     (let offset0 = length MAGIC_SEAMLESS_MIXED in
      if length raw \<le> offset0 then Inl IndexError
      else
        let offset1 = offset0 + 1 + unat (raw ! offset0);
            form_len = from_bytes_little (slice raw offset1 (offset1 + 4));
            offset2 = offset1 + 4
        in (case decode (slice raw offset2 (offset2 + form_len)) of
              None \<Rightarrow> Inl UnicodeDecodeError
            | Some t \<Rightarrow> rbind (json_loads L t) form_root_kind))"

definition finite_float :: "pyfloat \<Rightarrow> bool" where
  "finite_float x = (case x of FFin _ \<Rightarrow> True | _ \<Rightarrow> False)"

text \<open>\<open>except (TypeError, ValueError, OverflowError)\<close> around \<open>float(value)\<close>.\<close>

definition OverflowError :: exc where
  "OverflowError = OtherError ''OverflowError''"

definition float_failure :: "exc \<Rightarrow> bool" where
  "float_failure e \<longleftrightarrow> e = TypeError \<or> is_ValueError e \<or> e = OverflowError"

definition json_kind_and_flags :: "'nd lib \<Rightarrow> ustr \<Rightarrow> (kind option \<times> flags) result" where
  "json_kind_and_flags L t =
     (case orjson_loads L t of
        Inl e \<Rightarrow> if is_ValueError e then Inr (None, 0) else Inl e
      | Inr (VDict _) \<Rightarrow> Inr (Some JSON_OBJECT, 0)
      | Inr (VList _) \<Rightarrow> Inr (Some JSON_ARRAY, 0)
      | Inr (VStr s) \<Rightarrow>
          (case py_float L s of
             Inl e \<Rightarrow> if float_failure e then Inr (Some JSON_STRING, 0) else Inl e
           | Inr x \<Rightarrow> Inr (Some JSON_STRING, if finite_float x then NUMERIC_SCALAR else 0))
      | Inr VNone \<Rightarrow> Inr (Some JSON_NULL, 0)
      | Inr (VInt _) \<Rightarrow> Inr (Some JSON_NUMBER, NUMERIC_SCALAR)
      | Inr (VFloat _) \<Rightarrow> Inr (Some JSON_NUMBER, NUMERIC_SCALAR)
      | Inr (VBool _) \<Rightarrow> Inr (Some JSON_STRING, 0)
      | Inr _ \<Rightarrow> Inr (None, 0))"

definition from_buffer :: "'nd lib \<Rightarrow> bytes \<Rightarrow> hash_type result" where
  "from_buffer L raw =
     (let len = length_bucket (length raw) in
      if startswith raw MAGIC_NUMPY then
        (case numpy_type L raw of
           Inl e \<Rightarrow> if e = EOFError \<or> is_ValueError e then Inr (HT2 RAW_BYTES len) else Inl e
         | Inr (d, r, f) \<Rightarrow> Inr (HT NUMPY len d r f))
      else if startswith raw MAGIC_SEAMLESS_MIXED then
        (case mixed_kind L raw of
           Inl e \<Rightarrow> if e \<in> {IndexError, AttributeError, TypeError} \<or> is_ValueError e
                    then Inr (HT2 RAW_BYTES len) else Inl e
         | Inr k \<Rightarrow> Inr (HT2 k len))
      else
        (case decode raw of
           None \<Rightarrow> Inr (HT2 RAW_BYTES len)
         | Some t \<Rightarrow> rbind (json_kind_and_flags L t) (\<lambda>(k, f).
             (case k of
                None \<Rightarrow> Inr (HT2 RAW_TEXT len)
              | Some k \<Rightarrow> Inr (HT k len NA SCALAR f)))))"

section \<open>Three-valued questions\<close>

text \<open>\<open>Some True\<close> is proven, \<open>Some False\<close> disproved, \<open>None\<close> means a parse is needed.\<close>

definition deserializable_as ::
  "(bytes \<Rightarrow> checksum) \<Rightarrow> hash_type \<Rightarrow> celltype \<Rightarrow> checksum \<Rightarrow> bool option result" where
  "deserializable_as sha h ct c =
     (if ct \<notin> set HASH_TYPE_CELLTYPES then Inl ValueError
      else Inr (
        let k = ht_kind h;
            bool_ck = true_checksum sha c \<or> false_checksum sha c;
            scalar_const = bool_ck \<or> null_checksum sha c
        in
        if null_checksum sha c then Some True
        else if ct = CtBytes then Some True
        else if ct = CtBool then Some bool_ck
        else if is_untested h then
          (if ct = CtText then (if is_utf8 h then Some True else None)
           else if ct \<in> {CtYaml, CtIPython, CtPython} then None
           else if ct \<in> {CtPlain, CtMixed} then (if is_json h then Some True else None)
           else if ct = CtStr then (if scalar_const then Some True else None)
           else if ct \<in> {CtInt, CtFloat} then (if ht_length h = LONG then Some False else None)
           else if ct = CtBinary then (if k = UNTESTED then None else Some False)
           else if ct = CtChecksum then (if ht_length h = EQ64 then None else Some False)
           else Some False)
        else if ct = CtText then Some (is_utf8 h)
        else if ct \<in> {CtYaml, CtIPython, CtPython} then (if is_utf8 h then None else Some False)
        else if ct = CtPlain then Some (is_json h)
        else if ct = CtStr then
          (if k = JSON_NUMBER \<or> scalar_const then Some True
           else if k = JSON_STRING then Some True
           else if k = JSON_NULL then Some False
           else Some False)
        else if ct \<in> {CtInt, CtFloat} then
          (if ht_length h = LONG then Some False else Some (has_flag (ht_flags h) NUMERIC_SCALAR))
        else if ct = CtBinary then Some (k = NUMPY)
        else if ct = CtMixed then
          (if k \<in> {RAW_BYTES, RAW_TEXT} then Some False
           else if is_mixed h then None
           else Some True)
        else if ct = CtChecksum then
          (if k \<in> {RAW_TEXT, JSON_NUMBER} \<and> ht_length h = EQ64 then None else Some False)
        else Some False))"

datatype capability = SEQ | MAP

definition capabilities :: "hash_type \<Rightarrow> celltype \<Rightarrow> capability set result" where
  "capabilities h ct =
     (if ct \<notin> set HASH_TYPE_CELLTYPES then Inl ValueError
      else Inr (
        if ct = CtBytes then {SEQ}
        else if ct \<in> set FLAT_SEQ_CELLTYPES then {SEQ}
        else if ct = CtBinary \<or> (ct = CtMixed \<and> ht_kind h = NUMPY) then
          (if ht_rank h \<noteq> SCALAR then {SEQ} else {}) \<union> (if ht_dtype h = STRUCTURED then {MAP} else {})
        else if ct \<in> {CtPlain, CtMixed} then
          (if ht_kind h \<in> {JSON_OBJECT, MIXED_OBJECT} then {MAP}
           else if ht_kind h \<in> {JSON_ARRAY, MIXED_ARRAY} then {SEQ}
           else if ht_kind h = JSON_STRING then {SEQ}
           else {})
        else {}))"

definition has_numeric_items :: "hash_type \<Rightarrow> celltype \<Rightarrow> bool option result" where
  "has_numeric_items h ct =
     (if ct \<notin> set HASH_TYPE_CELLTYPES then Inl ValueError
      else Inr (
        if ct = CtBytes then Some True
        else if ct = CtBinary then Some (ht_dtype h = NUMERIC \<and> ht_rank h \<noteq> SCALAR)
        else if ct \<in> {CtPlain, CtMixed} \<and> ht_kind h \<in> {JSON_ARRAY, MIXED_ARRAY} then None
        else Some False))"

definition has_string_items :: "hash_type \<Rightarrow> celltype \<Rightarrow> bool option result" where
  "has_string_items h ct =
     (if ct \<notin> set HASH_TYPE_CELLTYPES then Inl ValueError
      else Inr (
        if ct \<in> set FLAT_SEQ_CELLTYPES then Some True
        else if ct \<in> {CtPlain, CtMixed} \<and> ht_kind h = JSON_STRING then Some True
        else if ct \<in> {CtPlain, CtMixed} \<and> ht_kind h \<in> {JSON_ARRAY, MIXED_ARRAY} then None
        else if ct = CtBinary then (if ht_dtype h = NONNUMERIC then None else Some False)
        else Some False))"

section \<open>The process-wide cache\<close>

text \<open>
  \<open>_hash_type_cache\<close>, the metadata writes queued on the buffer writer, and whether
  Seamless was closed (then \<open>register_hash_type\<close> raises, after the cache was written).
  An operation returns its result and the state it leaves.
\<close>

record ht_state =
  ht_cache :: "(checksum, int) dict"
  ht_uploads :: "(checksum \<times> int) list"
  ht_closed :: bool

datatype ht_arg = ArgHT hash_type | ArgWord int

fun ht_arg_word :: "ht_arg \<Rightarrow> int" where
  "ht_arg_word (ArgHT h) = word h"
| "ht_arg_word (ArgWord w) = w"

definition hash_type_implies :: "hash_type \<Rightarrow> hash_type \<Rightarrow> bool" where
  "hash_type_implies tighter looser =
     (if ht_length tighter \<noteq> ht_length looser then False
      else if ht_kind looser = UNTESTED then True
      else if ht_kind looser = UTF8_UNTESTED then is_utf8 tighter
      else if ht_kind looser = JSON_UNTESTED then is_json tighter
      else tighter = looser)"

definition upload_hash_type :: "checksum \<Rightarrow> int \<Rightarrow> ht_state \<Rightarrow> unit result \<times> ht_state" where
  "upload_hash_type c w s =
     (if ht_closed s then (Inl RuntimeError, s)
      else (Inr (), s\<lparr>ht_uploads := ht_uploads s @ [(c, w)]\<rparr>))"

definition store_hash_type :: "checksum \<Rightarrow> int \<Rightarrow> bool \<Rightarrow> ht_state \<Rightarrow> unit result \<times> ht_state" where
  "store_hash_type c w upload s =
     (let s' = s\<lparr>ht_cache := dset c w (ht_cache s)\<rparr>
      in if upload then upload_hash_type c w s' else (Inr (), s'))"

definition set_hash_type :: "checksum \<Rightarrow> ht_arg \<Rightarrow> bool \<Rightarrow> ht_state \<Rightarrow> unit result \<times> ht_state" where
  "set_hash_type c a upload s =
     (let w = ht_arg_word a in
      if \<not> is_valid_word w then (Inl ValueError, s)
      else case dget (ht_cache s) c of
        None \<Rightarrow> store_hash_type c w upload s
      | Some stored_word \<Rightarrow>
          if stored_word = w then (Inr (), s)
          else
            (case (unpack stored_word, unpack w) of
               (Inr stored, Inr incoming) \<Rightarrow>
                 if hash_type_implies stored incoming then (Inr (), s)
                 else if \<not> hash_type_implies incoming stored then (Inl ValueError, s)
                 else store_hash_type c w upload s
             | (Inl e, _) \<Rightarrow> (Inl e, s)
             | (_, Inl e) \<Rightarrow> (Inl e, s)))"

definition get_hash_type :: "checksum \<Rightarrow> ht_state \<Rightarrow> hash_type option result" where
  "get_hash_type c s =
     (case dget (ht_cache s) c of
        None \<Rightarrow> Inr None
      | Some w \<Rightarrow> rbind (unpack w) (\<lambda>h. Inr (Some h)))"

text \<open>\<open>db\<close> is \<open>seamless_remote.database_remote\<close>: absent, or its answer per checksum.\<close>

type_synonym hash_db = "(checksum \<Rightarrow> int option) option"

definition get_hash_type_remote ::
  "hash_db \<Rightarrow> checksum \<Rightarrow> ht_state \<Rightarrow> hash_type option result \<times> ht_state" where
  "get_hash_type_remote db c s =
     (case get_hash_type c s of
        Inl e \<Rightarrow> (Inl e, s)
      | Inr (Some h) \<Rightarrow> (Inr (Some h), s)
      | Inr None \<Rightarrow>
          (case db of
             None \<Rightarrow> (Inr None, s)
           | Some ask \<Rightarrow>
               (case ask c of
                  None \<Rightarrow> (Inr None, s)
                | Some w \<Rightarrow>
                    (case set_hash_type c (ArgWord w) False s of
                       (Inl e, s') \<Rightarrow> (Inl e, s')
                     | (Inr _, s') \<Rightarrow> (get_hash_type c s', s')))))"

definition set_hash_type_remote :: "checksum \<Rightarrow> ht_arg \<Rightarrow> ht_state \<Rightarrow> bool result \<times> ht_state" where
  "set_hash_type_remote c a s =
     (case set_hash_type c a True s of
        (Inl e, s') \<Rightarrow> (Inl e, s')
      | (Inr _, s') \<Rightarrow> (Inr True, s'))"

definition register_hash_type_for_buffer ::
  "'nd lib \<Rightarrow> checksum \<Rightarrow> bytes \<Rightarrow> ht_state \<Rightarrow> hash_type result \<times> ht_state" where
  "register_hash_type_for_buffer L c raw s =
     (case from_buffer L raw of
        Inl e \<Rightarrow> (Inl e, s)
      | Inr h \<Rightarrow>
          (case set_hash_type c (ArgHT h) True s of
             (Inl e, s') \<Rightarrow> (Inl e, s')
           | (Inr _, s') \<Rightarrow> (Inr h, s')))"

section \<open>Packing is a bijection between field tuples and words\<close>

lemma kind_val_range: "0 \<le> kind_val k \<and> kind_val k < 13"
  by (cases k) simp_all

lemma length_val_range: "0 \<le> length_val k \<and> length_val k < 4"
  by (cases k) simp_all

lemma dtype_val_range: "0 \<le> dtype_val k \<and> dtype_val k < 4"
  by (cases k) simp_all

lemma rank_val_range: "0 \<le> rank_val k \<and> rank_val k < 4"
  by (cases k) simp_all

lemma kind_of_val [simp]: "kind_of (kind_val k) = Inr k"
  by (cases k) (simp_all add: kind_of_def enum_of_def kinds_def)

lemma length_of_val [simp]: "length_of (length_val k) = Inr k"
  by (cases k) (simp_all add: length_of_def enum_of_def)

lemma dtype_of_val [simp]: "dtype_of (dtype_val k) = Inr k"
  by (cases k) (simp_all add: dtype_of_def enum_of_def)

lemma rank_of_val [simp]: "rank_of (rank_val k) = Inr k"
  by (cases k) (simp_all add: rank_of_def enum_of_def)

lemma enum_of_Inr: "enum_of val xs n = Inr x \<Longrightarrow> val x = n"
  by (auto simp: enum_of_def filter_eq_Cons_iff split: list.splits)

lemma disjoint_fields:
  fixes a b :: int
  assumes "take_bit m a = a"
  shows "a OR push_bit m b = a + 2 ^ m * b"
proof -
  have "\<not> bit a n \<or> \<not> bit (push_bit m b) n" for n
    using assms by (metis bit_push_bit_iff bit_take_bit_iff linorder_not_less)
  then have "a OR push_bit m b = a + push_bit m b"
    by (rule disjunctive_add [symmetric])
  then show ?thesis by (simp add: push_bit_eq_mult mult.commute)
qed

lemma pack_sum:
  assumes "0 \<le> f" "f < 8"
  shows "pack k l d r f = kind_val k + 16 * length_val l + 64 * dtype_val d + 256 * rank_val r + 1024 * f"
proof -
  define a b c e where "a = kind_val k" and "b = length_val l" and "c = dtype_val d" and "e = rank_val r"
  have r: "0 \<le> a" "a < 16" "0 \<le> b" "b < 4" "0 \<le> c" "c < 4" "0 \<le> e" "e < 4"
    unfolding a_def b_def c_def e_def
    using kind_val_range [of k] length_val_range dtype_val_range rank_val_range by auto
  have "take_bit 4 a = a" using r by (simp add: take_bit_int_eq_self)
  then have 1: "a OR push_bit 4 b = a + 16 * b" by (simp add: disjoint_fields)
  have "take_bit 6 (a + 16 * b) = a + 16 * b" using r by (simp add: take_bit_int_eq_self)
  then have 2: "(a + 16 * b) OR push_bit 6 c = a + 16 * b + 64 * c" by (simp add: disjoint_fields)
  have "take_bit 8 (a + 16 * b + 64 * c) = a + 16 * b + 64 * c"
    using r by (simp add: take_bit_int_eq_self)
  then have 3: "(a + 16 * b + 64 * c) OR push_bit 8 e = a + 16 * b + 64 * c + 256 * e"
    by (simp add: disjoint_fields)
  have "take_bit 10 (a + 16 * b + 64 * c + 256 * e) = a + 16 * b + 64 * c + 256 * e"
    using r by (simp add: take_bit_int_eq_self)
  then have 4: "(a + 16 * b + 64 * c + 256 * e) OR push_bit 10 f = a + 16 * b + 64 * c + 256 * e + 1024 * f"
    by (simp add: disjoint_fields)
  show ?thesis
    unfolding pack_def push_bit_0_id id_apply a_def [symmetric] b_def [symmetric] c_def [symmetric]
      e_def [symmetric] by (simp only: or.assoc [symmetric] 1 2 3 4)
qed

lemma and_masks: "(x :: int) AND 15 = x mod 16" "(x :: int) AND 3 = x mod 4" "(x :: int) AND 7 = x mod 8"
  using take_bit_eq_mask [of 4 x] take_bit_eq_mask [of 2 x] take_bit_eq_mask [of 3 x]
  by (simp_all add: take_bit_eq_mod mask_eq_exp_minus_1)

lemma digit_split:
  fixes n q r w :: int
  assumes "w = n * q + r" "0 \<le> r" "r < n"
  shows "w div n = q" and "w mod n = r"
  using assms by simp_all

lemma unpack_arith:
  "unpack w =
     (if w < 0 \<or> w \<ge> 8192 then Inl ValueError
      else rbind (kind_of (w mod 16)) (\<lambda>k. rbind (length_of (w div 16 mod 4)) (\<lambda>l.
        rbind (dtype_of (w div 64 mod 4)) (\<lambda>d. rbind (rank_of (w div 256 mod 4)) (\<lambda>r.
        Inr (HT k l d r (w div 1024 mod 8)))))))"
  by (simp add: unpack_def MAX_WORD_def push_bit_eq_mult and_masks drop_bit_eq_div)

lemma unpack_pack: "0 \<le> f \<Longrightarrow> f < 8 \<Longrightarrow> unpack (pack k l d r f) = Inr (HT k l d r f)"
proof -
  assume f: "0 \<le> f" "f < 8"
  define a b c e where "a = kind_val k" and "b = length_val l" and "c = dtype_val d" and "e = rank_val r"
  have r: "0 \<le> a" "a < 13" "0 \<le> b" "b < 4" "0 \<le> c" "c < 4" "0 \<le> e" "e < 4"
    unfolding a_def b_def c_def e_def
    using kind_val_range length_val_range dtype_val_range rank_val_range by auto
  define w where "w = a + 16 * b + 64 * c + 256 * e + 1024 * f"
  have w: "pack k l d r f = w"
    using pack_sum [OF f] by (simp add: w_def a_def b_def c_def e_def)
  have rng: "\<not> (w < 0 \<or> w \<ge> 8192)" unfolding w_def using r f by linarith
  have e1: "w mod 16 = a"
    by (rule digit_split [of _ _ "b + 4 * c + 16 * e + 64 * f"]) (use r w_def in auto)
  have d1: "w div 16 = b + 4 * c + 16 * e + 64 * f"
    by (rule digit_split [of _ _ _ a]) (use r w_def in auto)
  have e2: "w div 16 mod 4 = b"
    unfolding d1 by (rule digit_split [of _ _ "c + 4 * e + 16 * f"]) (use r in auto)
  have d2: "w div 64 = c + 4 * e + 16 * f"
    by (rule digit_split [of _ _ _ "16 * b + a"]) (use r w_def in auto)
  have e3: "w div 64 mod 4 = c"
    unfolding d2 by (rule digit_split [of _ _ "e + 4 * f"]) (use r in auto)
  have d3: "w div 256 = e + 4 * f"
    by (rule digit_split [of _ _ _ "64 * c + 16 * b + a"]) (use r w_def in auto)
  have e4: "w div 256 mod 4 = e"
    unfolding d3 by (rule digit_split [of _ _ f]) (use r in auto)
  have d4: "w div 1024 = f"
    by (rule digit_split [of _ _ _ "256 * e + 64 * c + 16 * b + a"]) (use r w_def in auto)
  have e5: "w div 1024 mod 8 = f" unfolding d4 using f by simp
  show ?thesis
    unfolding w unpack_arith if_not_P [OF rng] e1 e2 e3 e4 e5
    unfolding a_def b_def c_def e_def by simp
qed

lemma pack_unpack: "unpack w = Inr h \<Longrightarrow> word h = w"
proof -
  assume h: "unpack w = Inr h"
  then have rng: "0 \<le> w" "w < 8192" by (auto simp: unpack_arith split: if_splits)
  from h obtain k l d r where fields: "kind_of (w mod 16) = Inr k" "length_of (w div 16 mod 4) = Inr l"
    "dtype_of (w div 64 mod 4) = Inr d" "rank_of (w div 256 mod 4) = Inr r"
    and hh: "h = HT k l d r (w div 1024 mod 8)"
    by (auto simp: unpack_arith res_simps split: if_splits)
  then have v: "kind_val k = w mod 16" "length_val l = w div 16 mod 4" "dtype_val d = w div 64 mod 4"
    "rank_val r = w div 256 mod 4"
    unfolding kind_of_def length_of_def dtype_of_def rank_of_def by (blast dest: enum_of_Inr)+
  have d: "w div 64 = w div 16 div 4" "w div 256 = w div 64 div 4" "w div 1024 = w div 256 div 4"
    by (simp_all add: zdiv_zmult2_eq [symmetric])
  have "w div 1024 mod 8 = w div 1024" using rng by simp
  then have "word h = w mod 16 + 16 * (w div 16 mod 4) + 64 * (w div 64 mod 4) + 256 * (w div 256 mod 4)
      + 1024 * (w div 1024)"
    unfolding hh word_def by (simp add: pack_sum v)
  moreover have "w = 16 * (w div 16) + w mod 16" "w div 16 = 4 * (w div 64) + w div 16 mod 4"
    "w div 64 = 4 * (w div 256) + w div 64 mod 4" "w div 256 = 4 * (w div 1024) + w div 256 mod 4"
    unfolding d by (simp_all only: mult_div_mod_eq)
  ultimately show ?thesis by linarith
qed

lemma unpack_flags: "unpack w = Inr h \<Longrightarrow> 0 \<le> ht_flags h \<and> ht_flags h < 8"
  by (auto simp: unpack_arith res_simps split: if_splits)

lemma unpack_word: "0 \<le> ht_flags h \<Longrightarrow> ht_flags h < 8 \<Longrightarrow> unpack (word h) = Inr h"
  by (simp add: word_def unpack_pack)

text \<open>Unpacking inverts packing for every field tuple the enums allow (the three flag bits
  of an \<open>IntFlag\<close> value below 8 included), and packing inverts unpacking for every integer
  \<open>unpack\<close> accepts: the 13-bit word loses and invents nothing.\<close>

theorem hash_type_word_roundtrip:
  assumes "0 \<le> f" and "f < 8" and "unpack w = Inr h"
  shows "unpack (pack k l d r f) = Inr (HT k l d r f) \<and> word h = w \<and> 0 \<le> w \<and> w < MAX_WORD"
  using unpack_pack [OF assms(1,2)] pack_unpack [OF assms(3)] assms(3)
  by (auto simp: unpack_def split: if_splits)

theorem hash_type_word_roundtrip_witness:
  "unpack (pack NUMPY MEDIUM NONNUMERIC SCALAR 2) = Inr (HT NUMPY MEDIUM NONNUMERIC SCALAR 2) \<and>
   word (HT NUMPY MEDIUM NONNUMERIC SCALAR 2) = 2209 \<and> (0::int) \<le> 2209 \<and> 2209 < MAX_WORD"
proof -
  have u: "unpack 2209 = Inr (HT NUMPY MEDIUM NONNUMERIC SCALAR 2)"
    by (simp add: unpack_arith kind_of_def length_of_def dtype_of_def rank_of_def enum_of_def kinds_def)
  show ?thesis
    using hash_type_word_roundtrip [of 2 2209 "HT NUMPY MEDIUM NONNUMERIC SCALAR 2" NUMPY MEDIUM
        NONNUMERIC SCALAR] u by simp
qed

section \<open>Valid words\<close>

definition valid_fields :: "hash_type \<Rightarrow> bool" where
  "valid_fields h \<longleftrightarrow>
     0 \<le> ht_flags h \<and> ht_flags h < 8 \<and>
     (ht_kind h = NUMPY \<longleftrightarrow> ht_dtype h \<noteq> NA) \<and>
     (ht_kind h \<noteq> NUMPY \<longrightarrow> ht_rank h = SCALAR) \<and>
     (has_flag (ht_flags h) NUMPY_BYTES \<longrightarrow>
        ht_kind h = NUMPY \<and> ht_dtype h = NONNUMERIC \<and> ht_rank h = SCALAR) \<and>
     (ht_kind h = JSON_NUMBER \<longrightarrow> has_flag (ht_flags h) NUMERIC_SCALAR) \<and>
     (has_flag (ht_flags h) NUMERIC_SCALAR \<longrightarrow> ht_kind h \<in> {JSON_NUMBER, JSON_STRING}) \<and>
     \<not> has_flag (ht_flags h) SEMANTIC"

lemma is_valid_word_iff: "is_valid_word w \<longleftrightarrow> (\<exists>h. unpack w = Inr h \<and> valid_fields h)"
proof (cases "unpack w")
  case (Inl e)
  then show ?thesis by (simp add: is_valid_word_def)
next
  case (Inr h)
  with unpack_flags [OF Inr] show ?thesis
    by (simp add: is_valid_word_def valid_fields_def) blast
qed

lemma valid_fields_word: "valid_fields h \<Longrightarrow> is_valid_word (word h)"
  unfolding is_valid_word_iff using unpack_word [of h] by (auto simp: valid_fields_def)

lemma valid_word_unpack: "is_valid_word w \<Longrightarrow> \<exists>h. unpack w = Inr h \<and> valid_fields h \<and> word h = w"
  unfolding is_valid_word_iff using pack_unpack by blast

lemma has_flag_consts [simp]:
  "has_flag 0 f = False" "has_flag NUMERIC_SCALAR NUMERIC_SCALAR" "has_flag NUMPY_BYTES NUMPY_BYTES"
  "\<not> has_flag NUMERIC_SCALAR NUMPY_BYTES" "\<not> has_flag NUMERIC_SCALAR SEMANTIC"
  "\<not> has_flag NUMPY_BYTES NUMERIC_SCALAR" "\<not> has_flag NUMPY_BYTES SEMANTIC"
  by (simp_all add: has_flag_def NUMERIC_SCALAR_def NUMPY_BYTES_def SEMANTIC_def)

lemma flag_ranges [simp]:
  "0 \<le> NUMERIC_SCALAR" "NUMERIC_SCALAR < 8" "0 \<le> NUMPY_BYTES" "NUMPY_BYTES < 8"
  by (simp_all add: NUMERIC_SCALAR_def NUMPY_BYTES_def)

lemma flags_zero:
  assumes "0 \<le> f" "f < (8 :: int)" "\<not> has_flag f NUMERIC_SCALAR" "\<not> has_flag f NUMPY_BYTES"
    "\<not> has_flag f SEMANTIC"
  shows "f = 0"
proof -
  have "f \<in> {0, 1, 2, 3, 4, 5, 6, 7}" using assms(1,2) by auto
  then show ?thesis
    using assms(3-5) by (auto simp: has_flag_def NUMERIC_SCALAR_def NUMPY_BYTES_def SEMANTIC_def)
qed

lemma numpy_type_fields:
  "numpy_type L raw = Inr (d, r, f) \<Longrightarrow>
     d \<noteq> NA \<and> (f = 0 \<or> f = NUMPY_BYTES \<and> d = NONNUMERIC \<and> r = SCALAR)"
  by (auto simp: numpy_type_def res_simps Let_def split: if_splits)

lemma form_root_kind_kinds: "form_root_kind v = Inr k \<Longrightarrow> k = MIXED_OBJECT \<or> k = MIXED_ARRAY"
  by (cases v) (auto simp: form_root_kind_def split: if_splits)

lemma mixed_kind_kinds: "mixed_kind L raw = Inr k \<Longrightarrow> k = MIXED_OBJECT \<or> k = MIXED_ARRAY"
  by (auto simp: mixed_kind_def Let_def res_simps dest!: form_root_kind_kinds
      split: if_splits option.splits)

lemma json_kind_kinds:
  "json_kind_and_flags L t = Inr (Some k, f) \<Longrightarrow>
     (k \<in> {JSON_OBJECT, JSON_ARRAY, JSON_NULL, JSON_STRING} \<and> f = 0) \<or>
     (k \<in> {JSON_NUMBER, JSON_STRING} \<and> f = NUMERIC_SCALAR)"
  by (auto simp: json_kind_and_flags_def split: sum.splits pyval.splits if_splits)

lemma valid_HT2: "k \<noteq> NUMPY \<Longrightarrow> k \<noteq> JSON_NUMBER \<Longrightarrow> valid_fields (HT2 k len)"
  by (simp add: valid_fields_def)

lemma valid_HT_numeric:
  "k \<in> {JSON_NUMBER, JSON_STRING} \<Longrightarrow> valid_fields (HT k len NA SCALAR NUMERIC_SCALAR)"
  by (auto simp: valid_fields_def)

lemma valid_HT_numpy: "numpy_type L raw = Inr (d, r, f) \<Longrightarrow> valid_fields (HT NUMPY len d r f)"
  by (auto simp: valid_fields_def dest!: numpy_type_fields)

lemma from_buffer_cases:
  assumes "from_buffer L raw = Inr h"
  obtains (raw) "h = HT2 RAW_BYTES (length_bucket (length raw))"
  | (numpy) d r f where "numpy_type L raw = Inr (d, r, f)" "h = HT NUMPY (length_bucket (length raw)) d r f"
  | (mixed) k where "mixed_kind L raw = Inr k" "h = HT2 k (length_bucket (length raw))"
  | (nojson) t f where "decode raw = Some t" "json_kind_and_flags L t = Inr (None, f)"
      "h = HT2 RAW_TEXT (length_bucket (length raw))"
  | (json) t k f where "decode raw = Some t" "json_kind_and_flags L t = Inr (Some k, f)"
      "h = HT k (length_bucket (length raw)) NA SCALAR f"
proof (cases "startswith raw MAGIC_NUMPY")
  case True
  with assms raw numpy show ?thesis
    by (auto simp: from_buffer_def Let_def split: sum.splits prod.splits if_splits)
next
  case nn: False
  show ?thesis
  proof (cases "startswith raw MAGIC_SEAMLESS_MIXED")
    case True
    with nn assms raw mixed show ?thesis
      by (auto simp: from_buffer_def Let_def split: sum.splits if_splits)
  next
    case False
    note plain = assms [unfolded from_buffer_def Let_def if_not_P [OF nn] if_not_P [OF False]]
    show ?thesis
    proof (cases "decode raw")
      case None
      with plain raw show ?thesis by simp
    next
      case (Some t)
      with plain obtain k f where kf: "json_kind_and_flags L t = Inr (k, f)"
        by (auto simp: res_simps)
      with plain Some nojson json show ?thesis by (cases k) auto
    qed
  qed
qed

lemma from_buffer_fields:
  assumes "from_buffer L raw = Inr h"
  shows "valid_fields h \<and> \<not> is_untested h"
  using assms
proof (cases rule: from_buffer_cases)
  case raw
  then show ?thesis by (simp add: valid_HT2 is_untested_def)
next
  case (numpy d r f)
  then show ?thesis by (simp add: valid_HT_numpy is_untested_def)
next
  case (mixed k)
  then show ?thesis by (auto simp: valid_HT2 is_untested_def dest!: mixed_kind_kinds)
next
  case (nojson t f)
  then show ?thesis by (simp add: valid_HT2 is_untested_def)
next
  case (json t k f)
  then show ?thesis
    using json_kind_kinds [OF json(2)] by (auto simp: valid_HT2 valid_HT_numeric is_untested_def)
qed

lemma from_buffer_length:
  assumes "from_buffer L raw = Inr h"
  shows "ht_length h = length_bucket (length raw)"
  using assms by (cases rule: from_buffer_cases) simp_all

section \<open>Interface: knowledge that only tightens\<close>

text \<open>
  A store keeps one description of a fixed thing and accepts another when one of the two
  implies the other, keeping the tighter. The laws are those the clients need: implication
  is a preorder, and two descriptions of the same truth are comparable.
\<close>

locale tightening =
  fixes imp :: "'a \<Rightarrow> 'a \<Rightarrow> bool"
  assumes imp_refl: "imp a a"
    and imp_trans: "imp a b \<Longrightarrow> imp b c \<Longrightarrow> imp a c"
    and imp_linear: "imp t a \<Longrightarrow> imp t b \<Longrightarrow> imp a b \<or> imp b a"
begin

definition tighten :: "'a \<Rightarrow> 'a \<Rightarrow> 'a option" where
  "tighten s a = (if imp s a then Some s else if imp a s then Some a else None)"

lemma tighten_below: "imp t s \<Longrightarrow> imp t a \<Longrightarrow> \<exists>r. tighten s a = Some r \<and> imp t r \<and> imp r s \<and> imp r a"
  using imp_linear [of t s a] by (auto simp: tighten_def imp_refl)

lemma tighten_keeps: "tighten s a = Some r \<Longrightarrow> imp r s \<and> imp r a"
  by (auto simp: tighten_def imp_refl split: if_splits)

fun tighten_all :: "'a \<Rightarrow> 'a list \<Rightarrow> 'a option" where
  "tighten_all s [] = Some s"
| "tighten_all s (a # as) = Option.bind (tighten s a) (\<lambda>r. tighten_all r as)"

lemma tighten_all_truthful:
  "imp t s \<Longrightarrow> \<forall>a\<in>set as. imp t a \<Longrightarrow>
     \<exists>r. tighten_all s as = Some r \<and> imp t r \<and> imp r s \<and> (\<forall>a\<in>set as. imp r a)"
proof (induction as arbitrary: s)
  case Nil
  then show ?case by (simp add: imp_refl)
next
  case (Cons a as)
  then obtain r where r: "tighten s a = Some r" "imp t r" "imp r s" "imp r a"
    using tighten_below [of t s a] by auto
  with Cons.IH [of r] Cons.prems(2) obtain q where
    "tighten_all r as = Some q" "imp t q" "imp q r" "\<forall>a\<in>set as. imp q a" by auto
  with r show ?case by (auto intro: imp_trans)
qed

end

interpretation hash_types: tightening hash_type_implies
proof
  fix a show "hash_type_implies a a"
    by (simp add: hash_type_implies_def is_utf8_def is_json_def)
next
  fix a b c assume "hash_type_implies a b" "hash_type_implies b c"
  then show "hash_type_implies a c"
    by (auto simp: hash_type_implies_def is_utf8_def is_json_def split: if_splits)
next
  fix t a b assume "hash_type_implies t a" "hash_type_implies t b"
  then show "hash_type_implies a b \<or> hash_type_implies b a"
    by (auto simp: hash_type_implies_def is_utf8_def is_json_def split: if_splits)
qed

section \<open>The cache only tightens\<close>

definition ht_inv :: "ht_state \<Rightarrow> bool" where
  "ht_inv s \<longleftrightarrow> (\<forall>c w. dget (ht_cache s) c = Some w \<longrightarrow> is_valid_word w)"

lemma store_hash_type_cache [simp]: "ht_cache (snd (store_hash_type c w b s)) = dset c w (ht_cache s)"
  by (simp add: store_hash_type_def upload_hash_type_def Let_def)

lemma store_hash_type_closed [simp]: "ht_closed (snd (store_hash_type c w b s)) = ht_closed s"
  by (simp add: store_hash_type_def upload_hash_type_def Let_def)

lemma store_hash_type_result: "\<not> ht_closed s \<Longrightarrow> fst (store_hash_type c w b s) = Inr ()"
  by (simp add: store_hash_type_def upload_hash_type_def Let_def)

text \<open>One write against a stored description, as the \<open>tightening\<close> interface states it.\<close>

lemma set_hash_type_stored:
  assumes w0: "dget (ht_cache s) c = Some w0" "is_valid_word w0" "unpack w0 = Inr h0"
    and w: "is_valid_word w" "unpack w = Inr h"
  shows "set_hash_type c (ArgWord w) b s =
    (if hash_type_implies h0 h then (Inr (), s)
     else if hash_type_implies h h0 then store_hash_type c w b s
     else (Inl ValueError, s))"
proof (cases "w0 = w")
  case True
  with w0 w have "hash_type_implies h0 h" using hash_types.imp_refl by auto
  with True w0 w show ?thesis by (simp add: set_hash_type_def)
next
  case False
  with w0 w show ?thesis by (simp add: set_hash_type_def)
qed

lemma set_hash_type_other:
  "j \<noteq> c \<Longrightarrow> dget (ht_cache (snd (set_hash_type c a b s))) j = dget (ht_cache s) j"
  by (auto simp: set_hash_type_def Let_def split: option.splits sum.splits)

lemma set_hash_type_inv:
  assumes "ht_inv s"
  shows "ht_inv (snd (set_hash_type c a b s))"
  using assms
  by (auto simp: ht_inv_def set_hash_type_def Let_def split: option.splits sum.splits if_splits)

lemma set_hash_type_unstored:
  "dget (ht_cache s) c = None \<Longrightarrow> is_valid_word w \<Longrightarrow>
     set_hash_type c (ArgWord w) b s = store_hash_type c w b s"
  by (simp add: set_hash_type_def)

lemma set_hash_type_arg: "set_hash_type c a b s = set_hash_type c (ArgWord (ht_arg_word a)) b s"
  by (simp add: set_hash_type_def)

text \<open>A write never loosens what is known. Whatever is written under whatever checksum
  (truthful or not, accepted, ignored or refused), a checksum that had a valid word still has
  one, and the new description implies the old one; the cache stays well-formed.\<close>

theorem set_hash_type_only_tightens:
  assumes "ht_inv s" and "dget (ht_cache s) j = Some w0" and "unpack w0 = Inr h0"
  shows "ht_inv (snd (set_hash_type c a b s)) \<and>
    (\<exists>w1 h1. dget (ht_cache (snd (set_hash_type c a b s))) j = Some w1 \<and> unpack w1 = Inr h1 \<and>
       hash_type_implies h1 h0)"
proof (cases "j = c \<and> is_valid_word (ht_arg_word a)")
  case False
  then have "dget (ht_cache (snd (set_hash_type c a b s))) j = Some w0"
    using assms(2) by (auto simp: set_hash_type_other) (simp add: set_hash_type_def)
  with assms show ?thesis using hash_types.imp_refl by (auto simp: set_hash_type_inv)
next
  case True
  then obtain h where h: "unpack (ht_arg_word a) = Inr h" using valid_word_unpack by blast
  have v0: "is_valid_word w0" using assms by (simp add: ht_inv_def)
  show ?thesis
    using True h assms hash_types.imp_refl
    by (intro conjI set_hash_type_inv)
       (auto simp: set_hash_type_arg [of c a] set_hash_type_stored [OF _ v0 assms(3) _ h, of s c])
qed

theorem set_hash_type_only_tightens_witness:
  "ht_inv (snd (set_hash_type (Checksum []) (ArgWord 39) True
      \<lparr>ht_cache = [(Checksum [], 42)], ht_uploads = [], ht_closed = False\<rparr>)) \<and>
   (\<exists>w1 h1. dget (ht_cache (snd (set_hash_type (Checksum []) (ArgWord 39) True
        \<lparr>ht_cache = [(Checksum [], 42)], ht_uploads = [], ht_closed = False\<rparr>))) (Checksum []) = Some w1 \<and>
      unpack w1 = Inr h1 \<and> hash_type_implies h1 (HT2 UTF8_UNTESTED MEDIUM))"
proof -
  have u: "unpack 42 = Inr (HT2 UTF8_UNTESTED MEDIUM)"
    by (simp add: unpack_arith kind_of_def length_of_def dtype_of_def rank_of_def enum_of_def kinds_def)
  moreover have "is_valid_word 42" by (simp add: is_valid_word_def u)
  ultimately show ?thesis
    by (intro set_hash_type_only_tightens [of _ _ 42]) (simp_all add: ht_inv_def)
qed

fun set_hash_types :: "checksum \<Rightarrow> int list \<Rightarrow> ht_state \<Rightarrow> unit result list \<times> ht_state" where
  "set_hash_types c [] s = ([], s)"
| "set_hash_types c (w # ws) s =
     (let (r, s1) = set_hash_type c (ArgWord w) True s;
          (rs, s2) = set_hash_types c ws s1
      in (r # rs, s2))"

lemma set_hash_types_stored:
  assumes "\<not> ht_closed s" "dget (ht_cache s) c = Some w0" "is_valid_word w0" "unpack w0 = Inr h0"
    and "hash_type_implies t h0"
    and "\<forall>w\<in>set ws. is_valid_word w \<and> (\<exists>h. unpack w = Inr h \<and> hash_type_implies t h)"
  shows "set (fst (set_hash_types c ws s)) \<subseteq> {Inr ()} \<and>
    (\<exists>w h. dget (ht_cache (snd (set_hash_types c ws s))) c = Some w \<and> unpack w = Inr h \<and>
       is_valid_word w \<and> hash_type_implies t h \<and> hash_type_implies h h0 \<and>
       (\<forall>v\<in>set ws. \<exists>k. unpack v = Inr k \<and> hash_type_implies h k))"
  using assms
proof (induction ws arbitrary: s w0 h0)
  case Nil
  then show ?case using hash_types.imp_refl by auto
next
  case (Cons w ws)
  from Cons.prems obtain h where h: "is_valid_word w" "unpack w = Inr h" "hash_type_implies t h" by auto
  note step = set_hash_type_stored [OF Cons.prems(2-4) h(1,2), of True]
  have lin: "hash_type_implies h0 h \<or> hash_type_implies h h0"
    using hash_types.imp_linear Cons.prems(5) h(3) by blast
  show ?case
  proof (cases "hash_type_implies h0 h")
    case True
    have "set_hash_type c (ArgWord w) True s = (Inr (), s)" using step True by simp
    moreover note Cons.IH [OF Cons.prems(1-5)]
    ultimately show ?thesis
      using Cons.prems(6) h True by (auto simp: split_beta intro: hash_types.imp_trans)
  next
    case False
    define s1 where "s1 = snd (store_hash_type c w True s)"
    have r: "set_hash_type c (ArgWord w) True s = (Inr (), s1)"
      using step False lin store_hash_type_result [OF Cons.prems(1), of c w True]
      by (simp add: s1_def prod_eq_iff)
    have p1: "\<not> ht_closed s1" and p2: "dget (ht_cache s1) c = Some w"
      using Cons.prems(1) by (simp_all add: s1_def)
    have p6: "\<forall>w\<in>set ws. is_valid_word w \<and> (\<exists>h. unpack w = Inr h \<and> hash_type_implies t h)"
      using Cons.prems(6) by auto
    note ih = Cons.IH [OF p1 p2 h p6]
    with r lin False h show ?thesis
      by (auto simp: split_beta intro: hash_types.imp_trans)
  qed
qed

text \<open>C5: truthful writers never conflict. When every word written for a checksum describes
  the same buffer (the true description \<open>t\<close> implies each of them), no write is refused,
  in whatever order they come, and the description left in the cache is truthful and implies
  every one written: concurrent producers of different precision always converge.\<close>

theorem truthful_writes_converge:
  assumes "\<not> ht_closed s" and "dget (ht_cache s) c = None" and "ws \<noteq> []"
    and "\<forall>w\<in>set ws. is_valid_word w \<and> (\<exists>h. unpack w = Inr h \<and> hash_type_implies t h)"
  shows "set (fst (set_hash_types c ws s)) = {Inr ()} \<and>
    (\<exists>w h. dget (ht_cache (snd (set_hash_types c ws s))) c = Some w \<and> unpack w = Inr h \<and>
       hash_type_implies t h \<and> (\<forall>v\<in>set ws. \<exists>k. unpack v = Inr k \<and> hash_type_implies h k))"
proof -
  from assms(3) obtain w vs where ws: "ws = w # vs" by (cases ws) auto
  with assms(4) obtain h where h: "is_valid_word w" "unpack w = Inr h" "hash_type_implies t h" by auto
  define s1 where "s1 = snd (store_hash_type c w True s)"
  have r: "set_hash_type c (ArgWord w) True s = (Inr (), s1)"
    using set_hash_type_unstored [OF assms(2) h(1)] store_hash_type_result [OF assms(1), of c w True]
    by (simp add: s1_def prod_eq_iff)
  have p: "\<not> ht_closed s1" "dget (ht_cache s1) c = Some w" using assms(1) by (simp_all add: s1_def)
  have "\<forall>w\<in>set vs. is_valid_word w \<and> (\<exists>h. unpack w = Inr h \<and> hash_type_implies t h)"
    using assms(4) ws by auto
  from set_hash_types_stored [OF p h this] r ws h show ?thesis by (auto simp: split_beta)
qed

theorem truthful_writes_converge_witness:
  "set (fst (set_hash_types (Checksum []) [41, 42, 39, 43]
       \<lparr>ht_cache = [], ht_uploads = [], ht_closed = False\<rparr>)) = {Inr ()} \<and>
   (\<exists>w h. dget (ht_cache (snd (set_hash_types (Checksum []) [41, 42, 39, 43]
       \<lparr>ht_cache = [], ht_uploads = [], ht_closed = False\<rparr>))) (Checksum []) = Some w \<and> unpack w = Inr h \<and>
     hash_type_implies (HT2 JSON_STRING MEDIUM) h \<and>
     (\<forall>v\<in>set [41, 42, 39, 43]. \<exists>k. unpack v = Inr k \<and> hash_type_implies h k))"
proof -
  have u: "unpack 41 = Inr (HT2 UNTESTED MEDIUM)" "unpack 42 = Inr (HT2 UTF8_UNTESTED MEDIUM)"
    "unpack 39 = Inr (HT2 JSON_STRING MEDIUM)" "unpack 43 = Inr (HT2 JSON_UNTESTED MEDIUM)"
    by (simp_all add: unpack_arith kind_of_def length_of_def dtype_of_def rank_of_def enum_of_def kinds_def)
  show ?thesis
    by (rule truthful_writes_converge)
       (simp_all add: u is_valid_word_def hash_type_implies_def is_utf8_def is_json_def)
qed

section \<open>Verdicts never change sides\<close>

lemma implies_cases:
  assumes "hash_type_implies t l"
  shows "t = l \<or> (ht_length t = ht_length l \<and>
    (ht_kind l = UNTESTED \<or> (ht_kind l = UTF8_UNTESTED \<and> is_utf8 t) \<or> (ht_kind l = JSON_UNTESTED \<and> is_json t)))"
  using assms by (auto simp: hash_type_implies_def split: if_splits)

lemma utf8_facts:
  "is_utf8 h \<Longrightarrow> ht_kind h \<noteq> NUMPY \<and> ht_kind h \<noteq> RAW_BYTES \<and> ht_kind h \<noteq> UNTESTED \<and> \<not> is_mixed h"
  by (auto simp: is_utf8_def is_mixed_def)

lemma json_facts: "is_json h \<Longrightarrow> is_utf8 h \<and> ht_kind h \<noteq> RAW_TEXT"
  by (auto simp: is_json_def is_utf8_def)

lemmas deserializable_simps = deserializable_as_def HASH_TYPE_CELLTYPES_def Let_def

lemma verdict_from_untested:
  assumes "ht_kind l = UNTESTED" "ht_length t = ht_length l"
    and "deserializable_as sha l ct c = Inr (Some v)"
  shows "deserializable_as sha t ct c = Inr (Some v)"
proof -
  have l: "is_untested l" "\<not> is_utf8 l" "\<not> is_json l"
    using assms(1) by (simp_all add: is_untested_def is_utf8_def is_json_def)
  show ?thesis
    using assms l
    by (cases ct; cases "true_checksum sha c \<or> false_checksum sha c")
       (simp_all add: deserializable_simps split: if_splits)
qed

lemma verdict_from_utf8:
  assumes "ht_kind l = UTF8_UNTESTED" "ht_length t = ht_length l" "is_utf8 t"
    and "deserializable_as sha l ct c = Inr (Some v)"
  shows "deserializable_as sha t ct c = Inr (Some v)"
proof -
  have l: "is_untested l" "is_utf8 l" "\<not> is_json l"
    using assms(1) by (simp_all add: is_untested_def is_utf8_def is_json_def)
  show ?thesis
    using assms l utf8_facts [OF assms(3)]
    by (cases ct; cases "true_checksum sha c \<or> false_checksum sha c")
       (simp_all add: deserializable_simps split: if_splits)
qed

lemma verdict_from_json:
  assumes "ht_kind l = JSON_UNTESTED" "ht_length t = ht_length l" "is_json t"
    and "deserializable_as sha l ct c = Inr (Some v)"
  shows "deserializable_as sha t ct c = Inr (Some v)"
proof -
  have l: "is_untested l" "is_utf8 l" "is_json l"
    using assms(1) by (simp_all add: is_untested_def is_utf8_def is_json_def)
  have t: "is_utf8 t" "ht_kind t \<noteq> RAW_TEXT" using json_facts [OF assms(3)] by auto
  show ?thesis
    using assms l t utf8_facts [OF t(1)]
    by (cases ct; cases "true_checksum sha c \<or> false_checksum sha c")
       (simp_all add: deserializable_simps split: if_splits)
qed

lemma verdict_stable:
  "hash_type_implies t l \<Longrightarrow> deserializable_as sha l ct c = Inr (Some v) \<Longrightarrow>
     deserializable_as sha t ct c = Inr (Some v)"
  using implies_cases [of t l] verdict_from_untested verdict_from_utf8 verdict_from_json by metis

text \<open>C6: a definite answer given on loose knowledge is never taken back. If a loose
  description already proves or disproves that a buffer deserializes as a celltype, every
  tighter description of the same buffer gives the same answer.\<close>

theorem deserializable_verdict_stable:
  assumes "hash_type_implies t l" and "deserializable_as sha l ct c = Inr (Some v)"
  shows "deserializable_as sha t ct c = Inr (Some v)"
  using assms by (rule verdict_stable)

theorem deserializable_verdict_stable_witness:
  "deserializable_as pad_sha (HT2 JSON_OBJECT MEDIUM) CtBinary (Checksum []) = Inr (Some False)"
proof (rule deserializable_verdict_stable)
  show "hash_type_implies (HT2 JSON_OBJECT MEDIUM) (HT2 UTF8_UNTESTED MEDIUM)"
    by (simp add: hash_type_implies_def is_utf8_def)
  show "deserializable_as pad_sha (HT2 UTF8_UNTESTED MEDIUM) CtBinary (Checksum []) = Inr (Some False)"
    by code_simp
qed


text \<open>A library for the witnesses: orjson that knows two documents, numpy and json that
  refuse everything, and a \<open>float\<close> that refuses everything.\<close>

definition tiny_lib :: "unit lib" where
  "tiny_lib = \<lparr>orjson_loads = (\<lambda>t. if t = u ''42'' then Inr (VInt 42)
       else if t = u ''{}'' then Inr (VDict []) else Inl ValueError),
     json_loads = (\<lambda>_. Inl ValueError), py_float = (\<lambda>_. Inl ValueError), np_load = (\<lambda>_. Inl ValueError)\<rparr>"


end
