(* ===== verification/ExpressionPath.thy ===== *)
theory ExpressionPath
  imports Conversions
begin

text \<open>
  Expression paths: the parser of \<open>seamless/checksum/expression.py\<close>
  (\<open>parse_path\<close> and its helpers, \<open>validate_expression_shape\<close>), the builders of
  \<open>seamless/expression_class.py\<close> that spell a path, and the application of one step to a
  value. Code points beyond ASCII are classified by the Unicode database (the record
  \<open>unicode\<close>), and \<open>ast.literal_eval\<close> is the argument \<open>leval\<close>.
\<close>

section \<open>Steps\<close>

datatype lit =
    LNone | LBool bool | LInt int | LStr ustr | LBytes bytes | LFloat pyfloat | LTuple "lit list"

datatype path_step =
    Item lit
  | Slice "lit option" "lit option" "lit option"

text \<open>In a slice \<open>None\<close> is the missing part (Python's \<open>None\<close> in a slice).\<close>

section \<open>Character classes\<close>

record unicode =
  uni_alnum :: "nat \<Rightarrow> bool"
  uni_id_start :: "nat \<Rightarrow> bool"
  uni_id_continue :: "nat \<Rightarrow> bool"

definition ascii_alpha :: "nat \<Rightarrow> bool" where
  "ascii_alpha c \<longleftrightarrow> (65 \<le> c \<and> c \<le> 90) \<or> (97 \<le> c \<and> c \<le> 122)"

definition ascii_digit :: "nat \<Rightarrow> bool" where
  "ascii_digit c \<longleftrightarrow> 48 \<le> c \<and> c \<le> 57"

definition isalnum :: "unicode \<Rightarrow> nat \<Rightarrow> bool" where
  "isalnum U c = (if c < 128 then ascii_alpha c \<or> ascii_digit c else uni_alnum U c)"

definition id_start :: "unicode \<Rightarrow> nat \<Rightarrow> bool" where
  "id_start U c = (if c < 128 then ascii_alpha c \<or> c = 95 else uni_id_start U c)"

definition id_continue :: "unicode \<Rightarrow> nat \<Rightarrow> bool" where
  "id_continue U c =
     (if c < 128 then ascii_alpha c \<or> ascii_digit c \<or> c = 95 else uni_id_continue U c)"

fun isidentifier :: "unicode \<Rightarrow> ustr \<Rightarrow> bool" where
  "isidentifier U [] = False"
| "isidentifier U (c # cs) = (id_start U c \<and> list_all (id_continue U) cs)"

text \<open>\<open>path[index] == "_" or path[index].isalnum()\<close>\<close>

definition name_char :: "unicode \<Rightarrow> nat \<Rightarrow> bool" where
  "name_char U c \<longleftrightarrow> c = 95 \<or> isalnum U c"

section \<open>The parser\<close>

text \<open>
  \<open>_find_closing_bracket\<close> on the characters after the opening bracket: the offset of the
  bracket that closes it. \<open>q\<close> is the open quote, \<open>esc\<close> whether the last character
  was a backslash inside it.
\<close>

fun find_closing :: "nat option \<Rightarrow> bool \<Rightarrow> ustr \<Rightarrow> nat option" where
  "find_closing q esc [] = None"
| "find_closing q esc (c # cs) =
     (case q of
        Some d \<Rightarrow>
          map_option Suc
            (if esc then find_closing q False cs
             else if c = 92 then find_closing q True cs
             else if c = d then find_closing None False cs
             else find_closing q False cs)
      | None \<Rightarrow>
          if c = 39 \<or> c = 34 then map_option Suc (find_closing (Some c) esc cs)
          else if c = 93 then Some 0
          else map_option Suc (find_closing None esc cs))"

text \<open>\<open>token.split(":")\<close>\<close>

fun split_colon :: "ustr \<Rightarrow> ustr list" where
  "split_colon [] = [[]]"
| "split_colon (c # cs) =
     (if c = 58 then [] # split_colon cs
      else case split_colon cs of
        p # ps \<Rightarrow> (c # p) # ps
      | [] \<Rightarrow> [[c]])"

text \<open>\<open>except (SyntaxError, ValueError)\<close> around \<open>ast.literal_eval\<close>.\<close>

definition literal :: "(ustr \<Rightarrow> lit result) \<Rightarrow> ustr \<Rightarrow> lit result" where
  "literal leval t =
     (case leval t of
        Inl e \<Rightarrow> if e = SyntaxError \<or> is_ValueError e then Inl ExpressionEvaluationError else Inl e
      | Inr x \<Rightarrow> Inr x)"

fun slice_values :: "(ustr \<Rightarrow> lit result) \<Rightarrow> ustr list \<Rightarrow> lit option list result" where
  "slice_values leval [] = Inr []"
| "slice_values leval (p # ps) =
     (if p = [] then rbind (slice_values leval ps) (\<lambda>vs. Inr (None # vs))
      else rbind (literal leval p) (\<lambda>v. rbind (slice_values leval ps) (\<lambda>vs. Inr (Some v # vs))))"

definition parse_slice :: "(ustr \<Rightarrow> lit result) \<Rightarrow> ustr \<Rightarrow> path_step result" where
  "parse_slice leval token =
     (let parts = split_colon token in
      if length parts > 3 then Inl ExpressionEvaluationError
      else rbind (slice_values leval parts) (\<lambda>vs.
        let vs3 = vs @ replicate (3 - length vs) None
        in Inr (Slice (vs3 ! 0) (vs3 ! 1) (vs3 ! 2))))"

definition parse_bracket_token :: "(ustr \<Rightarrow> lit result) \<Rightarrow> ustr \<Rightarrow> path_step result" where
  "parse_bracket_token leval token =
     (if 58 \<in> set token then parse_slice leval token
      else rbind (literal leval token) (\<lambda>k. Inr (Item k)))"

text \<open>The \<open>while\<close> loop of \<open>parse_path\<close>, on the part of the path from \<open>index\<close> on.\<close>

function parse_path :: "unicode \<Rightarrow> (ustr \<Rightarrow> lit result) \<Rightarrow> ustr \<Rightarrow> path_step list result" where
  "parse_path U leval [] = Inr []"
| "parse_path U leval (c # cs) =
     (if c = 46 then
        let name = takeWhile (name_char U) cs in
        if name = [] \<or> \<not> isidentifier U name then Inl ExpressionEvaluationError
        else rbind (parse_path U leval (dropWhile (name_char U) cs))
          (\<lambda>steps. Inr (Item (LStr name) # steps))
      else if c = 91 then
        (case find_closing None False cs of
           None \<Rightarrow> Inl ExpressionEvaluationError
         | Some k \<Rightarrow>
             rbind (parse_bracket_token leval (take k cs)) (\<lambda>step.
               rbind (parse_path U leval (drop (Suc k) cs)) (\<lambda>steps. Inr (step # steps))))
      else
        let name = takeWhile (name_char U) (c # cs) in
        if name = [] \<or> \<not> isidentifier U name then Inl ExpressionEvaluationError
        else rbind (parse_path U leval (dropWhile (name_char U) (c # cs)))
          (\<lambda>steps. Inr (Item (LStr name) # steps)))"
  by pat_completeness auto
termination
proof (relation "measure (\<lambda>(U, leval, p). length p)", goal_cases)
  case 1
  show ?case by simp
next
  case (2 U leval c cs x)
  then show ?case by (simp add: le_imp_less_Suc length_dropWhile_le)
next
  case (3 U leval c cs k step)
  then show ?case by simp
next
  case (4 U leval c cs x)
  then have "name_char U c" by (cases "name_char U c") auto
  then show ?case by (simp add: le_imp_less_Suc length_dropWhile_le)
qed

declare parse_path.simps(2) [simp del]

section \<open>Spelling a path\<close>

text \<open>\<open>py_repr\<close> is the built-in \<open>repr\<close> of a key.\<close>

definition append_item_path :: "unicode \<Rightarrow> (lit \<Rightarrow> ustr) \<Rightarrow> ustr \<Rightarrow> lit \<Rightarrow> ustr" where
  "append_item_path U py_repr path key =
     (case key of
        LStr s \<Rightarrow>
          if isidentifier U s then path @ (if path \<noteq> [] then [46] else []) @ s
          else path @ [91] @ py_repr key @ [93]
      | _ \<Rightarrow> path @ [91] @ py_repr key @ [93])"

definition join_colon :: "ustr list \<Rightarrow> ustr" where
  "join_colon ps = concat (map (\<lambda>p. [58] @ p) ps)"

definition append_slice_path ::
  "(lit \<Rightarrow> ustr) \<Rightarrow> ustr \<Rightarrow> lit option \<Rightarrow> lit option \<Rightarrow> lit option \<Rightarrow> ustr" where
  "append_slice_path py_repr path start stop step =
     (let part = (\<lambda>x. case x of None \<Rightarrow> [] | Some l \<Rightarrow> py_repr l);
          parts = [part start, part stop] @ (case step of None \<Rightarrow> [] | Some l \<Rightarrow> [py_repr l])
      in path @ [91] @ tl (join_colon parts) @ [93])"

text \<open>How \<open>Expression.__post_init__\<close> joins the path of its source and its own.\<close>

definition fuse_paths :: "ustr \<Rightarrow> ustr \<Rightarrow> ustr" where
  "fuse_paths ref_path path =
     ref_path @ (if ref_path \<noteq> [] \<and> path \<noteq> [] \<and> hd path \<notin> {46, 91} then 46 # path else path)"

section \<open>The shape of an expression\<close>

definition DEEP_CELLTYPES :: "celltype list" where
  "DEEP_CELLTYPES = [CtDeepcell, CtDeepfolder, CtFolder]"

definition DEEP_FREE_CONVERSIONS :: "conv list" where
  "DEEP_FREE_CONVERSIONS = [(CtDeepcell, CtPlain), (CtDeepfolder, CtPlain), (CtFolder, CtDeepfolder),
     (CtDeepfolder, CtFolder), (CtDeepcell, CtDeepfolder)]"

definition is_str_key :: "path_step \<Rightarrow> bool" where
  "is_str_key st = (case st of Item (LStr _) \<Rightarrow> True | _ \<Rightarrow> False)"

fun check_steps :: "celltype \<Rightarrow> path_step list \<Rightarrow> unit result" where
  "check_steps current [] = Inr ()"
| "check_steps current (st # steps) =
     (if current \<in> {CtPlain, CtMixed, CtBinary} then Inr ()
      else if current \<in> {CtInt, CtFloat, CtBool, CtChecksum} \<or> is_str_key st then Inl ValueError
      else check_steps
        (if current = CtBytes \<and> (case st of Item _ \<Rightarrow> True | _ \<Rightarrow> False) then CtInt else current) steps)"

definition validate_expression_shape ::
  "unicode \<Rightarrow> (ustr \<Rightarrow> lit result) \<Rightarrow> ustr \<Rightarrow> celltype \<Rightarrow> celltype \<Rightarrow> unit result" where
  "validate_expression_shape U leval path source target =
     (if source \<notin> set celltypes \<union> set DEEP_CELLTYPES \<or> target \<notin> set celltypes \<union> set DEEP_CELLTYPES
      then Inl ValueError
      else case parse_path U leval path of
        Inl e \<Rightarrow> if e = SyntaxError \<or> e = TypeError then Inl ValueError else Inl e
      | Inr steps \<Rightarrow>
          let deep = source \<in> set DEEP_CELLTYPES \<or> target \<in> set DEEP_CELLTYPES in
          if steps = [] then
            (let legal = (if deep then source = target \<or> (source, target) \<in> set DEEP_FREE_CONVERSIONS
                            \<or> (source, target) = (CtFolder, CtMixed)
                          else (source, target) \<notin> set conversion_forbidden)
             in if legal then Inr () else Inl ValueError)
          else if deep then
            (let member = (if source = CtDeepcell then CtMixed else CtBytes) in
             if source \<notin> set DEEP_CELLTYPES \<or> length steps \<noteq> 1 \<or> \<not> is_str_key (hd steps)
               \<or> target \<notin> {member, CtChecksum}
             then Inl ValueError else Inr ())
          else check_steps source steps)"

section \<open>Reading back what was spelled\<close>

lemma name_char_sep [simp]: "\<not> name_char U 46" "\<not> name_char U 91"
  by (simp_all add: name_char_def isalnum_def ascii_alpha_def ascii_digit_def)

lemma find_closing_append:
  "find_closing q esc p = Some k \<Longrightarrow> find_closing q esc (p @ rest) = Some k"
  by (induction q esc p arbitrary: k rule: find_closing.induct)
     (auto split: option.splits if_splits)

lemma find_closing_less: "find_closing q esc p = Some k \<Longrightarrow> k < length p"
  by (induction q esc p arbitrary: k rule: find_closing.induct)
     (auto split: option.splits if_splits)

definition path_boundary :: "ustr \<Rightarrow> bool" where
  "path_boundary rest \<longleftrightarrow> rest = [] \<or> hd rest = 46 \<or> hd rest = 91"

lemma takeWhile_boundary:
  "path_boundary rest \<Longrightarrow> takeWhile (name_char U) (p @ rest) = takeWhile (name_char U) p"
  by (induction p) (cases rest; auto simp: path_boundary_def)+

lemma dropWhile_boundary:
  "path_boundary rest \<Longrightarrow> dropWhile (name_char U) (p @ rest) = dropWhile (name_char U) p @ rest"
  by (induction p) (cases rest; auto simp: path_boundary_def)+

lemma parse_path_append:
  "parse_path U leval p = Inr s \<Longrightarrow> path_boundary rest \<Longrightarrow>
     parse_path U leval (p @ rest) = rbind (parse_path U leval rest) (\<lambda>t. Inr (s @ t))"
proof (induction U leval p arbitrary: s rule: parse_path.induct)
  case (1 U leval)
  then show ?case by (cases "parse_path U leval rest") auto
next
  case (2 U leval c cs)
  consider "c = 46" | "c = 91" | "c \<noteq> 46" "c \<noteq> 91" by blast
  then show ?case
  proof cases
    case 1
    with 2(4) obtain t where ok: "takeWhile (name_char U) cs \<noteq> []"
        "isidentifier U (takeWhile (name_char U) cs)"
        "parse_path U leval (dropWhile (name_char U) cs) = Inr t"
        "s = Item (LStr (takeWhile (name_char U) cs)) # t"
      by (auto simp: parse_path.simps(2) Let_def rbind_Inr_iff split: if_splits)
    from 2(1) [OF 1 refl _ ok(3) 2(5)] ok(1,2)
    have "parse_path U leval (dropWhile (name_char U) cs @ rest) =
        rbind (parse_path U leval rest) (\<lambda>u. Inr (t @ u))" by blast
    with ok 1 2(5) show ?thesis
      by (cases "parse_path U leval rest")
         (simp_all add: parse_path.simps(2) Let_def takeWhile_boundary dropWhile_boundary)
  next
    case c: 2
    with 2(4) obtain k st t where ok: "find_closing None False cs = Some k"
        "parse_bracket_token leval (take k cs) = Inr st"
        "parse_path U leval (drop (Suc k) cs) = Inr t" "s = st # t"
      by (auto simp: parse_path.simps(2) Let_def rbind_Inr_iff split: option.splits)
    from 2(2) [OF _ c ok(1) ok(3) 2(5)] c
    have ih: "parse_path U leval (drop (Suc k) cs @ rest) =
        rbind (parse_path U leval rest) (\<lambda>u. Inr (t @ u))" by simp
    from find_closing_less [OF ok(1)] ok c ih find_closing_append [OF ok(1), of rest]
    show ?thesis
      by (cases "parse_path U leval rest") (simp_all add: parse_path.simps(2))
  next
    case 3
    with 2(4) obtain t where ok: "takeWhile (name_char U) (c # cs) \<noteq> []"
        "isidentifier U (takeWhile (name_char U) (c # cs))"
        "parse_path U leval (dropWhile (name_char U) (c # cs)) = Inr t"
        "s = Item (LStr (takeWhile (name_char U) (c # cs))) # t"
      by (auto simp: parse_path.simps(2) Let_def rbind_Inr_iff split: if_splits)
    from 2(3) [OF 3 refl _ ok(3) 2(5)] ok(1,2)
    have ih: "parse_path U leval (dropWhile (name_char U) (c # cs) @ rest) =
        rbind (parse_path U leval rest) (\<lambda>u. Inr (t @ u))" by blast
    have w: "takeWhile (name_char U) (c # cs @ rest) = takeWhile (name_char U) (c # cs)"
      "dropWhile (name_char U) (c # cs @ rest) = dropWhile (name_char U) (c # cs) @ rest"
      using takeWhile_boundary [OF 2(5), of U "c # cs"] dropWhile_boundary [OF 2(5), of U "c # cs"]
      by simp_all
    have "parse_path U leval ((c # cs) @ rest) =
        rbind (parse_path U leval (dropWhile (name_char U) (c # cs) @ rest))
          (\<lambda>u. Inr (Item (LStr (takeWhile (name_char U) (c # cs))) # u))"
      using 3 ok(1,2) w by (simp add: parse_path.simps(2) Let_def)
    with ih ok(4) show ?thesis by (cases "parse_path U leval rest") simp_all
  qed
qed

lemma parse_path_dot: "p \<noteq> [] \<Longrightarrow> \<not> path_boundary p \<Longrightarrow> parse_path U leval (46 # p) = parse_path U leval p"
  by (cases p) (auto simp: path_boundary_def parse_path.simps(2))

text \<open>What \<open>repr\<close> and \<open>ast.literal_eval\<close> promise on a key that is spelled in brackets:
  the closing bracket that follows is the first one outside quotes, and reading gives the key back.\<close>

definition spells :: "(ustr \<Rightarrow> lit result) \<Rightarrow> (lit \<Rightarrow> ustr) \<Rightarrow> lit \<Rightarrow> bool" where
  "spells leval py_repr k \<longleftrightarrow> leval (py_repr k) = Inr k
     \<and> find_closing None False (py_repr k @ [93]) = Some (length (py_repr k))"

lemma parse_bracketed:
  assumes "find_closing None False (t @ [93]) = Some (length t)"
  shows "parse_path U leval (91 # t @ [93]) =
    rbind (parse_bracket_token leval t) (\<lambda>st. Inr [st])"
  using assms by (cases "parse_bracket_token leval t") (simp_all add: parse_path.simps(2))

lemma parse_item_bracketed:
  assumes "spells leval py_repr k" and "58 \<notin> set (py_repr k)"
  shows "parse_path U leval (91 # py_repr k @ [93]) = Inr [Item k]"
  using assms by (simp add: spells_def parse_bracketed parse_bracket_token_def literal_def)

lemma parse_identifier:
  assumes "isidentifier U s" and "list_all (name_char U) s"
  shows "parse_path U leval s = Inr [Item (LStr s)]"
    and "parse_path U leval (46 # s) = Inr [Item (LStr s)]"
proof -
  from assms(1) obtain c cs where s: "s = c # cs" by (cases s) auto
  with assms(2) have n: "name_char U c" "list_all (name_char U) cs" by auto
  have "c \<noteq> 46" "c \<noteq> 91" using n(1) by auto
  have w: "takeWhile (name_char U) (c # cs) = s" "dropWhile (name_char U) (c # cs) = []"
    using n s by (simp_all add: takeWhile_eq_all_conv list_all_iff)
  show one: "parse_path U leval s = Inr [Item (LStr s)]"
    unfolding s parse_path.simps(2) Let_def w
    using \<open>c \<noteq> 46\<close> \<open>c \<noteq> 91\<close> assms(1) s by simp
  show "parse_path U leval (46 # s) = Inr [Item (LStr s)]"
    using parse_path_dot [of s U leval] one s \<open>c \<noteq> 46\<close> \<open>c \<noteq> 91\<close>
    by (simp add: path_boundary_def)
qed


text \<open>A digit reader standing for \<open>ast.literal_eval\<close> on concrete paths.\<close>

definition ascii_unicode :: unicode where
  "ascii_unicode = \<lparr>uni_alnum = (\<lambda>_. False), uni_id_start = (\<lambda>_. False), uni_id_continue = (\<lambda>_. False)\<rparr>"

definition digit_leval :: "ustr \<Rightarrow> lit result" where
  "digit_leval t = (case t of
     [c] \<Rightarrow> if ascii_digit c then Inr (LInt (int c - 48)) else Inl SyntaxError
   | _ \<Rightarrow> Inl SyntaxError)"

definition digit_repr :: "lit \<Rightarrow> ustr" where
  "digit_repr k = (case k of LInt i \<Rightarrow> [nat (i + 48)] | LStr s \<Rightarrow> [39] @ s @ [39] | _ \<Rightarrow> [])"


lemma find_closing_plain:
  "list_all (\<lambda>c. c \<notin> {34, 39, 93}) t \<Longrightarrow> find_closing None False (t @ [93]) = Some (length t)"
  by (induction t) auto

lemma split_colon_plain:
  "58 \<notin> set p \<Longrightarrow> split_colon p = [p]"
  "58 \<notin> set p \<Longrightarrow> split_colon (p @ 58 # q) = p # split_colon q"
  by (induction p) auto

text \<open>The spelling of one part of a slice.\<close>

definition slice_part_ok :: "(ustr \<Rightarrow> lit result) \<Rightarrow> (lit \<Rightarrow> ustr) \<Rightarrow> lit option \<Rightarrow> bool" where
  "slice_part_ok leval py_repr x = (case x of None \<Rightarrow> True | Some l \<Rightarrow>
     leval (py_repr l) = Inr l \<and> py_repr l \<noteq> [] \<and> list_all (\<lambda>c. c \<notin> {34, 39, 58, 93}) (py_repr l))"

abbreviation slice_part :: "(lit \<Rightarrow> ustr) \<Rightarrow> lit option \<Rightarrow> ustr" where
  "slice_part py_repr x \<equiv> (case x of None \<Rightarrow> [] | Some l \<Rightarrow> py_repr l)"

lemma slice_part_facts:
  assumes "slice_part_ok leval py_repr x"
  shows "58 \<notin> set (slice_part py_repr x)"
    and "list_all (\<lambda>c. c \<notin> {34, 39, 93}) (slice_part py_repr x)"
    and "slice_values leval (slice_part py_repr x # ps) =
      rbind (slice_values leval ps) (\<lambda>vs. Inr (x # vs))"
  using assms by (cases x; auto simp: slice_part_ok_def list_all_iff literal_def)+

text \<open>Slicing an expression appends a spelling that the parser reads back as the steps of the path
  followed by that slice, missing parts included.\<close>
theorem append_slice_path_roundtrip:
  assumes "parse_path U leval path = Inr steps"
    and "slice_part_ok leval py_repr start" "slice_part_ok leval py_repr stop"
    and "slice_part_ok leval py_repr step"
  shows "parse_path U leval (append_slice_path py_repr path start stop step) =
    Inr (steps @ [Slice start stop step])"
proof -
  note facts = slice_part_facts [OF assms(2)] slice_part_facts [OF assms(3)]
    slice_part_facts [OF assms(4)]
  define t where "t = slice_part py_repr start @ 58 # slice_part py_repr stop @
    (case step of None \<Rightarrow> [] | Some l \<Rightarrow> 58 # py_repr l)"
  have spelled: "append_slice_path py_repr path start stop step = path @ 91 # t @ [93]"
    by (simp add: append_slice_path_def join_colon_def t_def split: option.splits)
  have closed: "find_closing None False (t @ [93]) = Some (length t)"
    using facts by (intro find_closing_plain) (auto simp: t_def split: option.splits)
  have "parse_bracket_token leval t = Inr (Slice start stop step)"
  proof (cases step)
    case None
    then have "split_colon t = [slice_part py_repr start, slice_part py_repr stop]"
      using facts by (simp add: t_def split_colon_plain)
    with None facts show ?thesis
      by (simp add: parse_bracket_token_def parse_slice_def t_def Let_def numeral_3_eq_3)
  next
    case (Some l)
    then have "split_colon t =
        [slice_part py_repr start, slice_part py_repr stop, slice_part py_repr step]"
      using facts by (simp add: t_def split_colon_plain)
    with facts show ?thesis
      by (simp add: parse_bracket_token_def parse_slice_def t_def Let_def numeral_3_eq_3)
  qed
  with parse_bracketed [OF closed, of U leval] parse_path_append [OF assms(1)] spelled
  show ?thesis by (simp add: path_boundary_def)
qed

theorem append_slice_path_roundtrip_witness:
  "parse_path ascii_unicode digit_leval
     (append_slice_path digit_repr [97] None (Some (LInt 4)) (Some (LInt 2))) =
   Inr ([Item (LStr [97])] @ [Slice None (Some (LInt 4)) (Some (LInt 2))])"
  by (rule append_slice_path_roundtrip) code_simp+

text \<open>A key whose \<open>repr\<close> contains a colon is never read back: whatever
  \<open>ast.literal_eval\<close> answers, the parser takes the bracket for a slice, so the path that
  \<open>append_item_path\<close> spells for it does not address the key.\<close>
theorem colon_key_never_read_back:
  assumes "58 \<in> set (py_repr key)"
    and "case key of LStr s \<Rightarrow> \<not> isidentifier U s | _ \<Rightarrow> True"
    and "find_closing None False (py_repr key @ [93]) = Some (length (py_repr key))"
  shows "case parse_path U leval (append_item_path U py_repr [] key) of
      Inl e \<Rightarrow> True
    | Inr steps \<Rightarrow> \<exists>a b c. steps = [Slice a b c]"
proof -
  have "append_item_path U py_repr [] key = 91 # py_repr key @ [93]"
    using assms(2) by (auto simp: append_item_path_def split: lit.splits)
  then show ?thesis
    using assms(1) parse_bracketed [OF assms(3), of U leval]
    by (auto simp: parse_bracket_token_def parse_slice_def Let_def rbind_def split: sum.splits)
qed

theorem colon_key_never_read_back_witness:
  "case parse_path ascii_unicode digit_leval
      (append_item_path ascii_unicode digit_repr [] (LStr [97, 58, 98])) of
      Inl e \<Rightarrow> True | Inr steps \<Rightarrow> \<exists>a b c. steps = [Slice a b c]"
  by (rule colon_key_never_read_back) code_simp+

text \<open>An expression on an expression without a result fuses the two paths; the parser reads the
  fused path as the steps of the inner path followed by the steps of the outer one.\<close>
theorem fuse_paths_parses:
  assumes "parse_path U leval ref_path = Inr s" and "parse_path U leval path = Inr t"
  shows "parse_path U leval (fuse_paths ref_path path) = Inr (s @ t)"
proof (cases "ref_path = [] \<or> path = [] \<or> hd path \<in> {46, 91}")
  case True
  then have e: "fuse_paths ref_path path = ref_path @ path" by (auto simp: fuse_paths_def)
  show ?thesis
  proof (cases "ref_path = []")
    case True
    with assms e show ?thesis by simp
  next
    case False
    with True have "path_boundary path" by (auto simp: path_boundary_def)
    from parse_path_append [OF assms(1) this] assms(2) e show ?thesis by simp
  qed
next
  case False
  then have e: "fuse_paths ref_path path = ref_path @ 46 # path" by (simp add: fuse_paths_def)
  from False have "parse_path U leval (46 # path) = Inr t"
    using parse_path_dot [of path U leval] assms(2) by (simp add: path_boundary_def)
  with parse_path_append [OF assms(1), of "46 # path"] e show ?thesis
    by (simp add: path_boundary_def)
qed

theorem fuse_paths_parses_witness:
  "parse_path ascii_unicode digit_leval (fuse_paths [97, 91, 49, 93] [98]) =
     Inr ([Item (LStr [97]), Item (LInt 1)] @ [Item (LStr [98])])"
  by (rule fuse_paths_parses) code_simp+

end
