(* ===== verification/HashTypeValidation.thy ===== *)
theory HashTypeValidation
  imports HashTypes ExpressionPath
begin

text \<open>
  \<open>seamless/checksum/hash_type_validation.py\<close>: obtaining the HashType of a checksum,
  and refusing the deserializations, path steps and conversions it proves impossible. The
  synchronous variants look in the hash database only outside a running event loop
  (\<open>in_loop\<close>); the asynchronous ones always do.
\<close>

section \<open>Obtaining a HashType\<close>

definition ensure_hash_type ::
  "'nd lib \<Rightarrow> hash_db \<Rightarrow> bool \<Rightarrow> checksum \<Rightarrow> bytes option \<Rightarrow> ht_state \<Rightarrow> hash_type option result \<times> ht_state"
where
  "ensure_hash_type L db in_loop c buf s =
     (case get_hash_type c s of
        Inl e \<Rightarrow> (Inl e, s)
      | Inr (Some h) \<Rightarrow> (Inr (Some h), s)
      | Inr None \<Rightarrow>
          (case buf of
             Some raw \<Rightarrow>
               (case register_hash_type_for_buffer L c raw s of
                  (Inl e, s') \<Rightarrow> (Inl e, s')
                | (Inr h, s') \<Rightarrow> (Inr (Some h), s'))
           | None \<Rightarrow> if in_loop then (Inr None, s) else get_hash_type_remote db c s))"

definition ensure_hash_type_async ::
  "'nd lib \<Rightarrow> hash_db \<Rightarrow> checksum \<Rightarrow> bytes option \<Rightarrow> ht_state \<Rightarrow> hash_type option result \<times> ht_state"
where
  "ensure_hash_type_async L db c buf s =
     (case get_hash_type_remote db c s of
        (Inl e, s') \<Rightarrow> (Inl e, s')
      | (Inr (Some h), s') \<Rightarrow> (Inr (Some h), s')
      | (Inr None, s') \<Rightarrow>
          (case buf of
             None \<Rightarrow> (Inr None, s')
           | Some raw \<Rightarrow>
               (case register_hash_type_for_buffer L c raw s' of
                  (Inl e, s'') \<Rightarrow> (Inl e, s'')
                | (Inr h, s'') \<Rightarrow> (Inr (Some h), s''))))"

section \<open>Deserialization\<close>

definition check_deserializable ::
  "(bytes \<Rightarrow> checksum) \<Rightarrow> checksum \<Rightarrow> celltype \<Rightarrow> hash_type option \<Rightarrow> hash_type option result"
where
  "check_deserializable sha c ct oh =
     (case oh of
        None \<Rightarrow> Inr None
      | Some h \<Rightarrow> rbind (deserializable_as sha h ct c) (\<lambda>v.
          if v = Some False then Inl HashTypeValidationError else Inr (Some h)))"

definition validate_deserializable_as ::
  "(bytes \<Rightarrow> checksum) \<Rightarrow> 'nd lib \<Rightarrow> hash_db \<Rightarrow> bool \<Rightarrow> checksum \<Rightarrow> celltype \<Rightarrow> bytes option \<Rightarrow> ht_state
     \<Rightarrow> hash_type option result \<times> ht_state"
where
  "validate_deserializable_as sha L db in_loop c ct buf s =
     (let (r, s') = ensure_hash_type L db in_loop c buf s
      in (rbind r (check_deserializable sha c ct), s'))"

definition validate_deserializable_as_async ::
  "(bytes \<Rightarrow> checksum) \<Rightarrow> 'nd lib \<Rightarrow> hash_db \<Rightarrow> checksum \<Rightarrow> celltype \<Rightarrow> bytes option \<Rightarrow> ht_state
     \<Rightarrow> hash_type option result \<times> ht_state"
where
  "validate_deserializable_as_async sha L db c ct buf s =
     (let (r, s') = ensure_hash_type_async L db c buf s
      in (rbind r (check_deserializable sha c ct), s'))"

section \<open>Path steps\<close>

definition needed_capability :: "path_step \<Rightarrow> capability" where
  "needed_capability st = (if is_str_key st then MAP else SEQ)"

definition is_int_item :: "path_step \<Rightarrow> bool" where
  "is_int_item st = (case st of Item (LInt _) \<Rightarrow> True | _ \<Rightarrow> False)"

text \<open>The loop over \<open>path_steps\<close> with its two local variables, \<open>caps\<close> and \<open>rank\<close>.\<close>

fun capability_steps :: "hash_type \<Rightarrow> celltype \<Rightarrow> capability set \<Rightarrow> int \<Rightarrow> path_step list \<Rightarrow> unit result" where
  "capability_steps h ct caps rank [] = Inr ()"
| "capability_steps h ct caps rank (st # steps) =
     (if needed_capability st \<notin> caps then Inl HashTypeValidationError
      else case st of
        Slice _ _ _ \<Rightarrow> capability_steps h ct caps rank steps
      | Item _ \<Rightarrow>
          if ct = CtBytes then capability_steps h ct {} rank steps
          else if ct \<in> {CtBinary, CtMixed} \<and> ht_dtype h = NUMERIC \<and> is_int_item st
            \<and> rank < rank_val D3PLUS then
            capability_steps h ct (if rank - 1 > rank_val SCALAR then {SEQ} else {}) (rank - 1) steps
          else Inr ())"

definition validate_path_capability :: "hash_type \<Rightarrow> celltype \<Rightarrow> path_step list \<Rightarrow> unit result" where
  "validate_path_capability h ct steps =
     (if is_untested h then Inr ()
      else rbind (capabilities h ct) (\<lambda>caps. capability_steps h ct caps (rank_val (ht_rank h)) steps))"

section \<open>Conversions\<close>

definition possible_conversion_feasible :: "hash_type \<Rightarrow> celltype \<Rightarrow> celltype \<Rightarrow> bool option" where
  "possible_conversion_feasible h source target =
     (let k = ht_kind h;
          rest = (if target = CtStr \<and> source = CtMixed then
                    (if k \<in> {JSON_OBJECT, JSON_ARRAY} then Some False else Some True)
                  else None)
      in if target \<in> {CtInt, CtFloat} then
           (if k = NUMPY then
              (if ht_rank h \<noteq> SCALAR then Some False
               else if ht_dtype h = NUMERIC then Some True
               else None)
            else if k \<in> {JSON_OBJECT, JSON_ARRAY, MIXED_OBJECT, MIXED_ARRAY, JSON_NULL} then Some False
            else if k = JSON_NUMBER \<or> is_json_numeric_scalar h then Some True
            else if k = JSON_STRING then None
            else rest)
         else rest)"

definition value_conversion_feasible :: "hash_type \<Rightarrow> celltype \<Rightarrow> celltype \<Rightarrow> bool option" where
  "value_conversion_feasible h source target =
     (if source = CtChecksum then None
      else if source = CtPlain \<and> target = CtBinary \<and> ht_kind h = JSON_OBJECT then Some False
      else if source = CtBinary \<and> target = CtPlain \<and> ht_dtype h \<in> {NUMERIC, STRUCTURED} then Some True
      else None)"

text \<open>
  The two functions call each other. Their recursion follows the chain table under the
  pair's equivalent, but keeps the pair's own source celltype: \<open>feas_depth\<close> bounds it.
\<close>

fun feas_depth :: "nat \<Rightarrow> conv \<Rightarrow> nat" where
  "feas_depth 0 c = 0"
| "feas_depth (Suc n) (a, c) =
     (if a = c then 0
      else case dget conversion_chain (conversion_equivalent_get (a, c)) of
        None \<Rightarrow> 0
      | Some b \<Rightarrow> Suc (max (feas_depth n (a, b)) (feas_depth n (b, c))))"

definition feas_rank :: "conv \<Rightarrow> nat" where
  "feas_rank c = feas_depth 6 c"

definition feas_rank_ok :: "conv \<Rightarrow> bool" where
  "feas_rank_ok c = (case dget conversion_chain (conversion_equivalent_get c) of
     None \<Rightarrow> True
   | Some b \<Rightarrow> feas_rank (fst c, b) < feas_rank c \<and> feas_rank (b, snd c) < feas_rank c)"

lemma feas_rank_table: "list_all feas_rank_ok (dkeys conversion_equivalent @ dkeys conversion_chain)"
  by code_simp

lemma feas_rank_decreases:
  assumes "dget conversion_chain (conversion_equivalent_get (a, c)) = Some b"
  shows "feas_rank (a, b) < feas_rank (a, c)" and "feas_rank (b, c) < feas_rank (a, c)"
proof -
  have "(a, c) \<in> set (dkeys conversion_equivalent @ dkeys conversion_chain)"
  proof (cases "dget conversion_equivalent (a, c)")
    case None
    then have "conversion_equivalent_get (a, c) = (a, c)" by (simp add: conversion_equivalent_get_def)
    with assms show ?thesis by (auto dest!: map_of_SomeD intro: rev_image_eqI)
  next
    case (Some e)
    then show ?thesis by (auto dest!: map_of_SomeD intro: rev_image_eqI)
  qed
  with feas_rank_table have "feas_rank_ok (a, c)" by (auto simp: list_all_iff)
  with assms show "feas_rank (a, b) < feas_rank (a, c)" and "feas_rank (b, c) < feas_rank (a, c)"
    by (simp_all add: feas_rank_ok_def)
qed

fun ht_arg_type :: "ht_arg \<Rightarrow> hash_type result" where
  "ht_arg_type (ArgHT h) = Inr h"
| "ht_arg_type (ArgWord w) = unpack w"

function conversion_feasible ::
    "(bytes \<Rightarrow> checksum) \<Rightarrow> ht_arg \<Rightarrow> celltype \<Rightarrow> celltype \<Rightarrow> checksum \<Rightarrow> bool option result"
  and chain_conversion_feasible ::
    "(bytes \<Rightarrow> checksum) \<Rightarrow> hash_type \<Rightarrow> celltype \<Rightarrow> celltype \<Rightarrow> checksum \<Rightarrow> bool option result"
where
  "conversion_feasible sha a source target c =
     (if source \<notin> set HASH_TYPE_CELLTYPES \<or> target \<notin> set HASH_TYPE_CELLTYPES then Inl ValueError
      else if source = target then Inr (Some True)
      else
        let conv = conversion_equivalent_get (source, target) in
        if conv \<in> set conversion_forbidden then Inr (Some False)
        else if is_null_value sha (ArgChecksum c) then Inr (Some True)
        else rbind (ht_arg_type a) (\<lambda>h. rbind (deserializable_as sha h source c) (\<lambda>v.
          if v = Some False then Inr (Some False)
          else if target = CtChecksum then Inr (Some True)
          else if conv \<in> set (dkeys conversion_chain) then chain_conversion_feasible sha h source target c
          else if conv \<in> set conversion_trivial \<or> conv \<in> set conversion_reformat then Inr (Some True)
          else if conv \<in> set conversion_reinterpret then deserializable_as sha h target c
          else if conv \<in> set conversion_possible then
            (if is_untested h then Inr None else Inr (possible_conversion_feasible h source target))
          else if conv \<in> set conversion_values then
            (if is_untested h then Inr None else Inr (value_conversion_feasible h source target))
          else Inr None)))"
| "chain_conversion_feasible sha h source target c =
     (case dget conversion_chain (conversion_equivalent_get (source, target)) of
        None \<Rightarrow> Inl KeyError
      | Some mid \<Rightarrow>
          rbind (conversion_feasible sha (ArgHT h) source mid c) (\<lambda>first.
            if first = Some False then Inr (Some False)
            else if conversion_equivalent_get (source, mid) \<notin> set conversion_trivial
              \<and> conversion_equivalent_get (source, mid) \<notin> set conversion_reinterpret then Inr None
            else
              rbind (conversion_feasible sha (ArgHT h) mid target c) (\<lambda>second.
                if second = Some False then Inr (Some False)
                else if conversion_equivalent_get (mid, target) \<in> set conversion_trivial
                  \<or> conversion_equivalent_get (mid, target) \<in> set conversion_reformat then Inr first
                else Inr None)))"
  by pat_completeness auto
termination
  by (relation "measure (\<lambda>x. case x of
        Inl (_, _, a, b, _) \<Rightarrow> 2 * feas_rank (a, b) + 1
      | Inr (_, _, a, b, _) \<Rightarrow> 2 * feas_rank (a, b))")
     (auto dest: feas_rank_decreases)

declare conversion_feasible.simps [simp del] chain_conversion_feasible.simps [simp del]

section \<open>Expressions\<close>

definition STRUCTURAL_CELLTYPES :: "celltype list" where
  "STRUCTURAL_CELLTYPES = [CtDeepcell, CtDeepfolder, CtFolder, CtModule]"

text \<open>What both variants do once the HashType of the source is known.\<close>

definition check_expression ::
  "(bytes \<Rightarrow> checksum) \<Rightarrow> checksum \<Rightarrow> celltype \<Rightarrow> path_step list \<Rightarrow> celltype \<Rightarrow> hash_type option
     \<Rightarrow> hash_type option result"
where
  "check_expression sha c source steps target oh =
     (case oh of
        None \<Rightarrow> Inr None
      | Some h \<Rightarrow> rbind (validate_path_capability h source steps) (\<lambda>_.
          if steps = [] then
            rbind (conversion_feasible sha (ArgHT h) source target c) (\<lambda>v.
              if v = Some False then Inl HashTypeValidationError else Inr (Some h))
          else Inr (Some h)))"

definition structural_pair :: "celltype \<Rightarrow> celltype \<Rightarrow> bool" where
  "structural_pair source target \<longleftrightarrow>
     source \<notin> set HASH_TYPE_CELLTYPES \<or> target \<notin> set HASH_TYPE_CELLTYPES"

definition unknown_celltype :: "celltype \<Rightarrow> bool" where
  "unknown_celltype ct \<longleftrightarrow> ct \<notin> set HASH_TYPE_CELLTYPES \<union> set STRUCTURAL_CELLTYPES"

definition validate_expression ::
  "(bytes \<Rightarrow> checksum) \<Rightarrow> 'nd lib \<Rightarrow> hash_db \<Rightarrow> bool \<Rightarrow> checksum \<Rightarrow> bytes option \<Rightarrow> celltype
     \<Rightarrow> path_step list \<Rightarrow> celltype \<Rightarrow> ht_state \<Rightarrow> hash_type option result \<times> ht_state"
where
  "validate_expression sha L db in_loop c buf source steps target s =
     (if structural_pair source target then
        (if unknown_celltype source \<or> unknown_celltype target then (Inl ValueError, s)
         else ensure_hash_type L db in_loop c buf s)
      else
        let (r, s') = validate_deserializable_as sha L db in_loop c source buf s
        in (rbind r (check_expression sha c source steps target), s'))"

definition validate_expression_async ::
  "(bytes \<Rightarrow> checksum) \<Rightarrow> 'nd lib \<Rightarrow> hash_db \<Rightarrow> checksum \<Rightarrow> bytes option \<Rightarrow> celltype
     \<Rightarrow> path_step list \<Rightarrow> celltype \<Rightarrow> ht_state \<Rightarrow> hash_type option result \<times> ht_state"
where
  "validate_expression_async sha L db c buf source steps target s =
     (if structural_pair source target then
        (if unknown_celltype source \<or> unknown_celltype target then (Inl ValueError, s)
         else ensure_hash_type_async L db c buf s)
      else
        let (r, s') = validate_deserializable_as_async sha L db c source buf s
        in (rbind r (check_expression sha c source steps target), s'))"

section \<open>Only what is proved impossible is refused\<close>

lemma implies_tested: "hash_type_implies t l \<Longrightarrow> \<not> is_untested l \<Longrightarrow> t = l"
  by (auto simp: hash_type_implies_def is_untested_def split: if_splits)

lemma deserializable_total:
  "ct \<in> set HASH_TYPE_CELLTYPES \<Longrightarrow> \<exists>v. deserializable_as sha h ct c = Inr v"
  by (simp add: deserializable_as_def)

lemma chain_intermediate_domain:
  assumes "dget conversion_chain p = Some b"
  shows "b \<in> set HASH_TYPE_CELLTYPES"
proof -
  have "list_all (\<lambda>(p, b). b \<in> set HASH_TYPE_CELLTYPES) conversion_chain" by code_simp
  with map_of_SomeD [OF assms] show ?thesis by (auto simp: list_all_iff)
qed

lemma feasible_total:
  "source \<in> set HASH_TYPE_CELLTYPES \<Longrightarrow> target \<in> set HASH_TYPE_CELLTYPES \<Longrightarrow> a = ArgHT g \<Longrightarrow>
     \<exists>v. conversion_feasible sha a source target c = Inr v"
  "source \<in> set HASH_TYPE_CELLTYPES \<Longrightarrow> target \<in> set HASH_TYPE_CELLTYPES \<Longrightarrow>
     dget conversion_chain (conversion_equivalent_get (source, target)) \<noteq> None \<Longrightarrow>
     \<exists>v. chain_conversion_feasible sha h source target c = Inr v"
proof (induction sha a source target c and sha h source target c arbitrary: g
    rule: conversion_feasible_chain_conversion_feasible.induct)
  case (1 sha a source target c)
  obtain v where v: "deserializable_as sha g source c = Inr v"
    using deserializable_total [OF 1(2)] by blast
  obtain w where w: "deserializable_as sha g target c = Inr w"
    using deserializable_total [OF 1(3)] by blast
  have chain: "\<exists>r. chain_conversion_feasible sha g source target c = Inr r"
    if "source \<noteq> target" "conversion_equivalent_get (source, target) \<notin> set conversion_forbidden"
      "\<not> null_checksum sha c" "v \<noteq> Some False" "target \<noteq> CtChecksum"
      "conversion_equivalent_get (source, target) \<in> set (dkeys conversion_chain)"
  proof -
    from that(6) have k: "dget conversion_chain (conversion_equivalent_get (source, target)) \<noteq> None"
      unfolding dget_None_iff by simp
    show ?thesis using 1(1) [OF _ that(1) refl that(2) _ that(4-6) 1(2,3) k] that(3) 1(2-4) by simp
  qed
  show ?case
    using 1(2-4) v w chain by (subst conversion_feasible.simps) (simp add: Let_def)
next
  case (2 sha h source target c)
  then obtain mid where mid: "dget conversion_chain (conversion_equivalent_get (source, target)) = Some mid"
    by blast
  note dom = chain_intermediate_domain [OF mid]
  obtain v where v: "conversion_feasible sha (ArgHT h) source mid c = Inr v"
    using 2(1) [OF mid 2(3) dom refl] by blast
  show ?case
  proof (cases "v = Some False \<or> (conversion_equivalent_get (source, mid) \<notin> set conversion_trivial
      \<and> conversion_equivalent_get (source, mid) \<notin> set conversion_reinterpret)")
    case True
    then show ?thesis
      by (subst chain_conversion_feasible.simps) (auto simp: mid v)
  next
    case False
    then obtain w where "conversion_feasible sha (ArgHT h) mid target c = Inr w"
      using 2(2) [OF mid _ _ dom 2(4) refl, of v] by blast
    with False mid v show ?thesis
      by (subst chain_conversion_feasible.simps) simp
  qed
qed


lemma infeasible_stable_aux:
  "conversion_feasible sha a source target c = Inr (Some False) \<Longrightarrow> a = ArgHT l \<Longrightarrow>
     hash_type_implies t l \<Longrightarrow> conversion_feasible sha (ArgHT t) source target c = Inr (Some False)"
  "chain_conversion_feasible sha h source target c = Inr (Some False) \<Longrightarrow>
     source \<in> set HASH_TYPE_CELLTYPES \<Longrightarrow> target \<in> set HASH_TYPE_CELLTYPES \<Longrightarrow>
     hash_type_implies t h \<Longrightarrow> chain_conversion_feasible sha t source target c = Inr (Some False)"
proof (induction sha a source target c and sha h source target c arbitrary: l t and t
    rule: conversion_feasible_chain_conversion_feasible.induct)
  case (1 sha a source target c)
  have dom: "source \<in> set HASH_TYPE_CELLTYPES" "target \<in> set HASH_TYPE_CELLTYPES" and ne: "source \<noteq> target"
    using 1(2) by (subst (asm) (1) conversion_feasible.simps; simp split: if_splits)+
  obtain v where v: "deserializable_as sha l source c = Inr v"
    using deserializable_total [OF dom(1)] by blast
  obtain w where w: "deserializable_as sha t source c = Inr w"
    using deserializable_total [OF dom(1)] by blast
  have vw: "v = Some False \<Longrightarrow> w = Some False"
    using verdict_stable [OF 1(4), of sha source c False] v w by simp
  have target: "deserializable_as sha l target c = Inr (Some False) \<Longrightarrow>
      deserializable_as sha t target c = Inr (Some False)"
    by (rule verdict_stable [OF 1(4)])
  have chain: "chain_conversion_feasible sha t source target c = Inr (Some False)"
    if "conversion_equivalent_get (source, target) \<notin> set conversion_forbidden"
      "\<not> null_checksum sha c" "target \<noteq> CtChecksum" "v \<noteq> Some False"
      "conversion_equivalent_get (source, target) \<in> set (dkeys conversion_chain)"
      "chain_conversion_feasible sha l source target c = Inr (Some False)"
    using 1(1) [OF _ ne refl that(1) _ that(4,3,5,6) dom 1(4)] that(2) dom by simp
  define e where "e = conversion_equivalent_get (source, target)"
  have eq: "conversion_feasible sha (ArgHT g) source target c =
     (if e \<in> set conversion_forbidden then Inr (Some False)
      else if null_checksum sha c then Inr (Some True)
      else rbind (deserializable_as sha g source c) (\<lambda>v.
        if v = Some False then Inr (Some False)
        else if target = CtChecksum then Inr (Some True)
        else if e \<in> set (dkeys conversion_chain) then chain_conversion_feasible sha g source target c
        else if e \<in> set conversion_trivial \<or> e \<in> set conversion_reformat then Inr (Some True)
        else if e \<in> set conversion_reinterpret then deserializable_as sha g target c
        else if e \<in> set conversion_possible then
          (if is_untested g then Inr None else Inr (possible_conversion_feasible g source target))
        else if e \<in> set conversion_values then
          (if is_untested g then Inr None else Inr (value_conversion_feasible g source target))
        else Inr None))" for g
    using dom ne by (subst conversion_feasible.simps) (simp add: Let_def e_def)
  note prem = 1(2) [unfolded 1(3) eq v]
  show ?case
    unfolding eq w using prem vw target chain [folded e_def] implies_tested [OF 1(4)]
    by (cases "e \<in> set conversion_forbidden"; cases "null_checksum sha c"; cases "w = Some False")
       (simp_all split: if_splits)
next
  case (2 sha h source target c)
  obtain mid where mid: "dget conversion_chain (conversion_equivalent_get (source, target)) = Some mid"
    using 2(3) by (subst (asm) chain_conversion_feasible.simps) (auto split: option.splits)
  note dom = chain_intermediate_domain [OF mid]
  define soft where "soft \<longleftrightarrow> conversion_equivalent_get (source, mid) \<notin> set conversion_trivial
    \<and> conversion_equivalent_get (source, mid) \<notin> set conversion_reinterpret"
  obtain v1 v2 w1 w2 where v: "conversion_feasible sha (ArgHT h) source mid c = Inr v1"
      "conversion_feasible sha (ArgHT h) mid target c = Inr v2"
      "conversion_feasible sha (ArgHT t) source mid c = Inr w1"
      "conversion_feasible sha (ArgHT t) mid target c = Inr w2"
    using feasible_total(1) [OF _ _ refl] 2(4,5) dom by metis
  have eq: "chain_conversion_feasible sha g source target c =
      rbind (conversion_feasible sha (ArgHT g) source mid c) (\<lambda>first.
        if first = Some False then Inr (Some False)
        else if soft then Inr None
        else rbind (conversion_feasible sha (ArgHT g) mid target c) (\<lambda>second.
          if second = Some False then Inr (Some False)
          else if conversion_equivalent_get (mid, target) \<in> set conversion_trivial
            \<or> conversion_equivalent_get (mid, target) \<in> set conversion_reformat then Inr first
          else Inr None))" for g
    by (subst chain_conversion_feasible.simps) (simp only: mid soft_def option.case)
  have "v1 = Some False \<Longrightarrow> w1 = Some False"
    using 2(1) [OF mid _ refl 2(6)] v by simp
  moreover have "\<not> soft \<Longrightarrow> v1 \<noteq> Some False \<Longrightarrow> v2 = Some False \<Longrightarrow> w2 = Some False"
    using 2(2) [OF mid _ _ _ refl 2(6), of v1] v unfolding soft_def by simp
  ultimately show ?case
    using 2(3) v unfolding eq by (auto split: if_splits)
qed


lemma check_deserializable_stable:
  assumes "check_deserializable sha c ct (Some l) = Inl HashTypeValidationError"
    and "hash_type_implies t l"
  shows "check_deserializable sha c ct (Some t) = Inl HashTypeValidationError"
proof -
  have "deserializable_as sha l ct c = Inr (Some False)"
    using assms(1) by (auto simp: check_deserializable_def rbind_Inl_iff deserializable_as_def split: if_splits)
  from verdict_stable [OF assms(2) this] show ?thesis by (simp add: check_deserializable_def)
qed

lemma check_expression_stable:
  assumes "check_expression sha c source steps target (Some l) = Inl HashTypeValidationError"
    and "hash_type_implies t l" and "\<not> structural_pair source target"
    and "is_untested l \<Longrightarrow> validate_path_capability t source steps = Inr ()"
  shows "check_expression sha c source steps target (Some t) = Inl HashTypeValidationError"
proof (cases "is_untested l")
  case False
  with implies_tested [OF assms(2)] assms(1) show ?thesis by simp
next
  case True
  have dom: "source \<in> set HASH_TYPE_CELLTYPES" "target \<in> set HASH_TYPE_CELLTYPES"
    using assms(3) by (auto simp: structural_pair_def)
  obtain v where v: "conversion_feasible sha (ArgHT l) source target c = Inr v"
    using feasible_total(1) [OF dom refl] by blast
  have "steps = []" "v = Some False"
    using assms(1) True v
    by (auto simp: check_expression_def validate_path_capability_def split: if_splits)
  with v have "conversion_feasible sha (ArgHT t) source target c = Inr (Some False)"
    using infeasible_stable_aux(1) [OF _ refl assms(2)] by simp
  with \<open>steps = []\<close> assms(4) [OF True] show ?thesis by (simp add: check_expression_def)
qed

text \<open>What the process knows of a checksum is true of a buffer's own classification.\<close>

definition true_word :: "hash_type \<Rightarrow> int \<Rightarrow> bool" where
  "true_word truth w \<longleftrightarrow> (case unpack w of Inr h \<Rightarrow> hash_type_implies truth h | Inl _ \<Rightarrow> False)"

definition knowledge_true ::
  "'nd lib \<Rightarrow> hash_db \<Rightarrow> checksum \<Rightarrow> bytes option \<Rightarrow> ht_state \<Rightarrow> hash_type \<Rightarrow> bool" where
  "knowledge_true L db c buf s truth \<longleftrightarrow>
     (case dget (ht_cache s) c of None \<Rightarrow> True | Some w \<Rightarrow> true_word truth w) \<and>
     (case db of None \<Rightarrow> True
      | Some ask \<Rightarrow> (case ask c of None \<Rightarrow> True | Some w \<Rightarrow> true_word truth w)) \<and>
     (case buf of None \<Rightarrow> True | Some raw \<Rightarrow> from_buffer L raw = Inr truth)"

lemma enum_of_error: "enum_of val xs n = Inl e \<Longrightarrow> e = ValueError"
  by (auto simp: enum_of_def split: list.splits)

lemma unpack_error: "unpack w = Inl e \<Longrightarrow> e = ValueError"
  by (auto simp: unpack_def kind_of_def length_of_def dtype_of_def rank_of_def rbind_Inl_iff
      dest: enum_of_error split: if_splits)

lemma store_hash_type_error: "store_hash_type c w b s = (Inl e, s') \<Longrightarrow> e = RuntimeError"
  by (auto simp: store_hash_type_def upload_hash_type_def Let_def split: if_splits)

lemma set_hash_type_error:
  "set_hash_type c a b s = (Inl e, s') \<Longrightarrow> e = ValueError \<or> e = RuntimeError"
  unfolding set_hash_type_def Let_def
  by (auto dest: unpack_error store_hash_type_error split: if_splits option.splits sum.splits)

lemma get_hash_type_error: "get_hash_type c s = Inl e \<Longrightarrow> e = ValueError"
  by (auto simp: get_hash_type_def rbind_Inl_iff dest: unpack_error split: option.splits)

lemma get_hash_type_true:
  assumes "case dget (ht_cache s) c of None \<Rightarrow> True | Some w \<Rightarrow> true_word truth w"
    and "get_hash_type c s = Inr (Some h)"
  shows "hash_type_implies truth h"
  using assms by (auto simp: get_hash_type_def true_word_def rbind_Inr_iff split: option.splits)

lemma get_hash_type_None: "get_hash_type c s = Inr None \<Longrightarrow> dget (ht_cache s) c = None"
  by (auto simp: get_hash_type_def rbind_Inr_iff split: option.splits)

lemma set_new_then_get:
  assumes "dget (ht_cache s) c = None" and "set_hash_type c (ArgWord w) b s = (Inr x, s')"
  shows "dget (ht_cache s') c = Some w"
  using assms by (auto simp: set_hash_type_def store_hash_type_def Let_def upload_hash_type_def split: if_splits)

definition obtained_true :: "hash_type \<Rightarrow> hash_type option result \<Rightarrow> bool" where
  "obtained_true truth r \<longleftrightarrow> (case r of
     Inl e \<Rightarrow> e \<noteq> HashTypeValidationError
   | Inr None \<Rightarrow> True
   | Inr (Some h) \<Rightarrow> hash_type_implies truth h)"

lemma remote_true:
  assumes "knowledge_true L db c buf s truth" and "get_hash_type_remote db c s = (r, s')"
  shows "r \<noteq> Inl HashTypeValidationError"
    and "r = Inr (Some h) \<Longrightarrow> hash_type_implies truth h"
proof -
  have local: "case dget (ht_cache s) c of None \<Rightarrow> True | Some w \<Rightarrow> true_word truth w"
    using assms(1) by (simp add: knowledge_true_def)
  have got: "hash_type_implies truth h"
    if "get_hash_type c s = Inr None" "db = Some ask" "ask c = Some w"
      "set_hash_type c (ArgWord w) False s = (Inr x, s'')" "get_hash_type c s'' = Inr (Some h)" for ask w x s'' h
  proof (rule get_hash_type_true [OF _ that(5)])
    show "case dget (ht_cache s'') c of None \<Rightarrow> True | Some w \<Rightarrow> true_word truth w"
      using set_new_then_get [OF get_hash_type_None [OF that(1)] that(4)] assms(1) that(2,3)
      by (simp add: knowledge_true_def)
  qed
  show "r \<noteq> Inl HashTypeValidationError"
    using assms(2) unfolding get_hash_type_remote_def
    by (auto dest!: get_hash_type_error set_hash_type_error split: sum.splits option.splits prod.splits)
  show "r = Inr (Some h) \<Longrightarrow> hash_type_implies truth h"
    using assms(2) got get_hash_type_true [OF local] unfolding get_hash_type_remote_def
    by (auto split: sum.splits option.splits prod.splits)
qed

lemma implies_refl: "hash_type_implies h h"
  by (simp add: hash_type_implies_def is_utf8_def is_json_def)

lemma register_true:
  assumes "from_buffer L raw = Inr truth" and "register_hash_type_for_buffer L c raw s = (r, s')"
  shows "r \<noteq> Inl HashTypeValidationError" and "r = Inr h \<Longrightarrow> h = truth"
  using assms unfolding register_hash_type_for_buffer_def
  by (auto dest!: set_hash_type_error split: prod.splits sum.splits)

lemma remote_obtained:
  "knowledge_true L db c buf s truth \<Longrightarrow> get_hash_type_remote db c s = (r, s') \<Longrightarrow> obtained_true truth r"
  using remote_true [of L db c buf s truth r s']
  by (auto simp: obtained_true_def split: sum.splits option.splits)

lemma register_obtained:
  "from_buffer L raw = Inr truth \<Longrightarrow> register_hash_type_for_buffer L c raw s = (r, s') \<Longrightarrow>
     obtained_true truth (rbind r (\<lambda>h. Inr (Some h)))"
  using register_true [of L raw truth c s r s'] by (cases r) (auto simp: obtained_true_def implies_refl)

lemma ensure_true:
  assumes "knowledge_true L db c buf s truth"
  shows "obtained_true truth (fst (ensure_hash_type L db in_loop c buf s))"
    and "obtained_true truth (fst (ensure_hash_type_async L db c buf s))"
proof -
  have local: "case dget (ht_cache s) c of None \<Rightarrow> True | Some w \<Rightarrow> true_word truth w"
    and raw: "\<And>b. buf = Some b \<Longrightarrow> from_buffer L b = Inr truth"
    using assms by (auto simp: knowledge_true_def)
  have reg: "obtained_true truth (rbind (fst (register_hash_type_for_buffer L c b t)) (\<lambda>h. Inr (Some h)))"
    if "buf = Some b" for b t
    using register_obtained [OF raw [OF that]] by (metis prod.collapse)
  have rem: "obtained_true truth (fst (get_hash_type_remote db c s))"
    using remote_obtained [OF assms] by (metis prod.collapse)
  show "obtained_true truth (fst (ensure_hash_type L db in_loop c buf s))"
  proof (cases "get_hash_type c s")
    case (Inl e)
    then show ?thesis
      using get_hash_type_error by (fastforce simp: ensure_hash_type_def obtained_true_def)
  next
    case (Inr oh)
    show ?thesis
    proof (cases oh)
      case None
      show ?thesis
      proof (cases buf)
        case None
        with \<open>oh = None\<close> Inr rem show ?thesis by (simp add: ensure_hash_type_def obtained_true_def)
      next
        case (Some b)
        with \<open>oh = None\<close> Inr reg [OF Some, of s] show ?thesis
          by (auto simp: ensure_hash_type_def split: prod.splits sum.splits)
      qed
    next
      case (Some h)
      with Inr get_hash_type_true [OF local] show ?thesis
        by (simp add: ensure_hash_type_def obtained_true_def)
    qed
  qed
  obtain r s' where rs: "get_hash_type_remote db c s = (r, s')" by fastforce
  have "ensure_hash_type_async L db c buf s =
    (case r of Inl e \<Rightarrow> (Inl e, s') | Inr (Some h) \<Rightarrow> (Inr (Some h), s') | Inr None \<Rightarrow>
      (case buf of None \<Rightarrow> (Inr None, s') | Some b \<Rightarrow>
        (rbind (fst (register_hash_type_for_buffer L c b s')) (\<lambda>h. Inr (Some h)),
         snd (register_hash_type_for_buffer L c b s'))))"
    unfolding ensure_hash_type_async_def rs
    by (cases r) (auto split: option.splits prod.splits sum.splits)
  then show "obtained_true truth (fst (ensure_hash_type_async L db c buf s))"
    using rem reg unfolding rs
    by (cases r) (auto simp: obtained_true_def [of truth "Inr None"] split: option.splits)
qed

lemma admitted_not_refused:
  assumes "obtained_true truth r" and "\<not> structural_pair source target"
    and "deserializable_as sha truth source c \<noteq> Inr (Some False)"
    and "validate_path_capability truth source steps = Inr ()"
    and "steps = [] \<Longrightarrow> conversion_feasible sha (ArgHT truth) source target c \<noteq> Inr (Some False)"
  shows "rbind (rbind r (check_deserializable sha c source)) (check_expression sha c source steps target)
    \<noteq> Inl HashTypeValidationError"
proof
  assume bad: "rbind (rbind r (check_deserializable sha c source))
    (check_expression sha c source steps target) = Inl HashTypeValidationError"
  have dom: "source \<in> set HASH_TYPE_CELLTYPES" "target \<in> set HASH_TYPE_CELLTYPES"
    using assms(2) by (auto simp: structural_pair_def)
  obtain oh where r: "r = Inr oh" using bad assms(1) by (cases r) (auto simp: obtained_true_def)
  with bad obtain h where h: "r = Inr (Some h)"
    by (cases oh) (auto simp: check_deserializable_def check_expression_def)
  with assms(1) have imp: "hash_type_implies truth h" by (simp add: obtained_true_def)
  obtain v where v: "conversion_feasible sha (ArgHT truth) source target c = Inr v"
    using feasible_total(1) [OF dom refl] by blast
  have d: "check_deserializable sha c source (Some h) \<noteq> Inl HashTypeValidationError"
  proof
    assume "check_deserializable sha c source (Some h) = Inl HashTypeValidationError"
    from check_deserializable_stable [OF this imp] assms(3) show False
      by (auto simp: check_deserializable_def rbind_Inl_iff deserializable_as_def split: if_splits)
  qed
  then have "check_deserializable sha c source (Some h) = Inr (Some h)"
    using deserializable_total [OF dom(1), of sha h c]
    by (auto simp: check_deserializable_def split: if_splits)
  with bad h have "check_expression sha c source steps target (Some h) = Inl HashTypeValidationError"
    by simp
  from check_expression_stable [OF this imp assms(2,4)] assms(4,5) v show False
    by (auto simp: check_expression_def split: if_splits)
qed

text \<open>C3: a refusal is a proof. If everything the process and the database know of a
  checksum is true of its buffer, and the buffer's own classification admits the expression,
  then neither variant of \<open>validate_expression\<close> refuses it, whatever loose or partial
  knowledge it decided on.\<close>

theorem validate_expression_no_false_refusal:
  assumes "knowledge_true L db c buf s truth" and "\<not> structural_pair source target"
    and "deserializable_as sha truth source c \<noteq> Inr (Some False)"
    and "validate_path_capability truth source steps = Inr ()"
    and "steps = [] \<Longrightarrow> conversion_feasible sha (ArgHT truth) source target c \<noteq> Inr (Some False)"
  shows "fst (validate_expression sha L db in_loop c buf source steps target s) \<noteq> Inl HashTypeValidationError
    \<and> fst (validate_expression_async sha L db c buf source steps target s) \<noteq> Inl HashTypeValidationError"
  using admitted_not_refused [OF ensure_true(1) [OF assms(1)] assms(2-5)]
    admitted_not_refused [OF ensure_true(2) [OF assms(1)] assms(2-5)] assms(2)
  by (simp add: validate_expression_def validate_expression_async_def validate_deserializable_as_def
      validate_deserializable_as_async_def case_prod_beta)

text \<open>The knowledge here is loose: the database says \<open>UTF8_UNTESTED\<close> of a JSON array.\<close>

theorem validate_expression_no_false_refusal_witness:
  "fst (validate_expression pad_sha tiny_lib (Some (\<lambda>_. Some (word (HT2 UTF8_UNTESTED SHORT)))) False
      (Checksum []) None CtPlain [Item (LInt 0)] CtInt \<lparr>ht_cache = [], ht_uploads = [], ht_closed = False\<rparr>)
     \<noteq> Inl HashTypeValidationError
   \<and> fst (validate_expression_async pad_sha tiny_lib (Some (\<lambda>_. Some (word (HT2 UTF8_UNTESTED SHORT))))
      (Checksum []) None CtPlain [Item (LInt 0)] CtInt \<lparr>ht_cache = [], ht_uploads = [], ht_closed = False\<rparr>)
     \<noteq> Inl HashTypeValidationError"
proof (rule validate_expression_no_false_refusal [where truth = "HT2 JSON_ARRAY SHORT"])
  show "knowledge_true tiny_lib (Some (\<lambda>_. Some (word (HT2 UTF8_UNTESTED SHORT)))) (Checksum []) None
     \<lparr>ht_cache = [], ht_uploads = [], ht_closed = False\<rparr> (HT2 JSON_ARRAY SHORT)"
    by code_simp
qed (code_simp | simp)+


section \<open>How deep a path may index\<close>

text \<open>Steps that only index by position or slice.\<close>

definition positional :: "path_step \<Rightarrow> bool" where
  "positional st \<longleftrightarrow> (case st of Item (LInt _) \<Rightarrow> True | Slice _ _ _ \<Rightarrow> True | _ \<Rightarrow> False)"

text \<open>Each step finds an axis left: fewer than \<open>n\<close> item steps come before it.\<close>

fun axes_left :: "nat \<Rightarrow> path_step list \<Rightarrow> bool" where
  "axes_left n [] = True"
| "axes_left n (st # steps) = (0 < n \<and> axes_left (if is_int_item st then n - 1 else n) steps)"

lemma positional_cases:
  assumes "positional st"
  obtains i where "st = Item (LInt i)" | a b c where "st = Slice a b c"
  using assms by (auto simp: positional_def split: path_step.splits lit.splits)

lemma capability_steps_numeric:
  assumes "ct \<in> {CtBinary, CtMixed}" and "ht_dtype h = NUMERIC" and "n < 3"
    and "list_all positional steps"
  shows "capability_steps h ct (if 0 < n then {SEQ} else {}) (int n) steps = Inr () \<longleftrightarrow> axes_left n steps"
  using assms(3,4)
proof (induction steps arbitrary: n)
  case Nil
  then show ?case by simp
next
  case (Cons st steps)
  then have st: "positional st" and rest: "list_all positional steps" by simp_all
  from st show ?case
  proof (cases rule: positional_cases)
    case (1 i)
    have item: "needed_capability st = SEQ" "is_int_item st"
      using 1 by (simp_all add: needed_capability_def is_str_key_def is_int_item_def)
    show ?thesis
    proof (cases n)
      case 0
      with item show ?thesis by simp
    next
      case (Suc m)
      with Cons.prems have "m < 3" "int m < 2" by simp_all
      with Cons.IH [OF \<open>m < 3\<close> rest] Suc 1 item assms(1,2) show ?thesis by auto
    qed
  next
    case (2 a b c)
    with Cons.IH [OF _ rest, of n] Cons.prems show ?thesis
      by (cases "n = 0") (auto simp: needed_capability_def is_str_key_def is_int_item_def)
  qed
qed

lemma capability_steps_bytes:
  assumes "list_all positional steps" and "n < 2"
  shows "capability_steps h CtBytes (if 0 < n then {SEQ} else {}) r steps = Inr () \<longleftrightarrow>
    axes_left n steps"
  using assms
proof (induction steps arbitrary: n)
  case Nil
  then show ?case by simp
next
  case (Cons st steps)
  then have st: "positional st" and rest: "list_all positional steps" by simp_all
  from st show ?case
  proof (cases rule: positional_cases)
    case (1 i)
    with Cons.IH [OF rest, of 0] Cons.prems show ?thesis
      by (cases "n = 0") (auto simp: needed_capability_def is_str_key_def is_int_item_def)
  next
    case (2 a b c)
    with Cons.IH [OF rest, of n] Cons.prems show ?thesis
      by (cases "n = 0") (auto simp: needed_capability_def is_str_key_def is_int_item_def)
  qed
qed

text \<open>A path of positional steps into a numeric array whose rank the HashType knows
  exactly is accepted if and only if no step is taken after its axes are used up; into bytes,
  if and only if nothing follows the first item.\<close>

theorem path_capability_exact:
  assumes "ht_kind h = NUMPY" and "ht_dtype h = NUMERIC" and "ht_rank h \<noteq> D3PLUS"
    and "list_all positional steps"
  shows "(validate_path_capability h CtBinary steps = Inr () \<longleftrightarrow>
      axes_left (nat (rank_val (ht_rank h))) steps)
    \<and> (validate_path_capability h CtBytes steps = Inr () \<longleftrightarrow> axes_left 1 steps)"
proof
  define n where "n = nat (rank_val (ht_rank h))"
  have n: "n < 3" "rank_val (ht_rank h) = int n" "0 < n \<longleftrightarrow> ht_rank h \<noteq> SCALAR"
    using assms(3) by (cases "ht_rank h"; simp add: n_def)+
  have caps: "capabilities h CtBinary = Inr (if 0 < n then {SEQ} else {})"
      "capabilities h CtBytes = Inr {SEQ}"
    using assms(1,2) n(3) by (simp_all add: capabilities_def HASH_TYPE_CELLTYPES_def FLAT_SEQ_CELLTYPES_def)
  have "\<not> is_untested h" using assms(1) by (simp add: is_untested_def)
  then show "validate_path_capability h CtBinary steps = Inr () \<longleftrightarrow>
      axes_left (nat (rank_val (ht_rank h))) steps"
    using capability_steps_numeric [of CtBinary h n steps] assms(2,4) n(1,2)
    by (simp add: validate_path_capability_def caps)
  show "validate_path_capability h CtBytes steps = Inr () \<longleftrightarrow> axes_left 1 steps"
    using capability_steps_bytes [OF assms(4), of 1 h "rank_val (ht_rank h)"] \<open>\<not> is_untested h\<close>
    by (simp add: validate_path_capability_def caps)
qed

theorem path_capability_exact_witness:
  "(validate_path_capability (HT NUMPY LONG NUMERIC D2 0) CtBinary
      [Item (LInt 0), Slice None None None, Item (LInt 1)] = Inr () \<longleftrightarrow>
      axes_left (nat (rank_val D2)) [Item (LInt 0), Slice None None None, Item (LInt 1)])
    \<and> (validate_path_capability (HT NUMPY LONG NUMERIC D2 0) CtBytes
      [Item (LInt 0), Slice None None None, Item (LInt 1)] = Inr () \<longleftrightarrow>
      axes_left 1 [Item (LInt 0), Slice None None None, Item (LInt 1)])"
  using path_capability_exact [of "HT NUMPY LONG NUMERIC D2 0"
      "[Item (LInt 0), Slice None None None, Item (LInt 1)]"]
  by (simp add: positional_def)

end
