(* ===== verification/Values.thy ===== *)
theory Values
  imports HashTypeValidation
begin

text \<open>
  Values and buffers: \<open>seamless/checksum/serialize.py\<close>,
  \<open>seamless/checksum/parse_buffer.py\<close>, \<open>unchecksum\<close> of \<open>seamless/util\<close>,
  \<open>seamless/checksum/deep.py\<close> and the constructor of \<open>seamless/buffer_class.py\<close>.
  The third-party codecs are the fields of \<open>codec\<close>: orjson, yaml, \<open>ast.parse\<close>,
  IPython's transformer, numpy, and the mixed stream format. A tuple is a list here, and
  the LRU caches in front of both directions are left out.
\<close>

section \<open>What the code calls\<close>

record 'nd codec =
  c_lib :: "'nd lib"
  orjson_dumps :: "'nd pyval \<Rightarrow> bytes result"
  orjson_numpy :: "'nd pyval \<Rightarrow> 'nd pyval result"
  yaml_load :: "ustr \<Rightarrow> 'nd pyval result"
  ast_parse :: "ustr \<Rightarrow> unit result"
  ipython2python :: "ustr \<Rightarrow> ustr result"
  mixed_loads :: "bytes \<Rightarrow> ('nd pyval \<times> string) result"
  mixed_dumps :: "'nd pyval \<Rightarrow> string option \<Rightarrow> bytes result"
  py_str :: "'nd pyval \<Rightarrow> ustr result"
  py_int :: "'nd pyval \<Rightarrow> int result"
  py_to_float :: "'nd pyval \<Rightarrow> pyfloat result"
  py_bool :: "'nd pyval \<Rightarrow> bool result"
  np_array :: "'nd pyval \<Rightarrow> 'nd result"
  np_isarray :: "'nd \<Rightarrow> bool"
  np_kind :: "'nd \<Rightarrow> char"
  np_dims :: "'nd \<Rightarrow> nat"
  np_isfinite :: "'nd \<Rightarrow> bool"
  np_tobytes :: "'nd \<Rightarrow> bytes option"
  np_floating :: "'nd \<Rightarrow> pyfloat option"
  np_boolean :: "'nd \<Rightarrow> bool option"
  np_complex :: "'nd \<Rightarrow> bool"
  np_float64 :: "pyfloat \<Rightarrow> 'nd"

text \<open>The process: the digest, the codecs, the hash database, and whether an event loop runs.\<close>

record 'nd env =
  e_sha :: "bytes \<Rightarrow> checksum"
  e_codec :: "'nd codec"
  e_db :: hash_db
  e_in_loop :: bool

abbreviation e_lib :: "'nd env \<Rightarrow> 'nd lib" where
  "e_lib E \<equiv> c_lib (e_codec E)"

text \<open>The HashType cache and \<open>text_validation_celltype_cache\<close>.\<close>

record vstate =
  vs_ht :: ht_state
  vs_text :: "(checksum \<times> celltype) list"

type_synonym 'a vop = "(vstate, exc, 'a) op"

section \<open>Serialization\<close>

fun unchecksum :: "'nd pyval \<Rightarrow> 'nd pyval" where
  "unchecksum (VChecksum c) = VStr (hex c)"
| "unchecksum (VDict kvs) = VDict (map (\<lambda>(k, v). (k, unchecksum v)) kvs)"
| "unchecksum (VList vs) = VList (map unchecksum vs)"
| "unchecksum v = v"

fun check_finite :: "'nd codec \<Rightarrow> 'nd pyval \<Rightarrow> unit result"
and check_finite_list :: "'nd codec \<Rightarrow> 'nd pyval list \<Rightarrow> unit result"
and check_finite_items :: "'nd codec \<Rightarrow> (ustr \<times> 'nd pyval) list \<Rightarrow> unit result" where
  "check_finite K (VFloat x) = (if finite_float x then Inr () else Inl ValueError)"
| "check_finite K (VDict kvs) = check_finite_items K kvs"
| "check_finite K (VList vs) = check_finite_list K vs"
| "check_finite K (VArray a) =
     (case np_floating K a of
        Some x \<Rightarrow> if finite_float x then Inr () else Inl ValueError
      | None \<Rightarrow>
          if np_isarray K a \<and> np_kind K a \<in> set ''fc'' \<and> \<not> np_isfinite K a then Inl ValueError
          else Inr ())"
| "check_finite K v = Inr ()"
| "check_finite_list K [] = Inr ()"
| "check_finite_list K (v # vs) = rbind (check_finite K v) (\<lambda>_. check_finite_list K vs)"
| "check_finite_items K [] = Inr ()"
| "check_finite_items K ((k, v) # kvs) = rbind (check_finite K v) (\<lambda>_. check_finite_items K kvs)"

text \<open>\<open>_normalize_mixed_special_values\<close>\<close>

fun normalize_mixed :: "'nd codec \<Rightarrow> 'nd pyval \<Rightarrow> 'nd pyval" where
  "normalize_mixed K (VArray a) =
     (case np_boolean K a of
        Some b \<Rightarrow> VBool b
      | None \<Rightarrow>
          (case np_floating K a of
             Some x \<Rightarrow> if finite_float x then VArray a else VArray (np_float64 K x)
           | None \<Rightarrow> VArray a))"
| "normalize_mixed K (VFloat x) = (if finite_float x then VFloat x else VArray (np_float64 K x))"
| "normalize_mixed K (VList vs) = VList (map (normalize_mixed K) vs)"
| "normalize_mixed K (VDict kvs) = VDict (map (\<lambda>(k, v). (k, normalize_mixed K v)) kvs)"
| "normalize_mixed K v = v"

definition strip_nl :: "ustr \<Rightarrow> ustr" where
  "strip_nl t = rev (dropWhile (\<lambda>c. c = 10) (rev t))"

definition nl_byte :: byte where
  "nl_byte = 10"

text \<open>\<open>str.encode()\<close>; \<open>UnicodeEncodeError\<close> is a \<open>ValueError\<close>.\<close>

definition encode_text :: "ustr \<Rightarrow> bytes result" where
  "encode_text t = (case encode t of None \<Rightarrow> Inl ValueError | Some b \<Rightarrow> Inr b)"

definition decode_text :: "bytes \<Rightarrow> ustr result" where
  "decode_text b = (case decode b of None \<Rightarrow> Inl UnicodeDecodeError | Some t \<Rightarrow> Inr t)"

definition json_line :: "'nd codec \<Rightarrow> 'nd pyval \<Rightarrow> bytes result" where
  "json_line K v = rbind (orjson_dumps K v) (\<lambda>b. Inr (b @ [nl_byte]))"

definition serialize_str :: "'nd codec \<Rightarrow> 'nd pyval \<Rightarrow> bytes result" where
  "serialize_str K v =
     (case v of VBool b \<Rightarrow> json_line K v | _ \<Rightarrow> rbind (py_str K v) (\<lambda>t. json_line K (VStr t)))"

definition serialize_text :: "'nd codec \<Rightarrow> celltype \<Rightarrow> 'nd pyval \<Rightarrow> bytes result" where
  "serialize_text K ct v0 =
     rbind (case v0 of VBytes b \<Rightarrow> rbind (decode_text b) (\<lambda>t. Inr (VStr t)) | _ \<Rightarrow> Inr v0) (\<lambda>v.
       if ct = CtInt then rbind (py_int K v) (\<lambda>i. json_line K (VInt i))
       else if ct = CtFloat then
         rbind (py_to_float K v) (\<lambda>x. if finite_float x then json_line K (VFloat x) else Inl ValueError)
       else if ct = CtBool then rbind (py_bool K v) (\<lambda>b. json_line K (VBool b))
       else rbind (py_str K v) (\<lambda>t. encode_text (strip_nl t @ [10])))"

definition serialize_bytes :: "'nd codec \<Rightarrow> 'nd pyval \<Rightarrow> bytes result" where
  "serialize_bytes K v =
     rbind
       (case v of
          VBytes b \<Rightarrow> Inr b
        | VArray a \<Rightarrow>
            (case np_tobytes K a of
               Some b \<Rightarrow> Inr b
             | None \<Rightarrow> rbind (py_str K v) (\<lambda>t. encode_text (strip_nl t)))
        | _ \<Rightarrow> rbind (py_str K v) (\<lambda>t. encode_text (strip_nl t)))
       (\<lambda>b. Inr (if b = [] then NULL_BUFFER else b))"

definition serialize_mixed :: "'nd codec \<Rightarrow> 'nd pyval \<Rightarrow> bytes result" where
  "serialize_mixed K v0 =
     (let v = normalize_mixed K (unchecksum v0) in
      case v of
        VArray a \<Rightarrow>
          if np_complex K a then
            rbind (np_array K v) (\<lambda>n. mixed_dumps K (VArray n) (Some ''pure-binary''))
          else
            (case np_floating K a of
               Some x \<Rightarrow> if finite_float x then mixed_dumps K v None
                         else mixed_dumps K (VArray (np_float64 K x)) None
             | None \<Rightarrow> mixed_dumps K v None)
      | _ \<Rightarrow> mixed_dumps K v None)"

definition serialize_binary :: "'nd codec \<Rightarrow> 'nd pyval \<Rightarrow> bytes result" where
  "serialize_binary K v =
     (case v of
        VBytes b \<Rightarrow> Inr b
      | _ \<Rightarrow> rbind (np_array K v) (\<lambda>n. mixed_dumps K (VArray n) (Some ''pure-binary'')))"

text \<open>\<open>_serialize\<close>\<close>

definition serialize :: "'nd codec \<Rightarrow> 'nd pyval \<Rightarrow> celltype \<Rightarrow> bytes result" where
  "serialize K v0 ct =
     (if ct \<notin> set celltypes then
        (if v0 = VNone \<and> ct \<in> set STRUCTURAL_CELLTYPES then Inr NULL_BUFFER else Inl TypeError)
      else if v0 = VNone then Inr NULL_BUFFER
      else
        let v = (case v0 of VChecksum c \<Rightarrow> VStr (hex c) | _ \<Rightarrow> v0) in
        if ct = CtStr then serialize_str K v
        else if ct \<in> set text_types then serialize_text K ct v
        else if ct = CtPlain then
          rbind (check_finite K (unchecksum v)) (\<lambda>_. json_line K (unchecksum v))
        else if ct = CtBytes then serialize_bytes K v
        else if ct = CtChecksum then
          (case v of
             VStr t \<Rightarrow> rbind (checksum_init (ArgStr t)) (\<lambda>c. encode_text (hex c))
           | _ \<Rightarrow> Inl TypeError)
        else if ct = CtMixed then serialize_mixed K v
        else serialize_binary K v)"

section \<open>The Buffer constructor\<close>

definition map_celltype :: "celltype \<Rightarrow> celltype result" where
  "map_celltype ct =
     (if ct \<notin> set (celltypes @ STRUCTURAL_CELLTYPES) then Inl TypeError
      else if ct \<in> set STRUCTURAL_CELLTYPES then Inr CtPlain
      else Inr ct)"

text \<open>\<open>Buffer(value, celltype)\<close>: the content of the new buffer.\<close>

definition buffer_of :: "'nd codec \<Rightarrow> 'nd pyval \<Rightarrow> celltype \<Rightarrow> bytes result" where
  "buffer_of K v ct =
     (if (case v of VChecksum _ \<Rightarrow> True | _ \<Rightarrow> False) \<and> ct \<noteq> CtChecksum then Inl TypeError
      else
        let v' = (case v of
            VDict kvs \<Rightarrow>
              if ct \<in> set DEEP_CELLTYPES then
                VDict (map (\<lambda>(k, m). (k, case m of VChecksum c \<Rightarrow> VStr (hex c) | _ \<Rightarrow> m)) kvs)
              else v
          | _ \<Rightarrow> v)
        in rbind (map_celltype ct) (\<lambda>ct'. serialize K v' ct'))"

section \<open>Deep structures\<close>

definition lower_hex :: "ustr \<Rightarrow> bool" where
  "lower_hex t \<longleftrightarrow> list_all (\<lambda>c. c \<in> set (u ''0123456789abcdef'')) t"

definition deep_member :: "'nd pyval \<Rightarrow> 'nd pyval result" where
  "deep_member m =
     (case m of
        VDict _ \<Rightarrow> Inl ValueError
      | VList _ \<Rightarrow> Inl ValueError
      | VChecksum c \<Rightarrow> Inr m
      | VStr t \<Rightarrow>
          if length t = 64 \<and> lower_hex t then rbind (checksum_init (ArgStr t)) (\<lambda>c. Inr (VChecksum c))
          else Inl ValueError
      | _ \<Rightarrow> Inl ValueError)"

fun deep_items :: "bool \<Rightarrow> (ustr \<times> 'nd pyval) list \<Rightarrow> (ustr \<times> 'nd pyval) list result" where
  "deep_items index [] = Inr []"
| "deep_items index ((k, m) # kvs) =
     rbind (if index then deep_member m else Inr m) (\<lambda>m'.
       rbind (deep_items index kvs) (\<lambda>rest. Inr ((k, m') # rest)))"

definition validate_deep_structure :: "bool \<Rightarrow> 'nd pyval \<Rightarrow> 'nd pyval result" where
  "validate_deep_structure index v =
     (case v of VDict kvs \<Rightarrow> rbind (deep_items index kvs) (\<lambda>r. Inr (VDict r)) | _ \<Rightarrow> Inl ValueError)"

section \<open>Parsing\<close>

definition parse_plain :: "'nd codec \<Rightarrow> bytes \<Rightarrow> 'nd pyval result" where
  "parse_plain K b =
     rbind (decode_text b) (\<lambda>t.
       case orjson_loads (c_lib K) (strip_nl t) of
         Inl e \<Rightarrow> if is_ValueError e then Inl ValueError else Inl e
       | Inr v \<Rightarrow> Inr v)"

text \<open>The number a JSON scalar stands for: finite, or a \<open>ValueError\<close>.\<close>

definition check_number :: "'nd codec \<Rightarrow> 'nd pyval \<Rightarrow> unit result" where
  "check_number K v =
     (case v of
        VStr t \<Rightarrow>
          (case py_float (c_lib K) t of
             Inl e \<Rightarrow> if float_failure e then Inl ValueError else Inl e
           | Inr x \<Rightarrow> if finite_float x then Inr () else Inl ValueError)
      | VInt _ \<Rightarrow> Inr ()
      | VFloat x \<Rightarrow> if finite_float x then Inr () else Inl ValueError
      | _ \<Rightarrow> Inl ValueError)"

definition parse_int :: "'nd codec \<Rightarrow> 'nd pyval \<Rightarrow> int result" where
  "parse_int K v =
     (case py_int K v of
        Inr i \<Rightarrow> Inr i
      | Inl e \<Rightarrow>
          if float_failure e then
            (case rbind (py_to_float K v) (\<lambda>x. py_int K (VFloat x)) of
               Inr i \<Rightarrow> Inr i
             | Inl e' \<Rightarrow> if float_failure e' then Inl e else Inl e')
          else Inl e)"

definition parse_scalar :: "'nd codec \<Rightarrow> bytes \<Rightarrow> celltype \<Rightarrow> 'nd pyval result" where
  "parse_scalar K b ct =
     (if ct \<in> {CtInt, CtFloat} \<and> length b > 1000 then Inl ValueError
      else rbind (parse_plain K b) (\<lambda>v.
        if ct = CtStr then
          (case v of
             VStr _ \<Rightarrow> rbind (py_str K v) (\<lambda>t. Inr (VStr t))
           | VInt _ \<Rightarrow> rbind (py_str K v) (\<lambda>t. Inr (VStr t))
           | VFloat _ \<Rightarrow> rbind (py_str K v) (\<lambda>t. Inr (VStr t))
           | VBool _ \<Rightarrow> rbind (py_str K v) (\<lambda>t. Inr (VStr t))
           | _ \<Rightarrow> Inl ValueError)
        else if ct = CtBool then Inl ValueError
        else rbind (check_number K v) (\<lambda>_.
          if ct = CtFloat then rbind (py_to_float K v) (\<lambda>x. Inr (VFloat x))
          else if ct = CtInt then rbind (parse_int K v) (\<lambda>i. Inr (VInt i))
          else Inl AssertionError)))"

definition deserialize_mixed :: "'nd codec \<Rightarrow> bytes \<Rightarrow> ('nd pyval \<times> string) result" where
  "deserialize_mixed K b =
     (case mixed_loads K b of
        Inr r \<Rightarrow> Inr r
      | Inl e \<Rightarrow> if is_ValueError e then Inl e else Inl ValueError)"

text \<open>\<open>except Exception: raise ValueError\<close>\<close>

definition as_ValueError :: "'a result \<Rightarrow> 'a result" where
  "as_ValueError r = (case r of Inl e \<Rightarrow> Inl ValueError | Inr x \<Rightarrow> Inr x)"

definition validate_text :: "'nd codec \<Rightarrow> ustr \<Rightarrow> celltype \<Rightarrow> unit result" where
  "validate_text K t ct =
     as_ValueError
       (if ct = CtPython then ast_parse K t
        else if ct = CtIPython then rbind (ipython2python K t) (\<lambda>_. Inr ())
        else if ct = CtYaml then rbind (yaml_load K t) (\<lambda>_. Inr ())
        else Inr ())"

definition validate_text_celltype :: "'nd codec \<Rightarrow> ustr \<Rightarrow> checksum \<Rightarrow> celltype \<Rightarrow> unit vop" where
  "validate_text_celltype K t c ct s =
     (if ct \<notin> set text_types2 then (Inl AssertionError, s)
      else if (c, ct) \<in> set (vs_text s) then (Inr (), s)
      else
        (case validate_text K t ct of
           Inl e \<Rightarrow> (Inl e, s)
         | Inr _ \<Rightarrow> (Inr (), s\<lparr>vs_text := (c, ct) # vs_text s\<rparr>)))"

text \<open>The HashType validation, as an operation on this state.\<close>

definition v_deserializable :: "'nd env \<Rightarrow> checksum \<Rightarrow> celltype \<Rightarrow> bytes option \<Rightarrow> hash_type option vop" where
  "v_deserializable E c ct buf s =
     (let (r, h) = validate_deserializable_as (e_sha E) (e_lib E) (e_db E) (e_in_loop E) c ct buf (vs_ht s)
      in (r, s\<lparr>vs_ht := h\<rparr>))"

definition v_ensure :: "'nd env \<Rightarrow> checksum \<Rightarrow> bytes option \<Rightarrow> hash_type option vop" where
  "v_ensure E c buf s =
     (let (r, h) = ensure_hash_type (e_lib E) (e_db E) (e_in_loop E) c buf (vs_ht s)
      in (r, s\<lparr>vs_ht := h\<rparr>))"

text \<open>The branches of \<open>_parse_buffer\<close> on the celltype. For \<open>bytes\<close> the code hands
  the Buffer itself on, which is its content here.\<close>

definition parse_branch :: "'nd codec \<Rightarrow> bytes \<Rightarrow> checksum \<Rightarrow> celltype \<Rightarrow> 'nd pyval vop" where
  "parse_branch K b c ct =
     (if ct \<in> set text_types2 then
        obind (olift (decode_text b)) (\<lambda>t.
          otry (validate_text_celltype K (strip_nl t) c ct)
            (\<lambda>e. oraise (if is_ValueError e then HashTypeValidationError else e))
            (\<lambda>_. oret (VStr (strip_nl t))))
      else if ct = CtPlain then olift (parse_plain K b)
      else if ct = CtBinary then
        olift (rbind (deserialize_mixed K b)
          (\<lambda>(v, storage). if storage = ''pure-binary'' then Inr v else Inl ValueError))
      else if ct = CtMixed then olift (rbind (deserialize_mixed K b) (\<lambda>(v, storage). Inr v))
      else if ct = CtBytes then oret (VBytes b)
      else if ct \<in> {CtStr, CtInt, CtFloat, CtBool} then olift (parse_scalar K b ct)
      else if ct = CtChecksum then
        (case rbind (decode_text b) (\<lambda>t. checksum_init (ArgStr t)) of
           Inl e \<Rightarrow> if e = TypeError \<or> is_ValueError e then oraise HashTypeValidationError else oraise e
         | Inr d \<Rightarrow> oret (VChecksum d))
      else oraise NotImplementedError)"

definition parse_buffer :: "'nd env \<Rightarrow> bytes \<Rightarrow> checksum \<Rightarrow> celltype \<Rightarrow> 'nd pyval vop" where
  "parse_buffer E b c ct =
     (if ct \<notin> set celltypes then oraise TypeError
      else
        (case virtual (e_sha E) c ct of
           Inl e \<Rightarrow> oraise e
         | Inr (Some v) \<Rightarrow> oret v
         | Inr None \<Rightarrow>
             obind (v_deserializable E c ct (Some b)) (\<lambda>oh.
               case oh of
                 None \<Rightarrow> oraise RuntimeError
               | Some _ \<Rightarrow> parse_branch (e_codec E) b c ct)))"

text \<open>\<open>Buffer.get_value\<close>; the buffer's checksum is the digest of its content.\<close>

definition buffer_get_value :: "'nd env \<Rightarrow> bytes \<Rightarrow> celltype \<Rightarrow> 'nd pyval vop" where
  "buffer_get_value E b ct =
     obind (olift (map_celltype ct)) (\<lambda>ct'.
       obind (parse_buffer E b (e_sha E b) ct') (\<lambda>v.
         if ct \<in> set DEEP_CELLTYPES then olift (validate_deep_structure True v) else oret v))"

section \<open>Reading what was written\<close>

text \<open>Nothing is known of the checksum yet, and Seamless is open.\<close>

definition fresh :: "checksum \<Rightarrow> vstate \<Rightarrow> bool" where
  "fresh c s \<longleftrightarrow> dget (ht_cache (vs_ht s)) c = None \<and> \<not> ht_closed (vs_ht s)"

lemma HASH_TYPE_CELLTYPES_celltypes: "HASH_TYPE_CELLTYPES = celltypes"
  by code_simp

lemma register_fresh:
  assumes "dget (ht_cache h0) c = None" "\<not> ht_closed h0" "from_buffer L b = Inr h"
  shows "\<exists>h1. register_hash_type_for_buffer L c b h0 = (Inr h, h1)"
proof -
  have "is_valid_word (word h)" using from_buffer_fields [OF assms(3)] by (simp add: valid_fields_word)
  then have "set_hash_type c (ArgHT h) True h0 = store_hash_type c (word h) True h0"
    using assms(1) by (simp add: set_hash_type_def)
  with assms show ?thesis
    by (simp add: register_hash_type_for_buffer_def store_hash_type_def upload_hash_type_def)
qed

lemma v_deserializable_fresh:
  assumes "fresh c s" and "from_buffer (e_lib E) b = Inr h" and "ct \<in> set celltypes"
    and "deserializable_as (e_sha E) h ct c \<noteq> Inr (Some False)"
  shows "\<exists>s'. v_deserializable E c ct (Some b) s = (Inr (Some h), s') \<and> vs_text s' = vs_text s"
proof -
  obtain h1 where "register_hash_type_for_buffer (e_lib E) c b (vs_ht s) = (Inr h, h1)"
    using register_fresh assms(1,2) unfolding fresh_def by blast
  then have "ensure_hash_type (e_lib E) (e_db E) (e_in_loop E) c (Some b) (vs_ht s) = (Inr (Some h), h1)"
    using assms(1) by (simp add: ensure_hash_type_def get_hash_type_def fresh_def)
  moreover obtain v where "deserializable_as (e_sha E) h ct c = Inr v" "v \<noteq> Some False"
    using deserializable_total [of ct "e_sha E" h c] assms(3,4) HASH_TYPE_CELLTYPES_celltypes by auto
  ultimately show ?thesis
    by (simp add: v_deserializable_def validate_deserializable_as_def check_deserializable_def)
qed

lemma parse_buffer_fresh:
  assumes "fresh c s" and "from_buffer (e_lib E) b = Inr h" and "ct \<in> set celltypes"
    and "deserializable_as (e_sha E) h ct c \<noteq> Inr (Some False)"
    and "(virtual (e_sha E) c ct :: 'nd pyval option result) = Inr None"
  shows "\<exists>s'. parse_buffer (E :: 'nd env) b c ct s = parse_branch (e_codec E) b c ct s' \<and> vs_text s' = vs_text s"
  using v_deserializable_fresh [OF assms(1-4)] assms(3,5)
  by (force simp: parse_buffer_def)

lemma strip_nl_idem [simp]: "strip_nl (strip_nl t @ [10]) = strip_nl t"
  by (simp add: strip_nl_def)

lemma hex_ascii: "list_all (\<lambda>c. c < 128) (hex c)"
proof -
  have "x < 128" if "x \<in> set (hex_bytes bs)" for x bs
  proof -
    have d: "hex_digit n < 128" if "n < 16" for n using that by (simp add: hex_digit_def)
    have "unat y div 16 < 16" for y :: byte using byte_div_less by blast
    with d that show ?thesis by (induction bs) auto
  qed
  then show ?thesis by (simp add: hex_def list_all_iff)
qed

lemma utf8_encode_ascii: "list_all (\<lambda>c. c < 128) t \<Longrightarrow> utf8_encode_nat t = Some t"
  by (induction t) (auto simp: utf8_char_def)

lemma encode_ascii: "list_all (\<lambda>c. c < 128) t \<Longrightarrow> encode t = Some (map of_nat t)"
  by (simp add: encode_def utf8_encode_ascii)

lemma startswith_hd: "startswith b (m # ms) \<Longrightarrow> \<exists>bs. b = m # bs"
  by (cases b) (auto simp: startswith_def)

lemma decode_not_magic:
  assumes "decode b = Some t"
  shows "\<not> startswith b MAGIC_NUMPY" "\<not> startswith b MAGIC_SEAMLESS_MIXED"
proof -
  have "decode (147 # bs) = None" "decode (148 # bs) = None" for bs
    by (simp_all add: decode_def utf8_decode_nat.simps)
  then show "\<not> startswith b MAGIC_NUMPY" "\<not> startswith b MAGIC_SEAMLESS_MIXED"
    using assms by (auto simp: MAGIC_NUMPY_def MAGIC_SEAMLESS_MIXED_def dest!: startswith_hd)
qed

lemma from_buffer_decoded:
  assumes "decode b = Some t" and "from_buffer L b = Inr h"
  obtains k f where "json_kind_and_flags L t = Inr (k, f)"
    "h = (case k of None \<Rightarrow> HT2 RAW_TEXT (length_bucket (length b)) | Some k \<Rightarrow> HT k (length_bucket (length b)) NA SCALAR f)"
  using assms decode_not_magic [OF assms(1)]
  by (auto simp: from_buffer_def Let_def rbind_Inr_iff split: option.splits)

lemma virtual_plain_type:
  "\<not> null_checksum sha c \<Longrightarrow> ct \<in> {CtText, CtChecksum, CtBytes, CtBinary} \<Longrightarrow> virtual sha c ct = Inr None"
  by (auto simp: virtual_eq virtual_value_hex_def)

text \<open>A text value reads back as the text it was written as, its trailing newlines
  removed, unless what was written is the canonical null.\<close>

theorem text_roundtrip:
  assumes "serialize (e_codec E) (VStr t) CtText = Inr b"
    and "py_str (e_codec E) (VStr t) = Inr t"
    and "fresh (e_sha E b) s" and "from_buffer (e_lib E) b = Inr h"
    and "\<not> null_checksum (e_sha E) (e_sha E b)"
  shows "fst (parse_buffer E b (e_sha E b) CtText s) = Inr (VStr (strip_nl t))"
proof -
  let ?c = "e_sha E b"
  have b: "encode (strip_nl t @ [10]) = Some b"
    using assms(1,2)
    by (auto simp: serialize_def celltypes_def text_types_def serialize_text_def encode_text_def
        split: option.splits)
  note d = decode_encode [OF b]
  obtain k f where "json_kind_and_flags (e_lib E) (strip_nl t @ [10]) = Inr (k, f)"
    and h: "h = (case k of None \<Rightarrow> HT2 RAW_TEXT (length_bucket (length b))
      | Some k \<Rightarrow> HT k (length_bucket (length b)) NA SCALAR f)"
    using from_buffer_decoded [OF d assms(4)] .
  then have "is_utf8 h \<and> \<not> is_untested h"
    using json_kind_kinds by (auto simp: is_utf8_def is_untested_def split: option.splits)
  then have "deserializable_as (e_sha E) h CtText ?c \<noteq> Inr (Some False)"
    using assms(5) by (simp add: deserializable_as_def HASH_TYPE_CELLTYPES_def)
  from parse_buffer_fresh [OF assms(3,4) _ this virtual_plain_type [OF assms(5)]]
  obtain s' where "parse_buffer E b ?c CtText s = parse_branch (e_codec E) b ?c CtText s'"
    by (auto simp: celltypes_def)
  then show ?thesis
    by (simp add: parse_branch_def text_types2_def decode_text_def d obind_def otry_def
        validate_text_celltype_def validate_text_def as_ValueError_def)
qed

text \<open>A codec for the witnesses: strings are their own \<open>str\<close>, everything else fails.\<close>

definition tiny_codec :: "unit codec" where
  "tiny_codec = \<lparr>c_lib = tiny_lib, orjson_dumps = (\<lambda>_. Inl TypeError), orjson_numpy = (\<lambda>_. Inl TypeError),
     yaml_load = (\<lambda>_. Inl ValueError), ast_parse = (\<lambda>_. Inl SyntaxError), ipython2python = Inr,
     mixed_loads = (\<lambda>_. Inl ValueError), mixed_dumps = (\<lambda>_ _. Inl TypeError),
     py_str = (\<lambda>v. case v of VStr t \<Rightarrow> Inr t | _ \<Rightarrow> Inl TypeError), py_int = (\<lambda>_. Inl ValueError),
     py_to_float = (\<lambda>_. Inl ValueError), py_bool = (\<lambda>_. Inl ValueError), np_array = (\<lambda>_. Inl ValueError),
     np_isarray = (\<lambda>_. True), np_kind = (\<lambda>_. CHR ''i''), np_dims = (\<lambda>_. 0), np_isfinite = (\<lambda>_. True),
     np_tobytes = (\<lambda>_. None), np_floating = (\<lambda>_. None), np_boolean = (\<lambda>_. None),
     np_complex = (\<lambda>_. False), np_float64 = (\<lambda>_. ())\<rparr>"

definition tiny_env :: "unit env" where
  "tiny_env = \<lparr>e_sha = pad_sha, e_codec = tiny_codec, e_db = None, e_in_loop = False\<rparr>"

definition tiny_state :: vstate where
  "tiny_state = \<lparr>vs_ht = \<lparr>ht_cache = [], ht_uploads = [], ht_closed = False\<rparr>, vs_text = []\<rparr>"

theorem text_roundtrip_witness:
  "fst (parse_buffer tiny_env (ascii (''hi'' @ nl)) (e_sha tiny_env (ascii (''hi'' @ nl))) CtText tiny_state)
     = Inr (VStr (strip_nl (u (''hi'' @ nl @ nl))))"
  by (rule text_roundtrip [where h = "HT2 RAW_TEXT SHORT"]) code_simp+

text \<open>What orjson makes of a string of lowercase hexadecimal digits: a number, or no JSON.\<close>

definition hex_is_no_document :: "'nd lib \<Rightarrow> checksum \<Rightarrow> bool" where
  "hex_is_no_document L c \<longleftrightarrow> (case orjson_loads L (hex c) of
     Inl e \<Rightarrow> is_ValueError e
   | Inr (VInt _) \<Rightarrow> True | Inr (VFloat _) \<Rightarrow> True | Inr _ \<Rightarrow> False)"

text \<open>A checksum value written as a checksum buffer (the bare digits) reads back as that
  checksum.\<close>

theorem checksum_roundtrip:
  assumes "serialize (e_codec E) (VChecksum c) CtChecksum = Inr b"
    and "checksum_wf c" and "hex_is_no_document (e_lib E) c"
    and "fresh (e_sha E b) s" and "\<not> null_checksum (e_sha E) (e_sha E b)"
  shows "fst (parse_buffer E b (e_sha E b) CtChecksum s) = Inr (VChecksum c)"
proof -
  let ?c = "e_sha E b"
  have b: "encode (hex c) = Some b" "b = map of_nat (hex c)"
    using assms(1) checksum_init_hex [OF assms(2)] encode_ascii [OF hex_ascii [of c]]
    by (auto simp: serialize_def celltypes_def text_types_def encode_text_def)
  note d = decode_encode [OF b(1)]
  have len: "length_bucket (length b) = EQ64"
    using length_hex [OF assms(2)] by (simp add: b(2) length_bucket_def)
  obtain k f where kf: "json_kind_and_flags (e_lib E) (hex c) = Inr (k, f)" "k = None \<or> k = Some JSON_NUMBER"
    using assms(3) by (auto simp: hex_is_no_document_def json_kind_and_flags_def split: sum.splits pyval.splits)
  define h where "h = (case k of None \<Rightarrow> HT2 RAW_TEXT EQ64 | Some k \<Rightarrow> HT k EQ64 NA SCALAR f)"
  have h: "from_buffer (e_lib E) b = Inr h"
    using decode_not_magic [OF d] kf d len by (simp add: from_buffer_def h_def split: option.splits)
  have "deserializable_as (e_sha E) h CtChecksum ?c \<noteq> Inr (Some False)"
    using assms(5) kf(2)
    by (auto simp: h_def deserializable_as_def HASH_TYPE_CELLTYPES_def is_untested_def Let_def)
  from parse_buffer_fresh [OF assms(4) h _ this virtual_plain_type [OF assms(5)]]
  obtain s' where "parse_buffer E b ?c CtChecksum s = parse_branch (e_codec E) b ?c CtChecksum s'"
    by (auto simp: celltypes_def)
  then show ?thesis
    using checksum_init_hex [OF assms(2)]
    by (simp add: parse_branch_def text_types2_def decode_text_def d)
qed

definition sevens :: checksum where
  "sevens = Checksum (replicate 32 7)"

theorem checksum_roundtrip_witness:
  "fst (parse_buffer tiny_env (map of_nat (hex sevens)) (e_sha tiny_env (map of_nat (hex sevens))) CtChecksum
     tiny_state) = Inr (VChecksum sevens)"
  by (rule checksum_roundtrip) code_simp+

lemma text_read_error:
  assumes "ct \<in> set text_types2" and "fst (parse_branch K b c ct s) = Inl e"
  shows "is_ValueError e"
proof (cases "decode b")
  case None
  with assms show ?thesis by (simp add: parse_branch_def decode_text_def is_ValueError_def)
next
  case (Some t)
  obtain r s' where v: "validate_text_celltype K (strip_nl t) c ct s = (r, s')" by fastforce
  have "r = Inl e' \<Longrightarrow> e' = ValueError" for e'
    using v assms(1)
    by (auto simp: validate_text_celltype_def validate_text_def as_ValueError_def
        split: if_splits sum.splits)
  with assms Some v show ?thesis
    by (cases r) (auto simp: parse_branch_def decode_text_def obind_def otry_def is_ValueError_def)
qed

lemma deserialize_mixed_error: "deserialize_mixed K b = Inl e \<Longrightarrow> is_ValueError e"
  by (auto simp: deserialize_mixed_def is_ValueError_def split: sum.splits if_splits)

lemma mixed_read_error:
  "ct = CtBinary \<or> ct = CtMixed \<or> ct = CtBytes \<Longrightarrow> fst (parse_branch K b c ct s) = Inl e \<Longrightarrow> is_ValueError e"
  by (auto simp: parse_branch_def text_types2_def rbind_Inl_iff is_ValueError_def [of ValueError]
      dest: deserialize_mixed_error split: if_splits)

definition only_ValueError :: "'a result \<Rightarrow> bool" where
  "only_ValueError r = (case r of Inl e \<Rightarrow> is_ValueError e | Inr _ \<Rightarrow> True)"

lemma read_only_ValueError:
  "ct \<in> set text_types2 \<or> ct = CtBinary \<or> ct = CtMixed \<or> ct = CtBytes \<Longrightarrow>
     only_ValueError (fst (parse_branch K b c ct s))"
  unfolding only_ValueError_def using text_read_error mixed_read_error by (metis sum.case_eq_if sum.collapse(1))

text \<open>A failed read is a \<open>ValueError\<close>. Whatever the parsers of Python, IPython and
  YAML and the mixed format raise on a buffer's content, \<open>_parse_buffer\<close> reports it as a
  \<open>ValueError\<close>, for the source celltypes and for the formats that hold arrays.\<close>

theorem failed_read_is_ValueError:
  "list_all (\<lambda>ct. only_ValueError (fst (parse_branch K b c ct s)))
     [CtText, CtPython, CtIPython, CtYaml, CtBinary, CtMixed, CtBytes]"
  by (simp add: read_only_ValueError text_types2_def)

end
