(* ===== verification/CellJoin.thy ===== *)
theory CellJoin
  imports Values
begin

text \<open>
  \<open>seamless/checksum/celljoin.py\<close>, the definition of a cell-level join and its pure
  evaluation: \<open>build_celljoin\<close> writes the canonical mapping of input checksums,
  \<open>parse_celljoin\<close> reads one, \<open>evaluate_celljoin\<close> assembles the value from the
  buffers it is given. The placement of the evaluation is in the theory \<open>Placement\<close>.
\<close>

section \<open>Keys\<close>

text \<open>What a caller may use as a member key and as a member value.\<close>

datatype join_key = KeyStr ustr | KeyInt int | KeyBool bool | KeyOther
datatype join_value = JoinChecksum checksum | JoinOther

definition CELLJOIN_CELLTYPES :: "celltype list" where
  "CELLJOIN_CELLTYPES = [CtMixed, CtPlain, CtDeepcell, CtDeepfolder]"

definition JOIN_DEEP_CELLTYPES :: "celltype list" where
  "JOIN_DEEP_CELLTYPES = [CtDeepcell, CtDeepfolder]"

definition root_key :: ustr where
  "root_key = u ''<root>''"

definition numeric_mark :: ustr where
  "numeric_mark = u ''<numeric>''"

definition RESERVED_KEYS :: "ustr list" where
  "RESERVED_KEYS = [root_key, numeric_mark]"

text \<open>\<open>str(n)\<close> and \<open>int(t)\<close> for a natural number in decimal digits.\<close>

fun decimal :: "nat \<Rightarrow> ustr" where
  "decimal n = (if n < 10 then [48 + n] else decimal (n div 10) @ [48 + n mod 10])"

declare decimal.simps [simp del]

definition from_decimal :: "ustr \<Rightarrow> nat" where
  "from_decimal t = foldl (\<lambda>n c. 10 * n + (c - 48)) 0 t"

text \<open>\<open>_NUMERIC_KEY\<close>: a single zero, or digits that do not start with one.\<close>

definition numeric_key :: "ustr \<Rightarrow> bool" where
  "numeric_key t \<longleftrightarrow> t \<noteq> [] \<and> list_all ascii_digit t \<and> (hd t = 48 \<longrightarrow> length t = 1)"

text \<open>\<open>_HEX_CHECKSUM\<close>\<close>

definition hex_checksum :: "ustr \<Rightarrow> bool" where
  "hex_checksum t \<longleftrightarrow> length t = 64 \<and> list_all is_hex_lower t"

section \<open>Building a definition\<close>

datatype member_kind = StringKeys | IntegerKeys

definition normalize_key :: "join_key \<Rightarrow> (ustr \<times> member_kind) result" where
  "normalize_key k =
     (case k of
        KeyBool _ \<Rightarrow> Inl TypeError
      | KeyStr t \<Rightarrow> if t \<in> set RESERVED_KEYS then Inl ValueError else Inr (t, StringKeys)
      | KeyInt n \<Rightarrow> if n < 0 then Inl ValueError else Inr (decimal (nat n), IntegerKeys)
      | KeyOther \<Rightarrow> Inl TypeError)"

fun collect_members ::
  "(join_key \<times> join_value) list \<Rightarrow> member_kind option \<Rightarrow> (ustr, ustr) dict
     \<Rightarrow> (member_kind option \<times> (ustr, ustr) dict) result"
where
  "collect_members [] mk known = Inr (mk, known)"
| "collect_members ((k, v) # ms) mk known =
     rbind (normalize_key k) (\<lambda>(t, this).
       if mk \<noteq> None \<and> mk \<noteq> Some this then Inl TypeError
       else if dget known t \<noteq> None then Inl ValueError
       else case v of
         JoinOther \<Rightarrow> Inl TypeError
       | JoinChecksum c \<Rightarrow> collect_members ms (Some this) (dset t (hex c) known))"

definition build_celljoin ::
  "join_value option \<Rightarrow> (join_key \<times> join_value) list \<Rightarrow> (ustr, ustr option) dict result" where
  "build_celljoin rt members =
     (if rt = Some JoinOther then Inl TypeError
      else rbind (collect_members members None []) (\<lambda>(mk, known).
        let d0 = (if mk = Some IntegerKeys then dset numeric_mark None [] else []);
            d1 = (case rt of Some (JoinChecksum c) \<Rightarrow> dset root_key (Some (hex c)) d0 | _ \<Rightarrow> d0)
        in Inr (fold (\<lambda>(t, h). dset t (Some h)) known d1)))"

text \<open>The mapping as a Python value.\<close>

definition join_pyval :: "(ustr, ustr option) dict \<Rightarrow> (ustr \<times> 'nd pyval) list" where
  "join_pyval d = map (\<lambda>(t, h). (t, case h of None \<Rightarrow> VNone | Some x \<Rightarrow> VStr x)) d"

definition celljoin_buffer :: "'nd codec \<Rightarrow> (ustr \<times> 'nd pyval) list \<Rightarrow> bytes result" where
  "celljoin_buffer K d = buffer_of K (VDict d) CtPlain"

section \<open>Parsing a definition\<close>

datatype 'nd join_definition =
    DefBuffer bytes
  | DefBytes bytes
  | DefStr ustr
  | DefMapping "(join_key \<times> 'nd pyval) list"
  | DefOther

record celljoin_spec =
  js_checksum :: checksum
  js_celltype :: celltype
  js_root :: "checksum option"
  js_numeric :: bool
  js_members :: "(ustr \<times> checksum) list"
  js_buffer :: bytes

fun string_keys :: "(join_key \<times> 'nd pyval) list \<Rightarrow> (ustr \<times> 'nd pyval) list result" where
  "string_keys [] = Inr []"
| "string_keys ((k, v) # kvs) =
     (case k of
        KeyStr t \<Rightarrow> rbind (string_keys kvs) (\<lambda>r. Inr ((t, v) # r))
      | _ \<Rightarrow> Inl TypeError)"

text \<open>\<open>_load_definition\<close>, with the check that every key is a string.\<close>

definition load_definition ::
  "'nd env \<Rightarrow> 'nd join_definition \<Rightarrow> ((ustr \<times> 'nd pyval) list \<times> bytes option) vop" where
  "load_definition E d =
     (let from_buffer = (\<lambda>b. obind (buffer_get_value E b CtPlain) (\<lambda>v.
            case v of VDict kvs \<Rightarrow> oret (kvs, Some b) | _ \<Rightarrow> oraise TypeError))
      in case d of
        DefBuffer b \<Rightarrow> from_buffer b
      | DefBytes b \<Rightarrow> from_buffer b
      | DefStr t \<Rightarrow> obind (olift (encode_text t)) from_buffer
      | DefMapping kvs \<Rightarrow> obind (olift (string_keys kvs)) (\<lambda>r. oret (r, None))
      | DefOther \<Rightarrow> oraise TypeError)"

definition join_checksum :: "'nd pyval \<Rightarrow> checksum result" where
  "join_checksum v =
     (case v of
        VStr t \<Rightarrow> if hex_checksum t then checksum_init (ArgStr t) else Inl ValueError
      | _ \<Rightarrow> Inl TypeError)"

text \<open>The loop over the items of the mapping.\<close>

fun parse_members :: "bool \<Rightarrow> (ustr \<times> 'nd pyval) list \<Rightarrow> (ustr \<times> checksum) list result" where
  "parse_members numeric [] = Inr []"
| "parse_members numeric ((t, v) # kvs) =
     (if t \<in> set RESERVED_KEYS then parse_members numeric kvs
      else if numeric \<and> \<not> numeric_key t then Inl ValueError
      else rbind (join_checksum v) (\<lambda>c. rbind (parse_members numeric kvs) (\<lambda>ms. Inr ((t, c) # ms))))"

definition parse_mapping ::
  "celltype \<Rightarrow> (ustr \<times> 'nd pyval) list \<Rightarrow> (checksum option \<times> bool \<times> (ustr \<times> checksum) list) result" where
  "parse_mapping ct kvs =
     (let mark = dget kvs numeric_mark; numeric = (mark \<noteq> None) in
      if numeric \<and> (case mark of Some VNone \<Rightarrow> False | _ \<Rightarrow> True) then Inl ValueError
      else if numeric \<and> ct \<in> set JOIN_DEEP_CELLTYPES then Inl ValueError
      else
        rbind (case dget kvs root_key of
            None \<Rightarrow> Inr None
          | Some v \<Rightarrow> rbind (join_checksum v) (\<lambda>c. Inr (Some c))) (\<lambda>rt.
        rbind (parse_members numeric kvs) (\<lambda>ms.
          if numeric \<and> ms = [] then Inl ValueError else Inr (rt, numeric, ms))))"

definition parse_celljoin :: "'nd env \<Rightarrow> 'nd join_definition \<Rightarrow> celltype \<Rightarrow> celljoin_spec vop" where
  "parse_celljoin E d ct =
     (if ct \<notin> set CELLJOIN_CELLTYPES then oraise ValueError
      else obind (load_definition E d) (\<lambda>(kvs, ob).
        obind (olift (parse_mapping ct kvs)) (\<lambda>(rt, numeric, ms).
        obind (olift (case ob of Some b \<Rightarrow> Inr b | None \<Rightarrow> celljoin_buffer (e_codec E) kvs)) (\<lambda>b.
          oret \<lparr>js_checksum = e_sha E b, js_celltype = ct, js_root = rt, js_numeric = numeric,
                js_members = ms, js_buffer = b\<rparr>))))"

section \<open>Evaluation\<close>

definition add_distinct :: "'a \<Rightarrow> 'a list \<Rightarrow> 'a list" where
  "add_distinct x xs = (if x \<in> set xs then xs else xs @ [x])"

definition required_buffers :: "celljoin_spec \<Rightarrow> checksum list" where
  "required_buffers spec =
     (let rt = (case js_root spec of None \<Rightarrow> [] | Some c \<Rightarrow> [c]) in
      if js_celltype spec \<in> set JOIN_DEEP_CELLTYPES then rt
      else fold (\<lambda>(t, c). add_distinct c) (js_members spec) rt)"

text \<open>\<open>_resolve_value\<close>: \<open>get\<close> is the buffer getter, with the exceptions it raises.\<close>

definition resolve_value ::
  "'nd env \<Rightarrow> (checksum \<Rightarrow> bytes result) \<Rightarrow> celltype \<Rightarrow> checksum \<Rightarrow> 'nd pyval vop" where
  "resolve_value E get ct c =
     (case virtual (e_sha E) c ct of
        Inl e \<Rightarrow> oraise e
      | Inr (Some v) \<Rightarrow> oret v
      | Inr None \<Rightarrow> obind (olift (get c)) (\<lambda>b. buffer_get_value E b ct))"

text \<open>\<open>value[key] = item\<close> for a string key: dictionaries, and numpy arrays through
  \<open>np_set\<close>; any other value refuses it.\<close>

definition set_item ::
  "('nd \<Rightarrow> ustr \<Rightarrow> 'nd pyval \<Rightarrow> 'nd result) \<Rightarrow> 'nd pyval \<Rightarrow> ustr \<Rightarrow> 'nd pyval \<Rightarrow> 'nd pyval result" where
  "set_item np_set v t x =
     (case v of
        VDict kvs \<Rightarrow> Inr (VDict (dset t x kvs))
      | VArray a \<Rightarrow> rbind (np_set a t x) (\<lambda>b. Inr (VArray b))
      | _ \<Rightarrow> Inl TypeError)"

fun set_checksums ::
  "('nd \<Rightarrow> ustr \<Rightarrow> 'nd pyval \<Rightarrow> 'nd result) \<Rightarrow> (ustr \<times> checksum) list \<Rightarrow> 'nd pyval \<Rightarrow> 'nd pyval result" where
  "set_checksums np_set [] v = Inr v"
| "set_checksums np_set ((t, c) # ms) v =
     rbind (set_item np_set v t (VChecksum c)) (set_checksums np_set ms)"

fun join_items ::
  "'nd env \<Rightarrow> ('nd \<Rightarrow> ustr \<Rightarrow> 'nd pyval \<Rightarrow> 'nd result) \<Rightarrow> (checksum \<Rightarrow> bytes result) \<Rightarrow> celltype
     \<Rightarrow> (ustr \<times> checksum) list \<Rightarrow> 'nd pyval \<Rightarrow> 'nd pyval vop"
where
  "join_items E np_set get ct [] v = oret v"
| "join_items E np_set get ct ((t, c) # ms) v =
     obind (resolve_value E get ct c) (\<lambda>x.
     obind (olift (set_item np_set v t x)) (join_items E np_set get ct ms))"

fun join_indices ::
  "'nd env \<Rightarrow> (checksum \<Rightarrow> bytes result) \<Rightarrow> celltype \<Rightarrow> (ustr \<times> checksum) list \<Rightarrow> 'nd pyval list
     \<Rightarrow> 'nd pyval list vop"
where
  "join_indices E get ct [] vs = oret vs"
| "join_indices E get ct ((t, c) # ms) vs =
     (if from_decimal t \<ge> length vs then oraise IndexError
      else obind (resolve_value E get ct c) (\<lambda>x. join_indices E get ct ms (vs[from_decimal t := x])))"

text \<open>The value \<open>evaluate_celljoin\<close> serializes, and the buffer it makes of it.\<close>

definition celljoin_value ::
  "'nd env \<Rightarrow> ('nd \<Rightarrow> ustr \<Rightarrow> 'nd pyval \<Rightarrow> 'nd result) \<Rightarrow> celljoin_spec \<Rightarrow> (checksum \<Rightarrow> bytes result)
     \<Rightarrow> 'nd pyval vop"
where
  "celljoin_value E np_set spec get =
     obind (case js_root spec of None \<Rightarrow> oret (VDict []) | Some c \<Rightarrow> resolve_value E get (js_celltype spec) c)
       (\<lambda>v.
         if js_celltype spec \<in> set JOIN_DEEP_CELLTYPES then olift (set_checksums np_set (js_members spec) v)
         else if js_numeric spec then
           (case v of
              VList vs \<Rightarrow> obind (join_indices E get (js_celltype spec) (js_members spec) vs) (\<lambda>r. oret (VList r))
            | _ \<Rightarrow> oraise TypeError)
         else join_items E np_set get (js_celltype spec) (js_members spec) v)"

definition evaluate_celljoin ::
  "'nd env \<Rightarrow> ('nd \<Rightarrow> ustr \<Rightarrow> 'nd pyval \<Rightarrow> 'nd result) \<Rightarrow> celljoin_spec \<Rightarrow> (checksum \<Rightarrow> bytes result) \<Rightarrow> bytes vop"
where
  "evaluate_celljoin E np_set spec get =
     obind (celljoin_value E np_set spec get) (\<lambda>v. olift (buffer_of (e_codec E) v (js_celltype spec)))"


section \<open>Decimal keys\<close>

lemma from_decimal_append: "from_decimal (t @ [c]) = 10 * from_decimal t + (c - 48)"
  by (simp add: from_decimal_def)

lemma from_decimal_decimal: "from_decimal (decimal n) = n"
proof (induction n rule: decimal.induct)
  case (1 n)
  show ?case
  proof (cases "n < 10")
    case True
    then show ?thesis by (simp add: decimal.simps [of n] from_decimal_def)
  next
    case False
    then show ?thesis using 1 by (simp add: decimal.simps [of n] from_decimal_append)
  qed
qed

lemma decimal_digits: "list_all ascii_digit (decimal n) \<and> decimal n \<noteq> []"
proof (induction n rule: decimal.induct)
  case (1 n)
  then show ?case by (cases "n < 10") (auto simp: decimal.simps [of n] ascii_digit_def)
qed

lemma decimal_hd: "10 \<le> n \<Longrightarrow> hd (decimal n) \<noteq> 48"
proof (induction n rule: decimal.induct)
  case (1 n)
  have "hd (decimal (n div 10)) \<noteq> 48"
  proof (cases "10 \<le> n div 10")
    case True
    with 1 show ?thesis by simp
  next
    case False
    then have "decimal (n div 10) = [48 + n div 10]" by (simp add: decimal.simps [of "n div 10"])
    with 1(2) show ?thesis by simp
  qed
  then show ?case using 1(2) decimal_digits [of "n div 10"] by (simp add: decimal.simps [of n])
qed

lemma numeric_key_decimal: "numeric_key (decimal n)"
proof (cases "n < 10")
  case True
  then show ?thesis by (simp add: numeric_key_def decimal.simps [of n] ascii_digit_def)
next
  case False
  then show ?thesis using decimal_hd [of n] decimal_digits [of n] by (simp add: numeric_key_def)
qed

lemma decimal_not_reserved: "decimal n \<notin> set RESERVED_KEYS"
proof -
  have "\<not> list_all ascii_digit root_key" "\<not> list_all ascii_digit numeric_mark"
    by (simp_all add: root_key_def numeric_mark_def u_def ascii_digit_def)
  then show ?thesis using decimal_digits [of n] by (auto simp: RESERVED_KEYS_def)
qed

section \<open>What is built is what is read\<close>

definition member_text :: "join_key \<Rightarrow> ustr" where
  "member_text k = (case k of KeyStr t \<Rightarrow> t | KeyInt n \<Rightarrow> decimal (nat n) | _ \<Rightarrow> [])"

definition member_sum :: "join_value \<Rightarrow> checksum" where
  "member_sum v = (case v of JoinChecksum c \<Rightarrow> c | JoinOther \<Rightarrow> Checksum [])"

lemma normalize_key_Inr:
  "normalize_key k = Inr (t, this) \<Longrightarrow> t = member_text k \<and> t \<notin> set RESERVED_KEYS
     \<and> (this = IntegerKeys \<longleftrightarrow> (\<exists>n. k = KeyInt n)) \<and> (this = IntegerKeys \<longrightarrow> numeric_key t)"
  by (auto simp: normalize_key_def member_text_def decimal_not_reserved numeric_key_decimal
      split: join_key.splits if_splits)

lemma dset_fresh: "dget d k = None \<Longrightarrow> dset k v d = d @ [(k, v)]"
  by (induction d) (auto split: if_splits)

lemma collect_members_spec:
  "collect_members ms mk known = Inr (mk', known') \<Longrightarrow>
     known' = known @ map (\<lambda>(k, v). (member_text k, hex (member_sum v))) ms
     \<and> mk' = (if ms = [] then mk else Some (if \<exists>n v. (KeyInt n, v) \<in> set ms then IntegerKeys else StringKeys))
     \<and> (mk \<noteq> None \<longrightarrow> mk' = mk)
     \<and> list_all (\<lambda>(k, v). member_text k \<notin> set RESERVED_KEYS
          \<and> (mk' = Some IntegerKeys \<longrightarrow> numeric_key (member_text k)) \<and> v \<noteq> JoinOther) ms
     \<and> distinct (map (member_text \<circ> fst) ms) \<and> set (map (member_text \<circ> fst) ms) \<inter> set (dkeys known) = {}"
proof (induction ms mk known rule: collect_members.induct)
  case (1 mk known)
  then show ?case by simp
next
  case (2 k v ms mk known)
  from "2.prems" obtain t this where n: "normalize_key k = Inr (t, this)"
    and mk: "mk = None \<or> mk = Some this" and t: "dget known t = None"
    by (auto simp: rbind_Inr_iff split: if_splits)
  with "2.prems" obtain c where v: "v = JoinChecksum c"
    and rest: "collect_members ms (Some this) (dset t (hex c) known) = Inr (mk', known')"
    by (auto split: join_value.splits if_splits)
  have guards: "\<not> (mk \<noteq> None \<and> mk \<noteq> Some this)" "\<not> dget known t \<noteq> None"
    using mk t by auto
  note k = normalize_key_Inr [OF n]
  note IH = "2.IH" [OF guards v rest]
  have mk': "mk' = Some this" using IH by blast
  have apart: "set (map (member_text \<circ> fst) ms) \<inter> insert t (set (dkeys known)) = {}"
    using IH unfolding dkeys_dset by blast
  then have "t \<notin> set (map (member_text \<circ> fst) ms)" by blast
  have tk: "t \<notin> set (dkeys known)" using t by (simp add: dget_None_iff)
  have this_eq: "Some this = Some (if \<exists>n w. (KeyInt n, w) \<in> set ((k, v) # ms) then IntegerKeys else StringKeys)"
  proof (cases "ms = []")
    case True
    then show ?thesis using k by (cases this) auto
  next
    case False
    with IH mk' have "this = (if \<exists>n w. (KeyInt n, w) \<in> set ms then IntegerKeys else StringKeys)" by simp
    then show ?thesis using k by (auto split: if_splits)
  qed
  show ?case
  proof (intro conjI)
    show "known' = known @ map (\<lambda>(k, v). (member_text k, hex (member_sum v))) ((k, v) # ms)"
      using IH k v dset_fresh [OF t, of "hex c"] by (simp add: member_sum_def)
    show "mk' = (if (k, v) # ms = [] then mk
        else Some (if \<exists>n w. (KeyInt n, w) \<in> set ((k, v) # ms) then IntegerKeys else StringKeys))"
      using mk' this_eq by simp
    show "mk \<noteq> None \<longrightarrow> mk' = mk" using mk mk' by auto
    show "list_all (\<lambda>(k, v). member_text k \<notin> set RESERVED_KEYS
          \<and> (mk' = Some IntegerKeys \<longrightarrow> numeric_key (member_text k)) \<and> v \<noteq> JoinOther) ((k, v) # ms)"
      using IH k v mk' by auto
    show "distinct (map (member_text \<circ> fst) ((k, v) # ms))"
      using IH k \<open>t \<notin> set (map (member_text \<circ> fst) ms)\<close> by (simp add: comp_def)
    show "set (map (member_text \<circ> fst) ((k, v) # ms)) \<inter> set (dkeys known) = {}"
      using apart k tk by auto
  qed
qed

lemma fold_dset_fresh:
  "distinct (map fst kvs) \<Longrightarrow> set (map fst kvs) \<inter> set (dkeys d) = {} \<Longrightarrow>
     fold (\<lambda>(t, h). dset t (f h)) kvs d = d @ map (\<lambda>(t, h). (t, f h)) kvs"
proof (induction kvs arbitrary: d)
  case Nil
  then show ?case by simp
next
  case (Cons p kvs)
  obtain t h where p: "p = (t, h)" by fastforce
  with Cons.prems have "dset t (f h) d = d @ [(t, f h)]" by (intro dset_fresh) (simp add: dget_None_iff)
  with Cons p show ?case by auto
qed

definition root_items :: "join_value option \<Rightarrow> (ustr \<times> ustr option) list" where
  "root_items rt = (case rt of Some (JoinChecksum c) \<Rightarrow> [(root_key, Some (hex c))] | _ \<Rightarrow> [])"

definition has_int_key :: "(join_key \<times> join_value) list \<Rightarrow> bool" where
  "has_int_key ms = list_ex (\<lambda>(k, v). case k of KeyInt _ \<Rightarrow> True | _ \<Rightarrow> False) ms"

lemma has_int_key_iff: "has_int_key ms \<longleftrightarrow> (\<exists>n v. (KeyInt n, v) \<in> set ms)"
  by (force simp: has_int_key_def list_ex_iff split: join_key.splits)

lemma reserved_distinct: "root_key \<noteq> numeric_mark"
  by (simp add: root_key_def numeric_mark_def u_def)

lemma build_celljoin_items:
  assumes "build_celljoin rt ms = Inr d"
  shows "d = (if has_int_key ms then [(numeric_mark, None)] else []) @ root_items rt
      @ map (\<lambda>(k, v). (member_text k, Some (hex (member_sum v)))) ms
    \<and> list_all (\<lambda>(k, v). member_text k \<notin> set RESERVED_KEYS
        \<and> (has_int_key ms \<longrightarrow> numeric_key (member_text k)) \<and> v \<noteq> JoinOther) ms
    \<and> distinct (map (member_text \<circ> fst) ms) \<and> rt \<noteq> Some JoinOther"
proof -
  from assms obtain mk known where c: "collect_members ms None [] = Inr (mk, known)"
    and rt: "rt \<noteq> Some JoinOther"
    by (auto simp: build_celljoin_def rbind_Inr_iff split: if_splits)
  note spec = collect_members_spec [OF c]
  have int: "mk = Some IntegerKeys \<longleftrightarrow> has_int_key ms"
    using spec by (cases ms) (auto simp: has_int_key_iff)
  let ?d0 = "if mk = Some IntegerKeys then dset numeric_mark None [] else [] :: (ustr, ustr option) dict"
  define d1 where "d1 = (case rt of Some (JoinChecksum c) \<Rightarrow> dset root_key (Some (hex c)) ?d0 | _ \<Rightarrow> ?d0)"
  have d1: "d1 = (if has_int_key ms then [(numeric_mark, None)] else []) @ root_items rt"
    using reserved_distinct
    by (simp add: d1_def int root_items_def split: option.split join_value.split)
  have keys: "set (dkeys d1) \<subseteq> set RESERVED_KEYS"
    unfolding d1 by (auto simp: root_items_def RESERVED_KEYS_def split: option.splits join_value.splits)
  have known: "known = map (\<lambda>(k, v). (member_text k, hex (member_sum v))) ms" using spec by simp
  have apart: "set (map fst known) \<inter> set RESERVED_KEYS = {}"
    using spec unfolding known list_all_iff by auto
  have dist: "distinct (map fst known)" using spec unfolding known by (simp add: comp_def case_prod_beta)
  have "fold (\<lambda>(t, h). dset t (Some h)) known d1 = d1 @ map (\<lambda>(t, h). (t, Some h)) known"
    using keys apart by (intro fold_dset_fresh [OF dist]) blast
  then have "d = d1 @ map (\<lambda>(t, h). (t, Some h)) known"
    using assms c rt by (simp add: build_celljoin_def Let_def d1_def)
  then show ?thesis
    using d1 known spec int rt by (simp add: case_prod_beta comp_def)
qed


lemma join_checksum_hex: "checksum_wf c \<Longrightarrow> join_checksum (VStr (hex c)) = Inr c"
  using checksum_init_hex [of c] length_hex [of c] hex_bytes_lower [of "digest c"]
  by (simp add: join_checksum_def hex_checksum_def hex_def list_all_iff)

lemma dget_append: "dget (a @ b) k = (case dget a k of None \<Rightarrow> dget b k | Some v \<Rightarrow> Some v)"
  by (simp add: map_add_def)

definition built_members :: "(join_key \<times> join_value) list \<Rightarrow> (ustr \<times> checksum) list" where
  "built_members ms = map (\<lambda>(k, v). (member_text k, member_sum v)) ms"

definition built_root :: "join_value option \<Rightarrow> checksum option" where
  "built_root rt = map_option member_sum rt"

definition sums_wf :: "join_value option \<Rightarrow> (join_key \<times> join_value) list \<Rightarrow> bool" where
  "sums_wf rt ms \<longleftrightarrow> list_all (\<lambda>(k, v). checksum_wf (member_sum v)) ms
     \<and> (case rt of None \<Rightarrow> True | Some v \<Rightarrow> checksum_wf (member_sum v))"

lemma parse_members_built:
  "list_all (\<lambda>(k, v). member_text k \<notin> set RESERVED_KEYS \<and> (numeric \<longrightarrow> numeric_key (member_text k)) \<and> v \<noteq> JoinOther) ms
     \<Longrightarrow> list_all (\<lambda>(k, v). checksum_wf (member_sum v)) ms \<Longrightarrow>
   parse_members numeric (map (\<lambda>(k, v). (member_text k, VStr (hex (member_sum v)))) ms) = Inr (built_members ms)"
  by (induction ms) (auto simp: built_members_def join_checksum_hex)

lemma reserved_members: "t \<in> set RESERVED_KEYS \<Longrightarrow>
    parse_members numeric ((t, v) # kvs) = parse_members numeric kvs"
  by simp

lemma parse_mapping_built:
  assumes "build_celljoin rt ms = Inr d" and "sums_wf rt ms"
    and "has_int_key ms \<Longrightarrow> ct \<notin> set JOIN_DEEP_CELLTYPES"
  shows "parse_mapping ct (join_pyval d :: (ustr \<times> 'nd pyval) list) =
    Inr (built_root rt, has_int_key ms, built_members ms)"
proof -
  note d = build_celljoin_items [OF assms(1)]
  define body :: "(ustr \<times> 'nd pyval) list" where
    "body = map (\<lambda>(k, v). (member_text k, VStr (hex (member_sum v)))) ms"
  define rts :: "(ustr \<times> 'nd pyval) list" where
    "rts = (case rt of None \<Rightarrow> [] | Some v \<Rightarrow> [(root_key, VStr (hex (member_sum v)))])"
  have jp: "join_pyval d = (if has_int_key ms then [(numeric_mark, VNone)] else []) @ rts @ body"
    using d unfolding rts_def body_def
    by (auto simp: join_pyval_def root_items_def member_sum_def split: option.split join_value.split)
  have ok: "list_all (\<lambda>(k, v). member_text k \<notin> set RESERVED_KEYS
      \<and> (has_int_key ms \<longrightarrow> numeric_key (member_text k)) \<and> v \<noteq> JoinOther) ms"
    using d by blast
  have none: "dget body t = None" if "t \<in> set RESERVED_KEYS" for t
    using ok that unfolding body_def dget_None_iff by (auto simp: list_all_iff)
  have res: "root_key \<in> set RESERVED_KEYS" "numeric_mark \<in> set RESERVED_KEYS"
    by (simp_all add: RESERVED_KEYS_def)
  note reserved = none [OF res(1)] none [OF res(2)] reserved_distinct
  have mark: "dget (join_pyval d :: (ustr \<times> 'nd pyval) list) numeric_mark =
      (if has_int_key ms then Some VNone else None)"
    using reserved unfolding jp rts_def by (simp add: dget_append split: option.split)
  have "dget (join_pyval d :: (ustr \<times> 'nd pyval) list) root_key =
      (case rt of None \<Rightarrow> None | Some v \<Rightarrow> Some (VStr (hex (member_sum v))))"
    using reserved unfolding jp rts_def by (simp add: dget_append split: option.split)
  then have root_ok: "(case dget (join_pyval d :: (ustr \<times> 'nd pyval) list) root_key of
      None \<Rightarrow> Inr None | Some v \<Rightarrow> rbind (join_checksum v) (\<lambda>c. Inr (Some c))) = Inr (built_root rt)"
    using assms(2) by (cases rt) (simp_all add: built_root_def sums_wf_def join_checksum_hex)
  have pm: "parse_members (has_int_key ms) (join_pyval d :: (ustr \<times> 'nd pyval) list) = Inr (built_members ms)"
    using parse_members_built [OF ok] assms(2) res
    unfolding jp rts_def body_def by (cases rt; cases "has_int_key ms") (simp_all add: sums_wf_def)
  have "built_members ms = [] \<longleftrightarrow> ms = []" by (simp add: built_members_def)
  moreover have "has_int_key [] = False" by (simp add: has_int_key_def)
  ultimately show ?thesis
    using mark root_ok pm assms(3) unfolding parse_mapping_def
    by (cases "has_int_key ms") auto
qed



text \<open>A join of one member, with an orjson that knows its document.\<close>

definition one_member :: "(ustr, ustr option) dict" where
  "one_member = [(u ''a'', Some (hex sevens))]"

definition join_env :: "unit env" where
  "join_env = tiny_env\<lparr>e_codec := tiny_codec\<lparr>orjson_dumps := (\<lambda>_. Inr (ascii ''{a}'')),
     c_lib := tiny_lib\<lparr>orjson_loads := (\<lambda>t. Inr (VDict (join_pyval one_member)))\<rparr>\<rparr>\<rparr>"

lemma one_member_reads:
  "fst (buffer_get_value join_env (ascii (''{a}'' @ nl)) CtPlain tiny_state) = Inr (VDict (join_pyval one_member))"
  by code_simp


section \<open>What an evaluation reads and makes\<close>

lemma resolve_cong: "g c = g' c \<Longrightarrow> resolve_value E g ct c = resolve_value E g' ct c"
  by (simp add: resolve_value_def split: sum.split option.split)

lemma join_items_cong:
  "\<forall>(t, c)\<in>set ms. g c = g' c \<Longrightarrow> join_items E np g ct ms v = join_items E np g' ct ms v"
proof (induction ms arbitrary: v)
  case Nil
  then show ?case by simp
next
  case (Cons m ms)
  obtain t c where m: "m = (t, c)" by fastforce
  have "join_items E np g ct ms = join_items E np g' ct ms" using Cons by (intro ext) auto
  moreover have "resolve_value E g ct c = resolve_value E g' ct c"
    using Cons.prems m by (intro resolve_cong) simp
  ultimately show ?case unfolding m by (intro ext) simp
qed

lemma join_indices_cong:
  "\<forall>(t, c)\<in>set ms. g c = g' c \<Longrightarrow> join_indices E g ct ms vs = join_indices E g' ct ms vs"
proof (induction ms arbitrary: vs)
  case Nil
  then show ?case by simp
next
  case (Cons m ms)
  obtain t c where m: "m = (t, c)" by fastforce
  have "join_indices E g ct ms = join_indices E g' ct ms" using Cons by (intro ext) auto
  moreover have "resolve_value E g ct c = resolve_value E g' ct c"
    using Cons.prems m by (intro resolve_cong) simp
  ultimately show ?case unfolding m by (intro ext) simp
qed

lemma set_fold_add_distinct: "set (fold (\<lambda>(t, c). add_distinct c) ms xs) = set xs \<union> snd ` set ms"
  by (induction ms arbitrary: xs) (auto simp: add_distinct_def split: if_splits)

lemma distinct_fold_add_distinct: "distinct xs \<Longrightarrow> distinct (fold (\<lambda>(t, c). add_distinct c) ms xs)"
  by (induction ms arbitrary: xs) (auto simp: add_distinct_def)

lemma required_members:
  assumes "js_celltype spec \<notin> set JOIN_DEEP_CELLTYPES" and "(t, c) \<in> set (js_members spec)"
  shows "c \<in> set (required_buffers spec)"
  using assms by (force simp: required_buffers_def Let_def set_fold_add_distinct)

lemma required_root: "js_root spec = Some c \<Longrightarrow> c \<in> set (required_buffers spec)"
  by (auto simp: required_buffers_def Let_def set_fold_add_distinct)

text \<open>The buffers announced are the buffers read. Two buffer getters that agree on
  \<open>required_buffers\<close>, a list without repetition, give the same evaluation: the same result
  or exception and the same caches, whatever they answer elsewhere (a missing key included).\<close>

theorem celljoin_needs_only_required:
  assumes "\<forall>c\<in>set (required_buffers spec). g c = g' c"
  shows "evaluate_celljoin E np_set spec g s = evaluate_celljoin E np_set spec g' s
    \<and> distinct (required_buffers spec)"
proof -
  have r: "resolve_value E g ct c = resolve_value E g' ct c" if "js_root spec = Some c" for c ct
    using assms required_root [OF that] by (intro resolve_cong) blast
  have m: "\<forall>(t, c)\<in>set (js_members spec). g c = g' c" if "js_celltype spec \<notin> set JOIN_DEEP_CELLTYPES"
    using assms required_members [OF that] by blast
  have "celljoin_value E np_set spec g = celljoin_value E np_set spec g'"
  proof (cases "js_celltype spec \<in> set JOIN_DEEP_CELLTYPES")
    case True
    then show ?thesis using r by (auto simp: celljoin_value_def split: option.split)
  next
    case False
    from m [OF this]
    have "join_items E np_set g (js_celltype spec) (js_members spec)
        = join_items E np_set g' (js_celltype spec) (js_members spec)"
      and "join_indices E g (js_celltype spec) (js_members spec)
        = join_indices E g' (js_celltype spec) (js_members spec)"
      by (intro ext join_items_cong join_indices_cong; assumption)+
    moreover have "(case js_root spec of None \<Rightarrow> oret (VDict []) | Some c \<Rightarrow> resolve_value E g (js_celltype spec) c)
        = (case js_root spec of None \<Rightarrow> oret (VDict []) | Some c \<Rightarrow> resolve_value E g' (js_celltype spec) c)"
      using r by (simp split: option.split)
    ultimately show ?thesis by (simp only: celljoin_value_def)
  qed
  moreover have "distinct (required_buffers spec)"
    by (auto simp: required_buffers_def Let_def distinct_fold_add_distinct split: option.split)
  ultimately show ?thesis by (simp add: evaluate_celljoin_def)
qed

definition one_spec :: celljoin_spec where
  "one_spec = \<lparr>js_checksum = sevens, js_celltype = CtPlain, js_root = None, js_numeric = False,
     js_members = [(u ''a'', sevens)], js_buffer = []\<rparr>"

definition no_fields :: "unit \<Rightarrow> ustr \<Rightarrow> unit pyval \<Rightarrow> unit result" where
  "no_fields a t v = Inl TypeError"

theorem celljoin_needs_only_required_witness:
  "evaluate_celljoin tiny_env no_fields one_spec (\<lambda>c. Inr (ascii ''42'')) tiny_state
     = evaluate_celljoin tiny_env no_fields one_spec
         (\<lambda>c. if c = sevens then Inr (ascii ''42'') else Inl KeyError) tiny_state
   \<and> distinct (required_buffers one_spec)"
  by (rule celljoin_needs_only_required) code_simp

lemma set_checksums_dict:
  "distinct (map fst ms) \<Longrightarrow> \<exists>kvs. set_checksums np ms (VDict base) = Inr (VDict kvs)
     \<and> (\<forall>t. dget kvs t = (case dget ms t of None \<Rightarrow> dget base t | Some c \<Rightarrow> Some (VChecksum c)))"
proof (induction ms arbitrary: base)
  case Nil
  then show ?case by simp
next
  case (Cons m ms)
  obtain t c where m: "m = (t, c)" by fastforce
  with Cons.prems have t: "dget ms t = None" by (simp add: dget_None_iff)
  from Cons.IH [of "dset t (VChecksum c) base"] Cons.prems m
  obtain kvs where k: "set_checksums np ms (VDict (dset t (VChecksum c) base)) = Inr (VDict kvs)"
    "\<forall>j. dget kvs j = (case dget ms j of None \<Rightarrow> dget (dset t (VChecksum c) base) j | Some c \<Rightarrow> Some (VChecksum c))"
    by auto
  with m t show ?case by (auto simp: set_item_def split: option.split)
qed

definition resolved :: "'nd env \<Rightarrow> (checksum \<Rightarrow> bytes result) \<Rightarrow> celltype \<Rightarrow> checksum \<Rightarrow> 'nd pyval \<Rightarrow> bool" where
  "resolved E g ct c x \<longleftrightarrow> (\<exists>s1 s2. resolve_value E g ct c s1 = (Inr x, s2))"

lemma join_items_dict:
  "join_items E np g ct ms (VDict base) s = (Inr v, s') \<Longrightarrow> distinct (map fst ms) \<Longrightarrow>
     \<exists>kvs. v = VDict kvs \<and> (\<forall>t. case dget ms t of None \<Rightarrow> dget kvs t = dget base t
        | Some c \<Rightarrow> (\<exists>x. resolved E g ct c x \<and> dget kvs t = Some x))"
proof (induction ms arbitrary: base s)
  case Nil
  then show ?case by (intro exI [of _ base]) auto
next
  case (Cons m ms)
  obtain t c where m: "m = (t, c)" by fastforce
  with Cons.prems have t: "dget ms t = None" by (simp add: dget_None_iff)
  from Cons.prems m obtain x s1 where x: "resolve_value E g ct c s = (Inr x, s1)"
    and rest: "join_items E np g ct ms (VDict (dset t x base)) s1 = (Inr v, s')"
    by (auto simp: obind_Inr set_item_def)
  from Cons.IH [OF rest] Cons.prems m obtain kvs where k: "v = VDict kvs"
    "\<forall>j. case dget ms j of None \<Rightarrow> dget kvs j = dget (dset t x base) j
        | Some c \<Rightarrow> (\<exists>x. resolved E g ct c x \<and> dget kvs j = Some x)"
    by auto
  have "resolved E g ct c x" using x unfolding resolved_def by blast
  then have "case dget (m # ms) j of None \<Rightarrow> dget kvs j = dget base j
        | Some c \<Rightarrow> (\<exists>x. resolved E g ct c x \<and> dget kvs j = Some x)" for j
    using k(2)[rule_format, of j] t m by (cases "j = t") (auto split: option.splits)
  with k(1) show ?case by blast
qed

text \<open>A join overlays its members on its root. When a join by names or a deep join
  evaluates over a root that is a dictionary (or over no root), its value is a dictionary in
  which each member key holds the member's value (in a deep join, its checksum, unread), and
  every other key holds what the root has there.\<close>

theorem celljoin_overlays_root:
  assumes "celljoin_value E np_set spec g s = (Inr v, s')"
    and "js_numeric spec \<Longrightarrow> js_celltype spec \<in> set JOIN_DEEP_CELLTYPES"
    and "distinct (map fst (js_members spec))"
    and "case js_root spec of None \<Rightarrow> base = []
      | Some c \<Rightarrow> \<exists>s0. resolve_value E g (js_celltype spec) c s = (Inr (VDict base), s0)"
  shows "\<exists>kvs. v = VDict kvs \<and>
    (case dget (js_members spec) t of
       None \<Rightarrow> dget kvs t = dget base t
     | Some c \<Rightarrow>
         if js_celltype spec \<in> set JOIN_DEEP_CELLTYPES then dget kvs t = Some (VChecksum c)
         else \<exists>x. resolved E g (js_celltype spec) c x \<and> dget kvs t = Some x)"
proof -
  from assms(4) obtain s0 where base:
    "(case js_root spec of None \<Rightarrow> oret (VDict []) | Some c \<Rightarrow> resolve_value E g (js_celltype spec) c) s
      = (Inr (VDict base), s0)"
    by (auto split: option.splits)
  show ?thesis
  proof (cases "js_celltype spec \<in> set JOIN_DEEP_CELLTYPES")
    case True
    from set_checksums_dict [OF assms(3)] obtain kvs where
      k: "set_checksums np_set (js_members spec) (VDict base) = Inr (VDict kvs)"
      "\<forall>t. dget kvs t = (case dget (js_members spec) t of None \<Rightarrow> dget base t | Some c \<Rightarrow> Some (VChecksum c))"
      by blast
    with True assms(1) base have "v = VDict kvs" by (simp add: celljoin_value_def obind_def base)
    with k(2) True show ?thesis by (auto split: option.split)
  next
    case False
    with assms(2) have n: "\<not> js_numeric spec" by blast
    with False assms(1) have "join_items E np_set g (js_celltype spec) (js_members spec) (VDict base) s0 = (Inr v, s')"
      by (simp add: celljoin_value_def obind_def base)
    from join_items_dict [OF this assms(3)] obtain kvs where k: "v = VDict kvs"
      "\<forall>t. case dget (js_members spec) t of None \<Rightarrow> dget kvs t = dget base t
        | Some c \<Rightarrow> \<exists>x. resolved E g (js_celltype spec) c x \<and> dget kvs t = Some x"
      by blast
    show ?thesis
      using False k(1) k(2)[rule_format, of t]
      by (intro exI [of _ kvs]) (cases "dget (js_members spec) t"; simp)
  qed
qed

lemma one_value:
  "fst (celljoin_value tiny_env no_fields one_spec (\<lambda>c. Inr (ascii ''42'')) tiny_state)
     = Inr (VDict [(u ''a'', VInt 42)])"
  by code_simp

theorem celljoin_overlays_root_witness:
  "\<exists>kvs. VDict [(u ''a'', VInt 42)] = VDict kvs \<and>
    (case dget (js_members one_spec) (u ''a'') of
       None \<Rightarrow> dget kvs (u ''a'') = dget [] (u ''a'')
     | Some c \<Rightarrow>
         if js_celltype one_spec \<in> set JOIN_DEEP_CELLTYPES then dget kvs (u ''a'') = Some (VChecksum c)
         else \<exists>x. resolved tiny_env (\<lambda>c. Inr (ascii ''42'')) (js_celltype one_spec) c x \<and> dget kvs (u ''a'') = Some x)"
proof (rule celljoin_overlays_root)
  show "celljoin_value tiny_env no_fields one_spec (\<lambda>c. Inr (ascii ''42'')) tiny_state
    = (Inr (VDict [(u ''a'', VInt 42)]),
       snd (celljoin_value tiny_env no_fields one_spec (\<lambda>c. Inr (ascii ''42'')) tiny_state))"
    using one_value by (metis prod.collapse)
qed (simp_all add: one_spec_def)

end
