(* ===== verification/ErrorEnvelope.thy ===== *)
theory ErrorEnvelope
  imports Checksums
begin

text \<open>
  \<open>seamless/error_envelope.py\<close>: what a failure on an executing side looks like on the wire,
  and the exception the requester makes of it. An exception object is its class, its
  arguments and the attributes the codec reads. The formatted traceback, the \<open>repr\<close> of
  bytes and of a tuple come from Python (the record \<open>exn_text\<close>); a fresh failure
  identifier is the argument \<open>new_id\<close>.
\<close>

section \<open>Exceptions as objects\<close>

datatype exn_class =
    XCacheMiss | XHashType | XExpression | XConversion | XCanceled | XAsyncCancelled | XWorkflow | XOther

text \<open>An argument; \<open>XObject\<close> is any object of another type, by its \<open>str\<close>.\<close>

datatype exn_arg = XText ustr | XSum checksum | XBytes bytes | XNone | XObject ustr

record exn =
  xn_class :: exn_class
  xn_args :: "exn_arg list"
  xn_kind :: "ustr option"
  xn_category :: "fingertip_category option"
  xn_failure :: "ustr option"

record exn_text =
  xt_bytes :: "bytes \<Rightarrow> ustr"
  xt_tuple :: "exn_arg list \<Rightarrow> ustr"
  xt_traceback :: "exn \<Rightarrow> ustr"

fun wire_name :: "fingertip_category \<Rightarrow> ustr" where
  "wire_name MATERIALIZATION = u ''materialization''"
| "wire_name FAILED_TRANSFORMATION = u ''failed_transformation''"
| "wire_name IRREPRODUCIBLE_TRANSFORMATION = u ''irreproducible_transformation''"
| "wire_name IRREPRODUCIBLE_EXPRESSION = u ''irreproducible_expression''"

definition all_categories :: "fingertip_category list" where
  "all_categories = [MATERIALIZATION, FAILED_TRANSFORMATION, IRREPRODUCIBLE_TRANSFORMATION, IRREPRODUCIBLE_EXPRESSION]"

definition from_wire_name :: "'nd pyval \<Rightarrow> fingertip_category result" where
  "from_wire_name v =
     (case v of
        VStr t \<Rightarrow> (case find (\<lambda>c. wire_name c = t) all_categories of None \<Rightarrow> Inl ValueError | Some c \<Rightarrow> Inr c)
      | _ \<Rightarrow> Inl ValueError)"

text \<open>\<open>Checksum.__str__\<close> spells the canonical null out.\<close>

definition checksum_str :: "(bytes \<Rightarrow> checksum) \<Rightarrow> checksum \<Rightarrow> ustr" where
  "checksum_str sha c = (if hex c = NULL_CHECKSUM sha then u ''NULL'' else hex c)"

fun arg_str :: "(bytes \<Rightarrow> checksum) \<Rightarrow> exn_text \<Rightarrow> exn_arg \<Rightarrow> ustr" where
  "arg_str sha T (XText t) = t"
| "arg_str sha T (XSum c) = checksum_str sha c"
| "arg_str sha T (XBytes b) = xt_bytes T b"
| "arg_str sha T XNone = u ''None''"
| "arg_str sha T (XObject t) = t"

definition join_lines :: "ustr list \<Rightarrow> ustr" where
  "join_lines ts = (case ts of [] \<Rightarrow> [] | t # rest \<Rightarrow> t @ concat (map (\<lambda>x. 10 # x) rest))"

text \<open>\<open>str(exc)\<close>; \<open>SeamlessConversionError\<close> joins its arguments by lines.\<close>

definition exn_str :: "(bytes \<Rightarrow> checksum) \<Rightarrow> exn_text \<Rightarrow> exn \<Rightarrow> ustr" where
  "exn_str sha T e =
     (if xn_class e = XConversion then join_lines (map (arg_str sha T) (xn_args e))
      else case xn_args e of
        [] \<Rightarrow> []
      | [a] \<Rightarrow> arg_str sha T a
      | as \<Rightarrow> xt_tuple T as)"

section \<open>The codec\<close>

text \<open>\<open>_kinds()\<close>, in the order of the dictionary.\<close>

definition error_kinds :: "(ustr, exn_class) dict" where
  "error_kinds = [(u ''cache_miss'', XCacheMiss), (u ''hash_type_validation'', XHashType),
     (u ''expression_evaluation'', XExpression), (u ''conversion'', XConversion), (u ''canceled'', XCanceled)]"

definition error_kind :: "exn \<Rightarrow> ustr" where
  "error_kind e =
     (if xn_class e = XAsyncCancelled then u ''canceled''
      else case find (\<lambda>(k, c). c = xn_class e) error_kinds of
        Some (k, c) \<Rightarrow> k
      | None \<Rightarrow> (case xn_kind e of Some k \<Rightarrow> k | None \<Rightarrow> u ''execution''))"

fun ck_arg_of :: "exn_arg \<Rightarrow> ck_arg" where
  "ck_arg_of (XText t) = ArgStr t"
| "ck_arg_of (XSum c) = ArgChecksum c"
| "ck_arg_of (XBytes b) = ArgBytes b"
| "ck_arg_of XNone = ArgNone"
| "ck_arg_of (XObject t) = ArgOther"

definition encode_error :: "(bytes \<Rightarrow> checksum) \<Rightarrow> exn_text \<Rightarrow> exn \<Rightarrow> 'nd pyval" where
  "encode_error sha T e =
     (let kind = error_kind e;
          message = (if dget error_kinds kind \<noteq> None \<or> xn_class e = XWorkflow then exn_str sha T e
                     else xt_traceback T e);
          csum = (case xn_args e of
              [] \<Rightarrow> []
            | a # _ \<Rightarrow> (case checksum_init (ck_arg_of a) of
                Inl _ \<Rightarrow> []
              | Inr c \<Rightarrow> [(u ''checksum'', VStr (hex c))]));
          category = (if kind = u ''cache_miss'' then
              (case xn_category e of
                 None \<Rightarrow> []
               | Some c \<Rightarrow> [(u ''fingertip_category'', VStr (wire_name c))])
            else [])
      in VDict [(u ''error'', VDict ([(u ''kind'', VStr kind), (u ''message'', VStr message)] @ csum @ category))])"

definition hex_any_case :: "ustr \<Rightarrow> bool" where
  "hex_any_case t \<longleftrightarrow> length t = 64 \<and> list_all (\<lambda>c. hexval c \<noteq> None) t"

definition new_exn :: "exn_class \<Rightarrow> exn_arg list \<Rightarrow> exn" where
  "new_exn c as = \<lparr>xn_class = c, xn_args = as, xn_kind = None, xn_category = None, xn_failure = None\<rparr>"

definition workflow_error :: "ustr \<Rightarrow> ustr \<Rightarrow> ustr \<Rightarrow> exn" where
  "workflow_error new_id message kind =
     \<lparr>xn_class = XWorkflow, xn_args = [XText message], xn_kind = Some kind, xn_category = None,
      xn_failure = Some new_id\<rparr>"

text \<open>The dictionary under \<open>error\<close>, or the malformed envelope.\<close>

definition envelope_error :: "'nd pyval \<Rightarrow> (ustr \<times> 'nd pyval) list result" where
  "envelope_error payload =
     (case payload of
        VDict d \<Rightarrow>
          if dget d (u ''kind'') \<noteq> None then Inr d
          else (case dget d (u ''error'') of Some (VDict e) \<Rightarrow> Inr e | _ \<Rightarrow> Inl ValueError)
      | _ \<Rightarrow> Inl ValueError)"

definition checksum_field :: "(ustr \<times> 'nd pyval) list \<Rightarrow> checksum option result" where
  "checksum_field d =
     (case dget d (u ''checksum'') of
        None \<Rightarrow> Inr None
      | Some (VStr t) \<Rightarrow> if hex_any_case t then rbind (checksum_init (ArgStr t)) (\<lambda>c. Inr (Some c)) else Inl ValueError
      | Some _ \<Rightarrow> Inl ValueError)"

definition category_field :: "ustr \<Rightarrow> (ustr \<times> 'nd pyval) list \<Rightarrow> fingertip_category option result" where
  "category_field kind d =
     (case dget d (u ''fingertip_category'') of
        None \<Rightarrow> Inr None
      | Some v \<Rightarrow>
          if kind \<noteq> u ''cache_miss'' then Inl ValueError
          else rbind (from_wire_name v) (\<lambda>c. Inr (Some c)))"

text \<open>What follows once the kind and the message are known.\<close>

definition decode_fields :: "ustr \<Rightarrow> (ustr \<times> 'nd pyval) list \<Rightarrow> ustr \<Rightarrow> ustr \<Rightarrow> exn result" where
  "decode_fields new_id d kind message =
     rbind (checksum_field d) (\<lambda>csum.
     rbind (category_field kind d) (\<lambda>category.
       case dget error_kinds kind of
         None \<Rightarrow> Inr (workflow_error new_id message kind)
       | Some cls \<Rightarrow>
           if kind = u ''cache_miss'' then
             Inr ((new_exn cls (case csum of
                 Some c \<Rightarrow> [XSum c]
               | None \<Rightarrow> if message \<noteq> [] then [XText message] else []))\<lparr>xn_category := category\<rparr>)
           else
             (case csum of
                Some c \<Rightarrow> Inr (new_exn cls [XSum c])
              | None \<Rightarrow> Inr (new_exn cls [XText message]))))"

definition decode_error :: "ustr \<Rightarrow> 'nd pyval \<Rightarrow> exn result" where
  "decode_error new_id payload =
     rbind (envelope_error payload) (\<lambda>d.
       case (dget d (u ''kind''), dget d (u ''message'')) of
         (Some (VStr kind), Some (VStr message)) \<Rightarrow>
           if kind = [] then Inl ValueError else decode_fields new_id d kind message
       | _ \<Rightarrow> Inl ValueError)"

text \<open>\<open>execution_error\<close>, on a payload or an exception.\<close>

definition execution_error ::
  "(bytes \<Rightarrow> checksum) \<Rightarrow> exn_text \<Rightarrow> ustr \<Rightarrow> 'nd pyval + exn \<Rightarrow> exn result" where
  "execution_error sha T new_id x =
     rbind (case x of Inl payload \<Rightarrow> decode_error new_id payload | Inr e \<Rightarrow> Inr e) (\<lambda>e.
       let e1 = (if dget error_kinds (error_kind e) = None \<and> xn_class e \<noteq> XWorkflow
                 then workflow_error new_id (exn_str sha T e) (u ''execution'') else e)
       in Inr (case xn_failure e1 of None \<Rightarrow> e1\<lparr>xn_failure := Some new_id\<rparr> | Some _ \<Rightarrow> e1))"

section \<open>What survives the wire\<close>

lemma from_wire_name_wire_name: "from_wire_name (VStr (wire_name c)) = Inr c"
  by (cases c) (simp_all add: from_wire_name_def all_categories_def u_def)

lemma hexval_digit: "n < 16 \<Longrightarrow> hexval (hex_digit n) \<noteq> None"
  by (simp add: hexval_hex_digit)

lemma hex_bytes_hexval: "list_all (\<lambda>c. hexval c \<noteq> None) (hex_bytes bs)"
  by (induction bs) (auto simp: hexval_hex_digit byte_div_less)

lemma checksum_field_hex:
  assumes "checksum_wf c" and "dget d (u ''checksum'') = Some (VStr (hex c))"
  shows "checksum_field d = Inr (Some c)"
  using assms length_hex [OF assms(1)] checksum_init_hex [OF assms(1)] hex_bytes_hexval [of "digest c"]
  by (simp add: checksum_field_def hex_any_case_def hex_def)

text \<open>An exception the codec can carry: one of the known kinds with a checksum, or with a
  message that is no checksum, or (a cache miss) with no argument; or a workflow error with a
  kind of its own.\<close>

definition carried :: "exn \<Rightarrow> bool" where
  "carried e \<longleftrightarrow>
     (if xn_class e = XWorkflow then
        (\<exists>t k. xn_args e = [XText t] \<and> xn_kind e = Some k \<and> k \<noteq> [] \<and> dget error_kinds k = None
           \<and> xn_category e = None)
      else
        xn_class e \<in> {XCacheMiss, XHashType, XExpression, XConversion, XCanceled}
        \<and> xn_kind e = None \<and> xn_failure e = None
        \<and> (xn_class e \<noteq> XCacheMiss \<longrightarrow> xn_category e = None)
        \<and> ((\<exists>c. xn_args e = [XSum c] \<and> checksum_wf c)
           \<or> (\<exists>t. xn_args e = [XText t] \<and> checksum_init (ArgStr t) = Inl ValueError
                \<and> (xn_class e = XCacheMiss \<longrightarrow> t \<noteq> []))
           \<or> (xn_class e = XCacheMiss \<and> xn_args e = [])))"


lemma key_names [simp]:
  "u ''kind'' \<noteq> u ''message''" "u ''kind'' \<noteq> u ''checksum''" "u ''kind'' \<noteq> u ''fingertip_category''"
  "u ''message'' \<noteq> u ''checksum''" "u ''message'' \<noteq> u ''fingertip_category''"
  "u ''checksum'' \<noteq> u ''fingertip_category''" "u ''error'' \<noteq> u ''kind''"
  by (simp_all add: u_def)

lemmas key_names_sym [simp] = key_names [symmetric]

text \<open>The fields of the envelope of an exception.\<close>

definition sum_items :: "checksum option \<Rightarrow> (ustr \<times> 'nd pyval) list" where
  "sum_items csum = (case csum of None \<Rightarrow> [] | Some c \<Rightarrow> [(u ''checksum'', VStr (hex c))])"

definition category_items :: "fingertip_category option \<Rightarrow> (ustr \<times> 'nd pyval) list" where
  "category_items cat = (case cat of None \<Rightarrow> [] | Some c \<Rightarrow> [(u ''fingertip_category'', VStr (wire_name c))])"

definition envelope :: "ustr \<Rightarrow> ustr \<Rightarrow> checksum option \<Rightarrow> fingertip_category option \<Rightarrow> 'nd pyval" where
  "envelope kind message csum cat =
     VDict [(u ''error'', VDict ([(u ''kind'', VStr kind), (u ''message'', VStr message)]
       @ sum_items csum @ category_items cat))]"

lemma decode_envelope:
  assumes "kind \<noteq> []" and "case csum of None \<Rightarrow> True | Some c \<Rightarrow> checksum_wf c"
    and "kind \<noteq> u ''cache_miss'' \<Longrightarrow> cat = None"
  shows "decode_error new_id (envelope kind message csum cat :: 'nd pyval) =
    (case dget error_kinds kind of
       None \<Rightarrow> Inr (workflow_error new_id message kind)
     | Some cls \<Rightarrow>
         if kind = u ''cache_miss'' then
           Inr ((new_exn cls (case csum of
               Some c \<Rightarrow> [XSum c]
             | None \<Rightarrow> if message \<noteq> [] then [XText message] else []))\<lparr>xn_category := cat\<rparr>)
         else
           (case csum of
              Some c \<Rightarrow> Inr (new_exn cls [XSum c])
            | None \<Rightarrow> Inr (new_exn cls [XText message])))"
proof -
  let ?d = "[(u ''kind'', VStr kind), (u ''message'', VStr message)] @ sum_items csum @ category_items cat
    :: (ustr \<times> 'nd pyval) list"
  have "envelope_error (envelope kind message csum cat) = Inr ?d"
    by (simp add: envelope_def envelope_error_def)
  moreover have "dget ?d (u ''kind'') = Some (VStr kind)" "dget ?d (u ''message'') = Some (VStr message)"
    by simp_all
  moreover have "checksum_field ?d = Inr csum"
  proof (cases csum)
    case None
    then show ?thesis
      by (cases cat) (simp_all add: checksum_field_def sum_items_def category_items_def)
  next
    case (Some c)
    with assms(2) show ?thesis
      by (intro checksum_field_hex [THEN trans]) (simp_all add: sum_items_def)
  qed
  moreover have "category_field kind ?d = Inr cat"
    using assms(3)
    by (cases csum; cases cat)
       (auto simp: category_field_def sum_items_def category_items_def
         from_wire_name_wire_name)
  ultimately show ?thesis using assms(1) by (simp add: decode_error_def decode_fields_def)
qed

definition arg_sum :: "exn \<Rightarrow> checksum option" where
  "arg_sum e = (case xn_args e of [] \<Rightarrow> None | a # _ \<Rightarrow>
     (case checksum_init (ck_arg_of a) of Inl _ \<Rightarrow> None | Inr c \<Rightarrow> Some c))"

lemma encode_envelope:
  assumes "xn_class e = XCacheMiss \<or> xn_category e = None"
    and "dget error_kinds (error_kind e) \<noteq> None \<or> xn_class e = XWorkflow"
    and "xn_class e = XCacheMiss \<Longrightarrow> error_kind e = u ''cache_miss''"
  shows "encode_error sha T e = (envelope (error_kind e) (exn_str sha T e) (arg_sum e) (xn_category e) :: 'nd pyval)"
proof -
  have "(if error_kind e = u ''cache_miss'' then
      (case xn_category e of None \<Rightarrow> [] | Some c \<Rightarrow> [(u ''fingertip_category'', VStr (wire_name c))]) else [])
    = (category_items (xn_category e) :: (ustr \<times> 'nd pyval) list)"
    using assms(1,3) by (auto simp: category_items_def split: option.split)
  moreover have "(case xn_args e of [] \<Rightarrow> [] | a # _ \<Rightarrow> (case checksum_init (ck_arg_of a) of
      Inl _ \<Rightarrow> [] | Inr c \<Rightarrow> [(u ''checksum'', VStr (hex c))])) = (sum_items (arg_sum e) :: (ustr \<times> 'nd pyval) list)"
    by (simp add: sum_items_def arg_sum_def split: list.split sum.split)
  ultimately show ?thesis
    using assms(2) by (simp add: encode_error_def envelope_def Let_def)
qed

lemma kind_of_class:
  "error_kind e = (case xn_class e of
      XCacheMiss \<Rightarrow> u ''cache_miss'' | XHashType \<Rightarrow> u ''hash_type_validation''
    | XExpression \<Rightarrow> u ''expression_evaluation'' | XConversion \<Rightarrow> u ''conversion''
    | XCanceled \<Rightarrow> u ''canceled'' | XAsyncCancelled \<Rightarrow> u ''canceled''
    | _ \<Rightarrow> (case xn_kind e of Some k \<Rightarrow> k | None \<Rightarrow> u ''execution''))"
  by (cases "xn_class e") (simp_all add: error_kind_def error_kinds_def split: option.split)

lemma class_of_kind:
  "dget error_kinds (u ''cache_miss'') = Some XCacheMiss"
  "dget error_kinds (u ''hash_type_validation'') = Some XHashType"
  "dget error_kinds (u ''expression_evaluation'') = Some XExpression"
  "dget error_kinds (u ''conversion'') = Some XConversion"
  "dget error_kinds (u ''canceled'') = Some XCanceled"
  "u ''hash_type_validation'' \<noteq> u ''cache_miss''" "u ''expression_evaluation'' \<noteq> u ''cache_miss''"
  "u ''conversion'' \<noteq> u ''cache_miss''" "u ''canceled'' \<noteq> u ''cache_miss''"
  "u ''cache_miss'' \<noteq> []" "u ''hash_type_validation'' \<noteq> []" "u ''expression_evaluation'' \<noteq> []"
  "u ''conversion'' \<noteq> []" "u ''canceled'' \<noteq> []"
  by (simp_all add: error_kinds_def u_def)

lemma checksum_field_error: "checksum_field d = Inl x \<Longrightarrow> x = ValueError"
proof -
  have "checksum_init (ArgStr t) = Inl x \<Longrightarrow> x = ValueError" for t
    by (simp split: option.splits if_splits)
  then show "checksum_field d = Inl x \<Longrightarrow> x = ValueError"
    by (auto simp: checksum_field_def rbind_Inl_iff simp del: checksum_init.simps
        split: option.splits pyval.splits if_splits)
qed

lemma category_field_error: "category_field kind d = Inl x \<Longrightarrow> x = ValueError"
  by (auto simp: category_field_def from_wire_name_def rbind_Inl_iff
      split: option.splits pyval.splits if_splits)

lemma envelope_error_error: "envelope_error payload = Inl x \<Longrightarrow> x = ValueError"
  by (auto simp: envelope_error_def split: option.splits pyval.splits if_splits)

lemma decode_fields_error: "decode_fields new_id d kind message = Inl x \<Longrightarrow> x = ValueError"
  unfolding decode_fields_def rbind_Inl_iff
  by (auto dest: checksum_field_error category_field_error split: option.splits if_splits)

lemma decode_ValueError:
  fixes payload :: "'nd pyval"
  assumes "decode_error new_id payload = Inl x"
  shows "x = ValueError"
proof (cases "envelope_error payload")
  case (Inl y)
  with assms show ?thesis by (auto simp: decode_error_def dest: envelope_error_error)
next
  case (Inr d)
  define k m where "k = dget d (u ''kind'')" and "m = dget d (u ''message'')"
  have "decode_error new_id payload = Inl ValueError
      \<or> (\<exists>kind message. decode_error new_id payload = decode_fields new_id d kind message)"
    unfolding decode_error_def Inr rbind_simps k_def [symmetric] m_def [symmetric]
    by (auto split: option.split pyval.split)
  with assms show ?thesis by (auto dest: decode_fields_error [OF sym])
qed

lemma known_roundtrip:
  assumes "carried e" and "xn_class e \<noteq> XWorkflow"
  shows "decode_error new_id (encode_error sha T e :: 'nd pyval) = Inr e"
proof -
  have cls: "xn_class e \<in> {XCacheMiss, XHashType, XExpression, XConversion, XCanceled}"
    and attrs: "xn_kind e = None" "xn_failure e = None"
    and cat: "xn_class e \<noteq> XCacheMiss \<Longrightarrow> xn_category e = None"
    and args: "(\<exists>c. xn_args e = [XSum c] \<and> checksum_wf c)
       \<or> (\<exists>t. xn_args e = [XText t] \<and> checksum_init (ArgStr t) = Inl ValueError
            \<and> (xn_class e = XCacheMiss \<longrightarrow> t \<noteq> []))
       \<or> (xn_class e = XCacheMiss \<and> xn_args e = [])"
    using assms unfolding carried_def by auto
  have kind: "dget error_kinds (error_kind e) = Some (xn_class e)" "error_kind e \<noteq> []"
    "error_kind e = u ''cache_miss'' \<longleftrightarrow> xn_class e = XCacheMiss"
    using cls by (auto simp: kind_of_class class_of_kind)
  have wf: "case arg_sum e of None \<Rightarrow> True | Some c \<Rightarrow> checksum_wf c"
    using args by (auto simp: arg_sum_def)
  have e: "e = new_exn (xn_class e) (xn_args e)\<lparr>xn_category := xn_category e\<rparr>"
    using attrs by (cases e) (simp add: new_exn_def)
  have enc: "encode_error sha T e = (envelope (error_kind e) (exn_str sha T e) (arg_sum e) (xn_category e) :: 'nd pyval)"
    using cat kind by (intro encode_envelope) auto
  have str: "exn_str sha T e = t" if "xn_args e = [XText t]" for t
    using that by (simp add: exn_str_def join_lines_def)
  have str0: "exn_str sha T e = []" if "xn_args e = []"
    using that by (simp add: exn_str_def join_lines_def)
  have "decode_error new_id (encode_error sha T e :: 'nd pyval) =
      Inr (new_exn (xn_class e) (xn_args e)\<lparr>xn_category := xn_category e\<rparr>)"
    unfolding enc
  proof (subst decode_envelope)
    show "error_kind e \<noteq> []" by (fact kind(2))
    show "case arg_sum e of None \<Rightarrow> True | Some c \<Rightarrow> checksum_wf c" by (fact wf)
    show "error_kind e \<noteq> u ''cache_miss'' \<Longrightarrow> xn_category e = None" using kind(3) cat by simp
  next
    show "(case dget error_kinds (error_kind e) of
       None \<Rightarrow> Inr (workflow_error new_id (exn_str sha T e) (error_kind e))
     | Some cls \<Rightarrow>
         if error_kind e = u ''cache_miss'' then
           Inr ((new_exn cls (case arg_sum e of
               Some c \<Rightarrow> [XSum c]
             | None \<Rightarrow> if exn_str sha T e \<noteq> [] then [XText (exn_str sha T e)] else []))\<lparr>xn_category := xn_category e\<rparr>)
         else
           (case arg_sum e of
              Some c \<Rightarrow> Inr (new_exn cls [XSum c])
            | None \<Rightarrow> Inr (new_exn cls [XText (exn_str sha T e)])))
       = Inr (new_exn (xn_class e) (xn_args e)\<lparr>xn_category := xn_category e\<rparr>)"
      using args cat str str0 kind
      by (auto simp: arg_sum_def new_exn_def simp del: checksum_init.simps(3))
  qed
  with e show ?thesis by simp
qed


definition lost_buffer :: exn where
  "lost_buffer = \<lparr>xn_class = XCacheMiss, xn_args = [XSum (Checksum (replicate 32 7))], xn_kind = None,
     xn_category = Some IRREPRODUCIBLE_EXPRESSION, xn_failure = None\<rparr>"

lemma lost_buffer_class: "(xn_class lost_buffer = XWorkflow) = False"
  by (simp add: lost_buffer_def)

definition no_text :: exn_text where
  "no_text = \<lparr>xt_bytes = (\<lambda>b. []), xt_tuple = (\<lambda>xs. []), xt_traceback = (\<lambda>e. [])\<rparr>"


end
