(* ===== verification/EvictionCost.thy ===== *)
theory EvictionCost
  imports Checksums
begin

text \<open>
  \<open>seamless/caching/eviction_cost.py\<close>: what each buffer would cost to get back. The
  coordinator counts the interest in every checksum (direct, and through the checksums that
  depend on it), keeps the dependency graph in both directions, and caches costs until they
  are marked dirty. Floats are reals with infinity apart; a set that the code only iterates
  over is a list without duplicates.
\<close>

section \<open>Costs\<close>

datatype cost = Fin real | Inf

instantiation cost :: linorder
begin
fun less_eq_cost :: "cost \<Rightarrow> cost \<Rightarrow> bool" where
  "less_eq_cost (Fin x) (Fin y) = (x \<le> y)"
| "less_eq_cost Inf (Fin y) = False"
| "less_eq_cost x Inf = True"
definition less_cost :: "cost \<Rightarrow> cost \<Rightarrow> bool" where
  "less_cost x y \<longleftrightarrow> x \<le> y \<and> \<not> y \<le> x"
instance
proof
  fix x y z :: cost
  show "x < y \<longleftrightarrow> x \<le> y \<and> \<not> y \<le> x" by (rule less_cost_def)
  show "x \<le> x" by (cases x) simp_all
  show "x \<le> y \<Longrightarrow> y \<le> z \<Longrightarrow> x \<le> z" by (cases x; cases y; cases z) simp_all
  show "x \<le> y \<Longrightarrow> y \<le> x \<Longrightarrow> x = y" by (cases x; cases y) simp_all
  show "x \<le> y \<or> y \<le> x" by (cases x; cases y) auto
qed
end

fun cost_add :: "cost \<Rightarrow> cost \<Rightarrow> cost" where
  "cost_add (Fin x) (Fin y) = Fin (x + y)"
| "cost_add _ _ = Inf"

definition BYTES_IN_GB :: nat where
  "BYTES_IN_GB = 1024 ^ 3"

definition DEFAULT_CPU_COST_PER_SECOND :: real where
  "DEFAULT_CPU_COST_PER_SECOND = 1 / 10"

record cost_profile =
  units_per_gb :: real
  min_cost :: real

text \<open>The three default profiles, by name.\<close>

definition profiles :: "(string, cost_profile) dict" where
  "profiles = [(''read_buffer'', \<lparr>units_per_gb = 1, min_cost = 0\<rparr>),
     (''local_hashserver'', \<lparr>units_per_gb = 10, min_cost = 1 / 1000\<rparr>),
     (''remote_hashserver'', \<lparr>units_per_gb = 100, min_cost = 1 / 100\<rparr>)]"

definition read_buffer_profile :: cost_profile where
  "read_buffer_profile = \<lparr>units_per_gb = 1, min_cost = 0\<rparr>"

section \<open>The coordinator\<close>

text \<open>\<open>CostModule\<close> and its four subsystems. The conversion subsystem costs nothing.\<close>

record cost_module =
  checksum_profiles :: "(checksum, string) dict"
  manual_costs :: "(checksum, cost) dict"
  cpu_seconds :: "(checksum, real) dict"
  lengths :: "(checksum, nat) dict"
  dependencies :: "(checksum, checksum list) dict"
  reverse_dependencies :: "(checksum, checksum list) dict"
  dependency_interest :: "(checksum, nat) dict"
  direct_interest :: "(checksum, nat) dict"
  cost_cache :: "(checksum, cost) dict"

definition cost_module_init :: cost_module where
  "cost_module_init = \<lparr>checksum_profiles = [], manual_costs = [], cpu_seconds = [], lengths = [],
     dependencies = [], reverse_dependencies = [], dependency_interest = [], direct_interest = [],
     cost_cache = []\<rparr>"

section \<open>Subsystems\<close>

definition set_profile :: "checksum \<Rightarrow> string \<Rightarrow> cost_module \<Rightarrow> cost_module" where
  "set_profile c p m = m\<lparr>checksum_profiles := dset c p (checksum_profiles m)\<rparr>"

definition set_manual_cost :: "checksum \<Rightarrow> cost \<Rightarrow> cost_module \<Rightarrow> cost_module" where
  "set_manual_cost c x m = m\<lparr>manual_costs := dset c (max x (Fin 0)) (manual_costs m)\<rparr>"

definition clear_download :: "checksum \<Rightarrow> cost_module \<Rightarrow> cost_module" where
  "clear_download c m =
     m\<lparr>checksum_profiles := ddel c (checksum_profiles m), manual_costs := ddel c (manual_costs m)\<rparr>"

definition download_cost :: "checksum \<Rightarrow> nat \<Rightarrow> cost_module \<Rightarrow> cost" where
  "download_cost c len m =
     (case dget (manual_costs m) c of
        Some x \<Rightarrow> x
      | None \<Rightarrow>
          let p = (case dget (checksum_profiles m) c of
                     None \<Rightarrow> read_buffer_profile
                   | Some name \<Rightarrow> dget_or read_buffer_profile profiles name)
          in Fin (max (real len / real BYTES_IN_GB * units_per_gb p) (min_cost p)))"

definition record_cpu :: "checksum \<Rightarrow> real option \<Rightarrow> cost_module \<Rightarrow> cost_module" where
  "record_cpu c secs m =
     (case secs of
        None \<Rightarrow> m\<lparr>cpu_seconds := ddel c (cpu_seconds m)\<rparr>
      | Some x \<Rightarrow> m\<lparr>cpu_seconds := dset c (max x 0) (cpu_seconds m)\<rparr>)"

definition transformation_cost :: "checksum \<Rightarrow> cost_module \<Rightarrow> real" where
  "transformation_cost c m =
     (case dget (cpu_seconds m) c of None \<Rightarrow> 0 | Some x \<Rightarrow> x * DEFAULT_CPU_COST_PER_SECOND)"

definition conversion_cost :: "checksum \<Rightarrow> cost_module \<Rightarrow> real" where
  "conversion_cost c m = 0"

text \<open>\<open>notify_length\<close>: whether the recorded length changed.\<close>

definition notify_length :: "checksum \<Rightarrow> int option \<Rightarrow> cost_module \<Rightarrow> bool \<times> cost_module" where
  "notify_length c len m =
     (case len of
        None \<Rightarrow> (False, m)
      | Some n \<Rightarrow>
          if dget (lengths m) c = Some (nat (max n 0)) then (False, m)
          else (True, m\<lparr>lengths := dset c (nat (max n 0)) (lengths m)\<rparr>))"

section \<open>Interest\<close>

definition total_interest :: "cost_module \<Rightarrow> checksum \<Rightarrow> nat" where
  "total_interest m c = dget_or 0 (direct_interest m) c + dget_or 0 (dependency_interest m) c"

definition is_interesting :: "cost_module \<Rightarrow> checksum \<Rightarrow> bool" where
  "is_interesting m c \<longleftrightarrow> total_interest m c > 0"

text \<open>\<open>_on_interest_start\<close> does nothing.\<close>

definition add_interest :: "checksum \<Rightarrow> cost_module \<Rightarrow> cost_module" where
  "add_interest c m = m\<lparr>direct_interest := dset c (dget_or 0 (direct_interest m) c + 1) (direct_interest m)\<rparr>"

definition increment_dependency_interest :: "checksum \<Rightarrow> cost_module \<Rightarrow> cost_module" where
  "increment_dependency_interest c m =
     m\<lparr>dependency_interest := dset c (dget_or 0 (dependency_interest m) c + 1) (dependency_interest m)\<rparr>"

text \<open>
  \<open>_decrement_dependency_interest\<close>, \<open>_maybe_release\<close> and
  \<open>_detach_dependencies\<close> call each other; \<open>detach\<close> is what the release of a
  checksum nobody is interested in does next.
\<close>

definition maybe_release :: "(checksum \<Rightarrow> cost_module \<Rightarrow> cost_module) \<Rightarrow> checksum \<Rightarrow> cost_module \<Rightarrow> cost_module"
where
  "maybe_release detach c m =
     (if is_interesting m c then m else detach c (m\<lparr>cost_cache := ddel c (cost_cache m)\<rparr>))"

definition decrement_dependency_interest ::
  "(checksum \<Rightarrow> cost_module \<Rightarrow> cost_module) \<Rightarrow> checksum \<Rightarrow> cost_module \<Rightarrow> cost_module" where
  "decrement_dependency_interest detach c m =
     (case dget (dependency_interest m) c of
        None \<Rightarrow> m
      | Some n \<Rightarrow>
          if n \<le> 1 then
            maybe_release detach c (m\<lparr>dependency_interest := ddel c (dependency_interest m)\<rparr>)
          else m\<lparr>dependency_interest := dset c (n - 1) (dependency_interest m)\<rparr>)"

definition discard_reverse :: "checksum \<Rightarrow> checksum \<Rightarrow> cost_module \<Rightarrow> cost_module" where
  "discard_reverse dep c m =
     (case dget (reverse_dependencies m) dep of
        None \<Rightarrow> m
      | Some ps \<Rightarrow>
          let ps' = filter (\<lambda>p. p \<noteq> c) ps in
          if ps' = [] then m\<lparr>reverse_dependencies := ddel dep (reverse_dependencies m)\<rparr>
          else m\<lparr>reverse_dependencies := dset dep ps' (reverse_dependencies m)\<rparr>)"

text \<open>The recursion is bounded by the number of recorded dependency lists: each nested call
  has removed one. \<open>detach_fuel_enough\<close> below shows the bound is never reached.\<close>

primrec detach_fuel :: "nat \<Rightarrow> checksum \<Rightarrow> cost_module \<Rightarrow> cost_module" where
  "detach_fuel 0 c m = m"
| "detach_fuel (Suc n) c m =
     fold (\<lambda>dep m'. decrement_dependency_interest (detach_fuel n) dep (discard_reverse dep c m'))
       (dget_or [] (dependencies m) c)
       (m\<lparr>dependencies := ddel c (dependencies m)\<rparr>)"

definition detach_dependencies :: "checksum \<Rightarrow> cost_module \<Rightarrow> cost_module" where
  "detach_dependencies c m = detach_fuel (Suc (length (dependencies m))) c m"

definition remove_interest :: "checksum \<Rightarrow> cost_module \<Rightarrow> cost_module" where
  "remove_interest c m =
     (case dget (direct_interest m) c of
        None \<Rightarrow> m
      | Some n \<Rightarrow>
          if n \<le> 1 then
            maybe_release detach_dependencies c (m\<lparr>direct_interest := ddel c (direct_interest m)\<rparr>)
          else m\<lparr>direct_interest := dset c (n - 1) (direct_interest m)\<rparr>)"

section \<open>Dirty costs\<close>

text \<open>The worklist loop of \<open>_mark_dirty\<close>; the top of the stack is the head.\<close>

abbreviation parents_in :: "(checksum, checksum list) dict \<Rightarrow> checksum \<Rightarrow> checksum list" where
  "parents_in R c \<equiv> dget_or [] R c"

definition all_parents :: "(checksum, checksum list) dict \<Rightarrow> checksum set" where
  "all_parents R = \<Union> (set ` set (map snd R))"

lemma finite_all_parents [simp]: "finite (all_parents R)"
  by (simp add: all_parents_def)

lemma parents_in_all: "set (parents_in R c) \<subseteq> all_parents R"
proof (cases "dget R c")
  case None
  then show ?thesis by simp
next
  case (Some ps)
  then have "ps \<in> set (map snd R)" by (auto dest!: map_of_SomeD intro: rev_image_eqI)
  with Some show ?thesis unfolding all_parents_def by auto
qed

function mark_loop ::
  "(checksum, checksum list) dict \<Rightarrow> checksum list \<Rightarrow> checksum list \<Rightarrow> (checksum, cost) dict \<Rightarrow> (checksum, cost) dict"
where
  "mark_loop R [] seen costs = costs"
| "mark_loop R (c # pending) seen costs =
     (if c \<in> set seen then mark_loop R pending seen costs
      else mark_loop R (rev (parents_in R c) @ pending) (c # seen) (ddel c costs))"
  by pat_completeness auto
termination
proof (relation "measures [\<lambda>(R, pending, seen, costs). card ((all_parents R \<union> set pending) - set seen),
    \<lambda>(R, pending, seen, costs). length pending]", goal_cases)
  case 1
  show ?case by simp
next
  case (2 R c pending seen costs)
  then have "(all_parents R \<union> set (c # pending)) - set seen = (all_parents R \<union> set pending) - set seen"
    by auto
  then show ?case by simp
next
  case (3 R c pending seen costs)
  have "(all_parents R \<union> set (rev (parents_in R c) @ pending)) - set (c # seen)
      \<subset> (all_parents R \<union> set (c # pending)) - set seen"
    using 3 parents_in_all [of R c] by auto
  then show ?case by (simp add: psubset_card_mono)
qed

definition mark_dirty :: "checksum \<Rightarrow> cost_module \<Rightarrow> cost_module" where
  "mark_dirty c m = m\<lparr>cost_cache := mark_loop (reverse_dependencies m) [c] [] (cost_cache m)\<rparr>"

section \<open>Dependencies and lengths\<close>

definition add_reverse :: "checksum \<Rightarrow> checksum \<Rightarrow> cost_module \<Rightarrow> cost_module" where
  "add_reverse dep c m =
     m\<lparr>reverse_dependencies :=
       dset dep (List.insert c (dget_or [] (reverse_dependencies m) dep)) (reverse_dependencies m)\<rparr>"

definition register_dependencies :: "checksum \<Rightarrow> checksum list \<Rightarrow> cost_module \<Rightarrow> cost_module" where
  "register_dependencies c deps m =
     (let m1 = detach_dependencies c m;
          m2 = (if deps \<noteq> [] then
                  fold (\<lambda>dep m'. increment_dependency_interest dep (add_reverse dep c m')) deps
                    (m1\<lparr>dependencies := dset c deps (dependencies m1)\<rparr>)
                else m1\<lparr>dependencies := ddel c (dependencies m1)\<rparr>)
      in if is_interesting m2 c then mark_dirty c m2 else m2)"

definition register_buffer_length :: "checksum \<Rightarrow> int option \<Rightarrow> cost_module \<Rightarrow> cost_module" where
  "register_buffer_length c len m =
     (let (changed, m') = notify_length c len m
      in if changed \<and> is_interesting m' c then mark_dirty c m' else m')"

section \<open>Computing a cost\<close>

text \<open>
  \<open>_ensure_cost\<close> and \<open>_compute_cost\<close> on the cost cache, with the set
  \<open>_computing\<close> as an argument: a checksum is removed from it when its call returns, so
  it holds the checksums of the calls around this one. \<open>n\<close> bounds the depth of those
  calls. \<open>None\<close> means that the bound was too small.
\<close>

fun sum_costs :: "(checksum \<Rightarrow> (checksum, cost) dict \<Rightarrow> (cost \<times> (checksum, cost) dict) option)
    \<Rightarrow> checksum list \<Rightarrow> cost \<Rightarrow> (checksum, cost) dict \<Rightarrow> (cost \<times> (checksum, cost) dict) option" where
  "sum_costs ensure [] acc cache = Some (acc, cache)"
| "sum_costs ensure (d # ds) acc cache =
     (case ensure d cache of
        None \<Rightarrow> None
      | Some (x, cache') \<Rightarrow>
          if x = Inf then Some (Inf, cache') else sum_costs ensure ds (cost_add acc x) cache')"

definition final_cost :: "cost_module \<Rightarrow> checksum \<Rightarrow> nat \<Rightarrow> cost option \<Rightarrow> cost" where
  "final_cost m c len dep =
     (if dep = Some Inf then Inf
      else
        let download = download_cost c len m;
            base = (case dep of None \<Rightarrow> download | Some x \<Rightarrow> max download x)
        in cost_add base (Fin (transformation_cost c m + conversion_cost c m)))"

fun ensure_cost :: "nat \<Rightarrow> cost_module \<Rightarrow> checksum list \<Rightarrow> checksum \<Rightarrow> (checksum, cost) dict
    \<Rightarrow> (cost \<times> (checksum, cost) dict) option"
  and compute_cost :: "nat \<Rightarrow> cost_module \<Rightarrow> checksum list \<Rightarrow> checksum \<Rightarrow> (checksum, cost) dict
    \<Rightarrow> (cost \<times> (checksum, cost) dict) option" where
  "ensure_cost n m computing c cache =
     (case dget cache c of
        Some x \<Rightarrow> Some (x, cache)
      | None \<Rightarrow>
          (case n of
             0 \<Rightarrow> None
           | Suc k \<Rightarrow> map_option (\<lambda>(x, cache'). (x, dset c x cache')) (compute_cost k m computing c cache)))"
| "compute_cost n m computing c cache =
     (if c \<in> set computing then Some (Inf, cache)
      else
        (case dget (lengths m) c of
           None \<Rightarrow> Some (Inf, cache)
         | Some len \<Rightarrow>
             (case dget_or [] (dependencies m) c of
                [] \<Rightarrow> Some (final_cost m c len None, cache)
              | d # ds \<Rightarrow>
                  (case n of
                     0 \<Rightarrow> None
                   | Suc k \<Rightarrow>
                       map_option (\<lambda>(x, cache'). (final_cost m c len (Some x), cache'))
                         (sum_costs (ensure_cost k m (c # computing)) (d # ds) (Fin 0) cache)))))"

text \<open>Two levels per checksum on a path, and no path visits a checksum twice.\<close>

definition cost_depth :: "cost_module \<Rightarrow> nat" where
  "cost_depth m = 2 * length (dependencies m) + 2"

definition get_cost :: "checksum \<Rightarrow> int option \<Rightarrow> cost_module \<Rightarrow> (cost \<times> cost_module) option" where
  "get_cost c len m =
     (let (changed, m1) = notify_length c len m;
          m2 = (if changed \<and> is_interesting m1 c then mark_dirty c m1 else m1)
      in if \<not> is_interesting m2 c then Some (Inf, m2)
         else map_option (\<lambda>(x, cache). (x, m2\<lparr>cost_cache := cache\<rparr>))
           (ensure_cost (cost_depth m2) m2 [] c (cost_cache m2)))"

section \<open>The module's functions\<close>

definition set_download_profile :: "checksum \<Rightarrow> string \<Rightarrow> cost_module \<Rightarrow> cost_module" where
  "set_download_profile c p m = mark_dirty c (set_profile c p m)"

definition override_download_cost :: "checksum \<Rightarrow> cost \<Rightarrow> cost_module \<Rightarrow> cost_module" where
  "override_download_cost c x m = mark_dirty c (set_manual_cost c x m)"

definition record_transformation_cost :: "checksum \<Rightarrow> real option \<Rightarrow> cost_module \<Rightarrow> cost_module" where
  "record_transformation_cost c secs m = mark_dirty c (record_cpu c secs m)"

section \<open>Marking dirty\<close>

definition depends_on :: "(checksum, checksum list) dict \<Rightarrow> (checksum \<times> checksum) set" where
  "depends_on R = {(c, p). p \<in> set (parents_in R c)}"

definition ancestors :: "(checksum, checksum list) dict \<Rightarrow> checksum set \<Rightarrow> checksum set" where
  "ancestors R X = (depends_on R)\<^sup>* `` X"

lemma ancestors_insert: "ancestors R (insert c X) = ancestors R {c} \<union> ancestors R X"
  by (auto simp: ancestors_def)

lemma ancestors_Un: "ancestors R (X \<union> Y) = ancestors R X \<union> ancestors R Y"
  by (auto simp: ancestors_def)

lemma ancestors_self: "ancestors R {c} = insert c (ancestors R (set (parents_in R c)))"
proof
  show "ancestors R {c} \<subseteq> insert c (ancestors R (set (parents_in R c)))"
    by (auto simp: ancestors_def depends_on_def elim: converse_rtranclE)
  show "insert c (ancestors R (set (parents_in R c))) \<subseteq> ancestors R {c}"
    by (auto simp: ancestors_def depends_on_def intro: converse_rtrancl_into_rtrancl)
qed

lemma ancestors_closed:
  assumes "\<forall>x\<in>S. set (parents_in R x) \<subseteq> S \<union> P" and "c \<in> S"
  shows "ancestors R {c} \<subseteq> S \<union> ancestors R P"
proof
  fix k assume "k \<in> ancestors R {c}"
  then have "(c, k) \<in> (depends_on R)\<^sup>*" by (simp add: ancestors_def)
  then show "k \<in> S \<union> ancestors R P"
  proof (induction rule: rtrancl_induct)
    case base
    with assms(2) show ?case by simp
  next
    case (step y z)
    then have z: "z \<in> set (parents_in R y)" by (simp add: depends_on_def)
    from step.IH show ?case
    proof
      assume "y \<in> S"
      with assms(1) z have "z \<in> S \<union> P" by blast
      then show ?thesis by (auto simp: ancestors_def)
    next
      assume "y \<in> ancestors R P"
      with step.hyps(2) show ?thesis by (auto simp: ancestors_def intro: rtrancl_into_rtrancl)
    qed
  qed
qed

lemma mark_loop_exact:
  "\<forall>x\<in>set seen. set (parents_in R x) \<subseteq> set seen \<union> set pending \<Longrightarrow>
     dget (mark_loop R pending seen costs) k =
       (if k \<in> ancestors R (set pending) - set seen then None else dget costs k)"
proof (induction R pending seen costs rule: mark_loop.induct)
  case (1 R seen costs)
  then show ?case by (simp add: ancestors_def)
next
  case (2 R c pending seen costs)
  show ?case
  proof (cases "c \<in> set seen")
    case True
    with 2(3) have cl: "\<forall>x\<in>set seen. set (parents_in R x) \<subseteq> set seen \<union> set pending" by auto
    have "ancestors R (set (c # pending)) - set seen = ancestors R (set pending) - set seen"
      using ancestors_closed [OF cl True] ancestors_insert [of R c "set pending"] by auto
    with 2(1) [OF True cl] True show ?thesis by simp
  next
    case False
    have cl: "\<forall>x\<in>set (c # seen). set (parents_in R x)
        \<subseteq> set (c # seen) \<union> set (rev (parents_in R c) @ pending)"
      using 2(3) by auto
    have "ancestors R (set (c # pending)) - set seen =
        insert c (ancestors R (set (rev (parents_in R c) @ pending)) - set (c # seen))"
      using False ancestors_insert [of R c "set pending"] ancestors_self [of R c]
        ancestors_Un [of R "set (parents_in R c)" "set pending"] by auto
    with 2(2) [OF False cl] False show ?thesis by auto
  qed
qed

text \<open>Marking a checksum dirty forgets exactly the costs that may depend on it: its own and
  those of every checksum reachable upwards through the reverse dependencies, cycles included,
  and no other.\<close>

theorem mark_dirty_exact:
  "dget (cost_cache (mark_dirty c m)) k =
     (if k \<in> ancestors (reverse_dependencies m) {c} then None else dget (cost_cache m) k)"
  using mark_loop_exact [of "[]" "reverse_dependencies m" "[c]" "cost_cache m" k]
  by (simp add: mark_dirty_def)

section \<open>The bound of the release recursion\<close>

lemma discard_reverse_fields [simp]:
  "dependencies (discard_reverse d c m) = dependencies m"
  "dependency_interest (discard_reverse d c m) = dependency_interest m"
  "direct_interest (discard_reverse d c m) = direct_interest m"
  "cost_cache (discard_reverse d c m) = cost_cache m"
  "lengths (discard_reverse d c m) = lengths m"
  by (auto simp: discard_reverse_def Let_def split: option.splits)

lemma decrement_deps_le:
  assumes "\<And>c m. length (dependencies (rel c m)) \<le> length (dependencies m)"
  shows "length (dependencies (decrement_dependency_interest rel d m)) \<le> length (dependencies m)"
  using assms [of d "m\<lparr>dependency_interest := ddel d (dependency_interest m),
      cost_cache := ddel d (cost_cache m)\<rparr>"]
  by (auto simp: decrement_dependency_interest_def maybe_release_def split: option.splits)

lemma fold_deps_le:
  assumes "\<And>d m. length (dependencies (f d m)) \<le> length (dependencies m)"
  shows "length (dependencies (fold f ds m)) \<le> length (dependencies m)"
proof (induction ds arbitrary: m)
  case Nil
  then show ?case by simp
next
  case (Cons d ds)
  from Cons [of "f d m"] assms [of d m] show ?case by simp
qed

lemma detach_deps_le: "length (dependencies (detach_fuel n c m)) \<le> length (dependencies m)"
proof (induction n arbitrary: c m)
  case 0
  then show ?case by simp
next
  case (Suc n)
  have "length (dependencies (decrement_dependency_interest (detach_fuel n) d (discard_reverse d c m')))
      \<le> length (dependencies m')" for d m'
    using decrement_deps_le [where rel = "detach_fuel n" and d = d and m = "discard_reverse d c m'", OF Suc] by simp
  from fold_deps_le [where f = "\<lambda>d m'. decrement_dependency_interest (detach_fuel n) d (discard_reverse d c m')"
      and ds = "dget_or [] (dependencies m) c" and m = "m\<lparr>dependencies := ddel c (dependencies m)\<rparr>", OF this]
  show ?case using length_ddel_le [of c "dependencies m"] by simp
qed

lemma decrement_cong:
  assumes "\<And>c m'. length (dependencies m') \<le> length (dependencies m) \<Longrightarrow> f c m' = g c m'"
  shows "decrement_dependency_interest f d m = decrement_dependency_interest g d m"
  using assms by (auto simp: decrement_dependency_interest_def maybe_release_def split: option.splits)

lemma fold_detach_cong:
  assumes "\<And>c m'. length (dependencies m') \<le> k \<Longrightarrow> f c m' = g c m'"
    and "\<And>c m'. length (dependencies (f c m')) \<le> length (dependencies m')"
    and "length (dependencies m) \<le> k"
  shows "fold (\<lambda>d m'. decrement_dependency_interest f d (discard_reverse d c m')) ds m =
    fold (\<lambda>d m'. decrement_dependency_interest g d (discard_reverse d c m')) ds m"
  using assms(3)
proof (induction ds arbitrary: m)
  case Nil
  then show ?case by simp
next
  case (Cons d ds)
  have "decrement_dependency_interest f d (discard_reverse d c m) =
      decrement_dependency_interest g d (discard_reverse d c m)"
    by (rule decrement_cong) (use Cons.prems assms(1) in simp)
  moreover have "length (dependencies (decrement_dependency_interest f d (discard_reverse d c m))) \<le> k"
    using decrement_deps_le [where rel = f and d = d and m = "discard_reverse d c m", OF assms(2)] Cons.prems by simp
  ultimately show ?case using Cons.IH by simp
qed

lemma detach_fuel_enough:
  "length (dependencies m) < n \<Longrightarrow> detach_fuel (Suc n) c m = detach_fuel n c m"
proof (induction n arbitrary: c m)
  case 0
  then show ?case by simp
next
  case (Suc n)
  let ?m = "m\<lparr>dependencies := ddel c (dependencies m)\<rparr>"
  show ?case
  proof (cases "dget (dependencies m) c")
    case None
    then show ?thesis by simp
  next
    case (Some ds)
    then have "length (dependencies ?m) < n" using length_ddel_less [OF Some] Suc.prems by simp
    then obtain k where n: "n = Suc k" "length (dependencies ?m) \<le> k" by (cases n) auto
    from n Suc.IH have "length (dependencies m') \<le> k \<Longrightarrow> detach_fuel (Suc n) c' m' = detach_fuel n c' m'" for c' m'
      by simp
    from fold_detach_cong [where f = "detach_fuel (Suc n)" and g = "detach_fuel n" and c = c
        and ds = "dget_or [] (dependencies m) c", OF this detach_deps_le n(2)]
    show ?thesis by (simp only: detach_fuel.simps(2))
  qed
qed

lemma detach_fuel_any: "length (dependencies m) < n \<Longrightarrow> detach_fuel n c m = detach_dependencies c m"
proof (induction n)
  case 0
  then show ?case by simp
next
  case (Suc n)
  then show ?case
    by (cases "length (dependencies m) = n")
       (auto simp: detach_dependencies_def detach_fuel_enough simp del: detach_fuel.simps)
qed

section \<open>The books balance\<close>

text \<open>How often a checksum occurs in the recorded dependency lists.\<close>

definition occurrences :: "(checksum, checksum list) dict \<Rightarrow> checksum \<Rightarrow> nat" where
  "occurrences D d = sum_list (map (\<lambda>(p, ds). count_list ds d) D)"

text \<open>The invariant, with a list of releases still to be made: \<open>(dep, parent)\<close> for each
  dependency of a parent whose list is already gone.\<close>

definition books :: "cost_module \<Rightarrow> (checksum \<times> checksum) list \<Rightarrow> bool" where
  "books m X \<longleftrightarrow> dict_wf (dependencies m) \<and>
     (\<forall>d. dget_or 0 (dependency_interest m) d = occurrences (dependencies m) d + count_list (map fst X) d) \<and>
     (\<forall>d. dget (dependency_interest m) d \<noteq> Some 0) \<and>
     (\<forall>d p. d \<in> set (dget_or [] (dependencies m) p) \<longrightarrow> p \<in> set (dget_or [] (reverse_dependencies m) d)) \<and>
     (\<forall>d p. p \<in> set (dget_or [] (reverse_dependencies m) d) \<longrightarrow>
        d \<in> set (dget_or [] (dependencies m) p) \<or> (d, p) \<in> set X) \<and>
     (\<forall>d p. (d, p) \<in> set X \<longrightarrow> dget (dependencies m) p = None)"

lemma occurrences_ddel:
  "dict_wf D \<Longrightarrow> occurrences (ddel c D) d + count_list (dget_or [] D c) d = occurrences D d"
proof (induction D)
  case Nil
  then show ?case by (simp add: occurrences_def)
next
  case (Cons x D)
  obtain p ds where x: "x = (p, ds)" by fastforce
  with Cons.prems have wf: "dict_wf D" and p: "dget D p = None"
    by (auto simp: dict_wf_def map_of_eq_None_iff)
  have id: "ddel p D = D" using p by (simp add: map_of_eq_None_iff delete_id)
  show ?case
  proof (cases "p = c")
    case True
    with x id show ?thesis by (simp add: occurrences_def dget_or_def)
  next
    case False
    with x Cons.IH [OF wf] show ?thesis by (simp add: occurrences_def dget_or_def)
  qed
qed

lemma occurrences_dset_new:
  "dget D c = None \<Longrightarrow> occurrences (dset c ds D) d = occurrences D d + count_list ds d"
  by (induction D) (auto simp: occurrences_def split: if_splits)

lemma discard_reverse_other:
  "dget_or [] (reverse_dependencies (discard_reverse d c m)) e =
     (if e = d then filter (\<lambda>p. p \<noteq> c) (dget_or [] (reverse_dependencies m) d)
      else dget_or [] (reverse_dependencies m) e)"
  by (auto simp: discard_reverse_def Let_def dget_or_def split: option.splits)

text \<open>One release taken off the list.\<close>

lemma books_discard:
  assumes "books m ((d, c) # X)"
  shows "books (discard_reverse d c m) ((d, c) # X)"
  using assms unfolding books_def discard_reverse_fields discard_reverse_other
  by (auto split: if_splits)

lemma books_interest_direct:
  "books (m\<lparr>direct_interest := x\<rparr>) X = books m X" "books (m\<lparr>cost_cache := y\<rparr>) X = books m X"
  by (simp_all add: books_def)

lemma books_less:
  assumes "books m ((d, c) # X)" and "c \<notin> set (dget_or [] (reverse_dependencies m) d)"
    and "dget_or 0 I d = dget_or 0 (dependency_interest m) d - 1"
    and "\<forall>e. e \<noteq> d \<longrightarrow> dget_or 0 I e = dget_or 0 (dependency_interest m) e"
    and "\<forall>e. dget I e \<noteq> Some 0"
  shows "books (m\<lparr>dependency_interest := I\<rparr>) X"
proof -
  have "dget_or 0 I e = occurrences (dependencies m) e + count_list (map fst X) e" for e
    using assms(1,3,4) unfolding books_def by (cases "e = d") force+
  with assms(1,2,5) show ?thesis unfolding books_def by auto
qed

lemma books_decrement:
  assumes "books m ((d, c) # X)"
    and "\<And>m c. books m X \<Longrightarrow> books (rel c m) X"
  shows "books (decrement_dependency_interest rel d (discard_reverse d c m)) X"
proof -
  let ?m = "discard_reverse d c m"
  have b: "books ?m ((d, c) # X)" using assms(1) by (rule books_discard)
  have nc: "c \<notin> set (dget_or [] (reverse_dependencies ?m) d)" by (simp add: discard_reverse_other)
  have nz: "\<forall>e. dget (dependency_interest m) e \<noteq> Some 0" using assms(1) by (simp add: books_def)
  have pos: "0 < dget_or 0 (dependency_interest m) d" using assms(1) by (simp add: books_def)
  then obtain n where n: "dget (dependency_interest m) d = Some n"
    by (cases "dget (dependency_interest m) d") auto
  show ?thesis
  proof (cases "n \<le> 1")
    case True
    have "books (?m\<lparr>dependency_interest := ddel d (dependency_interest m)\<rparr>) X"
      by (rule books_less [OF b nc]) (use n nz True in auto)
    with assms(2) n True show ?thesis
      by (simp add: decrement_dependency_interest_def maybe_release_def books_interest_direct)
  next
    case False
    have "books (?m\<lparr>dependency_interest := dset d (n - 1) (dependency_interest m)\<rparr>) X"
      by (rule books_less [OF b nc]) (use n nz False in auto)
    with n False show ?thesis by (simp add: decrement_dependency_interest_def)
  qed
qed

lemma books_pop:
  assumes "books m X"
  shows "books (m\<lparr>dependencies := ddel c (dependencies m)\<rparr>)
    (map (\<lambda>d. (d, c)) (dget_or [] (dependencies m) c) @ X)"
proof -
  let ?ds = "dget_or [] (dependencies m) c"
  have wf: "dict_wf (dependencies m)" using assms by (simp add: books_def)
  have occ: "occurrences (dependencies m) d = occurrences (ddel c (dependencies m)) d + count_list ?ds d" for d
    using occurrences_ddel [OF wf, of c d] by simp
  have fst: "map fst (map (\<lambda>d. (d, c)) ?ds) = ?ds" by (simp add: comp_def)
  show ?thesis
    using assms unfolding books_def
    by (auto simp: fst occ comp_def split: if_splits) (blast intro: image_eqI)
qed

lemma books_fold:
  assumes "\<And>m X c. books m X \<Longrightarrow> books (rel c m) X"
    and "books m (map (\<lambda>d. (d, c)) ds @ X)"
  shows "books (fold (\<lambda>d m'. decrement_dependency_interest rel d (discard_reverse d c m')) ds m) X"
  using assms(2)
proof (induction ds arbitrary: m)
  case Nil
  then show ?case by simp
next
  case (Cons d ds)
  from books_decrement [OF _ assms(1), of m d c] Cons show ?case by simp
qed

lemma books_detach_fuel: "books m X \<Longrightarrow> books (detach_fuel n c m) X"
proof (induction n arbitrary: m c X)
  case 0
  then show ?case by simp
next
  case (Suc n)
  from books_fold [OF Suc.IH books_pop [OF Suc.prems]] show ?case by simp
qed

lemma books_detach: "books m X \<Longrightarrow> books (detach_dependencies c m) X"
  unfolding detach_dependencies_def by (rule books_detach_fuel)

lemma books_mark_dirty [simp]: "books (mark_dirty c m) X = books m X"
  by (simp add: mark_dirty_def books_def)

lemma books_add_interest: "books (add_interest c m) X = books m X"
  by (simp add: add_interest_def books_def)

lemma books_remove_interest: "books m X \<Longrightarrow> books (remove_interest c m) X"
  by (auto simp: remove_interest_def maybe_release_def books_interest_direct books_detach split: option.splits)


lemma decrement_dependencies:
  assumes "\<And>c m. dget (dependencies m) k = None \<Longrightarrow> dget (dependencies (rel c m)) k = None"
    and "dget (dependencies m) k = None"
  shows "dget (dependencies (decrement_dependency_interest rel d m)) k = None"
  using assms by (auto simp: decrement_dependency_interest_def maybe_release_def split: option.splits)

lemma detach_fuel_removed:
  "dget (dependencies m) k = None \<Longrightarrow> dget (dependencies (detach_fuel n c m)) k = None"
proof (induction n arbitrary: m c)
  case 0
  then show ?case by simp
next
  case (Suc n)
  have step: "dget (dependencies m') k = None \<Longrightarrow>
      dget (dependencies (fold (\<lambda>d m'. decrement_dependency_interest (detach_fuel n) d (discard_reverse d c m'))
        ds m')) k = None" for ds m'
    by (induction ds arbitrary: m') (simp_all add: decrement_dependencies Suc.IH)
  show ?case using Suc.prems by (simp add: step)
qed

lemma detach_removed: "dget (dependencies (detach_dependencies c m)) c = None"
proof -
  have step: "dget (dependencies m') c = None \<Longrightarrow>
      dget (dependencies (fold (\<lambda>d m'. decrement_dependency_interest (detach_fuel n) d (discard_reverse d c m'))
        ds m')) c = None" for ds n m'
    by (induction ds arbitrary: m') (simp_all add: decrement_dependencies detach_fuel_removed)
  show ?thesis by (simp add: detach_dependencies_def step)
qed

definition attach :: "checksum \<Rightarrow> checksum list \<Rightarrow> cost_module \<Rightarrow> cost_module" where
  "attach c ds m = fold (\<lambda>dep m'. increment_dependency_interest dep (add_reverse dep c m')) ds m"

lemma attach_fields:
  "dependencies (attach c ds m) = dependencies m"
  "dget_or 0 (dependency_interest (attach c ds m)) d = dget_or 0 (dependency_interest m) d + count_list ds d"
  "(\<forall>e. dget (dependency_interest m) e \<noteq> Some 0) \<Longrightarrow> dget (dependency_interest (attach c ds m)) d \<noteq> Some 0"
  "set (dget_or [] (reverse_dependencies (attach c ds m)) d) =
     (if d \<in> set ds then {c} else {}) \<union> set (dget_or [] (reverse_dependencies m) d)"
  by (induction ds arbitrary: m)
     (auto simp: attach_def increment_dependency_interest_def add_reverse_def)

lemma books_attach:
  assumes "books m []" and "dget (dependencies m) c = None"
  shows "books (attach c ds (m\<lparr>dependencies := dset c ds (dependencies m)\<rparr>)) []"
proof -
  have "c \<notin> set (dget_or [] (reverse_dependencies m) d)" for d
  proof
    assume "c \<in> set (dget_or [] (reverse_dependencies m) d)"
    with assms(1) have "d \<in> set (dget_or [] (dependencies m) c)" unfolding books_def by force
    with assms(2) show False by simp
  qed
  with assms show ?thesis
    unfolding books_def attach_fields(1,2,4)
    by (auto simp: occurrences_dset_new attach_fields(3) split: if_splits)
qed

lemma books_register:
  assumes "books m []"
  shows "books (register_dependencies c ds m) []"
proof -
  have b: "books (detach_dependencies c m) []" using assms by (rule books_detach)
  have n: "dget (dependencies (detach_dependencies c m)) c = None" by (rule detach_removed)
  then have "ddel c (dependencies (detach_dependencies c m)) = dependencies (detach_dependencies c m)"
    by (simp add: map_of_eq_None_iff delete_id)
  with b books_attach [OF b n, of ds] show ?thesis
    by (simp add: register_dependencies_def Let_def attach_def)
qed

text \<open>The operations other modules call, as labels.\<close>

datatype cost_op =
    AddInterest checksum | RemoveInterest checksum | RegisterDependencies checksum "checksum list"
  | RegisterLength checksum "int option" | SetProfile checksum string | OverrideCost checksum cost
  | RecordTransformation checksum "real option" | GetCost checksum "int option"

fun cost_apply :: "cost_op \<Rightarrow> cost_module \<Rightarrow> cost_module" where
  "cost_apply (AddInterest c) m = add_interest c m"
| "cost_apply (RemoveInterest c) m = remove_interest c m"
| "cost_apply (RegisterDependencies c ds) m = register_dependencies c ds m"
| "cost_apply (RegisterLength c n) m = register_buffer_length c n m"
| "cost_apply (SetProfile c p) m = set_download_profile c p m"
| "cost_apply (OverrideCost c x) m = override_download_cost c x m"
| "cost_apply (RecordTransformation c x) m = record_transformation_cost c x m"
| "cost_apply (GetCost c n) m = (case get_cost c n m of None \<Rightarrow> m | Some (x, m') \<Rightarrow> m')"

inductive cost_step :: "cost_module \<Rightarrow> cost_op \<Rightarrow> cost_module \<Rightarrow> bool" where
  "cost_step m e (cost_apply e m)"

inductive_simps cost_step_iff: "cost_step m e m'"

lemma books_fields:
  "books (m\<lparr>lengths := a\<rparr>) X = books m X" "books (m\<lparr>checksum_profiles := b\<rparr>) X = books m X"
  "books (m\<lparr>manual_costs := d\<rparr>) X = books m X" "books (m\<lparr>cpu_seconds := e\<rparr>) X = books m X"
  by (simp_all add: books_def)

lemma books_notify: "notify_length c n m = (b, m') \<Longrightarrow> books m' X = books m X"
  by (auto simp: notify_length_def books_fields split: option.splits if_splits)

lemma books_get_cost: "get_cost c n m = Some (x, m') \<Longrightarrow> books m X \<Longrightarrow> books m' X"
  by (auto simp: get_cost_def Let_def books_interest_direct dest!: books_notify
      split: prod.splits if_splits)

lemma books_apply:
  assumes "books m []"
  shows "books (cost_apply e m) []"
proof (cases e)
  case (RegisterLength c n)
  obtain b m1 where "notify_length c n m = (b, m1)" by fastforce
  with books_notify [OF this, of "[]"] RegisterLength assms show ?thesis
    by (simp add: register_buffer_length_def)
next
  case (RecordTransformation c x)
  with assms show ?thesis
    by (simp add: record_transformation_cost_def record_cpu_def books_fields split: option.split)
next
  case (GetCost c n)
  with assms show ?thesis by (auto dest: books_get_cost split: option.split)
qed (use assms in \<open>simp_all add: books_add_interest books_remove_interest books_register set_download_profile_def
      set_profile_def override_download_cost_def set_manual_cost_def books_fields\<close>)

interpretation cost_books: inductive_invariant "\<lambda>m. m = cost_module_init" cost_step "\<lambda>m. books m []"
proof unfold_locales
  show "m = cost_module_init \<Longrightarrow> books m []" for m
    by (simp add: books_def cost_module_init_def occurrences_def)
  show "books m [] \<Longrightarrow> cost_step m e m' \<Longrightarrow> books m' []" for m e m'
    by (auto simp: cost_step_iff books_apply)
qed

text \<open>C10: the dependency graph and the interest counts agree in every reachable state of the
  coordinator: the interest a checksum has through others is the number of times it occurs in the
  recorded dependency lists, the reverse edges are exactly the forward edges, and no count of
  zero is kept, through every cascade of releases.\<close>

theorem dependency_accounting:
  assumes "reachable (\<lambda>m. m = cost_module_init) cost_step m"
  shows "dget_or 0 (dependency_interest m) d = occurrences (dependencies m) d
    \<and> (\<forall>p. p \<in> set (dget_or [] (reverse_dependencies m) d) \<longleftrightarrow> d \<in> set (dget_or [] (dependencies m) p))
    \<and> dget (dependency_interest m) d \<noteq> Some 0"
  using cost_books.reachable_inv [OF assms] by (auto simp: books_def)

lemma reachable_apply:
  "reachable (\<lambda>m. m = cost_module_init) cost_step (fold cost_apply ops cost_module_init)"
proof (induction ops rule: rev_induct)
  case Nil
  then show ?case by (auto intro: reachable.intros)
next
  case (snoc e ops)
  have "cost_step (fold cost_apply ops cost_module_init) e (fold cost_apply (ops @ [e]) cost_module_init)"
    by (simp add: cost_step_iff)
  with snoc show ?case by (rule reach_step)
qed

theorem dependency_accounting_witness:
  "let m = fold cost_apply [AddInterest (pad_sha [9]), RegisterDependencies (pad_sha [9]) [pad_sha [], pad_sha []],
        RegisterDependencies (pad_sha []) [pad_sha [1]], RemoveInterest (pad_sha [9])] cost_module_init
   in dget_or 0 (dependency_interest m) (pad_sha []) = occurrences (dependencies m) (pad_sha [])
    \<and> (\<forall>p. p \<in> set (dget_or [] (reverse_dependencies m) (pad_sha []))
         \<longleftrightarrow> pad_sha [] \<in> set (dget_or [] (dependencies m) p))
    \<and> dget (dependency_interest m) (pad_sha []) \<noteq> Some 0"
  unfolding Let_def by (rule dependency_accounting [OF reachable_apply])

section \<open>A cost is always found\<close>

lemma sum_costs_total:
  assumes "\<And>d cache. ensure d cache \<noteq> None"
  shows "sum_costs ensure ds acc cache \<noteq> None"
proof (induction ds arbitrary: acc cache)
  case Nil
  then show ?case by simp
next
  case (Cons d ds)
  obtain x cache' where "ensure d cache = Some (x, cache')" using assms [of d cache] by auto
  with Cons show ?case by simp
qed

definition open_keys :: "cost_module \<Rightarrow> checksum list \<Rightarrow> nat" where
  "open_keys m computing = card (set (dkeys (dependencies m)) - set computing)"

lemma open_keys_less:
  assumes "dget_or [] (dependencies m) c \<noteq> []" and "c \<notin> set computing"
  shows "open_keys m (c # computing) < open_keys m computing"
proof -
  have "c \<in> set (dkeys (dependencies m))"
    using assms(1) by (cases "dget (dependencies m) c") (auto simp: map_of_eq_None_iff dest!: map_of_SomeD intro: rev_image_eqI)
  then have "set (dkeys (dependencies m)) - set (c # computing) \<subset> set (dkeys (dependencies m)) - set computing"
    using assms(2) by auto
  then show ?thesis by (simp add: open_keys_def psubset_card_mono)
qed

lemma ensure_compute_total:
  "2 * open_keys m computing < n \<Longrightarrow> ensure_cost n m computing c cache \<noteq> None"
  "2 * open_keys m computing \<le> n \<Longrightarrow> compute_cost n m computing c cache \<noteq> None"
proof (induction n m computing c cache and n m computing c cache rule: ensure_cost_compute_cost.induct)
  case (1 n m computing c cache)
  then show ?case by (cases n) (auto split: option.split)
next
  case (2 n m computing c cache)
  show ?case
  proof (cases "c \<in> set computing \<or> dget (lengths m) c = None \<or> dget_or [] (dependencies m) c = []")
    case True
    then show ?thesis by (auto split: option.split)
  next
    case False
    then obtain len d ds where l: "c \<notin> set computing" "dget (lengths m) c = Some len"
        "dget_or [] (dependencies m) c = d # ds"
      by (cases "dget_or [] (dependencies m) c") auto
    then have less: "open_keys m (c # computing) < open_keys m computing" by (intro open_keys_less) auto
    with 2(2) obtain k where k: "n = Suc k" "2 * open_keys m (c # computing) < k" by (cases n) auto
    have "ensure_cost k m (c # computing) e cache' \<noteq> None" for e cache'
      using 2(1) [OF l(1,2,3) k(1)] k(2) by blast
    then have "sum_costs (ensure_cost k m (c # computing)) (d # ds) (Fin 0) cache \<noteq> None"
      by (rule sum_costs_total)
    with l k show ?thesis by (simp del: sum_costs.simps ensure_cost.simps)
  qed
qed

text \<open>C14: a cost is always found. Whatever the dependency graph looks like, cycles included,
  \<open>get_cost\<close> returns: the recursion never goes deeper than two calls per recorded
  dependency list, because a checksum that is being computed counts as unknown.\<close>

theorem get_cost_returns:
  "\<exists>x m'. get_cost c n m = Some (x, m')"
proof -
  have "2 * open_keys m' [] < cost_depth m'" for m'
  proof -
    have "open_keys m' [] \<le> length (dependencies m')"
      unfolding open_keys_def by (metis Diff_empty card_length length_map list.set(1))
    then show ?thesis by (simp add: cost_depth_def)
  qed
  from ensure_compute_total(1) [OF this] show ?thesis
    by (auto simp: get_cost_def Let_def split: prod.split)
qed

end
