(* ===== verification/BufferCache.thy ===== *)
theory BufferCache
  imports EvictionCost
begin

text \<open>
  \<open>seamless/caching/buffer_cache.py\<close>: the weak cache, the strong cache with its manual
  references, refholder bridges and temprefs, and the eviction pass. The cost coordinator is
  part of the state, the buffers handed to \<open>buffer_writer.register\<close> are a list in the
  order they were handed over, and \<open>now\<close> is the time an operation reads.
\<close>

section \<open>State\<close>

record buffer =
  b_content :: bytes
  b_checksum :: "checksum option"

record tempref =
  tr_interest :: real
  tr_fade_factor :: real
  tr_fade_interval :: real
  tr_refreshed :: real

record strong_entry =
  se_buffer :: "buffer option"
  se_size :: "nat option"
  se_manual :: nat
  se_bridge :: bool
  se_tempref :: "tempref option"
  se_tempref_scratch :: bool
  se_remote :: bool

definition new_entry :: "buffer option \<Rightarrow> nat option \<Rightarrow> bool \<Rightarrow> strong_entry" where
  "new_entry b sz remote = \<lparr>se_buffer = b, se_size = sz, se_manual = 0, se_bridge = False,
     se_tempref = None, se_tempref_scratch = False, se_remote = remote\<rparr>"

text \<open>The size before eviction, after it, the cap, and the number of protected entries.\<close>

type_synonym pressure = "nat \<times> int \<times> nat \<times> nat"

record buffer_cache =
  bc_weak :: "(checksum, buffer) dict"
  bc_strong :: "(checksum, strong_entry) dict"
  bc_soft_cap :: nat
  bc_sizes :: "(checksum, nat) dict"
  bc_scratch :: "checksum list"
  bc_refholders :: "(checksum, nat) dict"
  bc_cost :: cost_module
  bc_writes :: "buffer list"
  bc_warned_at :: real
  bc_warned :: "pressure option"
  bc_warnings :: "pressure list"

definition cache_init :: "nat \<Rightarrow> buffer_cache" where
  "cache_init soft = \<lparr>bc_weak = [], bc_strong = [], bc_soft_cap = soft, bc_sizes = [], bc_scratch = [],
     bc_refholders = [], bc_cost = cost_module_init, bc_writes = [], bc_warned_at = 0,
     bc_warned = None, bc_warnings = []\<rparr>"

definition TEMPREF_MINIMAL_INTEREST :: real where
  "TEMPREF_MINIMAL_INTEREST = 1 / 128"

definition MEMORY_PRESSURE_WARNING_INTERVAL :: real where
  "MEMORY_PRESSURE_WARNING_INTERVAL = 60"

text \<open>The decay of a tempref.\<close>

definition current_interest :: "real \<Rightarrow> tempref \<Rightarrow> real" where
  "current_interest now t =
     (let elapsed = now - tr_refreshed t in
      if elapsed \<le> 0 \<or> tr_fade_interval t \<le> 0 then tr_interest t
      else tr_interest t / tr_fade_factor t powr (elapsed / tr_fade_interval t))"

definition refresh :: "real \<Rightarrow> tempref \<Rightarrow> tempref" where
  "refresh now t = t\<lparr>tr_refreshed := now\<rparr>"

definition clear_tempref :: "tempref \<Rightarrow> tempref" where
  "clear_tempref t = t\<lparr>tr_interest := 0\<rparr>"

definition entry_interest :: "real \<Rightarrow> strong_entry \<Rightarrow> real" where
  "entry_interest now e =
     real (se_manual e + (if se_bridge e then 1 else 0))
       + (case se_tempref e of None \<Rightarrow> 0 | Some t \<Rightarrow> current_interest now t)"

section \<open>Registration and lookup\<close>

definition note_size :: "checksum \<Rightarrow> nat option \<Rightarrow> buffer_cache \<Rightarrow> buffer_cache" where
  "note_size c sz bc =
     (case sz of
        None \<Rightarrow> bc
      | Some n \<Rightarrow> bc\<lparr>bc_sizes := dset c n (bc_sizes bc),
          bc_cost := register_buffer_length c (Some (int n)) (bc_cost bc)\<rparr>)"

definition put_entry :: "checksum \<Rightarrow> strong_entry \<Rightarrow> buffer_cache \<Rightarrow> buffer_cache" where
  "put_entry c e bc = bc\<lparr>bc_strong := dset c e (bc_strong bc)\<rparr>"

text \<open>\<open>buffer_writer.register\<close> of the buffer, if there is one.\<close>

definition publish :: "buffer option \<Rightarrow> buffer_cache \<Rightarrow> buffer_cache" where
  "publish b bc = (case b of None \<Rightarrow> bc | Some x \<Rightarrow> bc\<lparr>bc_writes := bc_writes bc @ [x]\<rparr>)"

text \<open>A Buffer has no attribute \<open>length\<close>: an unknown size is looked up.\<close>

definition register_buffer :: "checksum \<Rightarrow> buffer \<Rightarrow> nat option \<Rightarrow> buffer_cache \<Rightarrow> buffer_cache" where
  "register_buffer c b sz bc =
     (let sz' = (case sz of None \<Rightarrow> dget (bc_sizes bc) c | Some n \<Rightarrow> Some n);
          bc1 = note_size c sz' bc;
          bc2 = bc1\<lparr>bc_weak := dset c b (bc_weak bc1)\<rparr>
      in (case dget (bc_strong bc2) c of
            None \<Rightarrow> bc2
          | Some e \<Rightarrow>
              publish (if se_buffer e = None \<and> se_remote e then Some b else None)
                (put_entry c (e\<lparr>se_buffer := Some b, se_size := sz'\<rparr>) bc2)))"

definition get_buffer :: "checksum \<Rightarrow> buffer_cache \<Rightarrow> buffer option \<times> buffer_cache" where
  "get_buffer c bc =
     (case dget (bc_strong bc) c of
        Some e \<Rightarrow>
          (case se_buffer e of
             Some b \<Rightarrow> (Some b, bc)
           | None \<Rightarrow>
               (case dget (bc_weak bc) c of
                  None \<Rightarrow> (None, bc)
                | Some b \<Rightarrow> (Some b, put_entry c (e\<lparr>se_buffer := Some b\<rparr>) bc)))
      | None \<Rightarrow> (dget (bc_weak bc) c, bc))"

text \<open>\<open>Buffer.get_checksum\<close>: the first call hashes the content and registers the buffer.\<close>

definition buffer_get_checksum ::
  "(bytes \<Rightarrow> checksum) \<Rightarrow> buffer \<Rightarrow> buffer_cache \<Rightarrow> checksum \<times> buffer \<times> buffer_cache" where
  "buffer_get_checksum sha b bc =
     (case b_checksum b of
        Some c \<Rightarrow> (c, b, bc)
      | None \<Rightarrow>
          let c = sha (b_content b); b' = b\<lparr>b_checksum := Some c\<rparr>
          in (c, b', register_buffer c b' (Some (length (b_content b))) bc))"

section \<open>References\<close>

text \<open>
  \<open>_ensure_entry_locked\<close>: the buffer to publish once the lock is released, and the
  cache. The assertion is that the buffer has the checksum it is claimed under;
  \<open>settle_entry\<close> is what follows it.
\<close>

definition settle_entry :: "checksum \<Rightarrow> buffer option \<Rightarrow> bool \<Rightarrow> buffer_cache \<Rightarrow> buffer option \<times> buffer_cache" where
  "settle_entry c b remote bc =
     (case dget (bc_strong bc) c of
        None \<Rightarrow>
          let sz = dget (bc_sizes bc) c;
              bc1 = note_size c sz bc
          in (if remote then b else None,
              (put_entry c (new_entry b sz remote) bc1)\<lparr>bc_cost := add_interest c (bc_cost bc1)\<rparr>)
      | Some e \<Rightarrow>
          if se_buffer e = None \<and> b \<noteq> None then
            (if remote then b else None, put_entry c (e\<lparr>se_buffer := b, se_remote := se_remote e \<or> remote\<rparr>) bc)
          else if remote \<and> \<not> se_remote e then (se_buffer e, put_entry c (e\<lparr>se_remote := True\<rparr>) bc)
          else (None, bc))"

text \<open>The buffer claimed, or the one in the weak cache, with its checksum computed.\<close>

definition checked_buffer ::
  "(bytes \<Rightarrow> checksum) \<Rightarrow> checksum \<Rightarrow> buffer option \<Rightarrow> buffer_cache \<Rightarrow> buffer option result \<times> buffer_cache" where
  "checked_buffer sha c b0 bc =
     (case (case b0 of None \<Rightarrow> dget (bc_weak bc) c | Some b \<Rightarrow> Some b) of
        None \<Rightarrow> (Inr None, bc)
      | Some x \<Rightarrow>
          (case buffer_get_checksum sha x bc of
             (c', x', bc') \<Rightarrow> (if c' = c then Inr (Some x') else Inl AssertionError, bc')))"

definition ensure_entry ::
  "(bytes \<Rightarrow> checksum) \<Rightarrow> checksum \<Rightarrow> buffer option \<Rightarrow> bool \<Rightarrow> buffer_cache \<Rightarrow> buffer option result \<times> buffer_cache"
where
  "ensure_entry sha c b0 scratch bc =
     (case checked_buffer sha c b0 bc of
        (Inl e, bc') \<Rightarrow> (Inl e, bc')
      | (Inr b, bc') \<Rightarrow> (case settle_entry c b (\<not> scratch) bc' of (w, bc'') \<Rightarrow> (Inr w, bc'')))"

definition has_live_tempref :: "real \<Rightarrow> strong_entry \<Rightarrow> bool" where
  "has_live_tempref now e =
     (case se_tempref e of None \<Rightarrow> False | Some t \<Rightarrow> current_interest now t \<ge> TEMPREF_MINIMAL_INTEREST)"

definition can_demote :: "real \<Rightarrow> strong_entry \<Rightarrow> bool" where
  "can_demote now e \<longleftrightarrow> se_manual e = 0 \<and> \<not> se_bridge e \<and> \<not> has_live_tempref now e"

definition eviction_protected :: "strong_entry \<Rightarrow> bool" where
  "eviction_protected e \<longleftrightarrow> se_manual e \<noteq> 0 \<or> se_bridge e"

definition drop_entry :: "checksum \<Rightarrow> buffer_cache \<Rightarrow> buffer_cache" where
  "drop_entry c bc = bc\<lparr>bc_strong := ddel c (bc_strong bc), bc_cost := remove_interest c (bc_cost bc)\<rparr>"

text \<open>\<open>_demote_locked\<close>, on the entry \<open>e\<close> that is stored under \<open>c\<close>.\<close>

definition demote :: "real \<Rightarrow> checksum \<Rightarrow> strong_entry \<Rightarrow> buffer_cache \<Rightarrow> buffer_cache" where
  "demote now c e bc =
     (if \<not> can_demote now e then bc
      else
        let bc1 = (case se_buffer e of None \<Rightarrow> bc | Some b \<Rightarrow> bc\<lparr>bc_weak := dset c b (bc_weak bc)\<rparr>)
        in if dget (bc_strong bc1) c = Some e then drop_entry c bc1 else bc1)"

definition set_scratch :: "bool option \<Rightarrow> checksum \<Rightarrow> buffer_cache \<Rightarrow> buffer_cache" where
  "set_scratch scratch c bc =
     (case scratch of
        Some True \<Rightarrow> bc\<lparr>bc_scratch := List.insert c (bc_scratch bc)\<rparr>
      | Some False \<Rightarrow> bc\<lparr>bc_scratch := filter (\<lambda>x. x \<noteq> c) (bc_scratch bc)\<rparr>
      | None \<Rightarrow> bc)"

text \<open>Reading an entry just ensured.\<close>

definition on_entry :: "(strong_entry \<Rightarrow> strong_entry) \<Rightarrow> checksum \<Rightarrow> buffer_cache \<Rightarrow> buffer_cache" where
  "on_entry f c bc = (case dget (bc_strong bc) c of None \<Rightarrow> bc | Some e \<Rightarrow> put_entry c (f e) bc)"

definition incref ::
  "(bytes \<Rightarrow> checksum) \<Rightarrow> checksum \<Rightarrow> buffer option \<Rightarrow> bool \<Rightarrow> buffer_cache \<Rightarrow> unit result \<times> buffer_cache" where
  "incref sha c b scratch bc =
     (case ensure_entry sha c b scratch (set_scratch (Some scratch) c bc) of
        (Inl e, bc') \<Rightarrow> (Inl e, bc')
      | (Inr w, bc') \<Rightarrow> (Inr (), publish w (on_entry (\<lambda>e. e\<lparr>se_manual := se_manual e + 1\<rparr>) c bc')))"

definition decref :: "real \<Rightarrow> checksum \<Rightarrow> buffer_cache \<Rightarrow> bool \<times> buffer_cache" where
  "decref now c bc =
     (case dget (bc_strong bc) c of
        None \<Rightarrow> (False, bc)
      | Some e \<Rightarrow>
          if se_manual e = 0 then (False, bc)
          else
            let e' = e\<lparr>se_manual := se_manual e - 1\<rparr>
            in (True, demote now c e' (put_entry c e' bc)))"

definition incref_refholder ::
  "(bytes \<Rightarrow> checksum) \<Rightarrow> checksum \<Rightarrow> buffer option \<Rightarrow> bool option \<Rightarrow> buffer_cache \<Rightarrow> unit result \<times> buffer_cache"
where
  "incref_refholder sha c b scratch bc =
     (case ensure_entry sha c b (scratch \<noteq> Some False) (set_scratch scratch c bc) of
        (Inl e, bc') \<Rightarrow> (Inl e, bc')
      | (Inr w, bc') \<Rightarrow>
          let count = dget_or 0 (bc_refholders bc') c;
              bc1 = (if count = 0 then on_entry (\<lambda>e. e\<lparr>se_bridge := True\<rparr>) c bc' else bc')
          in (Inr (), publish w (bc1\<lparr>bc_refholders := dset c (count + 1) (bc_refholders bc1)\<rparr>)))"

definition decref_refholder :: "real \<Rightarrow> checksum \<Rightarrow> buffer_cache \<Rightarrow> bool \<times> buffer_cache" where
  "decref_refholder now c bc =
     (let count = dget_or 0 (bc_refholders bc) c in
      if count = 0 then (False, bc)
      else if count = 1 then
        let bc1 = bc\<lparr>bc_refholders := ddel c (bc_refholders bc)\<rparr>
        in (True,
            case dget (bc_strong bc) c of
              None \<Rightarrow> bc1
            | Some e \<Rightarrow> let e' = e\<lparr>se_bridge := False\<rparr> in demote now c e' (put_entry c e' bc1))
      else (True, bc\<lparr>bc_refholders := dset c (count - 1) (bc_refholders bc)\<rparr>))"

text \<open>The accounting of every checksum that has any; a dictionary over a set of keys.\<close>

definition reference_snapshot :: "buffer_cache \<Rightarrow> (checksum \<times> nat \<times> nat \<times> bool) list" where
  "reference_snapshot bc =
     map (\<lambda>c. (c, dget_or 0 (bc_refholders bc) c,
         (case dget (bc_strong bc) c of None \<Rightarrow> 0 | Some e \<Rightarrow> se_manual e),
         (case dget (bc_strong bc) c of None \<Rightarrow> False | Some e \<Rightarrow> se_bridge e)))
       (remdups (dkeys (bc_refholders bc) @ dkeys (bc_strong bc)))"

definition force_clear_reference_accounting :: "real \<Rightarrow> buffer_cache \<Rightarrow> buffer_cache" where
  "force_clear_reference_accounting now bc =
     fold (\<lambda>(c, e) bc'. let e' = e\<lparr>se_manual := 0, se_bridge := False\<rparr> in demote now c e' (put_entry c e' bc'))
       (bc_strong bc) (bc\<lparr>bc_refholders := []\<rparr>)"

section \<open>Temprefs, publication and scratch\<close>

definition update_tempref :: "real \<Rightarrow> real \<Rightarrow> real \<Rightarrow> real \<Rightarrow> strong_entry \<Rightarrow> strong_entry" where
  "update_tempref now interest factor interval e =
     (case se_tempref e of
        None \<Rightarrow> e\<lparr>se_tempref := Some \<lparr>tr_interest = interest, tr_fade_factor = factor,
            tr_fade_interval = interval, tr_refreshed = now\<rparr>, se_tempref_scratch := True\<rparr>
      | Some t \<Rightarrow>
          let t' = (if interest > tr_interest t
                      \<or> factor / interval > tr_fade_factor t / tr_fade_interval t
                    then t\<lparr>tr_interest := interest, tr_fade_factor := factor, tr_fade_interval := interval\<rparr>
                    else t)
          in e\<lparr>se_tempref := Some (refresh now t'), se_tempref_scratch := True\<rparr>)"

definition tempref_op ::
  "(bytes \<Rightarrow> checksum) \<Rightarrow> real \<Rightarrow> checksum \<Rightarrow> buffer option \<Rightarrow> real \<Rightarrow> real \<Rightarrow> real \<Rightarrow> buffer_cache
     \<Rightarrow> unit result \<times> buffer_cache"
where
  "tempref_op sha now c b interest factor interval bc =
     (case ensure_entry sha c b True bc of
        (Inl e, bc') \<Rightarrow> (Inl e, bc')
      | (Inr w, bc') \<Rightarrow> (Inr (), on_entry (update_tempref now interest factor interval) c bc'))"

definition transfer_write ::
  "(bytes \<Rightarrow> checksum) \<Rightarrow> checksum \<Rightarrow> buffer option \<Rightarrow> buffer_cache \<Rightarrow> unit result \<times> buffer_cache" where
  "transfer_write sha c b bc =
     (case ensure_entry sha c b False (set_scratch (Some False) c bc) of
        (Inl e, bc') \<Rightarrow> (Inl e, bc')
      | (Inr w, bc') \<Rightarrow> (Inr (), publish w bc'))"

definition mark_scratch :: "checksum \<Rightarrow> buffer_cache \<Rightarrow> buffer_cache" where
  "mark_scratch c bc = set_scratch (Some True) c bc"

definition is_scratch_ref :: "checksum \<Rightarrow> buffer_cache \<Rightarrow> bool" where
  "is_scratch_ref c bc \<longleftrightarrow> c \<in> set (bc_scratch bc)"

definition purge_one :: "checksum \<Rightarrow> nat \<times> buffer_cache \<Rightarrow> nat \<times> buffer_cache" where
  "purge_one c = (\<lambda>(n, bc).
     (case dget (bc_strong bc) c of
        None \<Rightarrow>
          if dget (bc_weak bc) c = None then (n, bc)
          else (n + 1, bc\<lparr>bc_weak := ddel c (bc_weak bc)\<rparr>)
      | Some e \<Rightarrow>
          if se_manual e \<noteq> 0 \<or> se_bridge e then (n, bc)
          else if se_tempref e = None \<or> \<not> se_tempref_scratch e then (n, bc)
          else (n + 1, drop_entry c (bc\<lparr>bc_weak := ddel c (bc_weak bc)\<rparr>))))"

definition purge_scratch :: "checksum option \<Rightarrow> buffer_cache \<Rightarrow> nat \<times> buffer_cache" where
  "purge_scratch oc bc = fold purge_one (case oc of Some c \<Rightarrow> [c] | None \<Rightarrow> bc_scratch bc) (0, bc)"

definition refresh_tempref :: "real \<Rightarrow> checksum \<Rightarrow> buffer_cache \<Rightarrow> buffer_cache" where
  "refresh_tempref now c bc = on_entry (\<lambda>e. e\<lparr>se_tempref := map_option (refresh now) (se_tempref e)\<rparr>) c bc"

section \<open>Eviction\<close>

definition entry_size :: "strong_entry \<Rightarrow> nat" where
  "entry_size e = (case se_size e of None \<Rightarrow> 0 | Some n \<Rightarrow> n)"

definition strong_memory_usage :: "buffer_cache \<Rightarrow> nat" where
  "strong_memory_usage bc = sum_list (map (\<lambda>(c, e). entry_size e) (bc_strong bc))"

definition scale_cost :: "cost \<Rightarrow> real \<Rightarrow> cost" where
  "scale_cost x r = (case x of Inf \<Rightarrow> Inf | Fin y \<Rightarrow> Fin (y * r))"

text \<open>\<open>_candidate_score\<close>: the score, and the coordinator with what it learnt.\<close>

definition candidate_score :: "real \<Rightarrow> checksum \<Rightarrow> strong_entry \<Rightarrow> cost_module \<Rightarrow> cost \<times> cost_module" where
  "candidate_score now c e m =
     (case se_size e of
        None \<Rightarrow> (Inf, m)
      | Some n \<Rightarrow>
          if n = 0 then (Inf, m)
          else
            (case get_cost c (Some (int n)) m of
               None \<Rightarrow> (Inf, m)
             | Some (x, m') \<Rightarrow>
                 (scale_cost x (entry_interest now e / (real n / real BYTES_IN_GB)), m')))"

fun candidates :: "real \<Rightarrow> (checksum, strong_entry) dict \<Rightarrow> cost_module \<Rightarrow> (cost \<times> checksum) list \<times> cost_module" where
  "candidates now [] m = ([], m)"
| "candidates now ((c, e) # es) m =
     (if eviction_protected e then candidates now es m
      else
        (case candidate_score now c e m of
           (score, m') \<Rightarrow> (case candidates now es m' of (cs, m'') \<Rightarrow> ((score, c) # cs, m''))))"

text \<open>The first loop: temprefs that have faded away.\<close>

definition expire_one :: "real \<Rightarrow> checksum \<times> strong_entry \<Rightarrow> buffer_cache \<Rightarrow> buffer_cache" where
  "expire_one now = (\<lambda>(c, e) bc.
     (case se_tempref e of
        None \<Rightarrow> bc
      | Some t \<Rightarrow>
          if current_interest now t < TEMPREF_MINIMAL_INTEREST then
            let e' = e\<lparr>se_tempref := None\<rparr> in demote now c e' (put_entry c e' bc)
          else bc))"

definition expire_temprefs :: "real \<Rightarrow> buffer_cache \<Rightarrow> buffer_cache" where
  "expire_temprefs now bc = fold (expire_one now) (bc_strong bc) bc"

text \<open>The second loop, down the sorted candidates while the usage is above the cap.\<close>

fun evict_loop :: "real \<Rightarrow> (cost \<times> checksum) list \<Rightarrow> int \<Rightarrow> buffer_cache \<Rightarrow> int \<times> buffer_cache" where
  "evict_loop now [] current bc = (current, bc)"
| "evict_loop now ((score, c) # cs) current bc =
     (if current \<le> int (bc_soft_cap bc) then (current, bc)
      else if score = Inf then evict_loop now cs current bc
      else
        (case dget (bc_strong bc) c of
           None \<Rightarrow> evict_loop now cs current bc
         | Some e \<Rightarrow>
             let e' = e\<lparr>se_tempref := None\<rparr>
             in evict_loop now cs (current - int (entry_size e)) (demote now c e' (put_entry c e' bc))))"

definition warn_pressure :: "real \<Rightarrow> nat \<Rightarrow> int \<Rightarrow> buffer_cache \<Rightarrow> buffer_cache" where
  "warn_pressure now before current bc =
     (let protected = length (filter (\<lambda>(c, e). eviction_protected e) (bc_strong bc));
          state = (before, current, bc_soft_cap bc, protected)
      in if bc_warned bc \<noteq> Some state \<or> now - bc_warned_at bc \<ge> MEMORY_PRESSURE_WARNING_INTERVAL
         then bc\<lparr>bc_warned := Some state, bc_warned_at := now, bc_warnings := bc_warnings bc @ [state]\<rparr>
         else bc)"

definition run_eviction_once :: "real \<Rightarrow> buffer_cache \<Rightarrow> (nat \<times> nat) \<times> buffer_cache" where
  "run_eviction_once now bc0 =
     (let bc = expire_temprefs now bc0;
          before = strong_memory_usage bc
      in if before \<le> bc_soft_cap bc then ((before, before), bc)
         else
           let (cs, m) = candidates now (bc_strong bc) (bc_cost bc);
               (current, bc1) = evict_loop now (sort_key fst cs) (int before) (bc\<lparr>bc_cost := m\<rparr>);
               bc2 = (if current > int (bc_soft_cap bc1) then warn_pressure now before current bc1 else bc1)
           in ((before, nat (max 0 current)), bc2))"

record cache_stats =
  cs_strong_bytes :: nat
  cs_strong_count :: nat
  cs_weak_count :: nat
  cs_soft_cap :: nat

definition stats :: "buffer_cache \<Rightarrow> cache_stats" where
  "stats bc = \<lparr>cs_strong_bytes = strong_memory_usage bc, cs_strong_count = length (bc_strong bc),
     cs_weak_count = length (bc_weak bc), cs_soft_cap = bc_soft_cap bc\<rparr>"

section \<open>Effects on the accounting\<close>

lemma mark_dirty_direct [simp]: "direct_interest (mark_dirty c m) = direct_interest m"
  by (simp add: mark_dirty_def)

lemma notify_direct: "notify_length c n m = (b, m') \<Longrightarrow> direct_interest m' = direct_interest m"
  by (auto simp: notify_length_def split: option.splits if_splits)

lemma register_length_direct [simp]:
  "direct_interest (register_buffer_length c n m) = direct_interest m"
  by (auto simp: register_buffer_length_def dest: notify_direct split: prod.splits)

lemma get_cost_direct: "get_cost c n m = Some (x, m') \<Longrightarrow> direct_interest m' = direct_interest m"
  by (auto simp: get_cost_def Let_def dest!: notify_direct split: prod.splits if_splits)

lemma detach_direct [simp]: "direct_interest (detach_fuel n c m) = direct_interest m"
proof (induction n arbitrary: c m)
  case 0
  then show ?case by simp
next
  case (Suc n)
  have "direct_interest (decrement_dependency_interest (detach_fuel n) d m') = direct_interest m'" for d m'
    by (simp add: decrement_dependency_interest_def maybe_release_def Suc split: option.split)
  then have "direct_interest (fold (\<lambda>d m'. decrement_dependency_interest (detach_fuel n) d
      (discard_reverse d c m')) ds m') = direct_interest m'" for ds m'
    by (induction ds arbitrary: m') simp_all
  then show ?case by simp
qed

lemma remove_interest_direct:
  "dget (direct_interest (remove_interest c m)) k =
     (if k = c \<and> dget_or 0 (direct_interest m) c \<le> 1 then None
      else if k = c then Some (dget_or 0 (direct_interest m) c - 1)
      else dget (direct_interest m) k)"
  by (simp add: remove_interest_def maybe_release_def detach_dependencies_def dget_or_def del: detach_fuel.simps
      split: option.split)

lemma note_size_fields [simp]:
  "bc_strong (note_size c n bc) = bc_strong bc" "bc_refholders (note_size c n bc) = bc_refholders bc"
  "direct_interest (bc_cost (note_size c n bc)) = direct_interest (bc_cost bc)"
  "bc_weak (note_size c n bc) = bc_weak bc" "bc_soft_cap (note_size c n bc) = bc_soft_cap bc"
  "bc_writes (note_size c n bc) = bc_writes bc" "bc_scratch (note_size c n bc) = bc_scratch bc"
  by (simp_all add: note_size_def split: option.split)

lemma publish_fields [simp]:
  "bc_strong (publish b bc) = bc_strong bc" "bc_refholders (publish b bc) = bc_refholders bc"
  "bc_cost (publish b bc) = bc_cost bc" "bc_weak (publish b bc) = bc_weak bc"
  "bc_soft_cap (publish b bc) = bc_soft_cap bc" "bc_scratch (publish b bc) = bc_scratch bc"
  by (simp_all add: publish_def split: option.split)

lemma put_entry_fields [simp]:
  "bc_strong (put_entry c e bc) = dset c e (bc_strong bc)" "bc_refholders (put_entry c e bc) = bc_refholders bc"
  "bc_cost (put_entry c e bc) = bc_cost bc" "bc_weak (put_entry c e bc) = bc_weak bc"
  "bc_soft_cap (put_entry c e bc) = bc_soft_cap bc" "bc_writes (put_entry c e bc) = bc_writes bc"
  "bc_scratch (put_entry c e bc) = bc_scratch bc"
  by (simp_all add: put_entry_def)

lemma set_scratch_fields [simp]:
  "bc_strong (set_scratch s c bc) = bc_strong bc" "bc_refholders (set_scratch s c bc) = bc_refholders bc"
  "bc_cost (set_scratch s c bc) = bc_cost bc" "bc_weak (set_scratch s c bc) = bc_weak bc"
  "bc_writes (set_scratch s c bc) = bc_writes bc"
  by (cases s; simp add: set_scratch_def; rename_tac b; case_tac b; simp)+

lemma drop_entry_fields [simp]:
  "bc_strong (drop_entry c bc) = ddel c (bc_strong bc)" "bc_refholders (drop_entry c bc) = bc_refholders bc"
  "bc_cost (drop_entry c bc) = remove_interest c (bc_cost bc)" "bc_weak (drop_entry c bc) = bc_weak bc"
  "bc_soft_cap (drop_entry c bc) = bc_soft_cap bc" "bc_writes (drop_entry c bc) = bc_writes bc"
  "bc_scratch (drop_entry c bc) = bc_scratch bc"
  by (simp_all add: drop_entry_def)

section \<open>The accounting invariant\<close>

text \<open>
  The bridge of an entry says whether a refholder count is held, a held count has an entry
  and is positive, and every strong entry holds exactly one unit of direct interest in the
  cost coordinator.
\<close>

definition bc_inv :: "buffer_cache \<Rightarrow> bool" where
  "bc_inv bc \<longleftrightarrow> dict_wf (bc_strong bc) \<and>
     (\<forall>c e. dget (bc_strong bc) c = Some e \<longrightarrow> (se_bridge e \<longleftrightarrow> dget (bc_refholders bc) c \<noteq> None)) \<and>
     (\<forall>c. dget (bc_refholders bc) c \<noteq> None \<longrightarrow> dget (bc_strong bc) c \<noteq> None) \<and>
     (\<forall>c. dget (bc_refholders bc) c \<noteq> Some 0) \<and>
     (\<forall>c. dget (direct_interest (bc_cost bc)) c = map_option (\<lambda>_. 1) (dget (bc_strong bc) c))"

lemma bc_inv_cong:
  "bc_strong a = bc_strong b \<Longrightarrow> bc_refholders a = bc_refholders b \<Longrightarrow>
     direct_interest (bc_cost a) = direct_interest (bc_cost b) \<Longrightarrow> bc_inv a = bc_inv b"
  by (simp add: bc_inv_def)

lemma bc_inv_simps [simp]:
  "bc_inv (note_size c n bc) = bc_inv bc" "bc_inv (publish b bc) = bc_inv bc"
  "bc_inv (set_scratch s c bc) = bc_inv bc" "bc_inv (bc\<lparr>bc_weak := w\<rparr>) = bc_inv bc"
  by (rule bc_inv_cong; simp)+

lemma inv_put:
  "bc_inv bc \<Longrightarrow> dget (bc_strong bc) c = Some e0 \<Longrightarrow> se_bridge e = se_bridge e0 \<Longrightarrow> bc_inv (put_entry c e bc)"
  unfolding bc_inv_def by auto

lemma inv_on_entry:
  "bc_inv bc \<Longrightarrow> (\<And>e. se_bridge (f e) = se_bridge e) \<Longrightarrow> bc_inv (on_entry f c bc)"
  by (auto simp: on_entry_def intro: inv_put split: option.split)

lemma inv_new:
  assumes "bc_inv bc" and "dget (bc_strong bc) c = None" and "\<not> se_bridge e"
  shows "bc_inv ((put_entry c e bc)\<lparr>bc_cost := add_interest c (bc_cost bc)\<rparr>)"
  using assms unfolding bc_inv_def by (auto simp: add_interest_def)

lemma inv_drop:
  assumes "bc_inv bc" and "dget (bc_refholders bc) c = None"
  shows "bc_inv (drop_entry c bc)"
  using assms unfolding bc_inv_def
  by (auto simp: remove_interest_direct dget_or_def split: option.split)

lemma demote_stored:
  assumes "dget (bc_strong bc) c = Some e"
  shows "demote now c e bc =
    (if can_demote now e
     then drop_entry c (case se_buffer e of None \<Rightarrow> bc | Some b \<Rightarrow> bc\<lparr>bc_weak := dset c b (bc_weak bc)\<rparr>)
     else bc)"
  using assms by (auto simp: demote_def split: option.split)

lemma inv_demote:
  assumes "bc_inv bc" and "dget (bc_strong bc) c = Some e"
  shows "bc_inv (demote now c e bc)"
proof (cases "can_demote now e")
  case True
  then have "dget (bc_refholders bc) c = None" using assms by (auto simp: can_demote_def bc_inv_def)
  with assms True show ?thesis
    by (simp add: demote_stored split: option.split) (auto intro!: inv_drop)
next
  case False
  with assms show ?thesis by (simp add: demote_stored)
qed

lemma demote_strong:
  "dget (bc_strong bc) c = Some e \<Longrightarrow>
     bc_strong (demote now c e bc) = (if can_demote now e then ddel c (bc_strong bc) else bc_strong bc)"
  by (simp add: demote_stored split: option.split)

lemma demote_refholders [simp]: "bc_refholders (demote now c e bc) = bc_refholders bc"
  by (auto simp: demote_def Let_def split: option.split)

lemma demote_cap [simp]: "bc_soft_cap (demote now c e bc) = bc_soft_cap bc"
  by (auto simp: demote_def Let_def split: option.split)

lemma inv_register: "bc_inv bc \<Longrightarrow> bc_inv (register_buffer c b n bc)"
  unfolding register_buffer_def Let_def
  by (auto split: option.split intro: inv_put)

lemma register_strong:
  "dget (bc_strong (register_buffer c b n bc)) k = None \<longleftrightarrow> dget (bc_strong bc) k = None"
  by (simp add: register_buffer_def Let_def split: option.split)

lemma inv_get_checksum: "bc_inv bc \<Longrightarrow> buffer_get_checksum sha b bc = (c, b', bc') \<Longrightarrow> bc_inv bc'"
  by (auto simp: buffer_get_checksum_def Let_def inv_register split: option.splits)

lemma inv_checked: "bc_inv bc \<Longrightarrow> checked_buffer sha c b bc = (r, bc') \<Longrightarrow> bc_inv bc'"
  by (auto simp: checked_buffer_def dest: inv_get_checksum split: option.splits prod.splits)

lemma inv_settle:
  assumes "bc_inv bc" and "settle_entry c b remote bc = (w, bc')"
  shows "bc_inv bc'" and "dget (bc_strong bc') c \<noteq> None"
proof -
  have "bc_inv bc' \<and> dget (bc_strong bc') c \<noteq> None"
  proof (cases "dget (bc_strong bc) c")
    case None
    with assms inv_new [of "note_size c (dget (bc_sizes bc) c) bc" c "new_entry b (dget (bc_sizes bc) c) remote"]
    show ?thesis by (auto simp: settle_entry_def new_entry_def Let_def)
  next
    case (Some e)
    with assms show ?thesis by (auto simp: settle_entry_def split: if_splits intro: inv_put)
  qed
  then show "bc_inv bc'" and "dget (bc_strong bc') c \<noteq> None" by simp_all
qed

lemma ensure_entry_inv:
  assumes "bc_inv bc0" and "ensure_entry sha c b0 scratch bc0 = (r, bc')"
  shows "bc_inv bc'" and "r = Inr w \<Longrightarrow> dget (bc_strong bc') c \<noteq> None"
proof -
  obtain r1 bc1 where k: "checked_buffer sha c b0 bc0 = (r1, bc1)" by fastforce
  have i1: "bc_inv bc1" using inv_checked [OF assms(1) k] .
  have "bc_inv bc' \<and> (r = Inr w \<longrightarrow> dget (bc_strong bc') c \<noteq> None)"
  proof (cases r1)
    case (Inl e)
    with k assms(2) i1 show ?thesis by (auto simp: ensure_entry_def)
  next
    case (Inr b)
    obtain w' bc2 where "settle_entry c b (\<not> scratch) bc1 = (w', bc2)" by fastforce
    with inv_settle [OF i1 this] k Inr assms(2) show ?thesis by (auto simp: ensure_entry_def)
  qed
  then show "bc_inv bc'" and "r = Inr w \<Longrightarrow> dget (bc_strong bc') c \<noteq> None" by simp_all
qed

section \<open>Every operation keeps it\<close>

lemma inv_incref: "bc_inv bc \<Longrightarrow> bc_inv (snd (incref sha c b scratch bc))"
  by (auto simp: incref_def dest: ensure_entry_inv(1) [rotated] intro!: inv_on_entry split: prod.splits sum.splits)

lemma inv_decref: "bc_inv bc \<Longrightarrow> bc_inv (snd (decref now c bc))"
  by (auto simp: decref_def Let_def intro!: inv_demote inv_put split: option.splits)

lemma inv_take_refholder:
  assumes "bc_inv bc" and "dget (bc_strong bc) c \<noteq> None" and "n > 0"
  shows "bc_inv ((if dget_or 0 (bc_refholders bc) c = 0 then on_entry (\<lambda>e. e\<lparr>se_bridge := True\<rparr>) c bc else bc)
    \<lparr>bc_refholders := dset c n (bc_refholders bc)\<rparr>)"
  using assms unfolding bc_inv_def on_entry_def
  by (cases "dget (bc_refholders bc) c") auto

lemma on_entry_refholders [simp]: "bc_refholders (on_entry f c bc) = bc_refholders bc"
  by (simp add: on_entry_def split: option.split)

lemma inv_incref_refholder:
  assumes "bc_inv bc"
  shows "bc_inv (snd (incref_refholder sha c b scratch bc))"
proof -
  obtain r bc' where e: "ensure_entry sha c b (scratch \<noteq> Some False) (set_scratch scratch c bc) = (r, bc')"
    by fastforce
  have i: "bc_inv bc'" using ensure_entry_inv(1) [OF _ e] assms by simp
  show ?thesis
  proof (cases r)
    case (Inl x)
    with e i show ?thesis by (simp add: incref_refholder_def)
  next
    case (Inr w)
    then have "dget (bc_strong bc') c \<noteq> None" using ensure_entry_inv(2) [OF _ e] assms by simp
    from inv_take_refholder [OF i this, of "dget_or 0 (bc_refholders bc') c + 1"] e Inr
    show ?thesis by (simp add: incref_refholder_def Let_def split: if_splits)
  qed
qed

lemma inv_release_bridge:
  assumes "bc_inv bc" and "dget (bc_strong bc) c = Some e"
  shows "bc_inv (put_entry c (e\<lparr>se_bridge := False\<rparr>) (bc\<lparr>bc_refholders := ddel c (bc_refholders bc)\<rparr>))"
  using assms unfolding bc_inv_def by auto

lemma inv_decref_refholder: "bc_inv bc \<Longrightarrow> bc_inv (snd (decref_refholder now c bc))"
proof -
  assume inv: "bc_inv bc"
  show ?thesis
  proof (cases "dget_or 0 (bc_refholders bc) c = 1")
    case True
    then have "dget (bc_refholders bc) c \<noteq> None" by (cases "dget (bc_refholders bc) c") auto
    with inv obtain e where e: "dget (bc_strong bc) c = Some e" unfolding bc_inv_def by auto
    from inv_demote [OF inv_release_bridge [OF inv e]] True e show ?thesis
      by (simp add: decref_refholder_def Let_def)
  next
    case False
    with inv show ?thesis
      by (cases "dget (bc_refholders bc) c") (auto simp: decref_refholder_def Let_def bc_inv_def)
  qed
qed

lemma inv_tempref: "bc_inv bc \<Longrightarrow> bc_inv (snd (tempref_op sha now c b i f v bc))"
  by (auto simp: tempref_op_def update_tempref_def Let_def dest: ensure_entry_inv(1) [rotated]
      intro!: inv_on_entry split: prod.splits sum.splits option.splits)

lemma inv_transfer_write: "bc_inv bc \<Longrightarrow> bc_inv (snd (transfer_write sha c b bc))"
  by (auto simp: transfer_write_def dest: ensure_entry_inv(1) [rotated] split: prod.splits sum.splits)

lemma inv_refresh: "bc_inv bc \<Longrightarrow> bc_inv (refresh_tempref now c bc)"
  by (simp add: refresh_tempref_def inv_on_entry)

lemma inv_purge_one:
  assumes "bc_inv (snd s)"
  shows "bc_inv (snd (purge_one c s))"
proof -
  obtain n bc where s: "s = (n, bc)" by fastforce
  with assms have inv: "bc_inv bc" by simp
  have "dget (bc_refholders bc) c = None" if "dget (bc_strong bc) c = Some e" "\<not> se_bridge e" for e
    using inv that by (auto simp: bc_inv_def)
  with inv s show ?thesis by (auto simp: purge_one_def intro!: inv_drop split: option.split)
qed

lemma inv_purge: "bc_inv bc \<Longrightarrow> bc_inv (snd (purge_scratch oc bc))"
proof -
  have "bc_inv (snd s) \<Longrightarrow> bc_inv (snd (fold purge_one cs s))" for cs s
  proof (induction cs arbitrary: s)
    case Nil
    then show ?case by simp
  next
    case (Cons c cs)
    from Cons.IH [OF inv_purge_one [OF Cons.prems]] show ?case by simp
  qed
  then show "bc_inv bc \<Longrightarrow> bc_inv (snd (purge_scratch oc bc))" by (simp add: purge_scratch_def)
qed

lemma inv_get_buffer: "bc_inv bc \<Longrightarrow> bc_inv (snd (get_buffer c bc))"
  by (auto simp: get_buffer_def intro: inv_put split: option.splits)


section \<open>Loops over the strong cache\<close>

text \<open>A loop whose body, on a stored entry, touches no other entry.\<close>

lemma fold_entries:
  assumes step: "\<And>c e bc. P bc \<Longrightarrow> dget (bc_strong bc) c = Some e \<Longrightarrow>
      P (f (c, e) bc) \<and> Q c e (dget (bc_strong (f (c, e) bc)) c) \<and>
      (\<forall>k. k \<noteq> c \<longrightarrow> dget (bc_strong (f (c, e) bc)) k = dget (bc_strong bc) k)"
    and "P bc" and "distinct (map fst es)" and "\<forall>(c, e)\<in>set es. dget (bc_strong bc) c = Some e"
  shows "P (fold f es bc) \<and> (\<forall>(c, e)\<in>set es. Q c e (dget (bc_strong (fold f es bc)) c)) \<and>
    (\<forall>k. k \<notin> fst ` set es \<longrightarrow> dget (bc_strong (fold f es bc)) k = dget (bc_strong bc) k)"
  using assms(2-4)
proof (induction es arbitrary: bc)
  case Nil
  then show ?case by simp
next
  case (Cons x es)
  obtain c e where x: "x = (c, e)" by fastforce
  from Cons.prems x have here: "P bc" "dget (bc_strong bc) c = Some e" and nin: "c \<notin> fst ` set es" by auto
  note st = step [OF here]
  have "\<forall>(c', e')\<in>set es. dget (bc_strong (f (c, e) bc)) c' = Some e'"
  proof (clarify)
    fix c' e' assume m: "(c', e') \<in> set es"
    then have "c' \<noteq> c" using nin by (auto intro: rev_image_eqI)
    with st Cons.prems(3) m show "dget (bc_strong (f (c, e) bc)) c' = Some e'" by auto
  qed
  with Cons.IH [of "f (c, e) bc"] Cons.prems(2) st x
  have ih: "P (fold f es (f (c, e) bc))"
    "\<forall>(c, e)\<in>set es. Q c e (dget (bc_strong (fold f es (f (x) bc))) c)"
    "\<forall>k. k \<notin> fst ` set es \<longrightarrow> dget (bc_strong (fold f es (f x bc))) k = dget (bc_strong (f x bc)) k"
    by auto
  with st x nin show ?case by auto
qed

lemma wf_self: "dict_wf d \<Longrightarrow> \<forall>(c, e)\<in>set d. dget d c = Some e"
  by (auto simp: dget_eq_iff)

text \<open>What the first loop of the eviction makes of an entry.\<close>

definition expired :: "real \<Rightarrow> strong_entry \<Rightarrow> strong_entry option" where
  "expired now e = (case se_tempref e of
     None \<Rightarrow> Some e
   | Some t \<Rightarrow>
       if current_interest now t < TEMPREF_MINIMAL_INTEREST then
         (if eviction_protected e then Some (e\<lparr>se_tempref := None\<rparr>) else None)
       else Some e)"

lemma can_demote_no_tempref: "can_demote now (e\<lparr>se_tempref := None\<rparr>) \<longleftrightarrow> \<not> eviction_protected e"
  by (simp add: can_demote_def has_live_tempref_def eviction_protected_def)

lemma expire_one_step:
  assumes "bc_inv bc \<and> bc_soft_cap bc = cap" and "dget (bc_strong bc) c = Some e"
  shows "(bc_inv (expire_one now (c, e) bc) \<and> bc_soft_cap (expire_one now (c, e) bc) = cap) \<and>
    dget (bc_strong (expire_one now (c, e) bc)) c = expired now e \<and>
    (\<forall>k. k \<noteq> c \<longrightarrow> dget (bc_strong (expire_one now (c, e) bc)) k = dget (bc_strong bc) k)"
proof (cases "\<exists>t. se_tempref e = Some t \<and> current_interest now t < TEMPREF_MINIMAL_INTEREST")
  case True
  let ?e = "e\<lparr>se_tempref := None\<rparr>"
  have put: "bc_inv (put_entry c ?e bc)" by (rule inv_put) (use assms in auto)
  have st: "dget (bc_strong (put_entry c ?e bc)) c = Some ?e" by simp
  from True inv_demote [OF put st] demote_strong [OF st, of now] assms show ?thesis
    by (auto simp: expire_one_def Let_def expired_def can_demote_no_tempref)
next
  case False
  with assms show ?thesis
    by (auto simp: expire_one_def expired_def split: option.split)
qed

lemma expire_temprefs_spec:
  assumes "bc_inv bc"
  shows "bc_inv (expire_temprefs now bc)" and "bc_soft_cap (expire_temprefs now bc) = bc_soft_cap bc"
    and "dget (bc_strong (expire_temprefs now bc)) c = Option.bind (dget (bc_strong bc) c) (expired now)"
proof -
  have wf: "dict_wf (bc_strong bc)" using assms by (simp add: bc_inv_def)
  have "(bc_inv (expire_temprefs now bc) \<and> bc_soft_cap (expire_temprefs now bc) = bc_soft_cap bc) \<and>
      (\<forall>(c, e)\<in>set (bc_strong bc). dget (bc_strong (expire_temprefs now bc)) c = expired now e) \<and>
      (\<forall>k. k \<notin> fst ` set (bc_strong bc) \<longrightarrow>
        dget (bc_strong (expire_temprefs now bc)) k = dget (bc_strong bc) k)"
    unfolding expire_temprefs_def
    by (rule fold_entries [where P = "\<lambda>b. bc_inv b \<and> bc_soft_cap b = bc_soft_cap bc"
          and Q = "\<lambda>c e r. r = expired now e"])
       (use assms wf expire_one_step in \<open>auto simp: dict_wf_def [symmetric] wf_self [rule_format]\<close>)
  then have all: "bc_inv (expire_temprefs now bc) \<and> bc_soft_cap (expire_temprefs now bc) = bc_soft_cap bc"
    and here: "\<And>c e. (c, e) \<in> set (bc_strong bc) \<Longrightarrow>
      dget (bc_strong (expire_temprefs now bc)) c = expired now e"
    and other: "\<And>k. k \<notin> fst ` set (bc_strong bc) \<Longrightarrow>
      dget (bc_strong (expire_temprefs now bc)) k = dget (bc_strong bc) k"
    by blast+
  from all show "bc_inv (expire_temprefs now bc)" "bc_soft_cap (expire_temprefs now bc) = bc_soft_cap bc"
    by simp_all
  show "dget (bc_strong (expire_temprefs now bc)) c = Option.bind (dget (bc_strong bc) c) (expired now)"
  proof (cases "dget (bc_strong bc) c")
    case None
    then have "c \<notin> fst ` set (bc_strong bc)" by (simp add: map_of_eq_None_iff)
    from other [OF this] None show ?thesis by simp
  next
    case (Some e)
    then show ?thesis using here [OF dget_in_set [OF Some]] by simp
  qed
qed

section \<open>The eviction pass\<close>

lemma usage_dset:
  "dict_wf d \<Longrightarrow> dget d c = Some e0 \<Longrightarrow> entry_size e = entry_size e0 \<Longrightarrow>
     sum_list (map (\<lambda>(c, e). entry_size e) (dset c e d)) = sum_list (map (\<lambda>(c, e). entry_size e) d)"
  by (induction d) (auto simp: dict_wf_def)

lemma usage_ddel:
  "dict_wf d \<Longrightarrow> dget d c = Some e \<Longrightarrow>
     sum_list (map (\<lambda>(c, e). entry_size e) (ddel c d)) + entry_size e = sum_list (map (\<lambda>(c, e). entry_size e) d)"
proof (induction d)
  case Nil
  then show ?case by simp
next
  case (Cons x d)
  obtain k v where x: "x = (k, v)" by fastforce
  with Cons.prems have wf: "dict_wf d" and k: "dget d k = None"
    by (auto simp: dict_wf_def map_of_eq_None_iff)
  have "ddel k d = d" using k by (simp add: map_of_eq_None_iff delete_id)
  with x Cons wf show ?case by (cases "k = c") auto
qed

text \<open>One turn of the second loop on an unprotected entry.\<close>

definition evict_one :: "real \<Rightarrow> checksum \<Rightarrow> strong_entry \<Rightarrow> buffer_cache \<Rightarrow> buffer_cache" where
  "evict_one now c e bc =
     (let e' = e\<lparr>se_tempref := None\<rparr> in demote now c e' (put_entry c e' bc))"

lemma evict_one_spec:
  assumes "bc_inv bc" and "dget (bc_strong bc) c = Some e" and "\<not> eviction_protected e"
  shows "bc_inv (evict_one now c e bc)"
    and "dget (bc_strong (evict_one now c e bc)) k = (if k = c then None else dget (bc_strong bc) k)"
    and "strong_memory_usage (evict_one now c e bc) + entry_size e = strong_memory_usage bc"
    and "bc_soft_cap (evict_one now c e bc) = bc_soft_cap bc"
proof -
  let ?e = "e\<lparr>se_tempref := None\<rparr>"
  have wf: "dict_wf (bc_strong bc)" using assms(1) by (simp add: bc_inv_def)
  have put: "bc_inv (put_entry c ?e bc)" by (rule inv_put) (use assms in auto)
  have st: "dget (bc_strong (put_entry c ?e bc)) c = Some ?e" by simp
  have sz: "entry_size ?e = entry_size e" by (simp add: entry_size_def)
  have strong: "bc_strong (evict_one now c e bc) = ddel c (dset c ?e (bc_strong bc))"
    using demote_strong [OF st, of now] assms(3) by (simp add: evict_one_def Let_def can_demote_no_tempref)
  show "bc_inv (evict_one now c e bc)"
    using inv_demote [OF put st] by (simp add: evict_one_def Let_def)
  show "dget (bc_strong (evict_one now c e bc)) k = (if k = c then None else dget (bc_strong bc) k)"
    by (simp add: strong)
  show "bc_soft_cap (evict_one now c e bc) = bc_soft_cap bc"
    by (simp add: evict_one_def Let_def)
  have "sum_list (map (\<lambda>(c, e). entry_size e) (ddel c (dset c ?e (bc_strong bc)))) + entry_size ?e =
      sum_list (map (\<lambda>(c, e). entry_size e) (dset c ?e (bc_strong bc)))"
    by (rule usage_ddel) (use wf in auto)
  with usage_dset [OF wf assms(2) sz] sz
  show "strong_memory_usage (evict_one now c e bc) + entry_size e = strong_memory_usage bc"
    by (simp add: strong_memory_usage_def strong)
qed

lemma evict_loop_spec:
  assumes "bc_inv bc" and "distinct (map snd cs)"
    and "\<forall>c\<in>snd ` set cs. \<exists>e. dget (bc_strong bc) c = Some e \<and> \<not> eviction_protected e"
    and "evict_loop now cs (int (strong_memory_usage bc)) bc = (current, bc')"
  shows "bc_inv bc' \<and> current = int (strong_memory_usage bc') \<and> bc_soft_cap bc' = bc_soft_cap bc
    \<and> (\<forall>k. k \<notin> snd ` set cs \<longrightarrow> dget (bc_strong bc') k = dget (bc_strong bc) k)
    \<and> (current > int (bc_soft_cap bc) \<longrightarrow>
         (\<forall>(score, c)\<in>set cs. score \<noteq> Inf \<longrightarrow> dget (bc_strong bc') c = None))
    \<and> (\<forall>(score, c)\<in>set cs. score = Inf \<longrightarrow> dget (bc_strong bc') c = dget (bc_strong bc) c)"
  using assms
proof (induction cs arbitrary: bc)
  case Nil
  then show ?case by auto
next
  case (Cons x cs)
  obtain score c where x: "x = (score, c)" by fastforce
  obtain e where e: "dget (bc_strong bc) c = Some e" "\<not> eviction_protected e" using Cons.prems(3) x by auto
  have nin: "c \<notin> snd ` set cs" and dist: "distinct (map snd cs)" using Cons.prems(2) x by auto
  show ?case
  proof (cases "int (strong_memory_usage bc) \<le> int (bc_soft_cap bc)")
    case True
    with Cons.prems x show ?thesis by auto
  next
    case above: False
    show ?thesis
    proof (cases "score = Inf")
      case True
      with Cons.IH [OF Cons.prems(1) dist] Cons.prems(3,4) x above nin show ?thesis by force
    next
      case False
      note one = evict_one_spec [OF Cons.prems(1) e, of now]
      have "int (strong_memory_usage bc) - int (entry_size e) = int (strong_memory_usage (evict_one now c e bc))"
        using one(3) by simp
      then have run: "evict_loop now cs (int (strong_memory_usage (evict_one now c e bc))) (evict_one now c e bc)
          = (current, bc')"
        using Cons.prems(4) x above False e by (simp add: evict_one_def Let_def)
      have pre: "\<forall>k\<in>snd ` set cs. \<exists>e'. dget (bc_strong (evict_one now c e bc)) k = Some e' \<and> \<not> eviction_protected e'"
      proof
        fix k assume k: "k \<in> snd ` set cs"
        then have "k \<noteq> c" using nin by blast
        with k Cons.prems(3) x one(2) show "\<exists>e'. dget (bc_strong (evict_one now c e bc)) k = Some e' \<and> \<not> eviction_protected e'"
          by auto
      qed
      note ih = Cons.IH [OF one(1) dist pre run]
      have gone: "dget (bc_strong bc') c = None" using ih nin one(2) by simp
      have others: "(\<forall>(score, c)\<in>set cs. score = Inf \<longrightarrow> dget (bc_strong bc') c = dget (bc_strong bc) c)"
      proof (clarify)
        fix k assume "(Inf, k) \<in> set cs"
        moreover from this nin have "k \<noteq> c" by (auto intro: rev_image_eqI)
        ultimately show "dget (bc_strong bc') k = dget (bc_strong bc) k" using ih one(2) by fastforce
      qed
      have rest: "dget (bc_strong bc') k = dget (bc_strong bc) k" if "k \<notin> snd ` set (x # cs)" for k
        using ih one(2) x that by simp
      have cap: "bc_soft_cap bc' = bc_soft_cap bc" using ih one(4) by simp
      have down: "current > int (bc_soft_cap bc) \<longrightarrow>
          (\<forall>(score, c)\<in>set (x # cs). score \<noteq> Inf \<longrightarrow> dget (bc_strong bc') c = None)"
        using ih one(4) gone x by simp
      have keepers: "\<forall>(score, c)\<in>set (x # cs). score = Inf \<longrightarrow> dget (bc_strong bc') c = dget (bc_strong bc) c"
        using others x False by simp
      from ih cap rest down keepers show ?thesis by blast
    qed
  qed
qed

lemma candidates_keys:
  "map snd (fst (candidates now es m)) = map fst (filter (\<lambda>(c, e). \<not> eviction_protected e) es)"
  by (induction now es m rule: candidates.induct) (auto split: prod.splits)

lemma candidate_score_direct:
  "candidate_score now c e m = (x, m') \<Longrightarrow> direct_interest m' = direct_interest m"
  by (auto simp: candidate_score_def dest: get_cost_direct split: option.splits if_splits)

lemma candidates_direct: "direct_interest (snd (candidates now es m)) = direct_interest m"
  by (induction now es m rule: candidates.induct) (auto dest: candidate_score_direct split: prod.splits)

lemma distinct_sort_key: "distinct (map snd (sort_key f xs)) = distinct (map snd xs)"
  by (simp add: distinct_map)

lemma warn_fields [simp]:
  "bc_strong (warn_pressure now a b bc) = bc_strong bc" "bc_refholders (warn_pressure now a b bc) = bc_refholders bc"
  "bc_cost (warn_pressure now a b bc) = bc_cost bc" "bc_soft_cap (warn_pressure now a b bc) = bc_soft_cap bc"
  by (simp_all add: warn_pressure_def Let_def)

lemma warn_simps [simp]:
  "bc_inv (warn_pressure now a b bc) = bc_inv bc"
  by (rule bc_inv_cong) simp_all

lemma warn_usage [simp]:
  "strong_memory_usage (warn_pressure now a b bc) = strong_memory_usage bc"
  by (simp add: strong_memory_usage_def)

definition price_unknown :: "real \<Rightarrow> buffer_cache \<Rightarrow> checksum \<Rightarrow> bool" where
  "price_unknown now bc c \<longleftrightarrow> (Inf, c) \<in> set (fst (candidates now (bc_strong bc) (bc_cost bc)))"

lemma eviction_spec:
  assumes inv: "bc_inv bc0" and run: "run_eviction_once now bc0 = ((before, after), bc')"
  defines "bc \<equiv> expire_temprefs now bc0"
  shows "bc_inv bc' \<and> bc_soft_cap bc' = bc_soft_cap bc0 \<and> after = strong_memory_usage bc'
    \<and> (\<forall>c e. dget (bc_strong bc) c = Some e \<and> eviction_protected e \<longrightarrow> dget (bc_strong bc') c = Some e)
    \<and> (after > bc_soft_cap bc0 \<longrightarrow>
        (\<forall>c e. dget (bc_strong bc') c = Some e \<longrightarrow> eviction_protected e \<or> price_unknown now bc c))"
proof (cases "strong_memory_usage bc \<le> bc_soft_cap bc")
  case True
  with run expire_temprefs_spec [OF inv, of now] show ?thesis
    by (auto simp: run_eviction_once_def Let_def bc_def)
next
  case False
  obtain cs m where cs: "candidates now (bc_strong bc) (bc_cost bc) = (cs, m)" by fastforce
  define bc1 where "bc1 = bc\<lparr>bc_cost := m\<rparr>"
  obtain current bc2 where loop: "evict_loop now (sort_key fst cs) (int (strong_memory_usage bc)) bc1 = (current, bc2)"
    by fastforce
  have bc: "bc_inv bc" "bc_soft_cap bc = bc_soft_cap bc0"
    using expire_temprefs_spec [OF inv] by (simp_all add: bc_def)
  have wf: "distinct (map fst (bc_strong bc))" using bc(1) by (simp add: bc_inv_def dict_wf_def)
  have keys: "map snd cs = map fst (filter (\<lambda>(c, e). \<not> eviction_protected e) (bc_strong bc))"
    using candidates_keys [of now "bc_strong bc" "bc_cost bc"] cs by simp
  have inv1: "bc_inv bc1"
    using bc(1) candidates_direct [of now "bc_strong bc" "bc_cost bc"] cs
    by (auto simp: bc1_def bc_inv_def)
  have use1: "strong_memory_usage bc1 = strong_memory_usage bc" by (simp add: bc1_def strong_memory_usage_def)
  have dist: "distinct (map snd (sort_key fst cs))"
    unfolding distinct_sort_key keys using wf by (simp add: distinct_map_filter)
  have stored: "c \<in> snd ` set cs \<longleftrightarrow> (\<exists>e. dget (bc_strong bc) c = Some e \<and> \<not> eviction_protected e)" for c
  proof -
    have "snd ` set cs = set (map snd cs)" by simp
    then show ?thesis
      unfolding keys using wf by (auto simp: map_of_eq_Some_iff intro: rev_image_eqI)
  qed
  have pre: "\<forall>c\<in>snd ` set (sort_key fst cs). \<exists>e. dget (bc_strong bc1) c = Some e \<and> \<not> eviction_protected e"
    using stored by (simp add: bc1_def)
  note spec = evict_loop_spec [OF inv1 dist pre loop [folded use1]]
  have cap1: "bc_soft_cap bc1 = bc_soft_cap bc0" "bc_strong bc1 = bc_strong bc"
    using bc(2) by (simp_all add: bc1_def)
  have res: "after = strong_memory_usage bc2" "bc_inv bc' = bc_inv bc2" "bc_strong bc' = bc_strong bc2"
    "bc_soft_cap bc' = bc_soft_cap bc2"
    "strong_memory_usage bc' = strong_memory_usage bc2"
    using run False cs loop spec by (auto simp: run_eviction_once_def Let_def bc_def [symmetric] bc1_def [symmetric])
  have safe: "dget (bc_strong bc') c = Some e" if "dget (bc_strong bc) c = Some e" "eviction_protected e" for c e
  proof -
    have "c \<notin> snd ` set (sort_key fst cs)" using that stored [of c] by auto
    with spec res(3) cap1(2) that(1) show ?thesis by simp
  qed
  have left: "eviction_protected e \<or> price_unknown now bc c"
    if "after > bc_soft_cap bc0" "dget (bc_strong bc') c = Some e" for c e
  proof (rule disjCI)
    assume known: "\<not> price_unknown now bc c"
    show "eviction_protected e"
    proof (cases "c \<in> snd ` set cs")
      case True
      then obtain score where s: "(score, c) \<in> set cs" by auto
      with known cs have "score \<noteq> Inf" by (auto simp: price_unknown_def)
      moreover have "current > int (bc_soft_cap bc1)" using that(1) res(1) spec cap1 by simp
      ultimately have "dget (bc_strong bc2) c = None" using spec s by fastforce
      with that(2) res(3) show ?thesis by simp
    next
      case False
      then have "dget (bc_strong bc) c = Some e" using spec res(3) cap1(2) that(2) by simp
      with False stored [of c] show ?thesis by auto
    qed
  qed
  from spec res cap1 safe left show ?thesis by simp
qed

section \<open>Clearing everything\<close>

definition cleared :: "real \<Rightarrow> strong_entry \<Rightarrow> strong_entry option" where
  "cleared now e = (if has_live_tempref now e then Some (e\<lparr>se_manual := 0, se_bridge := False\<rparr>) else None)"

definition clear_one :: "real \<Rightarrow> checksum \<times> strong_entry \<Rightarrow> buffer_cache \<Rightarrow> buffer_cache" where
  "clear_one now = (\<lambda>(c, e) bc.
     let e' = e\<lparr>se_manual := 0, se_bridge := False\<rparr> in demote now c e' (put_entry c e' bc))"

lemma force_clear_fold:
  "force_clear_reference_accounting now bc = fold (clear_one now) (bc_strong bc) (bc\<lparr>bc_refholders := []\<rparr>)"
  by (simp add: force_clear_reference_accounting_def clear_one_def)

definition clearing :: "buffer_cache \<Rightarrow> bool" where
  "clearing bc \<longleftrightarrow> dict_wf (bc_strong bc) \<and> bc_refholders bc = [] \<and>
     (\<forall>c. dget (direct_interest (bc_cost bc)) c = map_option (\<lambda>_. 1) (dget (bc_strong bc) c))"

lemma clear_one_step:
  assumes "clearing bc" and "dget (bc_strong bc) c = Some e"
  shows "clearing (clear_one now (c, e) bc) \<and>
    dget (bc_strong (clear_one now (c, e) bc)) c = cleared now e \<and>
    (\<forall>k. k \<noteq> c \<longrightarrow> dget (bc_strong (clear_one now (c, e) bc)) k = dget (bc_strong bc) k)"
proof -
  let ?e = "e\<lparr>se_manual := 0, se_bridge := False\<rparr>"
  have st: "dget (bc_strong (put_entry c ?e bc)) c = Some ?e" by simp
  have can: "can_demote now ?e \<longleftrightarrow> \<not> has_live_tempref now e"
    by (simp add: can_demote_def has_live_tempref_def)
  show ?thesis
    using assms
    by (auto simp: clear_one_def clearing_def Let_def demote_stored [OF st] can cleared_def
        remove_interest_direct dget_or_def split: option.split)
qed

lemma force_clear_spec:
  assumes "bc_inv bc"
  shows "bc_inv (force_clear_reference_accounting now bc)"
    and "bc_refholders (force_clear_reference_accounting now bc) = []"
    and "dget (bc_strong (force_clear_reference_accounting now bc)) c = Option.bind (dget (bc_strong bc) c) (cleared now)"
proof -
  let ?b = "force_clear_reference_accounting now bc"
  have wf: "dict_wf (bc_strong bc)" using assms by (simp add: bc_inv_def)
  have P0: "clearing (bc\<lparr>bc_refholders := []\<rparr>)" using assms by (simp add: bc_inv_def clearing_def)
  have "clearing ?b \<and> (\<forall>(c, e)\<in>set (bc_strong bc). dget (bc_strong ?b) c = cleared now e) \<and>
      (\<forall>k. k \<notin> fst ` set (bc_strong bc) \<longrightarrow> dget (bc_strong ?b) k = dget (bc_strong (bc\<lparr>bc_refholders := []\<rparr>)) k)"
    unfolding force_clear_fold
    by (rule fold_entries [where P = clearing and Q = "\<lambda>c e r. r = cleared now e", OF clear_one_step P0])
       (use wf in \<open>auto simp: dict_wf_def [symmetric] wf_self [rule_format]\<close>)
  then have P: "clearing ?b" and here: "\<And>c e. (c, e) \<in> set (bc_strong bc) \<Longrightarrow> dget (bc_strong ?b) c = cleared now e"
    and other: "\<And>k. k \<notin> fst ` set (bc_strong bc) \<Longrightarrow> dget (bc_strong ?b) k = dget (bc_strong bc) k"
    by auto
  show pt: "dget (bc_strong ?b) c = Option.bind (dget (bc_strong bc) c) (cleared now)" for c
  proof (cases "dget (bc_strong bc) c")
    case None
    then have "c \<notin> fst ` set (bc_strong bc)" by (simp add: map_of_eq_None_iff)
    from other [OF this] None show ?thesis by simp
  next
    case (Some e)
    then show ?thesis using here [OF dget_in_set [OF Some]] by simp
  qed
  show "bc_refholders ?b = []" using P by (simp add: clearing_def)
  show "bc_inv ?b"
    using P unfolding bc_inv_def clearing_def pt by (auto simp: cleared_def bind_eq_Some_conv split: if_splits)
qed

section \<open>Reachable caches\<close>

text \<open>
  The operations of the cache, as labels with the time at which they run. \<open>Collected\<close>
  is the garbage collector, which may empty the weak cache at any moment.
\<close>

datatype cache_op =
    Registered checksum buffer "nat option" | Got checksum
  | Increfd checksum "buffer option" bool | Decrefd real checksum
  | RefholderTaken checksum "buffer option" "bool option" | RefholderGiven real checksum
  | Tempref real checksum "buffer option" real real real | TransferWrite checksum "buffer option"
  | MarkScratch checksum | PurgeScratch "checksum option" | RefreshTempref real checksum
  | Evicted real | ForceCleared real | Collected checksum

fun cache_apply :: "(bytes \<Rightarrow> checksum) \<Rightarrow> cache_op \<Rightarrow> buffer_cache \<Rightarrow> buffer_cache" where
  "cache_apply sha (Registered c b n) bc = register_buffer c b n bc"
| "cache_apply sha (Got c) bc = snd (get_buffer c bc)"
| "cache_apply sha (Increfd c b s) bc = snd (incref sha c b s bc)"
| "cache_apply sha (Decrefd now c) bc = snd (decref now c bc)"
| "cache_apply sha (RefholderTaken c b s) bc = snd (incref_refholder sha c b s bc)"
| "cache_apply sha (RefholderGiven now c) bc = snd (decref_refholder now c bc)"
| "cache_apply sha (Tempref now c b i f v) bc = snd (tempref_op sha now c b i f v bc)"
| "cache_apply sha (TransferWrite c b) bc = snd (transfer_write sha c b bc)"
| "cache_apply sha (MarkScratch c) bc = mark_scratch c bc"
| "cache_apply sha (PurgeScratch oc) bc = snd (purge_scratch oc bc)"
| "cache_apply sha (RefreshTempref now c) bc = refresh_tempref now c bc"
| "cache_apply sha (Evicted now) bc = snd (run_eviction_once now bc)"
| "cache_apply sha (ForceCleared now) bc = force_clear_reference_accounting now bc"
| "cache_apply sha (Collected c) bc = bc\<lparr>bc_weak := ddel c (bc_weak bc)\<rparr>"

inductive cache_step :: "(bytes \<Rightarrow> checksum) \<Rightarrow> buffer_cache \<Rightarrow> cache_op \<Rightarrow> buffer_cache \<Rightarrow> bool"
  for sha :: "bytes \<Rightarrow> checksum" where
  "cache_step sha bc e (cache_apply sha e bc)"

inductive_simps cache_step_iff: "cache_step sha bc e bc'"

lemma inv_evict: "bc_inv bc \<Longrightarrow> bc_inv (snd (run_eviction_once now bc))"
  using eviction_spec by (metis prod.collapse)

lemma inv_apply: "bc_inv bc \<Longrightarrow> bc_inv (cache_apply sha e bc)"
  by (cases e) (simp_all add: inv_register inv_get_buffer inv_incref inv_decref inv_incref_refholder
      inv_decref_refholder inv_tempref inv_transfer_write mark_scratch_def inv_purge inv_refresh inv_evict
      force_clear_spec(1))

lemma inv_init: "bc_inv (cache_init cap)"
  by (simp add: bc_inv_def cache_init_def cost_module_init_def)

definition initial_cache :: "buffer_cache \<Rightarrow> bool" where
  "initial_cache bc \<longleftrightarrow> (\<exists>cap. bc = cache_init cap)"

interpretation cache_books: inductive_invariant initial_cache "cache_step sha" bc_inv for sha
  by unfold_locales (auto simp: initial_cache_def inv_init cache_step_iff inv_apply)

lemma reachable_cache: "reachable initial_cache (cache_step sha) (fold (cache_apply sha) ops (cache_init cap))"
proof (induction ops rule: rev_induct)
  case Nil
  then show ?case by (auto simp: initial_cache_def intro: reachable.intros)
next
  case (snoc e ops)
  have "cache_step sha (fold (cache_apply sha) ops (cache_init cap)) e
      (fold (cache_apply sha) (ops @ [e]) (cache_init cap))"
    by (simp add: cache_step_iff)
  with snoc show ?case by (rule reach_step)
qed

text \<open>C2: reference accounting holds in every reachable cache, whatever the interleaving of
  registrations, claims, releases, temprefs, purges, evictions, garbage collection and the
  final clearing: a strong entry is bridged exactly when refholders are counted for it, a
  counted refholder always has a strong entry, no count of zero is kept, and the cost
  coordinator holds exactly one unit of interest per strong entry.\<close>

theorem reference_accounting:
  assumes "reachable initial_cache (cache_step sha) bc"
  shows "(case dget (bc_strong bc) c of
        None \<Rightarrow> dget (bc_refholders bc) c = None
      | Some e \<Rightarrow> (se_bridge e \<longleftrightarrow> dget_or 0 (bc_refholders bc) c > 0))
    \<and> dget (bc_refholders bc) c \<noteq> Some 0
    \<and> dget (direct_interest (bc_cost bc)) c = map_option (\<lambda>_. 1) (dget (bc_strong bc) c)"
proof -
  have inv: "bc_inv bc" by (rule cache_books.reachable_inv [OF assms])
  show ?thesis
  proof (cases "dget (bc_strong bc) c")
    case None
    then have "dget (bc_refholders bc) c = None" using inv unfolding bc_inv_def by metis
    with None inv show ?thesis by (simp add: bc_inv_def)
  next
    case (Some e)
    with inv show ?thesis
      by (cases "dget (bc_refholders bc) c") (auto simp: bc_inv_def intro!: gr0I)
  qed
qed

definition small_buffer :: buffer where
  "small_buffer = \<lparr>b_content = [1, 2, 3], b_checksum = Some (pad_sha [1, 2, 3])\<rparr>"

abbreviation small :: checksum where
  "small \<equiv> pad_sha [1, 2, 3]"

theorem reference_accounting_witness:
  "let bc = fold (cache_apply pad_sha) [Registered small small_buffer (Some 3),
        RefholderTaken small None (Some False), Increfd small None True, RefholderGiven 0 small, Evicted 1]
        (cache_init 2)
   in (case dget (bc_strong bc) small of
        None \<Rightarrow> dget (bc_refholders bc) small = None
      | Some e \<Rightarrow> (se_bridge e \<longleftrightarrow> dget_or 0 (bc_refholders bc) small > 0))
    \<and> dget (bc_refholders bc) small \<noteq> Some 0
    \<and> dget (direct_interest (bc_cost bc)) small = map_option (\<lambda>_. 1) (dget (bc_strong bc) small)"
  unfolding Let_def by (rule reference_accounting [OF reachable_cache])

lemma expired_protected:
  "eviction_protected e \<Longrightarrow> expired now e = Some e \<or> expired now e = Some (e\<lparr>se_tempref := None\<rparr>)"
  by (simp add: expired_def split: option.split)

text \<open>C4: an eviction pass on a reachable cache reports the usage it leaves, never touches an
  entry that a manual reference or a refholder protects (but for a faded tempref on it), and
  if it ends above the cap, every entry still in the strong cache is protected or has no known
  price.\<close>

theorem eviction_pass:
  assumes "reachable initial_cache (cache_step sha) bc"
    and "run_eviction_once now bc = ((before, after), bc')"
  shows "after = strong_memory_usage bc'
    \<and> (\<forall>c e. dget (bc_strong bc) c = Some e \<and> eviction_protected e \<longrightarrow>
         (\<exists>e'. dget (bc_strong bc') c = Some e' \<and> se_manual e' = se_manual e \<and> se_bridge e' = se_bridge e
            \<and> se_buffer e' = se_buffer e))
    \<and> (after > bc_soft_cap bc \<longrightarrow>
         (\<forall>c e. dget (bc_strong bc') c = Some e \<longrightarrow>
            eviction_protected e \<or> price_unknown now (expire_temprefs now bc) c))"
proof -
  have inv: "bc_inv bc" by (rule cache_books.reachable_inv [OF assms(1)])
  note spec = eviction_spec [OF inv assms(2)]
  have "\<exists>e'. dget (bc_strong bc') c = Some e' \<and> se_manual e' = se_manual e \<and> se_bridge e' = se_bridge e
      \<and> se_buffer e' = se_buffer e"
    if e: "dget (bc_strong bc) c = Some e" "eviction_protected e" for c e
  proof -
    obtain e' where x: "expired now e = Some e'" "e' = e \<or> e' = e\<lparr>se_tempref := None\<rparr>"
      using expired_protected [OF e(2), of now] by blast
    from x(2) e(2) have y: "eviction_protected e'" "se_manual e' = se_manual e" "se_bridge e' = se_bridge e"
        "se_buffer e' = se_buffer e"
      by (auto simp: eviction_protected_def)
    have "dget (bc_strong (expire_temprefs now bc)) c = Some e'"
      using expire_temprefs_spec(3) [OF inv, of now c] e(1) x(1) by simp
    with spec y show ?thesis by blast
  qed
  with spec show ?thesis by blast
qed

lemma eviction_result:
  "run_eviction_once now bc =
     ((fst (fst (run_eviction_once now bc)), snd (fst (run_eviction_once now bc))), snd (run_eviction_once now bc))"
  by simp

lemma small_is_held:
  "map_option (\<lambda>e. (se_manual e, eviction_protected e)) (dget (bc_strong (fold (cache_apply pad_sha)
     [Registered small small_buffer (Some 3), Increfd small None False] (cache_init 2))) small) = Some (1, True)"
  by code_simp

theorem eviction_pass_witness:
  "let bc = fold (cache_apply pad_sha) [Registered small small_buffer (Some 3), Increfd small None False]
        (cache_init 2);
       bc' = snd (run_eviction_once 0 bc)
   in snd (fst (run_eviction_once 0 bc)) = strong_memory_usage bc'
    \<and> (\<exists>e'. dget (bc_strong bc') small = Some e' \<and> se_manual e' = 1)"
proof -
  let ?bc = "fold (cache_apply pad_sha) [Registered small small_buffer (Some 3), Increfd small None False]
      (cache_init 2)"
  note pass = eviction_pass [where bc = ?bc and now = 0, OF reachable_cache eviction_result]
  from small_is_held obtain e where "dget (bc_strong ?bc) small = Some e" "eviction_protected e" "se_manual e = 1"
    by auto
  with pass show ?thesis unfolding Let_def by metis
qed
text \<open>The final clearing of a reachable cache leaves no refholder count, no manual reference
  and no bridge: the entries left are those with a live tempref, buffer and all, and the
  accounting of the cost coordinator still agrees.\<close>

theorem force_clear_leaves_live_temprefs:
  assumes "reachable initial_cache (cache_step sha) bc"
  shows "bc_refholders (force_clear_reference_accounting now bc) = []
    \<and> (\<forall>c. dget (bc_strong (force_clear_reference_accounting now bc)) c =
         (case dget (bc_strong bc) c of
            Some e \<Rightarrow> if has_live_tempref now e then Some (e\<lparr>se_manual := 0, se_bridge := False\<rparr>) else None
          | None \<Rightarrow> None))
    \<and> bc_inv (force_clear_reference_accounting now bc)"
  using force_clear_spec [OF cache_books.reachable_inv [OF assms], of now]
  by (auto simp: cleared_def split: option.split)

theorem force_clear_leaves_live_temprefs_witness:
  "let bc = fold (cache_apply pad_sha) [Increfd small None False, Tempref 0 small None 128 2 2] (cache_init 2)
   in bc_refholders (force_clear_reference_accounting 5 bc) = []
    \<and> (\<forall>c. dget (bc_strong (force_clear_reference_accounting 5 bc)) c =
         (case dget (bc_strong bc) c of
            Some e \<Rightarrow> if has_live_tempref 5 e then Some (e\<lparr>se_manual := 0, se_bridge := False\<rparr>) else None
          | None \<Rightarrow> None))
    \<and> bc_inv (force_clear_reference_accounting 5 bc)"
  unfolding Let_def by (rule force_clear_leaves_live_temprefs [OF reachable_cache])


section \<open>Claims\<close>

text \<open>Buffers are kept under their own checksum.\<close>

definition buffers_ok :: "buffer_cache \<Rightarrow> bool" where
  "buffers_ok bc \<longleftrightarrow>
     (\<forall>c b. dget (bc_weak bc) c = Some b \<longrightarrow> b_checksum b = Some c) \<and>
     (\<forall>c e b. dget (bc_strong bc) c = Some e \<longrightarrow> se_buffer e = Some b \<longrightarrow> b_checksum b = Some c)"

definition claims_ok :: "buffer_cache \<Rightarrow> bool" where
  "claims_ok bc \<longleftrightarrow> bc_inv bc \<and> buffers_ok bc"

definition manual_count :: "buffer_cache \<Rightarrow> checksum \<Rightarrow> nat" where
  "manual_count bc c = (case dget (bc_strong bc) c of None \<Rightarrow> 0 | Some e \<Rightarrow> se_manual e)"

definition refholder_count :: "buffer_cache \<Rightarrow> checksum \<Rightarrow> nat" where
  "refholder_count bc c = dget_or 0 (bc_refholders bc) c"

lemma checked_ok: "buffers_ok bc \<Longrightarrow> checked_buffer sha c None bc = (Inr (dget (bc_weak bc) c), bc)"
  by (auto simp: checked_buffer_def buffers_ok_def buffer_get_checksum_def split: option.split)

definition settled_entry :: "checksum \<Rightarrow> bool \<Rightarrow> buffer_cache \<Rightarrow> strong_entry \<Rightarrow> bool" where
  "settled_entry c remote bc e \<longleftrightarrow> (case dget (bc_strong bc) c of
     None \<Rightarrow> se_manual e = 0 \<and> \<not> se_bridge e
   | Some e0 \<Rightarrow> se_manual e = se_manual e0 \<and> se_bridge e = se_bridge e0)"

lemma settle_spec:
  assumes "buffers_ok bc" and "settle_entry c (dget (bc_weak bc) c) remote bc = (w, bc')"
  shows "\<exists>e. dget (bc_strong bc') c = Some e \<and> settled_entry c remote bc e"
    and "k \<noteq> c \<Longrightarrow> dget (bc_strong bc') k = dget (bc_strong bc) k"
    and "bc_refholders bc' = bc_refholders bc" and "buffers_ok bc'"
  using assms
  by (auto simp: settle_entry_def settled_entry_def new_entry_def Let_def buffers_ok_def
      split: option.splits if_splits)

lemma ensure_spec:
  assumes "claims_ok bc" and "ensure_entry sha c None scratch bc = (r, bc')"
  shows "\<exists>w. r = Inr w" and "\<exists>e. dget (bc_strong bc') c = Some e \<and> settled_entry c (\<not> scratch) bc e"
    and "k \<noteq> c \<Longrightarrow> dget (bc_strong bc') k = dget (bc_strong bc) k"
    and "bc_refholders bc' = bc_refholders bc" and "buffers_ok bc'" and "bc_inv bc'"
proof -
  have ok: "buffers_ok bc" "bc_inv bc" using assms(1) by (simp_all add: claims_ok_def)
  obtain w where run: "r = Inr w" "settle_entry c (dget (bc_weak bc) c) (\<not> scratch) bc = (w, bc')"
    using assms(2) by (auto simp: ensure_entry_def checked_ok [OF ok(1)] split: prod.splits)
  from run(1) show "\<exists>w. r = Inr w" by blast
  show "bc_inv bc'" using ensure_entry_inv(1) [OF ok(2) assms(2)] .
  note st = settle_spec [OF ok(1) run(2)]
  show "\<exists>e. dget (bc_strong bc') c = Some e \<and> settled_entry c (\<not> scratch) bc e" by (rule st(1))
  show "k \<noteq> c \<Longrightarrow> dget (bc_strong bc') k = dget (bc_strong bc) k" by (rule st(2))
  show "bc_refholders bc' = bc_refholders bc" "buffers_ok bc'" by (rule st)+
qed

lemma claims_ok_scratch [simp]: "claims_ok (set_scratch s c bc) = claims_ok bc"
  by (simp add: claims_ok_def buffers_ok_def)

lemma claims_ok_publish [simp]: "claims_ok (publish b bc) = claims_ok bc"
  by (simp add: claims_ok_def buffers_ok_def)

lemma settled_scratch [simp]: "settled_entry c r (set_scratch s d bc) e = settled_entry c r bc e"
  by (simp add: settled_entry_def)

lemma incref_spec:
  assumes "claims_ok bc"
  shows "claims_ok (snd (incref sha c None scratch bc))"
    and "manual_count (snd (incref sha c None scratch bc)) j = manual_count bc j + (if j = c then 1 else 0)"
    and "refholder_count (snd (incref sha c None scratch bc)) j = refholder_count bc j"
proof -
  let ?bc = "set_scratch (Some scratch) c bc"
  obtain r bc' where run: "ensure_entry sha c None scratch ?bc = (r, bc')" by fastforce
  have ok: "claims_ok ?bc" using assms by simp
  note st = ensure_spec [OF ok run]
  from st(1,2) obtain w e where e: "r = Inr w" "dget (bc_strong bc') c = Some e" "settled_entry c (\<not> scratch) bc e"
    by auto
  define f :: "strong_entry \<Rightarrow> strong_entry" where "f = (\<lambda>e. e\<lparr>se_manual := se_manual e + 1\<rparr>)"
  have res: "snd (incref sha c None scratch bc) = publish w (put_entry c (f e) bc')"
    using run e by (simp add: incref_def on_entry_def f_def)
  have "bc_inv (put_entry c (f e) bc')" by (rule inv_put [OF st(6) e(2)]) (simp add: f_def)
  moreover have "buffers_ok (put_entry c (f e) bc')"
    using st(5) e(2) by (auto simp: buffers_ok_def f_def)
  ultimately show "claims_ok (snd (incref sha c None scratch bc))" by (simp add: res claims_ok_def buffers_ok_def)
  show "manual_count (snd (incref sha c None scratch bc)) j = manual_count bc j + (if j = c then 1 else 0)"
    using e(3) st(3) [of j]
    by (auto simp: res manual_count_def f_def settled_entry_def split: option.splits)
  show "refholder_count (snd (incref sha c None scratch bc)) j = refholder_count bc j"
    using st(4) by (simp add: res refholder_count_def)
qed

lemma buffers_ok_demote:
  assumes "buffers_ok bc" and "dget (bc_strong bc) c = Some e"
  shows "buffers_ok (demote now c e bc)"
  using assms by (auto simp: demote_stored buffers_ok_def split: option.split if_splits)

lemma manual_demote:
  assumes "dget (bc_strong bc) c = Some e"
  shows "manual_count (demote now c e bc) j = manual_count bc j"
  using assms demote_strong [OF assms, of now] by (auto simp: manual_count_def can_demote_def)

lemma decref_spec:
  assumes "claims_ok bc"
  shows "claims_ok (snd (decref now c bc))"
    and "manual_count (snd (decref now c bc)) j = manual_count bc j - (if j = c then 1 else 0)"
    and "fst (decref now c bc) \<longleftrightarrow> manual_count bc c > 0"
proof -
  show "fst (decref now c bc) \<longleftrightarrow> manual_count bc c > 0"
    by (simp add: decref_def manual_count_def Let_def split: option.split)
  show inv: "claims_ok (snd (decref now c bc))"
  proof -
    have "buffers_ok (snd (decref now c bc))"
      using assms
      by (auto simp: claims_ok_def decref_def Let_def split: option.split intro!: buffers_ok_demote)
         (auto simp: buffers_ok_def)
    with inv_decref assms show ?thesis by (simp add: claims_ok_def)
  qed
  show "manual_count (snd (decref now c bc)) j = manual_count bc j - (if j = c then 1 else 0)"
  proof (cases "dget (bc_strong bc) c")
    case None
    then show ?thesis by (auto simp: decref_def manual_count_def)
  next
    case (Some e)
    then show ?thesis
      by (auto simp: decref_def Let_def manual_demote) (auto simp: manual_count_def)
  qed
qed

lemma incref_refholder_spec:
  assumes "claims_ok bc"
  shows "claims_ok (snd (incref_refholder sha c None scratch bc))"
    and "refholder_count (snd (incref_refholder sha c None scratch bc)) j =
      refholder_count bc j + (if j = c then 1 else 0)"
proof -
  let ?bc = "set_scratch scratch c bc"
  obtain r bc' where run: "ensure_entry sha c None (scratch \<noteq> Some False) ?bc = (r, bc')" by fastforce
  have ok: "claims_ok ?bc" using assms by simp
  note st = ensure_spec [OF ok run]
  from st(1,2) obtain w e where e: "r = Inr w" "dget (bc_strong bc') c = Some e" by auto
  have inv: "bc_inv (snd (incref_refholder sha c None scratch bc))"
    using assms by (intro inv_incref_refholder) (simp add: claims_ok_def)
  have "buffers_ok (snd (incref_refholder sha c None scratch bc))"
    using st(5) run e by (auto simp: incref_refholder_def Let_def buffers_ok_def on_entry_def)
  with inv show "claims_ok (snd (incref_refholder sha c None scratch bc))" by (simp add: claims_ok_def)
  show "refholder_count (snd (incref_refholder sha c None scratch bc)) j =
      refholder_count bc j + (if j = c then 1 else 0)"
    using st(4) run e by (simp add: incref_refholder_def Let_def refholder_count_def)
qed

lemma decref_refholder_spec:
  assumes "claims_ok bc"
  shows "claims_ok (snd (decref_refholder now c bc))"
    and "refholder_count (snd (decref_refholder now c bc)) j = refholder_count bc j - (if j = c then 1 else 0)"
    and "fst (decref_refholder now c bc) \<longleftrightarrow> refholder_count bc c > 0"
proof -
  show "fst (decref_refholder now c bc) \<longleftrightarrow> refholder_count bc c > 0"
    by (simp add: decref_refholder_def refholder_count_def Let_def)
  have "buffers_ok (snd (decref_refholder now c bc))"
    using assms
    by (auto simp: claims_ok_def decref_refholder_def Let_def split: option.split intro!: buffers_ok_demote)
       (auto simp: buffers_ok_def)
  with inv_decref_refholder assms show "claims_ok (snd (decref_refholder now c bc))" by (simp add: claims_ok_def)
  show "refholder_count (snd (decref_refholder now c bc)) j = refholder_count bc j - (if j = c then 1 else 0)"
    by (auto simp: decref_refholder_def Let_def refholder_count_def split: option.split)
qed

interpretation manual_claims: counted_claims claims_ok manual_count
    "\<lambda>c bc. snd (incref sha c None scratch bc)" "\<lambda>c bc. snd (decref now c bc)" for sha scratch now
  by unfold_locales (simp_all add: incref_spec decref_spec)

interpretation refholder_claims: counted_claims claims_ok refholder_count
    "\<lambda>c bc. snd (incref_refholder sha c None scratch bc)" "\<lambda>c bc. snd (decref_refholder now c bc)"
    for sha scratch now
  by unfold_locales (simp_all add: incref_refholder_spec decref_refholder_spec)

text \<open>A history of claims of both kinds on any checksums.\<close>

datatype ref_op = Manual "checksum claim_op" | Refholder "checksum claim_op"

fun ref_apply :: "(bytes \<Rightarrow> checksum) \<Rightarrow> real \<Rightarrow> ref_op \<Rightarrow> buffer_cache \<Rightarrow> buffer_cache" where
  "ref_apply sha now (Manual (Take c)) bc = snd (incref sha c None False bc)"
| "ref_apply sha now (Manual (Give c)) bc = snd (decref now c bc)"
| "ref_apply sha now (Refholder (Take c)) bc = snd (incref_refholder sha c None (Some False) bc)"
| "ref_apply sha now (Refholder (Give c)) bc = snd (decref_refholder now c bc)"

definition manual_history :: "(bytes \<Rightarrow> checksum) \<Rightarrow> real \<Rightarrow> checksum claim_op list \<Rightarrow> buffer_cache \<Rightarrow> buffer_cache"
where
  "manual_history sha now ops bc = fold (\<lambda>x. ref_apply sha now (Manual x)) ops bc"

definition refholder_history ::
  "(bytes \<Rightarrow> checksum) \<Rightarrow> real \<Rightarrow> checksum claim_op list \<Rightarrow> buffer_cache \<Rightarrow> buffer_cache" where
  "refholder_history sha now ops bc = fold (\<lambda>x. ref_apply sha now (Refholder x)) ops bc"

lemma manual_history_run:
  "manual_history sha now ops bc = manual_claims.run sha False now ops bc"
proof (induction ops arbitrary: bc)
  case Nil
  then show ?case by (simp add: manual_history_def)
next
  case (Cons x ops)
  then show ?case by (cases x) (simp_all add: manual_history_def)
qed

lemma refholder_history_run:
  "refholder_history sha now ops bc = refholder_claims.run sha (Some False) now ops bc"
proof (induction ops arbitrary: bc)
  case Nil
  then show ?case by (simp add: refholder_history_def)
next
  case (Cons x ops)
  then show ?case by (cases x) (simp_all add: refholder_history_def)
qed

text \<open>No release in the history finds a zero count.\<close>

primrec held_throughout :: "checksum \<Rightarrow> nat \<Rightarrow> checksum claim_op list \<Rightarrow> bool" where
  "held_throughout c n [] = True"
| "held_throughout c n (x # ops) =
     (if x = Take c then held_throughout c (Suc n) ops
      else if x = Give c then 0 < n \<and> held_throughout c (n - 1) ops
      else held_throughout c n ops)"

lemma held_throughout_never_short: "held_throughout c n ops = manual_claims.never_short c n ops"
proof (induction ops arbitrary: n)
  case Nil
  then show ?case by simp
next
  case (Cons x ops)
  then show ?case by (cases x) auto
qed

text \<open>Claims balance. In a cache whose buffers are kept under their own checksums, a
  history of manual claims (or of refholder claims) on any checksums, in which a checksum is
  never released more often than it was claimed and is released as often as it is claimed,
  leaves its count where it was, whatever happens to the other checksums in between; and a
  release reports success exactly when a count is held.\<close>

theorem claims_balance:
  assumes "claims_ok bc" and "count_list ops (Take c) = count_list ops (Give c)"
    and "held_throughout c (manual_count bc c) ops" and "held_throughout c (refholder_count bc c) ops"
  shows "manual_count (manual_history sha now ops bc) c = manual_count bc c
    \<and> refholder_count (refholder_history sha now ops bc) c = refholder_count bc c
    \<and> (fst (decref now c bc) \<longleftrightarrow> manual_count bc c > 0)
    \<and> (fst (decref_refholder now c bc) \<longleftrightarrow> refholder_count bc c > 0)"
  using manual_claims.count_balanced [OF assms(1) assms(3) [unfolded held_throughout_never_short] assms(2)]
    refholder_claims.count_balanced [OF assms(1) assms(4) [unfolded held_throughout_never_short] assms(2)]
    decref_spec(3) [OF assms(1)] decref_refholder_spec(3) [OF assms(1)]
  by (simp add: manual_history_run refholder_history_run)

theorem claims_balance_witness:
  "manual_count (manual_history pad_sha 0 [Take small, Take (pad_sha []), Give small] (cache_init 2)) small
      = manual_count (cache_init 2) small
    \<and> refholder_count (refholder_history pad_sha 0 [Take small, Take (pad_sha []), Give small] (cache_init 2)) small
      = refholder_count (cache_init 2) small
    \<and> (fst (decref 0 small (cache_init 2)) \<longleftrightarrow> manual_count (cache_init 2) small > 0)
    \<and> (fst (decref_refholder 0 small (cache_init 2)) \<longleftrightarrow> refholder_count (cache_init 2) small > 0)"
proof (rule claims_balance)
  have "small \<noteq> pad_sha []" by code_simp
  then show "count_list [Take small, Take (pad_sha []), Give small] (Take small) =
      count_list [Take small, Take (pad_sha []), Give small] (Give small)"
    "held_throughout small (manual_count (cache_init 2) small) [Take small, Take (pad_sha []), Give small]"
    "held_throughout small (refholder_count (cache_init 2) small) [Take small, Take (pad_sha []), Give small]"
    by (simp_all add: manual_count_def refholder_count_def cache_init_def)
  show "claims_ok (cache_init 2)"
    using inv_init by (simp add: claims_ok_def buffers_ok_def cache_init_def)
qed

section \<open>What reaches the remote store\<close>

lemma settle_writes: "settle_entry c b remote bc = (w, bc') \<Longrightarrow> bc_writes bc' = bc_writes bc"
  by (auto simp: settle_entry_def Let_def split: option.splits if_splits)

lemma settle_local: "settle_entry c b False bc = (w, bc') \<Longrightarrow> w = None"
  by (auto simp: settle_entry_def Let_def split: option.splits if_splits)

text \<open>Every buffer the operation may see has its checksum computed already.\<close>

definition hashed :: "checksum \<Rightarrow> buffer option \<Rightarrow> buffer_cache \<Rightarrow> bool" where
  "hashed c b bc \<longleftrightarrow> (case b of
     Some x \<Rightarrow> b_checksum x \<noteq> None
   | None \<Rightarrow> (case dget (bc_weak bc) c of None \<Rightarrow> True | Some x \<Rightarrow> b_checksum x \<noteq> None))"

lemma checked_hashed: "hashed c b bc \<Longrightarrow> snd (checked_buffer sha c b bc) = bc"
  by (auto simp: hashed_def checked_buffer_def buffer_get_checksum_def split: option.splits)

lemma ensure_scratch_writes:
  assumes "hashed c b bc" and "ensure_entry sha c b True bc = (r, bc')"
  shows "bc_writes bc' = bc_writes bc \<and> (\<forall>w. r = Inr w \<longrightarrow> w = None)"
proof -
  obtain r1 bc1 where k: "checked_buffer sha c b bc = (r1, bc1)" by fastforce
  with checked_hashed [OF assms(1), of sha] have [simp]: "bc1 = bc" by simp
  show ?thesis
  proof (cases r1)
    case (Inl e)
    with k assms(2) show ?thesis by (auto simp: ensure_entry_def)
  next
    case (Inr x)
    obtain w bc2 where s: "settle_entry c x False bc = (w, bc2)" by fastforce
    with settle_writes [OF s] settle_local [OF s] Inr k assms(2) show ?thesis
      by (auto simp: ensure_entry_def)
  qed
qed

lemma publish_None [simp]: "publish None bc = bc"
  by (simp add: publish_def)

lemma on_entry_writes [simp]: "bc_writes (on_entry f c bc) = bc_writes bc"
  by (simp add: on_entry_def split: option.split)

lemma hashed_scratch [simp]: "hashed c b (set_scratch s d bc) = hashed c b bc"
  by (cases b) (simp_all add: hashed_def)



definition attached :: "checksum \<Rightarrow> buffer_cache \<Rightarrow> bool" where
  "attached c bc \<longleftrightarrow> (case dget (bc_strong bc) c of None \<Rightarrow> False | Some e \<Rightarrow> se_buffer e \<noteq> None \<and> se_remote e)"

lemma attached_register:
  "attached c bc \<Longrightarrow> attached c (register_buffer c b n bc) \<and> bc_writes (register_buffer c b n bc) = bc_writes bc"
  by (auto simp: attached_def register_buffer_def Let_def split: option.splits)

lemma checked_own: "b_checksum b = Some c \<Longrightarrow> checked_buffer sha c (Some b) bc = (Inr (Some b), bc)"
  by (simp add: checked_buffer_def buffer_get_checksum_def)

lemma attached_ensure:
  assumes "attached c bc" and "b_checksum b = Some c"
  shows "ensure_entry sha c (Some b) scratch bc = (Inr None, bc)"
  using assms by (auto simp: ensure_entry_def checked_own settle_entry_def attached_def split: option.splits)

lemma attached_on_entry:
  "attached c bc \<Longrightarrow> (\<And>e. se_buffer (f e) = se_buffer e \<and> se_remote (f e) = se_remote e) \<Longrightarrow> attached c (on_entry f c bc)"
  by (auto simp: attached_def on_entry_def split: option.splits)

lemma attached_scratch [simp]: "attached c (set_scratch s d bc) = attached c bc"
  by (simp add: attached_def)

lemma update_tempref_keeps:
  "se_buffer (update_tempref now i f v e) = se_buffer e \<and> se_remote (update_tempref now i f v e) = se_remote e"
  by (simp add: update_tempref_def Let_def split: option.split)

lemma scratch_attaches:
  assumes "dget (bc_strong bc) c = Some e" "se_buffer e = None" "se_remote e" "b_checksum b = Some c"
  shows "attached c (snd (tempref_op sha now c (Some b) i f v bc))"
proof -
  have "ensure_entry sha c (Some b) True bc =
      (Inr None, put_entry c (e\<lparr>se_buffer := Some b, se_remote := se_remote e \<or> False\<rparr>) bc)"
    using assms by (simp add: ensure_entry_def checked_own settle_entry_def)
  moreover have "attached c (put_entry c (e\<lparr>se_buffer := Some b, se_remote := se_remote e \<or> False\<rparr>) bc)"
    using assms(3) by (simp add: attached_def)
  ultimately show ?thesis
    using attached_on_entry [of c _ "update_tempref now i f v"] by (simp add: tempref_op_def update_tempref_keeps)
qed



end
