(* ===== verification/BufferWriter.thy ===== *)
theory BufferWriter
  imports BufferCache
begin

text \<open>
  \<open>seamless/caching/buffer_writer.py\<close>: the entries waiting to be written, the worker thread
  with its event loop and queue, and the ways a write ends. What the remote store answers is
  an argument; a section under the module's lock and a callback of the loop are one step, and
  a registration is two (the entry is stored under the lock, then enqueued).
\<close>

section \<open>State\<close>

datatype metadata =
    HashTypeMetadata checksum nat
  | ExpressionMetadata ustr ustr celltype celltype
  | CellJoinMetadata ustr celltype

datatype write_key = BufferKey checksum | MetadataKey metadata

text \<open>What a write returned, and how a future ended.\<close>

type_synonym write_result = "exc + bool option"

datatype write_future = FuturePending | FutureResult "bool option" | FutureError exc | FutureCanceled

record queue_entry =
  qe_key :: write_key
  qe_buffer :: "buffer option"
  qe_future :: write_future
  qe_queued :: bool

text \<open>The worker thread: none, started but without its loop, at work, or past its stop mark.\<close>

datatype worker = NoWorker | Starting | Working | Stopped

datatype queue_item = QueuedEntry nat | StopMark

datatype loop_call = PutEntry nat | PutStop

record writer =
  bw_entry :: "nat \<Rightarrow> queue_entry"
  bw_next :: nat
  bw_entries :: "(write_key, nat) dict"
  bw_worker :: worker
  bw_queue :: "queue_item list"
  bw_calls :: "loop_call list"
  bw_processing :: "nat list"
  bw_enqueuing :: "nat list"

definition new_queue_entry :: "write_key \<Rightarrow> buffer option \<Rightarrow> queue_entry" where
  "new_queue_entry k b = \<lparr>qe_key = k, qe_buffer = b, qe_future = FuturePending, qe_queued = False\<rparr>"

definition writer_init :: writer where
  "writer_init = \<lparr>bw_entry = (\<lambda>_. new_queue_entry (MetadataKey (CellJoinMetadata [] CtMixed)) None), bw_next = 0,
     bw_entries = [], bw_worker = NoWorker, bw_queue = [], bw_calls = [], bw_processing = [], bw_enqueuing = []\<rparr>"

definition on_entry_at :: "nat \<Rightarrow> (queue_entry \<Rightarrow> queue_entry) \<Rightarrow> writer \<Rightarrow> writer" where
  "on_entry_at i f s = s\<lparr>bw_entry := (bw_entry s)(i := f (bw_entry s i))\<rparr>"

definition is_metadata :: "queue_entry \<Rightarrow> bool" where
  "is_metadata e = (case qe_key e of MetadataKey _ \<Rightarrow> True | BufferKey _ \<Rightarrow> False)"

section \<open>The worker\<close>

definition ensure_worker :: "writer \<Rightarrow> writer" where
  "ensure_worker s = (if bw_worker s = NoWorker then s\<lparr>bw_worker := Starting\<rparr> else s)"

text \<open>The start of \<open>_thread_main\<close>: publish loop and queue, and queue what is waiting.\<close>

definition waiting_entries :: "writer \<Rightarrow> nat list" where
  "waiting_entries s = filter (\<lambda>i. qe_future (bw_entry s i) = FuturePending \<and> \<not> qe_queued (bw_entry s i)) (map snd (bw_entries s))"

definition start_worker :: "writer \<Rightarrow> writer" where
  "start_worker s =
     (let pending = waiting_entries s in
      s\<lparr>bw_worker := Working, bw_calls := [],
        bw_entry := (\<lambda>i. if i \<in> set pending then (bw_entry s i)\<lparr>qe_queued := True\<rparr> else bw_entry s i),
        bw_queue := map QueuedEntry pending\<rparr>)"

text \<open>One turn of \<open>_worker_loop\<close>: take an item, and give an entry that still waits to a task.\<close>

definition worker_turn :: "writer \<Rightarrow> writer" where
  "worker_turn s =
     (case bw_queue s of
        [] \<Rightarrow> s
      | StopMark # q \<Rightarrow> s\<lparr>bw_worker := Stopped, bw_queue := q\<rparr>
      | QueuedEntry i # q \<Rightarrow>
          if qe_future (bw_entry s i) \<noteq> FuturePending then s\<lparr>bw_queue := q\<rparr>
          else s\<lparr>bw_queue := q, bw_processing := i # bw_processing s\<rparr>)"

definition unqueue_all :: "writer \<Rightarrow> writer" where
  "unqueue_all s = s\<lparr>bw_entry := (\<lambda>i. if i \<in> set (map snd (bw_entries s)) then (bw_entry s i)\<lparr>qe_queued := False\<rparr> else bw_entry s i)\<rparr>"

text \<open>The end of \<open>_thread_main\<close>, once the tasks are gathered.\<close>

definition exit_worker :: "writer \<Rightarrow> writer" where
  "exit_worker s = unqueue_all (s\<lparr>bw_worker := NoWorker, bw_queue := [], bw_calls := []\<rparr>)"

section \<open>A write\<close>

text \<open>\<open>_process_entry\<close>: four attempts for metadata, one for a buffer; the answers of the
  remote store are \<open>answer 0, answer 1, \<dots>\<close>.\<close>

fun attempt_writes :: "nat \<Rightarrow> nat \<Rightarrow> (nat \<Rightarrow> write_result) \<Rightarrow> write_result" where
  "attempt_writes 0 k answer = Inr None"
| "attempt_writes (Suc n) k answer =
     (case answer k of
        Inr r \<Rightarrow> Inr r
      | Inl e \<Rightarrow> if n = 0 then Inl e else attempt_writes n (Suc k) answer)"

definition write_attempts :: "queue_entry \<Rightarrow> nat" where
  "write_attempts e = (if is_metadata e then 4 else 1)"

definition settle_future :: "write_future \<Rightarrow> queue_entry \<Rightarrow> queue_entry" where
  "settle_future r e = (if qe_future e = FuturePending then e\<lparr>qe_future := r\<rparr> else e)"

definition drop_entry_if :: "nat \<Rightarrow> writer \<Rightarrow> writer" where
  "drop_entry_if i s =
     (let k = qe_key (bw_entry s i) in
      if dget (bw_entries s) k = Some i then s\<lparr>bw_entries := ddel k (bw_entries s)\<rparr> else s)"

definition process_entry :: "nat \<Rightarrow> (nat \<Rightarrow> write_result) \<Rightarrow> writer \<Rightarrow> writer" where
  "process_entry i answer s =
     (let e = bw_entry s i;
          s1 = s\<lparr>bw_processing := remove1 i (bw_processing s)\<rparr>
      in case attempt_writes (write_attempts e) 0 answer of
           Inr r \<Rightarrow> drop_entry_if i (on_entry_at i (settle_future (FutureResult r)) s1)
         | Inl x \<Rightarrow>
             let s2 = on_entry_at i (settle_future (FutureError x)) s1
             in if is_metadata e then drop_entry_if i s2 else s2)"

section \<open>Registration\<close>

text \<open>The locked part of \<open>register\<close> and of \<open>_register_metadata\<close>.\<close>

definition store_entry :: "write_key \<Rightarrow> buffer option \<Rightarrow> writer \<Rightarrow> nat \<times> writer" where
  "store_entry k b s =
     (let i = bw_next s in
      (i, s\<lparr>bw_next := Suc i, bw_entry := (bw_entry s)(i := new_queue_entry k b), bw_entries := dset k i (bw_entries s),
            bw_enqueuing := i # bw_enqueuing s\<rparr>))"

definition register_write :: "buffer \<Rightarrow> checksum \<Rightarrow> writer \<Rightarrow> writer" where
  "register_write b c s =
     (case dget (bw_entries s) (BufferKey c) of
        Some i \<Rightarrow> (on_entry_at i (\<lambda>e. e\<lparr>qe_buffer := Some b\<rparr>) s)\<lparr>bw_enqueuing := i # bw_enqueuing s\<rparr>
      | None \<Rightarrow> snd (store_entry (BufferKey c) (Some b) s))"

definition register_metadata :: "metadata \<Rightarrow> writer \<Rightarrow> writer" where
  "register_metadata m s =
     (if dget (bw_entries s) (MetadataKey m) \<noteq> None then s else snd (store_entry (MetadataKey m) None s))"

text \<open>\<open>_enqueue_entry\<close>; the loop and queue exist while the worker is at work or stopped.\<close>

definition enqueue_entry :: "nat \<Rightarrow> writer \<Rightarrow> writer" where
  "enqueue_entry i s =
     (let s1 = (ensure_worker s)\<lparr>bw_enqueuing := remove1 i (bw_enqueuing s)\<rparr> in
      if bw_worker s1 \<in> {NoWorker, Starting} \<or> qe_queued (bw_entry s i) \<or> qe_future (bw_entry s i) \<noteq> FuturePending then s1
      else s1\<lparr>bw_calls := bw_calls s1 @ [PutEntry i]\<rparr>)"

text \<open>The callbacks \<open>_put\<close> and \<open>_request_stop\<close>.\<close>

fun run_call :: "loop_call \<Rightarrow> writer \<Rightarrow> writer" where
  "run_call (PutEntry i) s =
     (if qe_future (bw_entry s i) \<noteq> FuturePending \<or> qe_queued (bw_entry s i) then s
      else (on_entry_at i (\<lambda>e. e\<lparr>qe_queued := True\<rparr>) s)\<lparr>bw_queue := bw_queue s @ [QueuedEntry i]\<rparr>)"
| "run_call PutStop s = s\<lparr>bw_queue := bw_queue s @ [StopMark]\<rparr>"

text \<open>\<open>await_existing_task\<close>: what it answers at once, if it does not wait.\<close>

definition await_existing_task :: "checksum \<Rightarrow> writer \<Rightarrow> write_future option \<times> writer" where
  "await_existing_task c s =
     (case dget (bw_entries s) (BufferKey c) of
        None \<Rightarrow> (None, s)
      | Some i \<Rightarrow>
          if qe_future (bw_entry s i) = FutureCanceled then (None, s)
          else (Some (qe_future (bw_entry s i)), enqueue_entry i (s\<lparr>bw_enqueuing := i # bw_enqueuing s\<rparr>)))"

section \<open>Stopping, purging, flushing\<close>

definition request_stop :: "writer \<Rightarrow> writer" where
  "request_stop s = (if bw_worker s \<in> {Working, Stopped} then s\<lparr>bw_calls := bw_calls s @ [PutStop]\<rparr> else s)"

text \<open>\<open>purge\<close>, after the worker was stopped.\<close>

definition purge_entries :: "writer \<Rightarrow> writer" where
  "purge_entries s =
     s\<lparr>bw_entries := [],
       bw_entry := (\<lambda>i. if i \<in> set (map snd (bw_entries s)) then settle_future FutureCanceled (bw_entry s i) else bw_entry s i)\<rparr>"

text \<open>A write client as \<open>flush\<close> uses it: what \<open>/has-now\<close> reported, whether the health check
  passes, and whether a PUT succeeds.\<close>

record write_client =
  wc_present :: "checksum \<Rightarrow> bool"
  wc_healthy :: bool
  wc_put :: "checksum \<Rightarrow> buffer option \<Rightarrow> bool"

fun flush_buffer :: "write_client list \<Rightarrow> checksum \<Rightarrow> buffer option \<Rightarrow> bool \<Rightarrow> bool" where
  "flush_buffer [] c b success = success"
| "flush_buffer (w # ws) c b success =
     (if wc_present w c then True
      else if \<not> wc_healthy w then flush_buffer ws c b success
      else flush_buffer ws c b (success \<or> wc_put w c b))"

definition flush_one :: "write_client list \<Rightarrow> checksum \<times> buffer option \<Rightarrow> writer \<Rightarrow> writer" where
  "flush_one ws cb s =
     (if flush_buffer ws (fst cb) (snd cb) False then
        (case dget (bw_entries s) (BufferKey (fst cb)) of
           None \<Rightarrow> s
         | Some i \<Rightarrow> (on_entry_at i (settle_future (FutureResult (Some True))) s)
             \<lparr>bw_entries := ddel (BufferKey (fst cb)) (bw_entries s)\<rparr>)
      else s)"

definition flush_targets :: "writer \<Rightarrow> (checksum \<times> buffer option) list" where
  "flush_targets s = concat (map (\<lambda>(k, i). case k of BufferKey c \<Rightarrow> [(c, qe_buffer (bw_entry s i))] | MetadataKey _ \<Rightarrow> [])
     (bw_entries s))"

definition flush_buffers :: "write_client list \<Rightarrow> writer \<Rightarrow> writer" where
  "flush_buffers ws s = fold (flush_one ws) (flush_targets s) s"

section \<open>Interleavings\<close>

datatype writer_event =
    Register checksum | RegisterMetadata metadata | AwaitTask checksum
  | Enqueue nat | StartWorker | LoopCall | WorkerTurn | ProcessEntry nat | ExitWorker
  | RequestStop | ResetQueued | Purge | Flush

text \<open>The state with the number of stops asked for so far.\<close>

type_synonym counted_writer = "nat \<times> writer"

inductive writer_step :: "counted_writer \<Rightarrow> writer_event \<Rightarrow> counted_writer \<Rightarrow> bool" where
  register_step: "writer_step (n, s) (Register c) (n, register_write b c s)"
| metadata_step: "writer_step (n, s) (RegisterMetadata m) (n, register_metadata m s)"
| await_step: "writer_step (n, s) (AwaitTask c) (n, snd (await_existing_task c s))"
| enqueue_step: "i \<in> set (bw_enqueuing s) \<Longrightarrow> writer_step (n, s) (Enqueue i) (n, enqueue_entry i s)"
| start_step: "bw_worker s = Starting \<Longrightarrow> writer_step (n, s) StartWorker (n, start_worker s)"
| call_step:
    "bw_worker s \<in> {Working, Stopped} \<Longrightarrow> bw_calls s = cb # cbs \<Longrightarrow>
       writer_step (n, s) LoopCall (n, run_call cb (s\<lparr>bw_calls := cbs\<rparr>))"
| turn_step: "bw_worker s = Working \<Longrightarrow> bw_queue s \<noteq> [] \<Longrightarrow> writer_step (n, s) WorkerTurn (n, worker_turn s)"
| process_step: "i \<in> set (bw_processing s) \<Longrightarrow> writer_step (n, s) (ProcessEntry i) (n, process_entry i answer s)"
| exit_step: "bw_worker s = Stopped \<Longrightarrow> bw_processing s = [] \<Longrightarrow> writer_step (n, s) ExitWorker (n, exit_worker s)"
| stop_step: "writer_step (n, s) RequestStop (Suc n, request_stop s)"
| reset_step: "n > 0 \<Longrightarrow> writer_step (n, s) ResetQueued (n, unqueue_all s)"
| purge_step: "n > 0 \<Longrightarrow> writer_step (n, s) Purge (n, purge_entries s)"
| flush_step: "writer_step (n, s) Flush (n, flush_buffers ws s)"

fun writer_internal :: "writer_event \<Rightarrow> bool" where
  "writer_internal (Enqueue i) = True" | "writer_internal StartWorker = True" | "writer_internal LoopCall = True"
| "writer_internal WorkerTurn = True" | "writer_internal (ProcessEntry i) = True" | "writer_internal ExitWorker = True"
| "writer_internal _ = False"

section \<open>No write is lost\<close>

abbreviation pending_entry :: "writer \<Rightarrow> nat \<Rightarrow> bool" where
  "pending_entry s i \<equiv> qe_future (bw_entry s i) = FuturePending"

text \<open>Where a waiting entry can be found.\<close>

definition in_hand :: "writer \<Rightarrow> nat \<Rightarrow> bool" where
  "in_hand s i \<longleftrightarrow> QueuedEntry i \<in> set (bw_queue s) \<or> i \<in> set (bw_processing s)"

definition entry_safe :: "nat \<Rightarrow> writer \<Rightarrow> nat \<Rightarrow> bool" where
  "entry_safe n s i \<longleftrightarrow>
     (pending_entry s i \<longrightarrow>
       (bw_worker s = Working \<longrightarrow> (qe_queued (bw_entry s i) \<longrightarrow> in_hand s i) \<and>
          (in_hand s i \<or> PutEntry i \<in> set (bw_calls s) \<or> i \<in> set (bw_enqueuing s))) \<and>
       (n = 0 \<and> bw_worker s = NoWorker \<longrightarrow> i \<in> set (bw_enqueuing s))) \<and>
     (bw_worker s \<in> {NoWorker, Starting} \<longrightarrow> \<not> qe_queued (bw_entry s i))"

definition writer_ok :: "counted_writer \<Rightarrow> bool" where
  "writer_ok ns \<longleftrightarrow> (case ns of (n, s) \<Rightarrow>
     (\<forall>k i. dget (bw_entries s) k = Some i \<longrightarrow> i < bw_next s \<and> qe_key (bw_entry s i) = k \<and> entry_safe n s i) \<and>
     (\<forall>i. in_hand s i \<or> PutEntry i \<in> set (bw_calls s) \<or> i \<in> set (bw_enqueuing s) \<longrightarrow> i < bw_next s) \<and>
     (bw_worker s \<in> {NoWorker, Starting} \<longrightarrow> bw_queue s = [] \<and> bw_calls s = [] \<and> bw_processing s = []) \<and>
     dict_wf (bw_entries s) \<and>
     (n = 0 \<longrightarrow> bw_worker s \<noteq> Stopped \<and> PutStop \<notin> set (bw_calls s) \<and> StopMark \<notin> set (bw_queue s)))"

lemma writer_okI:
  assumes "\<And>k i. dget (bw_entries s) k = Some i \<Longrightarrow> i < bw_next s \<and> qe_key (bw_entry s i) = k"
    and "\<And>k i. dget (bw_entries s) k = Some i \<Longrightarrow> entry_safe n s i"
    and "\<And>i. in_hand s i \<or> PutEntry i \<in> set (bw_calls s) \<or> i \<in> set (bw_enqueuing s) \<Longrightarrow> i < bw_next s"
    and "bw_worker s \<in> {NoWorker, Starting} \<Longrightarrow> bw_queue s = [] \<and> bw_calls s = [] \<and> bw_processing s = []"
    and "dict_wf (bw_entries s)"
    and "n = 0 \<Longrightarrow> bw_worker s \<noteq> Stopped \<and> PutStop \<notin> set (bw_calls s) \<and> StopMark \<notin> set (bw_queue s)"
  shows "writer_ok (n, s)"
  using assms unfolding writer_ok_def prod.case by blast

lemma writer_okD:
  assumes "writer_ok (n, s)"
  shows "dget (bw_entries s) k = Some i \<Longrightarrow> i < bw_next s \<and> qe_key (bw_entry s i) = k"
    and "dget (bw_entries s) k = Some i \<Longrightarrow> entry_safe n s i"
    and "in_hand s i \<or> PutEntry i \<in> set (bw_calls s) \<or> i \<in> set (bw_enqueuing s) \<Longrightarrow> i < bw_next s"
    and "bw_worker s \<in> {NoWorker, Starting} \<Longrightarrow> bw_queue s = [] \<and> bw_calls s = [] \<and> bw_processing s = []"
    and "dict_wf (bw_entries s)"
    and "n = 0 \<Longrightarrow> bw_worker s \<noteq> Stopped \<and> PutStop \<notin> set (bw_calls s) \<and> StopMark \<notin> set (bw_queue s)"
  using assms unfolding writer_ok_def prod.case by blast+

lemma ok_store:
  assumes ok: "writer_ok (n, s)" and "dget (bw_entries s) k = None"
  shows "writer_ok (n, snd (store_entry k b s))"
proof -
  let ?s = "snd (store_entry k b s)"
  have old: "in_hand ?s i = in_hand s i" for i by (simp add: in_hand_def store_entry_def Let_def)
  show ?thesis
  proof (rule writer_okI)
    fix j i assume d: "dget (bw_entries ?s) j = Some i"
    then have "i = bw_next s \<and> j = k \<or> i < bw_next s \<and> dget (bw_entries s) j = Some i \<and> j \<noteq> k"
      using writer_okD(1) [OF ok, of j i] by (auto simp: store_entry_def Let_def split: if_splits)
    then show "i < bw_next ?s \<and> qe_key (bw_entry ?s i) = j" "entry_safe n ?s i"
      using writer_okD(1,2) [OF ok, of j i] old [of i]
      by (auto simp: store_entry_def Let_def new_queue_entry_def entry_safe_def)
  next
    fix i assume "in_hand ?s i \<or> PutEntry i \<in> set (bw_calls ?s) \<or> i \<in> set (bw_enqueuing ?s)"
    with old have "i = bw_next s \<or> i < bw_next s"
      using writer_okD(3) [OF ok, of i] by (auto simp: store_entry_def Let_def)
    then show "i < bw_next ?s" by (auto simp: store_entry_def Let_def)
  next
    show "bw_worker ?s \<in> {NoWorker, Starting} \<Longrightarrow> bw_queue ?s = [] \<and> bw_calls ?s = [] \<and> bw_processing ?s = []"
      "dict_wf (bw_entries ?s)"
      "n = 0 \<Longrightarrow> bw_worker ?s \<noteq> Stopped \<and> PutStop \<notin> set (bw_calls ?s) \<and> StopMark \<notin> set (bw_queue ?s)"
      using writer_okD(4-6) [OF ok] by (simp_all add: store_entry_def Let_def)
  qed
qed

text \<open>What changes no future, no flag of the queue and no place.\<close>

lemma ok_buffer:
  assumes ok: "writer_ok (n, s)" and "dget (bw_entries s) k = Some i"
  shows "writer_ok (n, (on_entry_at i (\<lambda>e. e\<lparr>qe_buffer := Some b\<rparr>) s)\<lparr>bw_enqueuing := i # bw_enqueuing s\<rparr>)"
    and "writer_ok (n, s\<lparr>bw_enqueuing := i # bw_enqueuing s\<rparr>)"
  using assms writer_okD(1) [OF assms]
  by (auto simp: writer_ok_def on_entry_at_def entry_safe_def in_hand_def)

lemma ok_enqueue:
  assumes ok: "writer_ok (n, s)" and i: "i \<in> set (bw_enqueuing s)"
  shows "writer_ok (n, enqueue_entry i s)"
proof -
  let ?s = "enqueue_entry i s"
  have fields: "bw_entries ?s = bw_entries s" "bw_entry ?s = bw_entry s" "bw_next ?s = bw_next s"
    "bw_queue ?s = bw_queue s" "bw_processing ?s = bw_processing s" "bw_enqueuing ?s = remove1 i (bw_enqueuing s)"
    "bw_worker ?s = (if bw_worker s = NoWorker then Starting else bw_worker s)"
    by (auto simp: enqueue_entry_def ensure_worker_def Let_def)
  have calls: "bw_calls ?s = bw_calls s @
      (if bw_worker s \<in> {NoWorker, Starting} \<or> qe_queued (bw_entry s i) \<or> \<not> pending_entry s i then [] else [PutEntry i])"
    by (cases "bw_worker s") (auto simp: enqueue_entry_def ensure_worker_def Let_def)
  have hand: "in_hand ?s j = in_hand s j" for j by (simp add: in_hand_def fields)
  have other: "j \<in> set (remove1 i (bw_enqueuing s)) \<longleftrightarrow> j \<in> set (bw_enqueuing s)" if "j \<noteq> i" for j
    using that by simp
  show ?thesis
  proof (rule writer_okI)
    fix k j assume d: "dget (bw_entries ?s) k = Some j"
    then have e: "dget (bw_entries s) k = Some j" by (simp add: fields)
    then show "j < bw_next ?s \<and> qe_key (bw_entry ?s j) = k" using writer_okD(1) [OF ok] by (simp add: fields)
    from writer_okD(2) [OF ok e] show "entry_safe n ?s j"
      by (cases "j = i"; cases "bw_worker s") (auto simp: entry_safe_def fields calls hand other)
  next
    fix j assume "in_hand ?s j \<or> PutEntry j \<in> set (bw_calls ?s) \<or> j \<in> set (bw_enqueuing ?s)"
    then have "in_hand s j \<or> PutEntry j \<in> set (bw_calls s) \<or> j \<in> set (bw_enqueuing s)"
      using i set_remove1_subset by (fastforce simp: hand calls fields split: if_splits)
    then show "j < bw_next ?s" using writer_okD(3) [OF ok] by (simp add: fields)
  next
    show "bw_worker ?s \<in> {NoWorker, Starting} \<Longrightarrow> bw_queue ?s = [] \<and> bw_calls ?s = [] \<and> bw_processing ?s = []"
      using writer_okD(4) [OF ok] by (cases "bw_worker s") (auto simp: fields calls)
    show "dict_wf (bw_entries ?s)" using writer_okD(5) [OF ok] by (simp add: fields)
    show "n = 0 \<Longrightarrow> bw_worker ?s \<noteq> Stopped \<and> PutStop \<notin> set (bw_calls ?s) \<and> StopMark \<notin> set (bw_queue ?s)"
      using writer_okD(6) [OF ok] by (auto simp: fields calls)
  qed
qed

lemma in_waiting: "dict_wf (bw_entries s) \<Longrightarrow>
    i \<in> set (waiting_entries s) \<longleftrightarrow> (\<exists>k. dget (bw_entries s) k = Some i) \<and> pending_entry s i \<and> \<not> qe_queued (bw_entry s i)"
  by (auto simp: waiting_entries_def dget_eq_iff image_iff) force

lemma ok_start_worker:
  assumes ok: "writer_ok (n, s)" and w: "bw_worker s = Starting"
  shows "writer_ok (n, start_worker s)"
proof -
  let ?s = "start_worker s"
  note wait = in_waiting [OF writer_okD(5) [OF ok]]
  have none: "bw_queue s = []" "bw_calls s = []" "bw_processing s = []" using writer_okD(4) [OF ok] w by simp_all
  have hand: "in_hand ?s j \<longleftrightarrow> j \<in> set (waiting_entries s)" for j
    using none by (auto simp: in_hand_def start_worker_def Let_def)
  have fields: "bw_entries ?s = bw_entries s" "bw_next ?s = bw_next s" "bw_calls ?s = []" "bw_worker ?s = Working"
    "bw_enqueuing ?s = bw_enqueuing s" "bw_queue ?s = map QueuedEntry (waiting_entries s)"
    "bw_entry ?s j = (if j \<in> set (waiting_entries s) then (bw_entry s j)\<lparr>qe_queued := True\<rparr> else bw_entry s j)" for j
    by (simp_all add: start_worker_def Let_def)
  show ?thesis
  proof (rule writer_okI)
    fix k j assume "dget (bw_entries ?s) k = Some j"
    then have e: "dget (bw_entries s) k = Some j" by (simp add: fields)
    then show "j < bw_next ?s \<and> qe_key (bw_entry ?s j) = k" using writer_okD(1) [OF ok] by (simp add: fields)
    from writer_okD(2) [OF ok e] w have "\<not> qe_queued (bw_entry s j)" by (simp add: entry_safe_def)
    then have "pending_entry s j \<Longrightarrow> j \<in> set (waiting_entries s)" using wait e by blast
    then show "entry_safe n ?s j" by (auto simp: entry_safe_def fields hand)
  next
    fix j assume "in_hand ?s j \<or> PutEntry j \<in> set (bw_calls ?s) \<or> j \<in> set (bw_enqueuing ?s)"
    then have "j \<in> set (waiting_entries s) \<or> j \<in> set (bw_enqueuing s)" by (simp add: hand fields)
    then show "j < bw_next ?s" using writer_okD(1,3) [OF ok] wait by (auto simp: fields)
  next
    show "bw_worker ?s \<in> {NoWorker, Starting} \<Longrightarrow> bw_queue ?s = [] \<and> bw_calls ?s = [] \<and> bw_processing ?s = []"
      by (simp add: fields)
    show "dict_wf (bw_entries ?s)" using writer_okD(5) [OF ok] by (simp add: fields)
    show "n = 0 \<Longrightarrow> bw_worker ?s \<noteq> Stopped \<and> PutStop \<notin> set (bw_calls ?s) \<and> StopMark \<notin> set (bw_queue ?s)"
      by (auto simp: fields)
  qed
qed

lemma ok_call:
  assumes ok: "writer_ok (n, s)" and w: "bw_worker s \<in> {Working, Stopped}" and cb: "bw_calls s = cb # cbs"
  shows "writer_ok (n, run_call cb (s\<lparr>bw_calls := cbs\<rparr>))"
proof -
  let ?s = "run_call cb (s\<lparr>bw_calls := cbs\<rparr>)"
  define put where "put i \<longleftrightarrow> cb = PutEntry i \<and> pending_entry s i \<and> \<not> qe_queued (bw_entry s i)" for i
  have fields: "bw_entries ?s = bw_entries s" "bw_next ?s = bw_next s" "bw_calls ?s = cbs" "bw_worker ?s = bw_worker s"
    "bw_enqueuing ?s = bw_enqueuing s" "bw_processing ?s = bw_processing s"
    "bw_entry ?s j = (if put j then (bw_entry s j)\<lparr>qe_queued := True\<rparr> else bw_entry s j)"
    "set (bw_queue ?s) = set (bw_queue s) \<union> {x. x = StopMark \<and> cb = PutStop} \<union> {QueuedEntry i | i. put i}" for j
    by (cases cb; auto simp: put_def on_entry_at_def)+
  have hand: "in_hand ?s j \<longleftrightarrow> in_hand s j \<or> put j" for j by (auto simp: in_hand_def fields)
  show ?thesis
  proof (rule writer_okI)
    fix k j assume "dget (bw_entries ?s) k = Some j"
    then have e: "dget (bw_entries s) k = Some j" by (simp add: fields)
    then show "j < bw_next ?s \<and> qe_key (bw_entry ?s j) = k" using writer_okD(1) [OF ok] by (simp add: fields)
    have "cb = PutEntry j \<Longrightarrow> pending_entry s j \<Longrightarrow> put j \<or> qe_queued (bw_entry s j)" by (auto simp: put_def)
    with writer_okD(2) [OF ok e] w cb show "entry_safe n ?s j"
      by (auto simp: entry_safe_def fields hand)
  next
    fix j assume "in_hand ?s j \<or> PutEntry j \<in> set (bw_calls ?s) \<or> j \<in> set (bw_enqueuing ?s)"
    then have "in_hand s j \<or> PutEntry j \<in> set (bw_calls s) \<or> j \<in> set (bw_enqueuing s)"
      using cb by (auto simp: hand fields put_def)
    then show "j < bw_next ?s" using writer_okD(3) [OF ok] by (simp add: fields)
  next
    show "bw_worker ?s \<in> {NoWorker, Starting} \<Longrightarrow> bw_queue ?s = [] \<and> bw_calls ?s = [] \<and> bw_processing ?s = []"
      using w by (auto simp: fields)
    show "dict_wf (bw_entries ?s)" using writer_okD(5) [OF ok] by (simp add: fields)
    show "n = 0 \<Longrightarrow> bw_worker ?s \<noteq> Stopped \<and> PutStop \<notin> set (bw_calls ?s) \<and> StopMark \<notin> set (bw_queue ?s)"
      using writer_okD(6) [OF ok] cb by (auto simp: fields)
  qed
qed

lemma ok_turn:
  assumes ok: "writer_ok (n, s)" and w: "bw_worker s = Working" and q: "bw_queue s \<noteq> []"
  shows "writer_ok (n, worker_turn s)"
proof -
  obtain x xs where x: "bw_queue s = x # xs" using q by (cases "bw_queue s") auto
  let ?s = "worker_turn s"
  have fields: "bw_entries ?s = bw_entries s" "bw_next ?s = bw_next s" "bw_calls ?s = bw_calls s"
    "bw_worker ?s = (if x = StopMark then Stopped else bw_worker s)" "bw_enqueuing ?s = bw_enqueuing s"
    "bw_entry ?s = bw_entry s" "bw_queue ?s = xs"
    "set (bw_processing ?s) = set (bw_processing s) \<union> {i. x = QueuedEntry i \<and> pending_entry s i}"
    by (auto simp: worker_turn_def x split: queue_item.split)
  have hand: "in_hand s j \<Longrightarrow> pending_entry s j \<Longrightarrow> in_hand ?s j" "in_hand ?s j \<Longrightarrow> in_hand s j" for j
    using x by (auto simp: in_hand_def fields)
  show ?thesis
  proof (rule writer_okI)
    fix k j assume "dget (bw_entries ?s) k = Some j"
    then have e: "dget (bw_entries s) k = Some j" by (simp add: fields)
    then show "j < bw_next ?s \<and> qe_key (bw_entry ?s j) = k" using writer_okD(1) [OF ok] by (simp add: fields)
    from writer_okD(2) [OF ok e] w hand(1) [of j] show "entry_safe n ?s j"
      by (auto simp: entry_safe_def fields)
  next
    fix j assume "in_hand ?s j \<or> PutEntry j \<in> set (bw_calls ?s) \<or> j \<in> set (bw_enqueuing ?s)"
    with hand(2) [of j] writer_okD(3) [OF ok, of j] show "j < bw_next ?s" by (auto simp: fields)
  next
    show "bw_worker ?s \<in> {NoWorker, Starting} \<Longrightarrow> bw_queue ?s = [] \<and> bw_calls ?s = [] \<and> bw_processing ?s = []"
      using w by (simp add: fields split: if_splits)
    show "dict_wf (bw_entries ?s)" using writer_okD(5) [OF ok] by (simp add: fields)
    show "n = 0 \<Longrightarrow> bw_worker ?s \<noteq> Stopped \<and> PutStop \<notin> set (bw_calls ?s) \<and> StopMark \<notin> set (bw_queue ?s)"
      using writer_okD(6) [OF ok] x by (auto simp: fields)
  qed
qed

text \<open>Futures settle and entries leave the dictionary, and nothing else changes.\<close>

definition settles :: "writer \<Rightarrow> writer \<Rightarrow> bool" where
  "settles s s' \<longleftrightarrow> bw_next s' = bw_next s \<and> bw_worker s' = bw_worker s \<and> bw_queue s' = bw_queue s
     \<and> bw_calls s' = bw_calls s \<and> bw_enqueuing s' = bw_enqueuing s
     \<and> set (bw_processing s') \<subseteq> set (bw_processing s)
     \<and> (\<forall>j. pending_entry s' j \<longrightarrow> pending_entry s j \<and> (j \<in> set (bw_processing s) \<longrightarrow> j \<in> set (bw_processing s')))
     \<and> (\<forall>j. qe_key (bw_entry s' j) = qe_key (bw_entry s j) \<and> qe_queued (bw_entry s' j) = qe_queued (bw_entry s j))
     \<and> (\<forall>k j. dget (bw_entries s') k = Some j \<longrightarrow> dget (bw_entries s) k = Some j)
     \<and> (dict_wf (bw_entries s) \<longrightarrow> dict_wf (bw_entries s'))"

lemma ok_settles:
  assumes ok: "writer_ok (n, s)" and st: "settles s s'"
  shows "writer_ok (n, s')"
proof (rule writer_okI)
  fix k j assume "dget (bw_entries s') k = Some j"
  with st have e: "dget (bw_entries s) k = Some j" by (simp add: settles_def)
  then show "j < bw_next s' \<and> qe_key (bw_entry s' j) = k" using writer_okD(1) [OF ok] st by (simp add: settles_def)
  have "pending_entry s' j \<Longrightarrow> pending_entry s j \<and> (in_hand s j \<longrightarrow> in_hand s' j)"
    using st by (auto simp: settles_def in_hand_def)
  with writer_okD(2) [OF ok e] st show "entry_safe n s' j" by (auto simp: entry_safe_def settles_def)
next
  fix j assume "in_hand s' j \<or> PutEntry j \<in> set (bw_calls s') \<or> j \<in> set (bw_enqueuing s')"
  then have "in_hand s j \<or> PutEntry j \<in> set (bw_calls s) \<or> j \<in> set (bw_enqueuing s)"
    using st by (auto simp: settles_def in_hand_def)
  then show "j < bw_next s'" using writer_okD(3) [OF ok] st by (simp add: settles_def)
next
  show "bw_worker s' \<in> {NoWorker, Starting} \<Longrightarrow> bw_queue s' = [] \<and> bw_calls s' = [] \<and> bw_processing s' = []"
    using writer_okD(4) [OF ok] st by (simp add: settles_def)
  show "dict_wf (bw_entries s')" using writer_okD(5) [OF ok] st by (simp add: settles_def)
  show "n = 0 \<Longrightarrow> bw_worker s' \<noteq> Stopped \<and> PutStop \<notin> set (bw_calls s') \<and> StopMark \<notin> set (bw_queue s')"
    using writer_okD(6) [OF ok] st by (simp add: settles_def)
qed

lemma settle_future_fields [simp]:
  "qe_key (settle_future r e) = qe_key e" "qe_queued (settle_future r e) = qe_queued e"
  "r \<noteq> FuturePending \<Longrightarrow> qe_future (settle_future r e) \<noteq> FuturePending"
  by (simp_all add: settle_future_def)

lemma drop_entry_if_fields [simp]:
  "bw_entry (drop_entry_if i s) = bw_entry s" "bw_next (drop_entry_if i s) = bw_next s"
  "bw_worker (drop_entry_if i s) = bw_worker s" "bw_queue (drop_entry_if i s) = bw_queue s"
  "bw_calls (drop_entry_if i s) = bw_calls s" "bw_processing (drop_entry_if i s) = bw_processing s"
  "bw_enqueuing (drop_entry_if i s) = bw_enqueuing s"
  by (simp_all add: drop_entry_if_def Let_def)

lemma drop_entry_if_entries:
  "dget (bw_entries (drop_entry_if i s)) k = Some j \<Longrightarrow> dget (bw_entries s) k = Some j"
  "dict_wf (bw_entries s) \<Longrightarrow> dict_wf (bw_entries (drop_entry_if i s))"
  by (auto simp: drop_entry_if_def Let_def split: if_splits)

lemma on_entry_at_fields [simp]:
  "bw_entry (on_entry_at i f s) j = (if j = i then f (bw_entry s i) else bw_entry s j)"
  "bw_next (on_entry_at i f s) = bw_next s" "bw_worker (on_entry_at i f s) = bw_worker s"
  "bw_queue (on_entry_at i f s) = bw_queue s" "bw_calls (on_entry_at i f s) = bw_calls s"
  "bw_processing (on_entry_at i f s) = bw_processing s" "bw_enqueuing (on_entry_at i f s) = bw_enqueuing s"
  "bw_entries (on_entry_at i f s) = bw_entries s"
  by (simp_all add: on_entry_at_def)

lemma settles_trans: "settles s t \<Longrightarrow> settles t w \<Longrightarrow> settles s w"
  unfolding settles_def by (intro conjI allI impI; elim conjE; simp; blast?)

lemma settles_drop: "settles s (drop_entry_if i s)"
  unfolding settles_def using drop_entry_if_entries [where i = i and s = s] by simp

lemma settles_process: "settles s (process_entry i answer s)"
proof -
  have one: "settles s (on_entry_at i (settle_future r) (s\<lparr>bw_processing := remove1 i (bw_processing s)\<rparr>))"
    if "r \<noteq> FuturePending" for r
    using that set_remove1_subset [of i "bw_processing s"] by (auto simp: settles_def)
  show ?thesis
    using one settles_trans [OF one settles_drop]
    by (auto simp: process_entry_def Let_def split: sum.split)
qed

lemma settles_flush_one: "settles s (flush_one ws cb s)"
  by (auto simp: settles_def flush_one_def split: option.split)

lemma settles_refl: "settles s s"
  by (simp add: settles_def)

lemma settles_flush: "settles s (flush_buffers ws s)"
proof -
  have "settles s t \<Longrightarrow> settles s (fold (flush_one ws) cbs t)" for cbs t
  proof (induction cbs arbitrary: t)
    case Nil
    then show ?case by simp
  next
    case (Cons cb cbs)
    from Cons.IH [OF settles_trans [OF Cons.prems settles_flush_one]] show ?case by simp
  qed
  then show ?thesis using settles_refl by (simp add: flush_buffers_def)
qed

lemma settles_purge: "settles s (purge_entries s)"
  by (simp add: settles_def purge_entries_def settle_future_def)

lemma ok_exit:
  assumes ok: "writer_ok (n, s)" and w: "bw_worker s = Stopped" "bw_processing s = []"
  shows "writer_ok (n, exit_worker s)"
proof (rule writer_okI)
  fix k j assume "dget (bw_entries (exit_worker s)) k = Some j"
  then have e: "dget (bw_entries s) k = Some j" by (simp add: exit_worker_def unqueue_all_def)
  then show "j < bw_next (exit_worker s) \<and> qe_key (bw_entry (exit_worker s) j) = k"
    using writer_okD(1) [OF ok] by (simp add: exit_worker_def unqueue_all_def)
  have "j \<in> snd ` set (bw_entries s)" using dget_in_set [OF e] by force
  then show "entry_safe n (exit_worker s) j"
    using writer_okD(6) [OF ok] w by (auto simp: entry_safe_def exit_worker_def unqueue_all_def)
next
  fix j assume "in_hand (exit_worker s) j \<or> PutEntry j \<in> set (bw_calls (exit_worker s)) \<or> j \<in> set (bw_enqueuing (exit_worker s))"
  then show "j < bw_next (exit_worker s)"
    using writer_okD(3) [OF ok, of j] w by (auto simp: in_hand_def exit_worker_def unqueue_all_def)
qed (use writer_okD(5) [OF ok] w in \<open>simp_all add: exit_worker_def unqueue_all_def\<close>)

lemma ok_stop:
  assumes ok: "writer_ok (n, s)"
  shows "writer_ok (Suc n, request_stop s)"
proof (rule writer_okI)
  fix k j assume "dget (bw_entries (request_stop s)) k = Some j"
  then have e: "dget (bw_entries s) k = Some j" by (simp add: request_stop_def split: if_splits)
  then show "j < bw_next (request_stop s) \<and> qe_key (bw_entry (request_stop s) j) = k"
    using writer_okD(1) [OF ok] by (simp add: request_stop_def)
  from writer_okD(2) [OF ok e] show "entry_safe (Suc n) (request_stop s) j"
    by (auto simp: entry_safe_def request_stop_def in_hand_def)
next
  fix j assume "in_hand (request_stop s) j \<or> PutEntry j \<in> set (bw_calls (request_stop s)) \<or> j \<in> set (bw_enqueuing (request_stop s))"
  then show "j < bw_next (request_stop s)"
    using writer_okD(3) [OF ok, of j] by (auto simp: in_hand_def request_stop_def split: if_splits)
next
  show "bw_worker (request_stop s) \<in> {NoWorker, Starting} \<Longrightarrow> bw_queue (request_stop s) = []
      \<and> bw_calls (request_stop s) = [] \<and> bw_processing (request_stop s) = []"
    using writer_okD(4) [OF ok] by (auto simp: request_stop_def)
  show "dict_wf (bw_entries (request_stop s))" using writer_okD(5) [OF ok] by (simp add: request_stop_def)
qed simp

lemma ok_reset:
  assumes ok: "writer_ok (n, s)"
  shows "writer_ok (n, unqueue_all s)"
proof (rule writer_okI)
  fix k j assume "dget (bw_entries (unqueue_all s)) k = Some j"
  then have e: "dget (bw_entries s) k = Some j" by (simp add: unqueue_all_def)
  then show "j < bw_next (unqueue_all s) \<and> qe_key (bw_entry (unqueue_all s) j) = k"
    using writer_okD(1) [OF ok] by (simp add: unqueue_all_def)
  have "j \<in> snd ` set (bw_entries s)" using dget_in_set [OF e] by force
  with writer_okD(2) [OF ok e] show "entry_safe n (unqueue_all s) j"
    by (auto simp: entry_safe_def unqueue_all_def in_hand_def)
next
  fix j assume "in_hand (unqueue_all s) j \<or> PutEntry j \<in> set (bw_calls (unqueue_all s)) \<or> j \<in> set (bw_enqueuing (unqueue_all s))"
  then show "j < bw_next (unqueue_all s)"
    using writer_okD(3) [OF ok, of j] by (auto simp: in_hand_def unqueue_all_def)
qed (use writer_okD(4-6) [OF ok] in \<open>simp_all add: unqueue_all_def\<close>)

lemma ok_register: "writer_ok (n, s) \<Longrightarrow> writer_ok (n, register_write b c s)"
  by (auto simp: register_write_def intro: ok_store ok_buffer(1) split: option.split)

lemma ok_metadata: "writer_ok (n, s) \<Longrightarrow> writer_ok (n, register_metadata m s)"
  by (auto simp: register_metadata_def intro: ok_store)

lemma ok_await: "writer_ok (n, s) \<Longrightarrow> writer_ok (n, snd (await_existing_task c s))"
  using ok_enqueue [OF ok_buffer(2)] by (fastforce simp: await_existing_task_def split: option.split)

interpretation writer_runs: inductive_invariant "\<lambda>s. s = (0, writer_init)" writer_step writer_ok
proof unfold_locales
  show "s = (0, writer_init) \<Longrightarrow> writer_ok s" for s
    by (simp add: writer_ok_def writer_init_def in_hand_def)
  fix s e s' assume ok: "writer_ok s" and "writer_step s e s'"
  from this(2) show "writer_ok s'"
    by cases (use ok ok_register ok_metadata ok_await ok_enqueue ok_start_worker ok_call ok_turn ok_exit ok_stop ok_reset
        ok_settles [OF _ settles_process] ok_settles [OF _ settles_flush] ok_settles [OF _ settles_purge] in auto)
qed

section \<open>No write is done twice at once\<close>

fun queued_ids :: "queue_item list \<Rightarrow> nat list" where
  "queued_ids [] = []"
| "queued_ids (QueuedEntry i # q) = i # queued_ids q"
| "queued_ids (StopMark # q) = queued_ids q"

lemma queued_ids_append [simp]: "queued_ids (q @ r) = queued_ids q @ queued_ids r"
  by (induction q rule: queued_ids.induct) auto

lemma queued_ids_map [simp]: "queued_ids (map QueuedEntry is) = is"
  by (induction "is") auto

lemma set_queued_ids: "i \<in> set (queued_ids q) \<longleftrightarrow> QueuedEntry i \<in> set q"
  by (induction q rule: queued_ids.induct) auto

definition hands :: "writer \<Rightarrow> nat list" where
  "hands s = queued_ids (bw_queue s) @ bw_processing s"

lemma set_hands: "i \<in> set (hands s) \<longleftrightarrow> in_hand s i"
  by (simp add: hands_def in_hand_def set_queued_ids)

definition once_ok :: "counted_writer \<Rightarrow> bool" where
  "once_ok ns \<longleftrightarrow> (case ns of (n, s) \<Rightarrow> n = 0 \<longrightarrow>
     distinct (hands s) \<and> (\<forall>i\<in>set (hands s). qe_queued (bw_entry s i)) \<and>
     (\<forall>k i. dget (bw_entries s) k = Some i \<and> \<not> pending_entry s i \<longrightarrow> i \<notin> set (hands s)))"

lemma once_okI:
  assumes "n = 0 \<Longrightarrow> distinct (hands s)" and "\<And>i. n = 0 \<Longrightarrow> i \<in> set (hands s) \<Longrightarrow> qe_queued (bw_entry s i)"
    and "\<And>k i. n = 0 \<Longrightarrow> dget (bw_entries s) k = Some i \<Longrightarrow> \<not> pending_entry s i \<Longrightarrow> i \<notin> set (hands s)"
  shows "once_ok (n, s)"
  using assms unfolding once_ok_def prod.case by blast

lemma once_okD:
  assumes "once_ok (0, s)"
  shows "distinct (hands s)" and "i \<in> set (hands s) \<Longrightarrow> qe_queued (bw_entry s i)"
    and "dget (bw_entries s) k = Some i \<Longrightarrow> \<not> pending_entry s i \<Longrightarrow> i \<notin> set (hands s)"
  using assms unfolding once_ok_def prod.case by blast+

lemma once_positive: "0 < n \<Longrightarrow> once_ok (n, s)"
  by (simp add: once_ok_def)

lemma once_store:
  assumes ok: "writer_ok (0, s)" and once: "once_ok (0, s)" and "dget (bw_entries s) k = None"
  shows "once_ok (0, snd (store_entry k b s))"
proof -
  have "hands (snd (store_entry k b s)) = hands s" by (simp add: hands_def store_entry_def Let_def)
  moreover have "i \<in> set (hands s) \<Longrightarrow> i \<noteq> bw_next s" for i using writer_okD(3) [OF ok, of i] by (auto simp: set_hands)
  ultimately show ?thesis
    using once_okD [OF once] by (intro once_okI) (auto simp: store_entry_def Let_def split: if_splits)
qed

lemma once_same:
  assumes once: "once_ok (0, s)" and "hands s' = hands s" "bw_entries s' = bw_entries s"
    "\<And>i. qe_queued (bw_entry s' i) = qe_queued (bw_entry s i)" "\<And>i. pending_entry s' i = pending_entry s i"
  shows "once_ok (0, s')"
  using once_okD [OF once] assms(2-) by (intro once_okI) auto

lemma once_enqueue: "once_ok (0, s) \<Longrightarrow> once_ok (0, enqueue_entry i s)"
  by (erule once_same) (auto simp: hands_def enqueue_entry_def ensure_worker_def Let_def)

lemma once_register:
  assumes "writer_ok (0, s)" and "once_ok (0, s)"
  shows "once_ok (0, register_write b c s)" "once_ok (0, register_metadata m s)" "once_ok (0, snd (await_existing_task c s))"
proof -
  have add: "once_ok (0, s\<lparr>bw_enqueuing := i # bw_enqueuing s\<rparr>)" for i
    by (rule once_same [OF assms(2)]) (simp_all add: hands_def)
  have buf: "once_ok (0, (on_entry_at i (\<lambda>e. e\<lparr>qe_buffer := Some b\<rparr>) s)\<lparr>bw_enqueuing := i # bw_enqueuing s\<rparr>)" for i
    by (rule once_same [OF assms(2)]) (simp_all add: hands_def)
  show "once_ok (0, register_write b c s)"
    using buf once_store [OF assms] by (simp add: register_write_def split: option.split)
  show "once_ok (0, register_metadata m s)"
    using assms once_store [OF assms] by (simp add: register_metadata_def)
  show "once_ok (0, snd (await_existing_task c s))"
    using assms(2) add once_enqueue by (simp add: await_existing_task_def split: option.split)
qed

lemma once_start:
  assumes ok: "writer_ok (0, s)" and w: "bw_worker s = Starting"
  shows "once_ok (0, start_worker s)"
proof -
  have none: "bw_queue s = []" "bw_processing s = []" using writer_okD(4) [OF ok] w by simp_all
  have wf: "dict_wf (bw_entries s)" using writer_okD(5) [OF ok] .
  have "distinct (map snd (bw_entries s))"
  proof -
    have "inj_on snd (set (bw_entries s))"
    proof (rule inj_onI)
      fix x y assume xy: "x \<in> set (bw_entries s)" "y \<in> set (bw_entries s)" "snd x = snd y"
      then have "dget (bw_entries s) (fst x) = Some (snd x)" "dget (bw_entries s) (fst y) = Some (snd x)"
        using dget_eq_iff [OF wf] by (metis prod.collapse)+
      then show "x = y" using writer_okD(1) [OF ok] xy(3) by (metis prod_eqI)
    qed
    moreover have "distinct (bw_entries s)" using wf by (simp add: dict_wf_def distinct_map)
    ultimately show ?thesis by (simp add: distinct_map)
  qed
  then have "distinct (waiting_entries s)" by (simp add: waiting_entries_def)
  moreover have "hands (start_worker s) = waiting_entries s"
    using none by (simp add: hands_def start_worker_def Let_def)
  moreover have "i \<in> set (waiting_entries s) \<Longrightarrow> pending_entry s i" for i by (simp add: waiting_entries_def)
  ultimately show ?thesis by (intro once_okI) (auto simp: start_worker_def Let_def split: if_splits)
qed

lemma once_call:
  assumes once: "once_ok (0, s)"
  shows "once_ok (0, run_call cb (s\<lparr>bw_calls := cbs\<rparr>))"
proof (cases cb)
  case (PutEntry i)
  show ?thesis
  proof (cases "pending_entry s i \<and> \<not> qe_queued (bw_entry s i)")
    case True
    then have "hands (run_call cb (s\<lparr>bw_calls := cbs\<rparr>)) = queued_ids (bw_queue s) @ [i] @ bw_processing s"
      using PutEntry by (simp add: hands_def)
    moreover have "i \<notin> set (hands s)" using True once_okD(2) [OF once] by blast
    ultimately show ?thesis
      using once_okD [OF once] True PutEntry by (intro once_okI) (auto simp: hands_def split: if_splits)
  next
    case False
    with PutEntry show ?thesis by (intro once_same [OF once]) (simp_all add: hands_def)
  qed
next
  case PutStop
  then show ?thesis by (intro once_same [OF once]) (simp_all add: hands_def)
qed

lemma once_turn:
  assumes once: "once_ok (0, s)"
  shows "once_ok (0, worker_turn s)"
proof (cases "bw_queue s")
  case Nil
  with once show ?thesis by (simp add: worker_turn_def)
next
  case (Cons x xs)
  then show ?thesis
    using once_okD [OF once] by (cases x) (auto simp: worker_turn_def hands_def intro!: once_okI)
qed

lemma once_settles:
  assumes once: "once_ok (0, s)" and st: "settles s s'" and "bw_processing s' = bw_processing s"
    and "\<And>k i. dget (bw_entries s') k = Some i \<Longrightarrow> pending_entry s' i = pending_entry s i"
  shows "once_ok (0, s')"
proof (rule once_okI)
  have same: "hands s' = hands s" using st assms(3) by (simp add: hands_def settles_def)
  then show "distinct (hands s')" using once_okD(1) [OF once] by simp
  fix i assume "i \<in> set (hands s')"
  with same once_okD(2) [OF once] st show "qe_queued (bw_entry s' i)" by (simp add: settles_def)
next
  fix k i assume e: "dget (bw_entries s') k = Some i" and "\<not> pending_entry s' i"
  with assms(4) have "\<not> pending_entry s i" by simp
  moreover have "dget (bw_entries s) k = Some i" using e st by (simp add: settles_def)
  ultimately have "i \<notin> set (hands s)" using once_okD(3) [OF once] by blast
  then show "i \<notin> set (hands s')" using st assms(3) by (simp add: hands_def settles_def)
qed

lemma once_process:
  assumes once: "once_ok (0, s)" and i: "i \<in> set (bw_processing s)"
  shows "once_ok (0, process_entry i answer s)"
proof -
  let ?s = "process_entry i answer s"
  note st = settles_process [of s i answer]
  have p: "bw_processing ?s = remove1 i (bw_processing s)"
    by (simp add: process_entry_def Let_def split: sum.split)
  have d: "distinct (hands s)" using once_okD(1) [OF once] .
  have q: "bw_queue ?s = bw_queue s" using st by (simp add: settles_def)
  have gone: "i \<notin> set (hands ?s)" using d i by (auto simp: hands_def p q)
  have sub: "set (hands ?s) \<subseteq> set (hands s)" using set_remove1_subset by (auto simp: hands_def p q)
  have other: "j \<noteq> i \<Longrightarrow> pending_entry ?s j = pending_entry s j" for j
    by (simp add: process_entry_def Let_def split: sum.split)
  show ?thesis
  proof (rule once_okI)
    show "distinct (hands ?s)" using d by (auto simp: hands_def p q dest: in_set_remove1 [THEN iffD1, rotated] notin_set_remove1)
    fix j assume "j \<in> set (hands ?s)"
    with sub have "j \<in> set (hands s)" by blast
    with once_okD(2) [OF once] st show "qe_queued (bw_entry ?s j)" by (simp add: settles_def)
  next
    fix k j assume e: "dget (bw_entries ?s) k = Some j" and np: "\<not> pending_entry ?s j"
    show "j \<notin> set (hands ?s)"
    proof (cases "j = i")
      case True
      with gone show ?thesis by simp
    next
      case False
      with np other have "\<not> pending_entry s j" by simp
      moreover have "dget (bw_entries s) k = Some j" using e st by (simp add: settles_def)
      ultimately show ?thesis using once_okD(3) [OF once] sub by blast
    qed
  qed
qed

lemma flush_one_once:
  assumes "writer_ok (0, s)" and once: "once_ok (0, s)"
  shows "once_ok (0, flush_one ws cb s)"
proof (rule once_settles [OF once settles_flush_one])
  show "bw_processing (flush_one ws cb s) = bw_processing s" by (simp add: flush_one_def split: option.split)
  fix k i assume e: "dget (bw_entries (flush_one ws cb s)) k = Some i"
  show "pending_entry (flush_one ws cb s) i = pending_entry s i"
  proof (cases "dget (bw_entries s) (BufferKey (fst cb))")
    case None
    then show ?thesis by (simp add: flush_one_def)
  next
    case (Some j)
    show ?thesis
    proof (cases "flush_buffer ws (fst cb) (snd cb) False")
      case True
      with Some e have "k \<noteq> BufferKey (fst cb)" "dget (bw_entries s) k = Some i"
        by (auto simp: flush_one_def split: if_splits)
      with writer_okD(1) [OF assms(1), of k i] writer_okD(1) [OF assms(1) Some] have "i \<noteq> j" by auto
      with True Some show ?thesis by (simp add: flush_one_def)
    next
      case False
      then show ?thesis by (simp add: flush_one_def)
    qed
  qed
qed

lemma once_flush:
  assumes "writer_ok (0, s)" and "once_ok (0, s)"
  shows "once_ok (0, flush_buffers ws s)"
proof -
  have "writer_ok (0, t) \<Longrightarrow> once_ok (0, t) \<Longrightarrow> once_ok (0, fold (flush_one ws) cbs t)" for cbs t
  proof (induction cbs arbitrary: t)
    case Nil
    then show ?case by simp
  next
    case (Cons cb cbs)
    from Cons.IH [OF ok_settles [OF Cons.prems(1) settles_flush_one] flush_one_once [OF Cons.prems]]
    show ?case by simp
  qed
  with assms show ?thesis by (simp add: flush_buffers_def)
qed

lemma once_step:
  assumes "writer_ok ns" and "once_ok ns" and step: "writer_step ns e ns'"
  shows "once_ok ns'"
proof (cases "fst ns' = 0")
  case False
  then show ?thesis using once_positive [of "fst ns'" "snd ns'"] by simp
next
  case True
  from step show ?thesis
    by cases (use True assms(1,2) once_register once_enqueue once_start once_call once_turn once_process once_flush
        once_positive writer_okD(6) in auto)
qed

interpretation writer_once: inductive_invariant "\<lambda>s. s = (0, writer_init)" writer_step "\<lambda>ns. writer_ok ns \<and> once_ok ns"
proof unfold_locales
  show "s = (0, writer_init) \<Longrightarrow> writer_ok s \<and> once_ok s" for s
    using writer_runs.inv_start by (auto simp: once_ok_def hands_def writer_init_def)
  show "writer_ok s \<and> once_ok s \<Longrightarrow> writer_step s e t \<Longrightarrow> writer_ok t \<and> once_ok t" for s e t
    using writer_runs.inv_step once_step by blast
qed

section \<open>The work left\<close>

definition stops_left :: "writer \<Rightarrow> nat" where
  "stops_left s = 2 * (count_list (bw_calls s) PutStop + count_list (bw_queue s) StopMark)
     + (if bw_worker s = Stopped then 1 else 0)"

definition writes_left :: "writer \<Rightarrow> nat" where
  "writes_left s = 5 * length (bw_enqueuing s) + 4 * length (bw_calls s) + 3 * length (bw_queue s)
     + 2 * length (bw_processing s)
     + (case bw_worker s of NoWorker \<Rightarrow> 4 * length (waiting_entries s) + 2
        | Starting \<Rightarrow> 4 * length (waiting_entries s) + 1 | _ \<Rightarrow> 0)"

definition less_left :: "writer \<Rightarrow> writer \<Rightarrow> bool" where
  "less_left t s \<longleftrightarrow> stops_left t < stops_left s \<or> stops_left t = stops_left s \<and> writes_left t < writes_left s"

lemma count_map_queued [simp]: "count_list (map QueuedEntry is) StopMark = 0"
  by (induction "is") auto

lemma length_remove1_less: "x \<in> set xs \<Longrightarrow> length (remove1 x xs) < length xs"
  by (induction xs) auto

lemma left_enqueue:
  assumes "i \<in> set (bw_enqueuing s)"
  shows "less_left (enqueue_entry i s) s"
proof -
  have len: "length (remove1 i (bw_enqueuing s)) < length (bw_enqueuing s)"
    using assms by (rule length_remove1_less)
  have wait: "waiting_entries (enqueue_entry i s) = waiting_entries s"
    by (simp add: waiting_entries_def enqueue_entry_def ensure_worker_def Let_def)
  have "bw_calls (enqueue_entry i s) = bw_calls s \<or> bw_calls (enqueue_entry i s) = bw_calls s @ [PutEntry i] \<and> bw_worker s \<in> {Working, Stopped}"
    by (cases "bw_worker s") (auto simp: enqueue_entry_def ensure_worker_def Let_def)
  moreover have "bw_worker (enqueue_entry i s) = (if bw_worker s = NoWorker then Starting else bw_worker s)"
    "bw_queue (enqueue_entry i s) = bw_queue s" "bw_processing (enqueue_entry i s) = bw_processing s"
    "bw_enqueuing (enqueue_entry i s) = remove1 i (bw_enqueuing s)"
    by (auto simp: enqueue_entry_def ensure_worker_def Let_def)
  ultimately show ?thesis using len wait
    by (cases "bw_worker s") (auto simp: less_left_def stops_left_def writes_left_def)
qed

lemma left_start: "writer_ok (n, s) \<Longrightarrow> bw_worker s = Starting \<Longrightarrow> less_left (start_worker s) s"
  using writer_okD(4) [of n s]
  by (simp add: less_left_def stops_left_def writes_left_def start_worker_def Let_def)

lemma left_call:
  assumes "bw_worker s \<in> {Working, Stopped}" "bw_calls s = cb # cbs"
  shows "less_left (run_call cb (s\<lparr>bw_calls := cbs\<rparr>)) s"
  using assms by (cases cb) (auto simp: less_left_def stops_left_def writes_left_def)

lemma left_turn: "bw_worker s = Working \<Longrightarrow> bw_queue s \<noteq> [] \<Longrightarrow> less_left (worker_turn s) s"
  by (auto simp: less_left_def stops_left_def writes_left_def worker_turn_def split: list.split queue_item.split)

lemma left_process:
  assumes ok: "writer_ok (n, s)" and i: "i \<in> set (bw_processing s)"
  shows "less_left (process_entry i answer s) s"
proof -
  note st = settles_process [of s i answer]
  have "bw_processing (process_entry i answer s) = remove1 i (bw_processing s)"
    by (simp add: process_entry_def Let_def split: sum.split)
  moreover have "bw_worker s \<notin> {NoWorker, Starting}" using writer_okD(4) [OF ok] i by (cases "bw_worker s") auto
  moreover have "length (remove1 i (bw_processing s)) < length (bw_processing s)"
    using i by (rule length_remove1_less)
  ultimately show ?thesis
    using st by (cases "bw_worker s") (auto simp: less_left_def stops_left_def writes_left_def settles_def)
qed

lemma left_exit: "bw_worker s = Stopped \<Longrightarrow> less_left (exit_worker s) s"
  by (simp add: less_left_def stops_left_def exit_worker_def unqueue_all_def)

lemma left_internal:
  assumes "writer_ok ns" and "writer_step ns e ns'" and "writer_internal e"
  shows "less_left (snd ns') (snd ns)"
  using assms(2) by cases (use assms(1,3) left_enqueue left_start left_call left_turn left_process left_exit in auto)

lemma wf_left: "wf {(t, s). less_left t s}"
proof -
  have "{(t, s). less_left t s} = measures [stops_left, writes_left]" by (auto simp: less_left_def)
  then show ?thesis by simp
qed

text \<open>C40: a registered write is not lost. Whatever is registered, awaited and flushed in
  whatever order, the writer's own steps (enqueuing, starting the worker, running its calls,
  its turns, its writes, its exit) come to an end; and as long as no stop was asked for, when
  none of them is possible any more every entry that is still kept has its future settled,
  and meanwhile no entry is in the queue and in a write task more than once in all, so no
  write is done twice at the same time.\<close>

theorem writes_are_not_lost:
  assumes "reachable (\<lambda>s. s = (0, writer_init)) writer_step (n, s)"
  shows "\<not> (\<exists>run. run 0 = (n, s) \<and> (\<forall>m. \<exists>e. writer_internal e \<and> writer_step (run m) e (run (Suc m))))
    \<and> (n = 0 \<longrightarrow> (\<exists>e t. writer_internal e \<and> writer_step (n, s) e t)
         \<or> (\<forall>k i. dget (bw_entries s) k = Some i \<longrightarrow> qe_future (bw_entry s i) \<noteq> FuturePending))
    \<and> (n = 0 \<longrightarrow> distinct (queued_ids (bw_queue s) @ bw_processing s))"
proof (intro conjI impI)
  have ok: "writer_ok (n, s)" "once_ok (n, s)" using writer_once.reachable_inv [OF assms] by simp_all
  show "\<not> (\<exists>run. run 0 = (n, s) \<and> (\<forall>m. \<exists>e. writer_internal e \<and> writer_step (run m) e (run (Suc m))))"
  proof (rule notI, elim exE conjE)
    fix run assume r: "run 0 = (n, s)" and step: "\<forall>m. \<exists>e. writer_internal e \<and> writer_step (run m) e (run (Suc m))"
    have "writer_ok (run m)" for m
    proof (induction m)
      case 0
      with r ok show ?case by simp
    next
      case (Suc m)
      with step writer_runs.inv_step show ?case by blast
    qed
    then have "less_left (snd (run (Suc m))) (snd (run m))" for m using step left_internal by blast
    then have "\<forall>m. ((snd \<circ> run) (Suc m), (snd \<circ> run) m) \<in> {(t, s). less_left t s}" by simp
    then show False using wf_left [THEN wf_iff_no_infinite_down_chain [THEN iffD1]] by blast
  qed
  show "distinct (queued_ids (bw_queue s) @ bw_processing s)" if "n = 0"
    using once_okD(1) [of s] ok(2) that by (simp add: hands_def)
  show "(\<exists>e t. writer_internal e \<and> writer_step (n, s) e t)
      \<or> (\<forall>k i. dget (bw_entries s) k = Some i \<longrightarrow> qe_future (bw_entry s i) \<noteq> FuturePending)" if zero: "n = 0"
  proof (rule disjCI)
    assume "\<not> (\<forall>k i. dget (bw_entries s) k = Some i \<longrightarrow> qe_future (bw_entry s i) \<noteq> FuturePending)"
    then obtain k i where e: "dget (bw_entries s) k = Some i" and p: "pending_entry s i" by blast
    note safe = writer_okD(2) [OF ok(1) e]
    consider "i \<in> set (bw_enqueuing s)" | "bw_worker s = Starting"
      | "bw_worker s = Working" "in_hand s i \<or> PutEntry i \<in> set (bw_calls s)"
      using safe p zero writer_okD(6) [OF ok(1)] by (cases "bw_worker s") (auto simp: entry_safe_def)
    then show "\<exists>e t. writer_internal e \<and> writer_step (n, s) e t"
    proof cases
      case 1
      then show ?thesis using enqueue_step [of i s n] writer_internal.simps(1) by blast
    next
      case 2
      then show ?thesis using start_step [of s n] writer_internal.simps(2) by blast
    next
      case 3
      show ?thesis
      proof (cases "bw_calls s")
        case (Cons cb cbs)
        with 3 call_step [of s cb cbs n] writer_internal.simps(3) show ?thesis by blast
      next
        case Nil
        with 3 consider "bw_queue s \<noteq> []" | "i \<in> set (bw_processing s)" by (cases "bw_queue s") (auto simp: in_hand_def)
        then show ?thesis
        proof cases
          case 1
          with 3 turn_step [of s n] writer_internal.simps(4) show ?thesis by blast
        next
          case 2
          then show ?thesis using process_step [of i s n] writer_internal.simps(5) by blast
        qed
      qed
    qed
  qed
qed

definition two_writes :: writer where
  "two_writes = register_metadata (CellJoinMetadata [] CtMixed) (register_write \<lparr>b_content = [], b_checksum = Some small\<rparr> small writer_init)"

theorem writes_are_not_lost_witness:
  "(\<exists>e t. writer_internal e \<and> writer_step (0, two_writes) e t) \<and> qe_future (bw_entry two_writes 0) = FuturePending"
proof -
  have "reachable (\<lambda>s. s = (0, writer_init)) writer_step (0, two_writes)"
    unfolding two_writes_def
    by (rule reach_step, rule reach_step, rule reach_start, rule refl, rule register_step, rule metadata_step)
  moreover have "dget (bw_entries two_writes) (BufferKey small) = Some 0" "qe_future (bw_entry two_writes 0) = FuturePending"
    by (simp_all add: two_writes_def register_metadata_def register_write_def store_entry_def writer_init_def
        new_queue_entry_def Let_def)
  ultimately show ?thesis using writes_are_not_lost [of 0 two_writes] by blast
qed

text \<open>A buffer write that failed stays failed. Its entry is kept with the exception, and
  while no stop was asked for no step but a flush touches it again: registering the same
  buffer anew only replaces the buffer of the entry, awaiting it gives the old exception, and
  the entry is never in the queue or in a write task again.\<close>

theorem failed_write_is_never_retried:
  assumes "reachable (\<lambda>s. s = (0, writer_init)) writer_step (0, s)"
    and "dget (bw_entries s) (BufferKey c) = Some i" and "qe_future (bw_entry s i) = FutureError x"
    and "writer_step (0, s) e (0, t)" and "e \<noteq> Flush"
  shows "dget (bw_entries t) (BufferKey c) = Some i \<and> qe_future (bw_entry t i) = FutureError x
    \<and> i \<notin> set (queued_ids (bw_queue t) @ bw_processing t)
    \<and> fst (await_existing_task c t) = Some (FutureError x)"
proof -
  have ok: "writer_ok (0, s)" "once_ok (0, s)" using writer_once.reachable_inv [OF assms(1)] by simp_all
  have out: "i \<notin> set (hands s)" using once_okD(3) [OF ok(2) assms(2)] assms(3) by simp
  have lt: "i < bw_next s" using writer_okD(1) [OF ok(1) assms(2)] by simp
  have keep: "dget (bw_entries t) (BufferKey c) = Some i \<and> qe_future (bw_entry t i) = FutureError x"
    using assms(4)
  proof cases
    case (register_step b d)
    then show ?thesis using assms(2,3) lt
      by (auto simp: register_write_def store_entry_def Let_def split: option.split)
  next
    case (metadata_step m)
    then show ?thesis using assms(2,3) lt by (auto simp: register_metadata_def store_entry_def Let_def)
  next
    case (await_step d)
    then show ?thesis using assms(2,3)
      by (auto simp: await_existing_task_def enqueue_entry_def ensure_worker_def Let_def split: option.split)
  next
    case (enqueue_step j)
    then show ?thesis using assms(2,3) by (simp add: enqueue_entry_def ensure_worker_def Let_def)
  next
    case start_step
    then show ?thesis using assms(2,3) by (auto simp: start_worker_def Let_def)
  next
    case (call_step cb cbs)
    then show ?thesis using assms(2,3) by (cases cb) auto
  next
    case turn_step
    then show ?thesis using assms(2,3) by (auto simp: worker_turn_def split: list.split queue_item.split)
  next
    case (process_step j answer)
    then have "j \<noteq> i" using out by (auto simp: hands_def)
    then show ?thesis using process_step assms(2,3)
      by (auto simp: process_entry_def drop_entry_if_def Let_def split: sum.split)
  next
    case exit_step
    then show ?thesis using writer_okD(6) [OF ok(1)] by simp
  qed (use assms(5) in simp_all)
  have "once_ok (0, t)" using once_step [OF ok assms(4)] .
  from once_okD(3) [OF this] keep have "i \<notin> set (hands t)" by fastforce
  with keep show ?thesis by (simp add: hands_def await_existing_task_def)
qed

definition small_buffer :: buffer where
  "small_buffer = \<lparr>b_content = [], b_checksum = Some small\<rparr>"

definition at_work :: writer where
  "at_work = start_worker (enqueue_entry 0 (register_write small_buffer small writer_init))"

definition failed_once :: writer where
  "failed_once = process_entry 0 (\<lambda>_. Inl RuntimeError) (worker_turn at_work)"

lemma at_work_fields:
  "bw_worker at_work = Working" "bw_queue at_work = [QueuedEntry 0]" "bw_processing at_work = []" "bw_next at_work = 1"
  "bw_entries at_work = [(BufferKey small, 0)]" "qe_key (bw_entry at_work 0) = BufferKey small"
  "qe_future (bw_entry at_work 0) = FuturePending"
  by (simp_all add: at_work_def start_worker_def waiting_entries_def enqueue_entry_def ensure_worker_def register_write_def
      store_entry_def writer_init_def new_queue_entry_def Let_def)

lemma failed_once_fields:
  "bw_entries failed_once = [(BufferKey small, 0)]" "qe_future (bw_entry failed_once 0) = FutureError RuntimeError"
  by (simp_all add: failed_once_def process_entry_def worker_turn_def at_work_fields is_metadata_def write_attempts_def
      settle_future_def Let_def)

theorem failed_write_is_never_retried_witness:
  "dget (bw_entries (register_write small_buffer small failed_once)) (BufferKey small) = Some 0
    \<and> fst (await_existing_task small (register_write small_buffer small failed_once)) = Some (FutureError RuntimeError)"
proof -
  let ?R = "reachable (\<lambda>s. s = (0, writer_init)) writer_step"
  have "?R (0, register_write small_buffer small writer_init)"
    by (rule reach_step, rule reach_start, rule refl, rule register_step)
  then have "?R (0, enqueue_entry 0 (register_write small_buffer small writer_init))"
    by - (erule reach_step, rule enqueue_step, simp add: register_write_def store_entry_def writer_init_def Let_def)
  then have "?R (0, at_work)"
    unfolding at_work_def
    by - (erule reach_step, rule start_step, simp add: register_write_def store_entry_def writer_init_def
        enqueue_entry_def ensure_worker_def Let_def)
  then have "?R (0, worker_turn at_work)"
    by - (erule reach_step, rule turn_step, simp_all add: at_work_fields)
  then have r: "?R (0, failed_once)"
    unfolding failed_once_def
    by - (erule reach_step, rule process_step, simp add: worker_turn_def at_work_fields)
  show ?thesis
    using failed_write_is_never_retried [OF r _ failed_once_fields(2) register_step [where c = small and b = small_buffer], of small] failed_once_fields
    by simp
qed

end
