(* ===== verification/Convert.thy ===== *)
theory Convert
  imports Values
begin

text \<open>
  \<open>seamless/checksum/convert.py\<close>: the conversion of a checksum from one celltype to
  another. The callback \<open>get_buffer\<close> is its outcome \<open>g\<close>: the content it
  returns or the exception it raises; \<open>_LazyBuffer\<close> asks for it at most once. A result
  is a checksum and, when a rule made new content, that content.
\<close>

type_synonym conv_result = "checksum \<times> bytes option"

section \<open>Building blocks\<close>

definition keep :: "checksum \<Rightarrow> conv_result vop" where
  "keep c = oret (c, None)"

text \<open>\<open>_buffer_result\<close>\<close>

definition buffer_result :: "'nd env \<Rightarrow> bytes result \<Rightarrow> conv_result vop" where
  "buffer_result E r = olift (rbind r (\<lambda>b. Inr (e_sha E b, Some b)))"

definition reinterpret :: "'nd env \<Rightarrow> checksum \<Rightarrow> celltype \<Rightarrow> bytes result \<Rightarrow> conv_result vop" where
  "reinterpret E c target g =
     (case (virtual (e_sha E) c target :: 'nd pyval option result) of
        Inl e \<Rightarrow> oraise e
      | Inr (Some v) \<Rightarrow> keep c
      | Inr None \<Rightarrow>
          obind (v_deserializable E c target None) (\<lambda>oh.
          obind (olift (case oh of
              None \<Rightarrow> Inr False
            | Some h \<Rightarrow> rbind (deserializable_as (e_sha E) h target c) (\<lambda>v. Inr (v = Some True)))) (\<lambda>proven.
          if proven then keep c
          else obind (olift g) (\<lambda>b. obind (parse_buffer E b c target) (\<lambda>_. keep c)))))"

definition value_of :: "'nd env \<Rightarrow> checksum \<Rightarrow> celltype \<Rightarrow> bytes result \<Rightarrow> 'nd pyval vop" where
  "value_of E c ct g =
     (case virtual (e_sha E) c ct of
        Inl e \<Rightarrow> oraise e
      | Inr (Some v) \<Rightarrow> oret v
      | Inr None \<Rightarrow>
          obind (v_deserializable E c ct None) (\<lambda>_.
          obind (olift g) (\<lambda>b. parse_buffer E b c ct)))"

section \<open>Reformatting rules\<close>

text \<open>\<open>except ValueError: pass\<close> around a read whose success keeps the checksum.\<close>

definition keep_if_reads :: "'nd env \<Rightarrow> checksum \<Rightarrow> celltype \<Rightarrow> bytes result \<Rightarrow> conv_result vop \<Rightarrow> conv_result vop"
where
  "keep_if_reads E c ct g wrap =
     otry (value_of E c ct g) (\<lambda>e. if is_ValueError e then wrap else oraise e) (\<lambda>_. keep c)"

definition wrap_binary :: "'nd env \<Rightarrow> bytes \<Rightarrow> conv_result vop" where
  "wrap_binary E b =
     buffer_result E (rbind (np_array (e_codec E) (VBytes b)) (\<lambda>n. buffer_of (e_codec E) (VArray n) CtBinary))"

definition bytes_to_binary :: "'nd env \<Rightarrow> checksum \<Rightarrow> bytes result \<Rightarrow> conv_result vop" where
  "bytes_to_binary E c g =
     obind (olift g) (\<lambda>b.
       if startswith b MAGIC_NUMPY then keep_if_reads E c CtBinary g (wrap_binary E b)
       else wrap_binary E b)"

definition wrap_mixed :: "'nd env \<Rightarrow> bytes \<Rightarrow> conv_result vop" where
  "wrap_mixed E b =
     (case decode b of
        None \<Rightarrow> wrap_binary E b
      | Some t \<Rightarrow> buffer_result E (buffer_of (e_codec E) (VStr (strip_nl t)) CtStr))"

definition bytes_to_mixed :: "'nd env \<Rightarrow> checksum \<Rightarrow> bytes result \<Rightarrow> conv_result vop" where
  "bytes_to_mixed E c g =
     (case (virtual (e_sha E) c CtMixed :: 'nd pyval option result) of
        Inl e \<Rightarrow> oraise e
      | Inr (Some v) \<Rightarrow> keep c
      | Inr None \<Rightarrow>
          obind (v_ensure E c None) (\<lambda>oh.
          obind (olift (case oh of
              None \<Rightarrow> Inr False
            | Some h \<Rightarrow> rbind (deserializable_as (e_sha E) h CtMixed c) (\<lambda>v. Inr (v = Some True)))) (\<lambda>proven.
          if proven then keep c
          else
            obind (olift g) (\<lambda>b.
            obind (olift (from_buffer (e_lib E) b)) (\<lambda>h.
            obind (olift (deserializable_as (e_sha E) h CtMixed c)) (\<lambda>v.
            if v \<noteq> Some False then keep_if_reads E c CtMixed g (wrap_mixed E b)
            else wrap_mixed E b))))))"

definition binary_to_bytes :: "'nd env \<Rightarrow> checksum \<Rightarrow> bytes result \<Rightarrow> conv_result vop" where
  "binary_to_bytes E c g =
     obind (value_of E c CtBinary g) (\<lambda>v.
       case v of
         VArray a \<Rightarrow>
           if np_kind (e_codec E) a = CHR ''S'' then
             (case np_tobytes (e_codec E) a of
                None \<Rightarrow> oraise AttributeError
              | Some b \<Rightarrow> buffer_result E (buffer_of (e_codec E) (VBytes b) CtBytes))
           else keep c
       | _ \<Rightarrow> keep c)"

definition mixed_to_bytes :: "'nd env \<Rightarrow> checksum \<Rightarrow> bytes result \<Rightarrow> conv_result vop" where
  "mixed_to_bytes E c g =
     obind (olift g) (\<lambda>b.
       if startswith b MAGIC_NUMPY then binary_to_bytes E c g
       else obind (value_of E c CtMixed g) (\<lambda>_. keep c))"

text \<open>\<open>orjson.loads\<close> on what is not a string is the same \<open>JSONDecodeError\<close>.\<close>

definition text_to_plain :: "'nd env \<Rightarrow> checksum \<Rightarrow> bytes result \<Rightarrow> conv_result vop" where
  "text_to_plain E c g =
     obind
       (case virtual (e_sha E) c CtPlain of
          Inl e \<Rightarrow> oraise e
        | Inr (Some v) \<Rightarrow> oret v
        | Inr None \<Rightarrow>
            obind (value_of E c CtText g) (\<lambda>v.
              case v of
                VStr t \<Rightarrow>
                  (case orjson_loads (e_lib E) t of
                     Inl e \<Rightarrow> if is_ValueError e then oret v else oraise e
                   | Inr w \<Rightarrow> oret w)
              | _ \<Rightarrow> oret v))
       (\<lambda>v. obind (olift (buffer_of (e_codec E) v CtPlain)) (\<lambda>b.
          if e_sha E b = c then keep c else oret (e_sha E b, Some b)))"

definition convert_reformat ::
  "'nd env \<Rightarrow> checksum \<Rightarrow> celltype \<Rightarrow> celltype \<Rightarrow> bytes result \<Rightarrow> conv_result vop" where
  "convert_reformat E c source target g =
     (if (source, target) = (CtBytes, CtBinary) then bytes_to_binary E c g
      else if (source, target) = (CtBytes, CtMixed) then bytes_to_mixed E c g
      else if (source, target) = (CtBinary, CtBytes) then binary_to_bytes E c g
      else if (source, target) = (CtMixed, CtBytes) then mixed_to_bytes E c g
      else if (source, target) = (CtPlain, CtText) then
        obind (value_of E c CtPlain g) (\<lambda>v.
          case v of
            VStr t \<Rightarrow> buffer_result E (buffer_of (e_codec E) v CtText)
          | _ \<Rightarrow> keep c)
      else if (source, target) = (CtText, CtPlain) then text_to_plain E c g
      else if (source, target) \<in> {(CtText, CtStr), (CtStr, CtText)} then
        obind (value_of E c source g) (\<lambda>v. buffer_result E (buffer_of (e_codec E) v target))
      else if (source, target) = (CtYaml, CtPlain) then
        obind (value_of E c CtYaml g) (\<lambda>v.
          buffer_result E
            (case v of
               VStr t \<Rightarrow> rbind (yaml_load (e_codec E) t) (\<lambda>w. buffer_of (e_codec E) w CtPlain)
             | _ \<Rightarrow> Inl AttributeError))
      else if (source, target) = (CtIPython, CtPython) then
        obind (value_of E c CtIPython g) (\<lambda>v.
          buffer_result E
            (case v of
               VStr t \<Rightarrow> rbind (ipython2python (e_codec E) t) (\<lambda>w. buffer_of (e_codec E) (VStr w) CtPython)
             | _ \<Rightarrow> Inl AttributeError))
      else oraise AssertionError)"

section \<open>Value rules\<close>

text \<open>\<open>getattr(builtins, target)(value)\<close>\<close>

definition builtin_of :: "'nd codec \<Rightarrow> celltype \<Rightarrow> 'nd pyval \<Rightarrow> 'nd pyval result" where
  "builtin_of K target v =
     (if target = CtInt then rbind (py_int K v) (\<lambda>i. Inr (VInt i))
      else if target = CtFloat then rbind (py_to_float K v) (\<lambda>x. Inr (VFloat x))
      else if target = CtStr then rbind (py_str K v) (\<lambda>t. Inr (VStr t))
      else if target = CtBool then rbind (py_bool K v) (\<lambda>b. Inr (VBool b))
      else Inl AttributeError)"

definition check_scalar :: "'nd codec \<Rightarrow> 'nd pyval \<Rightarrow> unit result" where
  "check_scalar K v =
     (case v of
        VDict _ \<Rightarrow> Inl TypeError
      | VList _ \<Rightarrow> Inl TypeError
      | VArray a \<Rightarrow> if np_isarray K a \<and> np_dims K a \<noteq> 0 then Inl TypeError else Inr ()
      | _ \<Rightarrow> Inr ())"

definition non_finite :: "'nd pyval \<Rightarrow> bool" where
  "non_finite v = (case v of VFloat x \<Rightarrow> \<not> finite_float x | _ \<Rightarrow> False)"

definition convert_possible ::
  "'nd env \<Rightarrow> checksum \<Rightarrow> celltype \<Rightarrow> celltype \<Rightarrow> bytes result \<Rightarrow> conv_result vop" where
  "convert_possible E c source target g =
     obind (value_of E c source g) (\<lambda>v.
     obind (olift (check_scalar (e_codec E) v)) (\<lambda>_.
     obind (olift (builtin_of (e_codec E) target v)) (\<lambda>w.
       if target = CtFloat \<and> non_finite w then oraise ValueError
       else buffer_result E (buffer_of (e_codec E) w target))))"

text \<open>\<open>Checksum(value)\<close> of the value of a checksum cell.\<close>

definition value_checksum :: "'nd pyval \<Rightarrow> checksum result" where
  "value_checksum v =
     (case v of
        VChecksum d \<Rightarrow> Inr d
      | VStr t \<Rightarrow> checksum_init (ArgStr t)
      | VBytes b \<Rightarrow> checksum_init (ArgBytes b)
      | _ \<Rightarrow> Inl TypeError)"

text \<open>The finiteness test of \<open>binary\<close> to \<open>plain\<close>; numpy's scalar floats and Python's
  complex numbers are among the array values.\<close>

definition check_plain_finite :: "'nd codec \<Rightarrow> 'nd pyval \<Rightarrow> unit result" where
  "check_plain_finite K v =
     (case v of
        VArray a \<Rightarrow>
          if np_isarray K a then
            (if np_kind K a \<in> set ''fc'' \<and> \<not> np_isfinite K a then Inl ValueError else Inr ())
          else if (np_floating K a \<noteq> None \<or> np_complex K a) \<and> \<not> np_isfinite K a then Inl ValueError
          else Inr ()
      | VFloat x \<Rightarrow> if finite_float x then Inr () else Inl ValueError
      | _ \<Rightarrow> Inr ())"

definition plain_array :: "'nd env \<Rightarrow> 'nd pyval \<Rightarrow> conv_result vop" where
  "plain_array E v =
     buffer_result E
       (case v of
          VDict _ \<Rightarrow> Inl ValueError
        | VStr _ \<Rightarrow> Inl ValueError
        | VNone \<Rightarrow> Inl ValueError
        | VBytes _ \<Rightarrow> Inl ValueError
        | VChecksum _ \<Rightarrow> Inl ValueError
        | VArray _ \<Rightarrow> Inl ValueError
        | _ \<Rightarrow>
            rbind (np_array (e_codec E) v) (\<lambda>n.
              if np_kind (e_codec E) n = CHR ''O'' then Inl ValueError
              else buffer_of (e_codec E) (VArray n) CtBinary))"

definition convert_values ::
  "'nd env \<Rightarrow> checksum \<Rightarrow> celltype \<Rightarrow> celltype \<Rightarrow> bytes result \<Rightarrow> conv_result vop" where
  "convert_values E c source target g =
     (if target = CtChecksum then buffer_result E (encode_text (hex c))
      else if source = CtChecksum then
        obind (value_of E c CtChecksum g) (\<lambda>v. obind (olift (value_checksum v)) keep)
      else
        obind (value_of E c source g) (\<lambda>v.
          if (source, target) = (CtBinary, CtPlain) then
            buffer_result E
              (rbind (check_plain_finite (e_codec E) v) (\<lambda>_.
               rbind (orjson_numpy (e_codec E) v) (\<lambda>w. buffer_of (e_codec E) w CtPlain)))
          else if (source, target) = (CtPlain, CtBinary) then plain_array E v
          else
            buffer_result E
              (rbind (builtin_of (e_codec E) target v) (\<lambda>w. buffer_of (e_codec E) w target))))"

section \<open>The engine\<close>

text \<open>The dispatch of \<open>_convert\<close> on a pair neither table redirects.\<close>

definition convert_rule ::
  "'nd env \<Rightarrow> checksum \<Rightarrow> celltype \<Rightarrow> celltype \<Rightarrow> bytes result \<Rightarrow> conv_result vop" where
  "convert_rule E c source target g =
     (if (source, target) \<in> set conversion_forbidden then oraise SeamlessConversionError
      else if (source, target) \<in> set conversion_trivial then keep c
      else if (source, target) \<in> set conversion_reinterpret then reinterpret E c target g
      else if (source, target) \<in> set conversion_reformat then convert_reformat E c source target g
      else if (source, target) \<in> set conversion_possible then convert_possible E c source target g
      else if (source, target) \<in> set conversion_values then convert_values E c source target g
      else oraise AssertionError)"

text \<open>What the second half of a chain reads: the new content if there is any.\<close>

definition next_buffer :: "bytes result \<Rightarrow> bytes option \<Rightarrow> bytes result" where
  "next_buffer g ob = (case ob of None \<Rightarrow> g | Some b \<Rightarrow> Inr b)"

definition chain_result :: "checksum \<Rightarrow> conv_result \<Rightarrow> conv_result \<Rightarrow> conv_result result" where
  "chain_result c mid final =
     (case snd final of
        Some b \<Rightarrow> Inr (fst final, Some b)
      | None \<Rightarrow>
          if fst final = c then Inr (c, None)
          else if snd mid = None \<or> fst final \<noteq> fst mid then Inl AssertionError
          else Inr (fst final, snd mid))"

function convert ::
  "'nd env \<Rightarrow> checksum \<Rightarrow> celltype \<Rightarrow> celltype \<Rightarrow> bytes result \<Rightarrow> conv_result vop" where
  "convert E c source target g =
     (if source = target then keep c
      else
        (case dget conversion_equivalent (source, target) of
           Some e \<Rightarrow> convert E c (fst e) (snd e) g
         | None \<Rightarrow>
             (case dget conversion_chain (source, target) of
                Some mid \<Rightarrow>
                  obind (convert E c source mid g) (\<lambda>m.
                  obind (convert E (fst m) mid target (next_buffer g (snd m))) (\<lambda>r.
                    olift (chain_result c m r)))
              | None \<Rightarrow> convert_rule E c source target g)))"
  by pat_completeness auto
termination
  by (relation "measure (\<lambda>(E, c, source, target, g). conv_rank (source, target))")
     (auto dest: rank_equivalent rank_chain)

declare convert.simps [simp del]

section \<open>The public functions\<close>

definition known_celltypes :: "celltype list" where
  "known_celltypes = celltypes @ DEEP_CELLTYPES"

text \<open>\<open>except (_NeedsBuffer, SeamlessConversionError, CacheMissError): raise\<close>, and any
  other \<open>Exception\<close> becomes a \<open>SeamlessConversionError\<close>; a cancellation is not
  an \<open>Exception\<close>.\<close>

definition conversion_exc :: "exc \<Rightarrow> exc" where
  "conversion_exc e =
     (case e of
        NeedsBuffer \<Rightarrow> e
      | CacheMissError _ _ \<Rightarrow> e
      | CancelledError \<Rightarrow> e
      | _ \<Rightarrow> SeamlessConversionError)"

definition legal_deep_pair :: "celltype \<Rightarrow> celltype \<Rightarrow> bool" where
  "legal_deep_pair source target \<longleftrightarrow> source = target
     \<or> (source, target) \<in> set DEEP_FREE_CONVERSIONS \<or> (source, target) = (CtFolder, CtMixed)"

definition convert_body ::
  "'nd env \<Rightarrow> checksum \<Rightarrow> celltype \<Rightarrow> celltype \<Rightarrow> bytes result \<Rightarrow> conv_result vop" where
  "convert_body E c source target g =
     (let deep = source \<in> set DEEP_CELLTYPES \<or> target \<in> set DEEP_CELLTYPES in
      if (source, target) \<in> set conversion_forbidden then oraise SeamlessConversionError
      else if deep \<and> \<not> legal_deep_pair source target then oraise SeamlessConversionError
      else if is_null_value (e_sha E) (ArgChecksum c) \<and> deep then keep c
      else if source = target \<and> source \<in> set DEEP_CELLTYPES then keep c
      else if (source, target) \<in> set DEEP_FREE_CONVERSIONS then keep c
      else if (source, target) = (CtFolder, CtMixed) then
        obind (olift g) (\<lambda>index.
        obind (buffer_get_value E index CtPlain) (\<lambda>v.
        obind (olift (py_bool (e_codec E) v)) (\<lambda>nonempty.
          if nonempty then oraise SeamlessConversionError
          else buffer_result E (buffer_of (e_codec E) (VDict []) CtMixed))))
      else if deep then oraise SeamlessConversionError
      else convert E c source target g)"

definition convert_checksum ::
  "'nd env \<Rightarrow> checksum \<Rightarrow> celltype \<Rightarrow> celltype \<Rightarrow> bytes result \<Rightarrow> conv_result vop" where
  "convert_checksum E c source target g =
     (if source \<notin> set known_celltypes \<or> target \<notin> set known_celltypes then oraise TypeError
      else otry (convert_body E c source target g) (\<lambda>e. oraise (conversion_exc e)) oret)"

text \<open>A dry run: every exception but the private signal means that no buffer is needed.\<close>

definition conversion_needs_buffer :: "'nd env \<Rightarrow> checksum \<Rightarrow> celltype \<Rightarrow> celltype \<Rightarrow> bool vop" where
  "conversion_needs_buffer E c source target =
     (if source \<notin> set known_celltypes \<or> target \<notin> set known_celltypes then oraise TypeError
      else
        otry (convert_checksum E c source target (Inl NeedsBuffer))
          (\<lambda>e. if e = NeedsBuffer then oret True else if e = CancelledError then oraise e else oret False)
          (\<lambda>_. oret False))"

section \<open>What a result says\<close>

text \<open>New content carries its own digest; without new content the checksum is kept, except
  where a checksum cell is dereferenced.\<close>

definition result_ok :: "'nd env \<Rightarrow> checksum \<Rightarrow> celltype \<Rightarrow> conv_result \<Rightarrow> bool" where
  "result_ok E c source r \<longleftrightarrow>
     (case snd r of Some b \<Rightarrow> fst r = e_sha E b | None \<Rightarrow> source = CtChecksum \<or> fst r = c)"

definition yields :: "('s, 'e, 'a) op \<Rightarrow> ('a \<Rightarrow> bool) \<Rightarrow> bool" where
  "yields m P \<longleftrightarrow> (\<forall>s x s'. m s = (Inr x, s') \<longrightarrow> P x)"

lemma yieldsD: "yields m P \<Longrightarrow> m s = (Inr x, s') \<Longrightarrow> P x"
  unfolding yields_def by blast

lemma yields_bind: "(\<And>x. yields (f x) P) \<Longrightarrow> yields (obind m f) P"
  by (auto simp: yields_def obind_Inr)

lemma yields_try: "(\<And>e. yields (h e) P) \<Longrightarrow> (\<And>x. yields (f x) P) \<Longrightarrow> yields (otry m h f) P"
  unfolding yields_def otry_def by (fastforce split: prod.splits sum.splits)

lemma yields_raise [simp]: "yields (oraise e) P"
  by (simp add: yields_def)

lemma yields_keep [simp]: "yields (keep c) (result_ok E c source)"
  by (simp add: yields_def keep_def result_ok_def)

lemma yields_buffer_result [simp]: "yields (buffer_result E r) (result_ok E c source)"
  by (cases r) (simp_all add: yields_def buffer_result_def result_ok_def)

lemma yields_weaken: "yields m P \<Longrightarrow> (\<And>x. P x \<Longrightarrow> Q x) \<Longrightarrow> yields m Q"
  unfolding yields_def by blast

lemma result_ok_source: "result_ok E c a x \<Longrightarrow> a \<noteq> CtChecksum \<Longrightarrow> result_ok E c b x"
  by (simp add: result_ok_def split: option.splits)

lemmas yields_intros = yields_bind yields_try

lemma yields_reinterpret [simp]: "yields (reinterpret E c t g) (result_ok E c source)"
  unfolding reinterpret_def by (auto intro!: yields_intros split: sum.splits option.splits)

lemma yields_wrap_binary [simp]: "yields (wrap_binary E b) (result_ok E c source)"
  unfolding wrap_binary_def by simp

lemma yields_wrap_mixed [simp]: "yields (wrap_mixed E b) (result_ok E c source)"
  unfolding wrap_mixed_def by (simp split: option.splits)

lemma yields_keep_if_reads [simp]:
  "yields wrap (result_ok E c source) \<Longrightarrow> yields (keep_if_reads E c ct g wrap) (result_ok E c source)"
  unfolding keep_if_reads_def by (intro yields_intros) auto

lemma yields_binary_to_bytes [simp]: "yields (binary_to_bytes E c g) (result_ok E c source)"
  unfolding binary_to_bytes_def by (auto intro!: yields_intros split: pyval.splits option.splits)

lemma yields_text_to_plain [simp]: "yields (text_to_plain E c g) (result_ok E c source)"
proof -
  have "yields (oret (e_sha E b, Some b)) (result_ok E c source)" for b
    by (simp add: yields_def result_ok_def)
  then show ?thesis unfolding text_to_plain_def by (auto intro!: yields_bind)
qed

lemma yields_str_case:
  "(\<And>t. yields (A t) P) \<Longrightarrow> yields B P \<Longrightarrow> yields (case v of VStr t \<Rightarrow> A t | _ \<Rightarrow> B) P"
  by (cases v) simp_all

lemma yields_bytes_to_binary [simp]: "yields (bytes_to_binary E c g) (result_ok E c source)"
  unfolding bytes_to_binary_def by (intro yields_bind) simp

lemma yields_bytes_to_mixed [simp]: "yields (bytes_to_mixed E c g) (result_ok E c source)"
proof (cases "virtual (e_sha E) c CtMixed :: 'a pyval option result")
  case (Inl e)
  then show ?thesis by (simp add: bytes_to_mixed_def)
next
  case (Inr ov)
  then show ?thesis
    by (cases ov) (auto simp: bytes_to_mixed_def intro!: yields_bind)
qed

lemma yields_mixed_to_bytes [simp]: "yields (mixed_to_bytes E c g) (result_ok E c source)"
  unfolding mixed_to_bytes_def by (auto intro!: yields_bind)

lemma yields_reformat [simp]: "yields (convert_reformat E c source t g) (result_ok E c src)"
proof -
  have plain: "yields (obind (value_of E c CtPlain g) (\<lambda>v. case v of
      VStr t \<Rightarrow> buffer_result E (buffer_of (e_codec E) v CtText) | _ \<Rightarrow> keep c)) (result_ok E c src)"
    by (intro yields_bind yields_str_case) simp_all
  have other: "yields (obind m (\<lambda>v. buffer_result E (f v))) (result_ok E c src)"
    for m :: "'a pyval vop" and f
    by (intro yields_bind) simp
  show ?thesis unfolding convert_reformat_def by (simp add: plain other)
qed

lemma yields_possible [simp]: "yields (convert_possible E c source t g) (result_ok E c src)"
  unfolding convert_possible_def by (auto intro!: yields_bind)

lemma yields_values [simp]: "yields (convert_values E c source t g) (result_ok E c source)"
proof (cases "source = CtChecksum \<and> t \<noteq> CtChecksum")
  case True
  have "yields (keep d) (result_ok E c CtChecksum)" for d
    by (simp add: yields_def keep_def result_ok_def)
  with True show ?thesis unfolding convert_values_def by (auto intro!: yields_bind)
next
  case False
  then show ?thesis
    unfolding convert_values_def plain_array_def by (auto intro!: yields_bind)
qed

lemma yields_rule: "yields (convert_rule E c source t g) (result_ok E c source)"
  unfolding convert_rule_def by simp

lemma equivalent_source: "dget conversion_equivalent (a, b) = Some e \<Longrightarrow> fst e \<noteq> CtChecksum"
proof -
  have "list_all (\<lambda>(p, e). fst e \<noteq> CtChecksum) conversion_equivalent" by code_simp
  moreover assume "dget conversion_equivalent (a, b) = Some e"
  ultimately show ?thesis by (auto simp: list_all_iff dest!: map_of_SomeD)
qed

lemma chain_no_checksum:
  "dget conversion_chain (a, b) = Some mid \<Longrightarrow> mid \<noteq> CtChecksum \<and> a \<noteq> CtChecksum"
proof -
  have "list_all (\<lambda>(p, m). m \<noteq> CtChecksum \<and> fst p \<noteq> CtChecksum) conversion_chain" by code_simp
  moreover assume "dget conversion_chain (a, b) = Some mid"
  ultimately show ?thesis by (auto simp: list_all_iff dest!: map_of_SomeD)
qed

lemma chain_result_ok:
  assumes "result_ok E c source m" "result_ok E (fst m) mid r" "mid \<noteq> CtChecksum" "source \<noteq> CtChecksum"
  shows "\<exists>x. chain_result c m r = Inr x \<and> result_ok E c source x"
proof (cases "snd r")
  case (Some b)
  with assms show ?thesis by (simp add: chain_result_def result_ok_def)
next
  case None
  with assms show ?thesis
    by (cases "snd m"; cases m) (auto simp: chain_result_def result_ok_def)
qed

lemma convert_yields: "yields (convert E c source target g) (result_ok E c source)"
proof (induction E c source target g rule: convert.induct)
  case (1 E c source target g)
  show ?case
  proof (cases "source = target")
    case True
    then show ?thesis by (simp add: convert.simps)
  next
    case ne: False
    show ?thesis
    proof (cases "dget conversion_equivalent (source, target)")
      case (Some e)
      from 1(3) [OF ne Some] equivalent_source [OF Some] ne Some show ?thesis
        by (subst convert.simps) (auto intro: yields_weaken result_ok_source)
    next
      case None
      show ?thesis
      proof (cases "dget conversion_chain (source, target)")
        case no: None
        from ne None no yields_rule show ?thesis by (subst convert.simps) simp
      next
        case (Some mid)
        note cc = chain_no_checksum [OF Some]
        show ?thesis
          unfolding yields_def
        proof (intro allI impI)
          fix s x s'
          assume "convert E c source target g s = (Inr x, s')"
          then obtain m s1 r where m: "convert E c source mid g s = (Inr m, s1)"
            and r: "convert E (fst m) mid target (next_buffer g (snd m)) s1 = (Inr r, s')"
            and x: "chain_result c m r = Inr x"
            using ne None Some by (subst (asm) convert.simps) (auto simp: obind_Inr)
          have "result_ok E c source m" "result_ok E (fst m) mid r"
            using yieldsD [OF 1(1) [OF ne None Some] m] yieldsD [OF 1(2) [OF ne None Some] r] by blast+
          from chain_result_ok [OF this] cc x show "result_ok E c source x" by auto
        qed
      qed
    qed
  qed
qed

text \<open>C11: a conversion keeps its books. For every pair of celltypes and every library, when the
  engine returns new content the checksum it returns is the digest of that content, and when it
  returns none the checksum is the one it was given, unless the source is a checksum cell, which
  is dereferenced.\<close>

theorem convert_integrity:
  assumes "convert E c source target g s = (Inr (c', ob), s')"
  shows "case ob of
      Some b \<Rightarrow> c' = e_sha E b
    | None \<Rightarrow> source = CtChecksum \<or> c' = c"
  using yieldsD [OF convert_yields assms] by (simp add: result_ok_def split: option.splits)

abbreviation sevens_hex :: bytes where
  "sevens_hex \<equiv> map of_nat (hex sevens)"

lemma convert_to_checksum:
  "convert tiny_env sevens CtStr CtChecksum (Inl NeedsBuffer) tiny_state =
    (Inr (pad_sha sevens_hex, Some sevens_hex), tiny_state)"
  by code_simp

theorem convert_integrity_witness:
  "case Some sevens_hex of
      Some b \<Rightarrow> pad_sha sevens_hex = e_sha tiny_env b
    | None \<Rightarrow> CtStr = CtChecksum \<or> pad_sha sevens_hex = sevens"
  by (rule convert_integrity [OF convert_to_checksum])

text \<open>A conversion chain never loses the buffer of its new checksum: the
  \<open>AssertionError\<close> that guards against it cannot be raised, whatever the two halves return.\<close>

theorem chain_keeps_its_buffer:
  assumes "dget conversion_chain (source, target) = Some mid"
    and "convert E c source mid g s = (Inr m, s1)"
    and "convert E (fst m) mid target (next_buffer g (snd m)) s1 = (Inr r, s2)"
  shows "\<exists>x. chain_result c m r = Inr x"
  using chain_result_ok [OF yieldsD [OF convert_yields assms(2)] yieldsD [OF convert_yields assms(3)]]
    chain_no_checksum [OF assms(1)] by blast


theorem chain_keeps_its_buffer_witness:
  "\<exists>x. chain_result sevens (sevens, None) (sevens, None) = Inr x"
proof (rule chain_keeps_its_buffer [where E = tiny_env and source = CtInt and target = CtYaml
      and mid = CtPlain and g = "Inl NeedsBuffer" and s = tiny_state])
  show "dget conversion_chain (CtInt, CtYaml) = Some CtPlain" by code_simp
  show "convert tiny_env sevens CtInt CtPlain (Inl NeedsBuffer) tiny_state = (Inr (sevens, None), tiny_state)"
    by code_simp
  show "convert tiny_env (fst (sevens, None :: bytes option)) CtPlain CtYaml
      (next_buffer (Inl NeedsBuffer) (snd (sevens, None))) tiny_state = (Inr (sevens, None), tiny_state)"
    by code_simp
qed

section \<open>Whether a buffer is needed\<close>

text \<open>An operation that answers without the buffer gives the same answer, and leaves the same
  state, for every buffer.\<close>

definition dry :: "(bytes result \<Rightarrow> ('s, exc, 'a) op) \<Rightarrow> bool" where
  "dry m \<longleftrightarrow> (\<forall>s r s'. m (Inl NeedsBuffer) s = (r, s') \<longrightarrow> r \<noteq> Inl NeedsBuffer \<longrightarrow> (\<forall>g. m g s = (r, s')))"

lemma dryD: "dry m \<Longrightarrow> m (Inl NeedsBuffer) s = (r, s') \<Longrightarrow> r \<noteq> Inl NeedsBuffer \<Longrightarrow> m g s = (r, s')"
  unfolding dry_def by blast

lemma dry_const [simp]: "dry (\<lambda>g. m)"
  by (simp add: dry_def)

lemma dry_get [simp]: "dry olift"
  by (simp add: dry_def)

lemma dry_bind [intro]:
  assumes "dry m" and "\<And>x. dry (\<lambda>g. f g x)"
  shows "dry (\<lambda>g. obind (m g) (f g))"
  unfolding dry_def
proof (intro allI impI)
  fix s r s' g
  assume run: "obind (m (Inl NeedsBuffer)) (f (Inl NeedsBuffer)) s = (r, s')" and nn: "r \<noteq> Inl NeedsBuffer"
  obtain r1 s1 where m: "m (Inl NeedsBuffer) s = (r1, s1)" by fastforce
  show "obind (m g) (f g) s = (r, s')"
  proof (cases r1)
    case (Inl e)
    with run m have r: "r = Inl e" "s' = s1" by (simp_all add: obind_def)
    with nn Inl have "m g s = (Inl e, s1)" using dryD [OF assms(1) m, of g] by simp
    with r show ?thesis by (simp add: obind_def)
  next
    case (Inr x)
    with run m have "f (Inl NeedsBuffer) x s1 = (r, s')" by (simp add: obind_def)
    from dryD [OF assms(2) this nn] have "f g x s1 = (r, s')" .
    moreover have "m g s = (Inr x, s1)" using dryD [OF assms(1) m, of g] Inr by simp
    ultimately show ?thesis by (simp add: obind_def)
  qed
qed

lemma dry_try [intro]:
  assumes "dry m" and "\<And>g s. fst (h g NeedsBuffer s) = Inl NeedsBuffer"
    and "\<And>e. dry (\<lambda>g. h g e)" and "\<And>x. dry (\<lambda>g. f g x)"
  shows "dry (\<lambda>g. otry (m g) (h g) (f g))"
  unfolding dry_def
proof (intro allI impI)
  fix s r s' g
  assume run: "otry (m (Inl NeedsBuffer)) (h (Inl NeedsBuffer)) (f (Inl NeedsBuffer)) s = (r, s')"
    and nn: "r \<noteq> Inl NeedsBuffer"
  obtain r1 s1 where m: "m (Inl NeedsBuffer) s = (r1, s1)" by fastforce
  show "otry (m g) (h g) (f g) s = (r, s')"
  proof (cases r1)
    case (Inl e)
    with run m have h: "h (Inl NeedsBuffer) e s1 = (r, s')" by (simp add: otry_def)
    with nn assms(2) [of "Inl NeedsBuffer" s1] have "e \<noteq> NeedsBuffer" by auto
    with dryD [OF assms(1) m, of g] Inl have "m g s = (Inl e, s1)" by simp
    with dryD [OF assms(3) h nn, of g] show ?thesis by (simp add: otry_def)
  next
    case (Inr x)
    with run m have "f (Inl NeedsBuffer) x s1 = (r, s')" by (simp add: otry_def)
    from dryD [OF assms(4) this nn] have "f g x s1 = (r, s')" .
    moreover have "m g s = (Inr x, s1)" using dryD [OF assms(1) m, of g] Inr by simp
    ultimately show ?thesis by (simp add: otry_def)
  qed
qed

lemma dry_if [intro]: "dry m \<Longrightarrow> dry n \<Longrightarrow> dry (\<lambda>g. if b then m g else n g)"
  by (cases b) simp_all

lemma dry_str_case:
  "(\<And>t. dry (\<lambda>g. A g t)) \<Longrightarrow> dry B \<Longrightarrow> dry (\<lambda>g. case v of VStr t \<Rightarrow> A g t | _ \<Rightarrow> B g)"
  by (cases v) simp_all

lemma dry_virtual_case:
  "dry A \<Longrightarrow> dry (\<lambda>g. case w of Inl e \<Rightarrow> oraise e | Inr ov \<Rightarrow> (case ov of None \<Rightarrow> A g | Some v \<Rightarrow> B v))"
  by (cases w; simp; rename_tac ov; case_tac ov; simp)

lemma dry_value_of: "dry (value_of E c ct)"
  unfolding value_of_def [abs_def] by (intro dry_virtual_case dry_bind dry_const dry_get)

lemma dry_reinterpret: "dry (reinterpret E c t)"
  unfolding reinterpret_def [abs_def]
  by (intro dry_virtual_case dry_bind dry_const dry_get dry_if)

lemma dry_keep_if_reads: "dry (\<lambda>g. keep_if_reads E c ct g w)"
  unfolding keep_if_reads_def
  by (intro dry_try dry_value_of) (simp_all add: is_ValueError_def)

lemma dry_reformat: "dry (convert_reformat E c a b)"
  unfolding convert_reformat_def [abs_def] bytes_to_binary_def bytes_to_mixed_def mixed_to_bytes_def
    binary_to_bytes_def text_to_plain_def
  by (intro dry_if dry_virtual_case dry_bind dry_value_of dry_keep_if_reads dry_const dry_get)

lemma dry_rule: "dry (convert_rule E c a b)"
  unfolding convert_rule_def [abs_def] convert_possible_def convert_values_def
  by (intro dry_if dry_bind dry_value_of dry_reformat dry_reinterpret dry_const)

lemma dry_convert: "dry (convert E c a b)"
proof (induction "conv_rank (a, b)" arbitrary: c a b rule: less_induct)
  case less
  show ?case
  proof (cases "a = b")
    case True
    then show ?thesis by (subst convert.simps [abs_def]) simp
  next
    case ne: False
    show ?thesis
    proof (cases "dget conversion_equivalent (a, b)")
      case (Some e)
      have "dry (convert E c (fst e) (snd e))"
        using less [of "fst e" "snd e" c] rank_equivalent [OF Some] by simp
      moreover have "convert E c a b = convert E c (fst e) (snd e)"
        using ne Some by (intro ext) (subst convert.simps, simp)
      ultimately show ?thesis by simp
    next
      case None
      show ?thesis
      proof (cases "dget conversion_chain (a, b)")
        case no: None
        have "convert E c a b = convert_rule E c a b"
          using ne None no by (intro ext) (subst convert.simps, simp)
        then show ?thesis using dry_rule by metis
      next
        case (Some mid)
        have first: "dry (convert E c a mid)" and second: "\<And>d. dry (convert E d mid b)"
          using less rank_chain [OF Some] by blast+
        have "dry (\<lambda>g. convert E (fst m) mid b (next_buffer g (snd m)))" for m
          using second by (cases "snd m") (simp_all add: next_buffer_def)
        then have "dry (\<lambda>g. obind (convert E c a mid g) (\<lambda>m.
            obind (convert E (fst m) mid b (next_buffer g (snd m))) (\<lambda>r. olift (chain_result c m r))))"
          by (intro dry_bind first dry_const)
        moreover have "convert E c a b = (\<lambda>g. obind (convert E c a mid g) (\<lambda>m.
            obind (convert E (fst m) mid b (next_buffer g (snd m))) (\<lambda>r. olift (chain_result c m r))))"
          using ne None Some by (intro ext) (subst convert.simps, simp)
        ultimately show ?thesis by simp
      qed
    qed
  qed
qed

lemma dry_olift_then: "(\<And>b. dry (\<lambda>g. f g b)) \<Longrightarrow> dry (\<lambda>g. obind (olift g) (f g))"
  by (intro dry_bind dry_get)

lemma dry_body: "dry (convert_body E c a b)"
  unfolding convert_body_def [abs_def] Let_def
  by (intro dry_if dry_bind dry_get dry_const dry_convert)

lemma conversion_exc_NeedsBuffer: "conversion_exc e = NeedsBuffer \<longleftrightarrow> e = NeedsBuffer"
  by (cases e) (simp_all add: conversion_exc_def)

lemma dry_convert_checksum: "dry (convert_checksum E c a b)"
  unfolding convert_checksum_def [abs_def]
  by (intro dry_if dry_try dry_body dry_const) (simp add: conversion_exc_def)

text \<open>C1: the dry run tells the truth. If \<open>conversion_needs_buffer\<close> says that a
  conversion needs no buffer, then the conversion has one outcome (the same result or the same
  error, and the same caches) whatever the buffer is and whether or not it can be fetched.\<close>

theorem needs_no_buffer_sound:
  assumes "conversion_needs_buffer E c source target s = (Inr False, s')"
  shows "\<exists>r. \<forall>g. convert_checksum E c source target g s = (r, s')"
proof -
  obtain r s1 where run: "convert_checksum E c source target (Inl NeedsBuffer) s = (r, s1)" by fastforce
  have "r \<noteq> Inl NeedsBuffer \<and> s1 = s'"
    using assms run
    by (cases r) (auto simp: conversion_needs_buffer_def otry_def split: if_splits)
  with dryD [OF dry_convert_checksum run] show ?thesis by blast
qed

theorem needs_no_buffer_sound_witness:
  "\<exists>r. \<forall>g. convert_checksum tiny_env sevens CtStr CtChecksum g tiny_state = (r, tiny_state)"
  by (rule needs_no_buffer_sound) code_simp

lemma convert_trivial:
  "set (conv_rules (source, target)) \<subseteq> set conversion_trivial \<Longrightarrow>
     convert E c source target g s = (Inr (c, None), s)"
proof (induction E c source target g arbitrary: s rule: convert.induct)
  case (1 E c source target g)
  show ?case
  proof (cases "source = target")
    case True
    then show ?thesis by (simp add: convert.simps keep_def)
  next
    case ne: False
    note rules = 1(4) [unfolded conv_rules.simps [of source target] if_not_P [OF ne]]
    show ?thesis
    proof (cases "dget conversion_equivalent (source, target)")
      case (Some e)
      with rules have "set (conv_rules (fst e, snd e)) \<subseteq> set conversion_trivial" by simp
      from 1(3) [OF ne Some this] ne Some show ?thesis by (simp add: convert.simps [of E c source])
    next
      case None
      show ?thesis
      proof (cases "dget conversion_chain (source, target)")
        case no: None
        with rules None have t: "(source, target) \<in> set conversion_trivial" by simp
        have "list_all (\<lambda>p. p \<notin> set conversion_forbidden) conversion_trivial" by code_simp
        with t have "(source, target) \<notin> set conversion_forbidden" by (auto simp: list_all_iff)
        with t ne None no show ?thesis
          by (simp add: convert.simps [of E c source] convert_rule_def keep_def)
      next
        case (Some mid)
        with rules None have h: "set (conv_rules (source, mid)) \<subseteq> set conversion_trivial"
          "set (conv_rules (mid, target)) \<subseteq> set conversion_trivial" by auto
        have one: "convert E c source mid g s = (Inr (c, None), s)"
          by (rule 1(1) [OF ne None Some h(1)])
        have two: "convert E (fst (c, None :: bytes option)) mid target
            (next_buffer g (snd (c, None :: bytes option))) s = (Inr (fst (c, None :: bytes option), None), s)"
          by (rule 1(2) [OF ne None Some h(2)])
        from ne None Some one two show ?thesis
          by (simp add: convert.simps [of E c source] chain_result_def)
      qed
    qed
  qed
qed

text \<open>A conversion all of whose elementary rules are trivial is free: for every checksum,
  whatever the caches hold and whatever its buffer is, it keeps the checksum, reads nothing and
  changes nothing, and the dry run announces it.\<close>

theorem trivial_conversion_is_free:
  assumes "source \<in> set celltypes" "target \<in> set celltypes"
    and "list_all (\<lambda>r. r \<in> set conversion_trivial) (conv_rules (source, target))"
  shows "convert_checksum E c source target g s = (Inr (c, None), s)
    \<and> conversion_needs_buffer E c source target s = (Inr False, s)"
proof -
  have sub: "set (conv_rules (source, target)) \<subseteq> set conversion_trivial"
    using assms(3) by (auto simp: list_all_iff)
  have nd: "ct \<in> set celltypes \<Longrightarrow> ct \<notin> set DEEP_CELLTYPES" for ct
    by (auto simp: celltypes_def DEEP_CELLTYPES_def)
  have nf: "(source, target) \<notin> set conversion_forbidden"
  proof
    assume f: "(source, target) \<in> set conversion_forbidden"
    have "list_all (\<lambda>p. \<not> set (conv_rules p) \<subseteq> set conversion_trivial) conversion_forbidden"
      by code_simp
    with f sub show False by (auto simp: list_all_iff)
  qed
  have nfree: "(source, target) \<notin> set DEEP_FREE_CONVERSIONS" "source \<noteq> CtFolder"
    using assms(1) by (auto simp: celltypes_def DEEP_FREE_CONVERSIONS_def)
  have "convert_checksum E c source target g s = (Inr (c, None), s)" for g
    using assms(1,2) nd nf nfree convert_trivial [OF sub, of E c g s]
    by (simp add: convert_checksum_def known_celltypes_def convert_body_def otry_def Let_def)
  then show ?thesis
    using assms(1,2) by (simp add: conversion_needs_buffer_def known_celltypes_def otry_def)
qed

theorem trivial_conversion_is_free_witness:
  "convert_checksum tiny_env sevens CtPython CtBytes (Inl NeedsBuffer) tiny_state = (Inr (sevens, None), tiny_state)
    \<and> conversion_needs_buffer tiny_env sevens CtPython CtBytes tiny_state = (Inr False, tiny_state)"
  by (rule trivial_conversion_is_free) code_simp+

definition refused_by_type :: "celltype \<Rightarrow> celltype \<Rightarrow> bool" where
  "refused_by_type source target \<longleftrightarrow>
     source \<notin> set known_celltypes \<or> target \<notin> set known_celltypes
     \<or> (source, target) \<in> set conversion_forbidden
     \<or> ((source \<in> set DEEP_CELLTYPES \<or> target \<in> set DEEP_CELLTYPES) \<and> \<not> legal_deep_pair source target)"



end
