(* ===== verification/ReferenceLifecycle.thy ===== *)
theory ReferenceLifecycle
  imports BufferCache "HOL-Library.Product_Lexorder"
begin

text \<open>
  \<open>seamless/reference_lifecycle.py\<close>: the registry of reference holders, the reverse index
  of their claims, and the audit that compares the claims with the buffer cache's own
  accounting. A holder is its identity, the name of its class, and what its
  \<open>_refheld_checksums\<close> answers; messages of the logger are a list of values. The weak
  reference's disappearance is a step (\<open>forget_refholder\<close>).
\<close>

section \<open>Holders and the registry\<close>

datatype claim_entry = Claim checksum ustr | BadClaim exc

record holder =
  hd_id :: nat
  hd_type :: ustr
  hd_entries :: "claim_entry list result"

type_synonym claims = "(checksum, (holder \<times> ustr) list) dict"

datatype audit_warning =
    CollectionRaised nat exc
  | ReleaseRaised nat exc
  | Unattributed checksum nat nat "(holder \<times> ustr) list"
  | NotAcquired checksum nat nat "(holder \<times> ustr) list"
  | WrongBridge checksum nat bool
  | UnmatchedManual checksum nat

type_synonym registry = "(nat, holder) dict"

definition register_refholder :: "bool \<Rightarrow> holder \<Rightarrow> registry \<Rightarrow> registry" where
  "register_refholder worker h reg = (if worker then reg else dset (hd_id h) h reg)"

definition forget_refholder :: "nat \<Rightarrow> registry \<Rightarrow> registry" where
  "forget_refholder i reg = ddel i reg"

definition registered_refholders :: "bool \<Rightarrow> registry \<Rightarrow> holder list" where
  "registered_refholders worker reg = (if worker then [] else map snd reg)"

definition clear_refholder_registry_for_tests :: "registry \<Rightarrow> registry" where
  "clear_refholder_registry_for_tests reg = []"

text \<open>\<open>safe_release_refholder\<close>: \<open>release\<close> is the holder's \<open>_release_refholds\<close>, if it has one,
  on the state it changes; no exception leaves.\<close>

definition safe_release_refholder ::
  "holder \<Rightarrow> ('s, exc, unit) op option \<Rightarrow> 's \<Rightarrow> 's \<times> audit_warning list" where
  "safe_release_refholder h release s =
     (case release of
        None \<Rightarrow> (s, [])
      | Some f \<Rightarrow> (case f s of
            (Inr _, s') \<Rightarrow> (s', [])
          | (Inl e, s') \<Rightarrow> (s', [ReleaseRaised (hd_id h) e])))"

section \<open>The reverse index\<close>

definition claim_key :: "holder \<times> ustr \<Rightarrow> ustr \<times> ustr \<times> nat" where
  "claim_key hr = (hd_type (fst hr), snd hr, hd_id (fst hr))"

text \<open>The entries of one holder, up to the first that is no claim.\<close>

fun collect_entries :: "holder \<Rightarrow> claim_entry list \<Rightarrow> claims \<Rightarrow> claims \<times> audit_warning list" where
  "collect_entries h [] cl = (cl, [])"
| "collect_entries h (BadClaim e # es) cl = (cl, [CollectionRaised (hd_id h) e])"
| "collect_entries h (Claim c role # es) cl =
     collect_entries h es (dset c (dget_or [] cl c @ [(h, role)]) cl)"

definition collect_holder :: "holder \<Rightarrow> claims \<Rightarrow> claims \<times> audit_warning list" where
  "collect_holder h cl =
     (case hd_entries h of
        Inl e \<Rightarrow> (cl, [CollectionRaised (hd_id h) e])
      | Inr es \<Rightarrow> collect_entries h es cl)"

fun collect_all :: "holder list \<Rightarrow> claims \<Rightarrow> claims \<times> audit_warning list" where
  "collect_all [] cl = (cl, [])"
| "collect_all (h # hs) cl =
     (let (cl1, w1) = collect_holder h cl; (cl2, w2) = collect_all hs cl1 in (cl2, w1 @ w2))"

definition collect_refholder_claims :: "holder list \<Rightarrow> claims \<times> audit_warning list" where
  "collect_refholder_claims hs =
     (let (cl, w) = collect_all hs [] in (map (\<lambda>(c, xs). (c, sort_key claim_key xs)) cl, w))"

section \<open>The audit\<close>

text \<open>What is said of one checksum, with the set of checksums already warned about for their
  manual references, if the caller keeps one.\<close>

definition audit_checksum ::
  "bool \<Rightarrow> (checksum, nat \<times> nat \<times> bool) dict \<Rightarrow> claims \<Rightarrow> checksum
     \<Rightarrow> checksum set option \<Rightarrow> audit_warning list \<times> checksum set option"
where
  "audit_checksum warn_manual accounting cl c warned =
     (let (count, manual, bridge) = dget_or (0, 0, False) accounting c;
          cs = dget_or [] cl c; n = length cs;
          w1 = (if count > n then [Unattributed c count n cs]
                else if n > count then [NotAcquired c count n cs] else []);
          w2 = (if bridge \<noteq> (count > 0) then [WrongBridge c count bridge] else []);
          tell = (warn_manual \<and> manual > 0 \<and> (case warned of None \<Rightarrow> True | Some W \<Rightarrow> c \<notin> W));
          w3 = (if tell then [UnmatchedManual c manual] else [])
      in (w1 @ w2 @ w3, if tell then map_option (insert c) warned else warned))"

fun audit_checksums ::
  "bool \<Rightarrow> (checksum, nat \<times> nat \<times> bool) dict \<Rightarrow> claims \<Rightarrow> checksum list
     \<Rightarrow> checksum set option \<Rightarrow> audit_warning list \<times> checksum set option"
where
  "audit_checksums warn_manual accounting cl [] warned = ([], warned)"
| "audit_checksums warn_manual accounting cl (c # cs) warned =
     (let (w, warned1) = audit_checksum warn_manual accounting cl c warned;
          (ws, warned2) = audit_checksums warn_manual accounting cl cs warned1
      in (w @ ws, warned2))"

definition audit_reference_accounting ::
  "bool \<Rightarrow> buffer_cache \<Rightarrow> holder list \<Rightarrow> bool \<Rightarrow> checksum set option
     \<Rightarrow> audit_warning list \<times> checksum set option"
where
  "audit_reference_accounting worker bc hs warn_manual warned =
     (if worker then ([], warned)
      else
        let (cl, w) = collect_refholder_claims hs;
            accounting = reference_snapshot bc;
            cs = sort_key hex (remdups (dkeys accounting @ dkeys cl));
            (ws, warned') = audit_checksums warn_manual accounting cl cs warned
        in (w @ ws, warned'))"

section \<open>What the index holds\<close>

definition well_behaved :: "holder \<Rightarrow> bool" where
  "well_behaved h \<longleftrightarrow> (case hd_entries h of
     Inl _ \<Rightarrow> False | Inr es \<Rightarrow> list_all (\<lambda>x. case x of Claim _ _ \<Rightarrow> True | BadClaim _ \<Rightarrow> False) es)"

definition entry_count :: "checksum \<Rightarrow> claim_entry list \<Rightarrow> nat" where
  "entry_count c es = length (filter (\<lambda>x. case x of Claim d _ \<Rightarrow> d = c | BadClaim _ \<Rightarrow> False) es)"

text \<open>How often the holders claim a checksum.\<close>

definition claim_count :: "holder list \<Rightarrow> checksum \<Rightarrow> nat" where
  "claim_count hs c = (\<Sum>h\<leftarrow>hs. case hd_entries h of Inl _ \<Rightarrow> 0 | Inr es \<Rightarrow> entry_count c es)"

lemma entry_count_simps [simp]:
  "entry_count c [] = 0"
  "entry_count c (Claim d r # es) = (if d = c then 1 else 0) + entry_count c es"
  by (simp_all add: entry_count_def)

lemma collect_entries_spec:
  assumes "list_all (\<lambda>x. case x of Claim _ _ \<Rightarrow> True | BadClaim _ \<Rightarrow> False) es" and "dict_wf cl"
  shows "snd (collect_entries h es cl) = []"
    and "dict_wf (fst (collect_entries h es cl))"
    and "length (dget_or [] (fst (collect_entries h es cl)) c) = length (dget_or [] cl c) + entry_count c es"
  using assms by (induction h es cl rule: collect_entries.induct) auto

lemma collect_all_spec:
  assumes "list_all well_behaved hs" and "dict_wf cl"
  shows "snd (collect_all hs cl) = []"
    and "dict_wf (fst (collect_all hs cl))"
    and "length (dget_or [] (fst (collect_all hs cl)) c) = length (dget_or [] cl c) + claim_count hs c"
proof -
  have "snd (collect_all hs cl) = [] \<and> dict_wf (fst (collect_all hs cl))
    \<and> length (dget_or [] (fst (collect_all hs cl)) c) = length (dget_or [] cl c) + claim_count hs c"
    using assms
  proof (induction hs arbitrary: cl)
    case Nil
    then show ?case by (simp add: claim_count_def)
  next
    case (Cons h hs)
    from Cons.prems(1) obtain es where es: "hd_entries h = Inr es"
        "list_all (\<lambda>x. case x of Claim _ _ \<Rightarrow> True | BadClaim _ \<Rightarrow> False) es"
      by (auto simp: well_behaved_def split: sum.splits)
    note one = collect_entries_spec [OF es(2) Cons.prems(2), of h]
    obtain cl1 where c1: "collect_entries h es cl = (cl1, [])"
      using one(1) by (metis prod.collapse)
    with one es Cons.IH [of cl1] Cons.prems show ?case
      by (simp add: collect_holder_def claim_count_def split: prod.split)
  qed
  then show "snd (collect_all hs cl) = []"
    and "dict_wf (fst (collect_all hs cl))"
    and "length (dget_or [] (fst (collect_all hs cl)) c) = length (dget_or [] cl c) + claim_count hs c"
    by simp_all
qed

lemma dget_map_values: "dget (map (\<lambda>(k, v). (k, f v)) d) k = map_option f (dget d k)"
  by (induction d) auto

lemma claims_spec:
  assumes "list_all well_behaved hs"
  shows "snd (collect_refholder_claims hs) = []"
    and "length (dget_or [] (fst (collect_refholder_claims hs)) c) = claim_count hs c"
    and "c \<notin> set (dkeys (fst (collect_refholder_claims hs))) \<Longrightarrow> claim_count hs c = 0"
proof -
  note all = collect_all_spec [OF assms dict_wf_empty]
  obtain cl where cl: "collect_all hs [] = (cl, [])" using all(1) by (metis prod.collapse)
  then show "snd (collect_refholder_claims hs) = []" by (simp add: collect_refholder_claims_def)
  have fst: "fst (collect_refholder_claims hs) = map (\<lambda>(c, xs). (c, sort_key claim_key xs)) cl"
    using cl by (simp add: collect_refholder_claims_def)
  show len: "length (dget_or [] (fst (collect_refholder_claims hs)) c) = claim_count hs c"
    using all(3) [of c] cl unfolding fst dget_or_def dget_map_values
    by (cases "dget cl c") simp_all
  show "claim_count hs c = 0" if "c \<notin> set (dkeys (fst (collect_refholder_claims hs)))"
  proof -
    from that have "dget (fst (collect_refholder_claims hs)) c = None" by (simp add: dget_None_iff)
    with len show ?thesis by simp
  qed
qed

section \<open>What the audit reports\<close>

lemma dget_map_graph: "dget (map (\<lambda>k. (k, f k)) ks) k = (if k \<in> set ks then Some (f k) else None)"
  by (induction ks) auto

lemma bridged_iff_counted:
  assumes "bc_inv bc"
  shows "(case dget (bc_strong bc) c of None \<Rightarrow> False | Some e \<Rightarrow> se_bridge e) \<longleftrightarrow> refholder_count bc c > 0"
proof -
  have "dget (bc_refholders bc) c \<noteq> Some 0" using assms by (simp add: bc_inv_def)
  then have "refholder_count bc c > 0 \<longleftrightarrow> dget (bc_refholders bc) c \<noteq> None"
    by (cases "dget (bc_refholders bc) c") (auto simp: refholder_count_def)
  then show ?thesis using assms unfolding bc_inv_def by (auto split: option.split)
qed

lemma snapshot_entry:
  assumes "bc_inv bc"
  shows "dget_or (0, 0, False) (reference_snapshot bc) c =
    (refholder_count bc c, manual_count bc c, refholder_count bc c > 0)"
proof -
  have "dget (bc_strong bc) c = None \<and> dget (bc_refholders bc) c = None"
    if "c \<notin> set (dkeys (bc_refholders bc) @ dkeys (bc_strong bc))"
    using that by (simp add: dget_None_iff)
  then have "dget_or (0, 0, False) (reference_snapshot bc) c =
    (refholder_count bc c, manual_count bc c, case dget (bc_strong bc) c of None \<Rightarrow> False | Some e \<Rightarrow> se_bridge e)"
    unfolding dget_or_def reference_snapshot_def dget_map_graph
    by (auto simp: refholder_count_def manual_count_def dget_or_def)
  with bridged_iff_counted [OF assms] show ?thesis by simp
qed

definition manual_told :: "bool \<Rightarrow> buffer_cache \<Rightarrow> checksum set option \<Rightarrow> checksum \<Rightarrow> bool" where
  "manual_told warn_manual bc warned c \<longleftrightarrow>
     warn_manual \<and> manual_count bc c > 0 \<and> (case warned of None \<Rightarrow> True | Some W \<Rightarrow> c \<notin> W)"

definition count_warnings :: "buffer_cache \<Rightarrow> claims \<Rightarrow> checksum \<Rightarrow> audit_warning list" where
  "count_warnings bc cl c =
     (let n = length (dget_or [] cl c) in
      if refholder_count bc c > n then [Unattributed c (refholder_count bc c) n (dget_or [] cl c)]
      else if n > refholder_count bc c then [NotAcquired c (refholder_count bc c) n (dget_or [] cl c)] else [])"

lemma audit_checksum_eq:
  "bc_inv bc \<Longrightarrow> audit_checksum wm (reference_snapshot bc) cl c warned =
    (count_warnings bc cl c @ (if manual_told wm bc warned c then [UnmatchedManual c (manual_count bc c)] else []),
     if manual_told wm bc warned c then map_option (insert c) warned else warned)"
  by (simp add: audit_checksum_def snapshot_entry count_warnings_def manual_told_def Let_def)

lemma manual_told_insert:
  "c \<noteq> d \<Longrightarrow> manual_told wm bc (map_option (insert d) warned) c = manual_told wm bc warned c"
  by (cases warned) (simp_all add: manual_told_def)

lemma audit_checksums_spec:
  assumes inv: "bc_inv bc" and "distinct cs"
  shows "(w \<in> set (fst (audit_checksums wm (reference_snapshot bc) cl cs warned)) \<longleftrightarrow>
      (\<exists>c\<in>set cs. w \<in> set (count_warnings bc cl c)
         \<or> manual_told wm bc warned c \<and> w = UnmatchedManual c (manual_count bc c)))
    \<and> snd (audit_checksums wm (reference_snapshot bc) cl cs warned) =
      map_option (\<lambda>W. W \<union> {c \<in> set cs. manual_told wm bc warned c}) warned"
  using assms(2)
proof (induction cs arbitrary: warned)
  case Nil
  show ?case by (cases warned) simp_all
next
  case (Cons d cs)
  let ?warned = "if manual_told wm bc warned d then map_option (insert d) warned else warned"
  have told: "manual_told wm bc ?warned c = manual_told wm bc warned c" if "c \<in> set cs" for c
    using that Cons.prems manual_told_insert [of c d wm bc warned] by auto
  have step: "audit_checksums wm (reference_snapshot bc) cl (d # cs) warned =
    (let r = audit_checksums wm (reference_snapshot bc) cl cs ?warned in
     (count_warnings bc cl d @ (if manual_told wm bc warned d then [UnmatchedManual d (manual_count bc d)] else [])
        @ fst r, snd r))"
    by (simp add: audit_checksum_eq [OF inv] Let_def split: prod.split)
  from Cons have IH: "(w \<in> set (fst (audit_checksums wm (reference_snapshot bc) cl cs ?warned)) \<longleftrightarrow>
      (\<exists>c\<in>set cs. w \<in> set (count_warnings bc cl c)
         \<or> manual_told wm bc ?warned c \<and> w = UnmatchedManual c (manual_count bc c)))"
    "snd (audit_checksums wm (reference_snapshot bc) cl cs ?warned) =
      map_option (\<lambda>W. W \<union> {c \<in> set cs. manual_told wm bc ?warned c}) ?warned" by simp_all
  have same: "{c \<in> set cs. manual_told wm bc ?warned c} = {c \<in> set cs. manual_told wm bc warned c}"
    using told by auto
  show ?case
  proof (intro conjI)
    show "w \<in> set (fst (audit_checksums wm (reference_snapshot bc) cl (d # cs) warned)) \<longleftrightarrow>
      (\<exists>c\<in>set (d # cs). w \<in> set (count_warnings bc cl c)
         \<or> manual_told wm bc warned c \<and> w = UnmatchedManual c (manual_count bc c))"
      unfolding step Let_def using IH(1) told by auto
    show "snd (audit_checksums wm (reference_snapshot bc) cl (d # cs) warned) =
      map_option (\<lambda>W. W \<union> {c \<in> set (d # cs). manual_told wm bc warned c}) warned"
      unfolding step Let_def snd_conv IH(2) same by (cases warned) auto
  qed
qed

text \<open>Every checksum with an account or a claim is looked at, once.\<close>

lemma audit_spec:
  assumes inv: "bc_inv bc" and hs: "list_all well_behaved hs"
  shows "(w \<in> set (fst (audit_reference_accounting False bc hs wm warned)) \<longleftrightarrow>
      (\<exists>c. w \<in> set (count_warnings bc (fst (collect_refholder_claims hs)) c)
         \<or> manual_told wm bc warned c \<and> w = UnmatchedManual c (manual_count bc c)))
    \<and> snd (audit_reference_accounting False bc hs wm warned) =
      map_option (\<lambda>W. W \<union> {c. manual_told wm bc warned c}) warned"
proof -
  obtain cl where cl: "collect_refholder_claims hs = (cl, [])"
    using claims_spec(1) [OF hs] by (metis prod.collapse)
  define cs where "cs = sort_key hex (remdups (dkeys (reference_snapshot bc) @ dkeys cl))"
  have run: "audit_reference_accounting False bc hs wm warned =
      audit_checksums wm (reference_snapshot bc) cl cs warned"
    by (simp add: audit_reference_accounting_def cl cs_def Let_def)
  have dist: "distinct cs" by (simp add: cs_def)
  have out: "count_warnings bc cl c = [] \<and> \<not> manual_told wm bc warned c" if "c \<notin> set cs" for c
  proof -
    from that have "c \<notin> set (dkeys (reference_snapshot bc))" and k: "c \<notin> set (dkeys cl)"
      by (auto simp: cs_def)
    then have "dget (reference_snapshot bc) c = None" by (simp add: dget_None_iff)
    with snapshot_entry [OF inv, of c] have "refholder_count bc c = 0" "manual_count bc c = 0"
      by simp_all
    moreover have "dget cl c = None" using k by (simp add: dget_None_iff)
    ultimately show ?thesis by (simp add: count_warnings_def manual_told_def)
  qed
  have told: "{c \<in> set cs. manual_told wm bc warned c} = {c. manual_told wm bc warned c}" using out by blast
  have "(\<exists>c\<in>set cs. w \<in> set (count_warnings bc cl c) \<or> manual_told wm bc warned c \<and> w = UnmatchedManual c (manual_count bc c))
    \<longleftrightarrow> (\<exists>c. w \<in> set (count_warnings bc cl c) \<or> manual_told wm bc warned c \<and> w = UnmatchedManual c (manual_count bc c))"
    using out by (metis list.set_intros(1) empty_iff empty_set)
  with audit_checksums_spec [OF inv dist, of w wm cl warned] show ?thesis
    unfolding run cl fst_conv told by simp
qed

lemma in_count_warnings:
  assumes "list_all well_behaved hs"
  shows "w \<in> set (count_warnings bc (fst (collect_refholder_claims hs)) c) \<longleftrightarrow>
    (\<exists>cs. length cs = claim_count hs c \<and> cs = dget_or [] (fst (collect_refholder_claims hs)) c \<and>
      (w = Unattributed c (refholder_count bc c) (claim_count hs c) cs \<and> refholder_count bc c > claim_count hs c
       \<or> w = NotAcquired c (refholder_count bc c) (claim_count hs c) cs \<and> refholder_count bc c < claim_count hs c))"
  using claims_spec(2) [OF assms, of c] by (auto simp: count_warnings_def Let_def)

lemma audit_silent:
  assumes "bc_inv bc" and "list_all well_behaved hs"
  shows "fst (audit_reference_accounting False bc hs False warned) = [] \<longleftrightarrow> refholder_count bc = claim_count hs"
proof -
  let ?ws = "fst (audit_reference_accounting False bc hs False warned)"
  have "?ws = [] \<longleftrightarrow> (\<forall>w. w \<notin> set ?ws)" by (cases ?ws) auto
  also have "\<dots> \<longleftrightarrow> (\<forall>c. refholder_count bc c = claim_count hs c)"
    unfolding audit_spec [OF assms, THEN conjunct1] in_count_warnings [OF assms(2)]
    using claims_spec(2) [OF assms(2)] by (auto simp: manual_told_def) (metis linorder_neqE_nat)
  also have "\<dots> \<longleftrightarrow> refholder_count bc = claim_count hs" by auto
  finally show "?ws = [] \<longleftrightarrow> refholder_count bc = claim_count hs" .
qed

text \<open>C34: the shutdown audit is exact. On a cache whose books are in order and holders whose
  claims can be read, it warns of a checksum's refholders exactly when the number of claims
  differs from the count in the cache, with both numbers and the claims; it never finds a
  wrong eviction bridge; and a manual reference is reported exactly when manual references
  are asked for, it is held and it was not reported before, so that an audit repeated with
  the set the first one leaves reports none again.\<close>

theorem audit_exact:
  assumes "bc_inv bc" and "list_all well_behaved hs"
  shows "(\<forall>w. w \<in> set (fst (audit_reference_accounting False bc hs warn_manual warned)) \<longleftrightarrow>
      (\<exists>c. w = UnmatchedManual c (manual_count bc c) \<and> warn_manual \<and> manual_count bc c > 0
             \<and> (case warned of None \<Rightarrow> True | Some W \<Rightarrow> c \<notin> W))
      \<or> (\<exists>c cs. cs = dget_or [] (fst (collect_refholder_claims hs)) c \<and> length cs = claim_count hs c
             \<and> (w = Unattributed c (refholder_count bc c) (claim_count hs c) cs
                  \<and> refholder_count bc c > claim_count hs c
                \<or> w = NotAcquired c (refholder_count bc c) (claim_count hs c) cs
                  \<and> refholder_count bc c < claim_count hs c)))
    \<and> (fst (audit_reference_accounting False bc hs False warned) = [] \<longleftrightarrow>
         refholder_count bc = claim_count hs)
    \<and> UnmatchedManual c m \<notin> set (fst (audit_reference_accounting False bc hs warn_manual
         (snd (audit_reference_accounting False bc hs warn_manual (Some W)))))"
proof (intro conjI allI)
  fix w
  show "w \<in> set (fst (audit_reference_accounting False bc hs warn_manual warned)) \<longleftrightarrow>
      (\<exists>c. w = UnmatchedManual c (manual_count bc c) \<and> warn_manual \<and> manual_count bc c > 0
             \<and> (case warned of None \<Rightarrow> True | Some W \<Rightarrow> c \<notin> W))
      \<or> (\<exists>c cs. cs = dget_or [] (fst (collect_refholder_claims hs)) c \<and> length cs = claim_count hs c
             \<and> (w = Unattributed c (refholder_count bc c) (claim_count hs c) cs
                  \<and> refholder_count bc c > claim_count hs c
                \<or> w = NotAcquired c (refholder_count bc c) (claim_count hs c) cs
                  \<and> refholder_count bc c < claim_count hs c))"
    unfolding audit_spec [OF assms, THEN conjunct1] in_count_warnings [OF assms(2)] manual_told_def by blast
next
  show "fst (audit_reference_accounting False bc hs False warned) = [] \<longleftrightarrow> refholder_count bc = claim_count hs"
    by (rule audit_silent [OF assms])
next
  show "UnmatchedManual c m \<notin> set (fst (audit_reference_accounting False bc hs warn_manual
         (snd (audit_reference_accounting False bc hs warn_manual (Some W)))))"
    unfolding audit_spec [OF assms, THEN conjunct1] in_count_warnings [OF assms(2)]
      audit_spec [OF assms, THEN conjunct2] manual_told_def by auto
qed

definition held_once :: buffer_cache where
  "held_once = snd (incref_refholder pad_sha small None None (cache_init 2))"

lemma held_once_inv: "bc_inv held_once"
  by (simp add: held_once_def inv_incref_refholder inv_init)

lemma held_once_count: "refholder_count held_once small = 1" "claim_count [] small = 0"
  by (code_simp, code_simp)

theorem audit_exact_witness:
  "Unattributed small 1 0 [] \<in> set (fst (audit_reference_accounting False held_once [] True None))"
proof -
  have "list_all well_behaved []" by simp
  from audit_exact [OF held_once_inv this, of True None, THEN conjunct1, THEN spec, THEN iffD2, OF disjI2]
  show ?thesis using held_once_count claims_spec(2) [of "[]" small] by fastforce
qed

end
