(* ===== verification/SharedEvaluation.thy ===== *)
theory SharedEvaluation
  imports ReferenceLifecycle CellJoin
begin

text \<open>
  The sharing of evaluations in \<open>seamless/checksum/expression.py\<close> (and, with the same
  registries, in \<open>celljoin.py\<close>): the objects \<open>_ActiveExpression\<close>, the maps
  \<open>_active_expressions\<close> and \<open>_lingering_expressions\<close>, joining, soft cancellation, the
  linger timer, and the release of the held inputs.

  An object lives at an address; so do the waiters (asyncio futures) and timers, and what
  the event loops still have to run is a list of callbacks. A section under
  \<open>_active_expression_lock\<close>, and a callback, is one step; the callbacks may run in any
  order, and any outcome may end an evaluation at any time, so the schedulers of threads and
  loops are covered. The claims are counted by the buffer cache of the development.
\<close>

section \<open>State\<close>

datatype cache_key = ExpressionCacheKey ustr ustr celltype celltype | CellJoinCacheKey ustr celltype

datatype outcome = Answer checksum | Failure exc | Cancellation

datatype task = NoTask | Running | Stopping | Ended

datatype evaluator = SyncOwner | LocalTask | RemoteTask

record active =
  av_future :: "outcome option"
  av_task :: task
  av_members :: "nat set"
  av_canceled :: bool
  av_waiters :: "(nat, nat) dict"
  av_listeners :: "nat list"
  av_linger :: "nat option"
  av_scratch :: bool
  av_dispatched_scratch :: "bool option"
  av_input_claims :: "checksum list"
  av_key :: cache_key
  av_kind :: evaluator
  av_inputs :: "checksum list"

text \<open>\<open>av_listeners\<close> are the waiters the future's done callbacks will wake; \<open>av_key\<close>,
  \<open>av_kind\<close> and \<open>av_inputs\<close> are what the closures around the object captured.\<close>

datatype waiter = Waiting | WaiterCanceled | Delivered outcome

datatype callback =
    Deliver nat outcome
  | CancelWaiter nat
  | Schedule nat
  | Expire nat nat
  | TaskDone nat

record shared =
  ss_object :: "nat \<Rightarrow> active"
  ss_objects :: nat
  ss_active :: "(cache_key, nat) dict"
  ss_lingering :: "(cache_key, nat) dict"
  ss_waiter :: "nat \<Rightarrow> waiter"
  ss_tickets :: nat
  ss_callbacks :: "callback list"
  ss_cache :: buffer_cache
  ss_others :: "checksum \<Rightarrow> nat"

definition new_active :: "cache_key \<Rightarrow> evaluator \<Rightarrow> active" where
  "new_active k kind = \<lparr>av_future = None, av_task = (if kind = SyncOwner then NoTask else Running),
     av_members = {}, av_canceled = False, av_waiters = [], av_listeners = [], av_linger = None,
     av_scratch = True, av_dispatched_scratch = None, av_input_claims = [],
     av_key = k, av_kind = kind, av_inputs = []\<rparr>"

definition shared_init :: "buffer_cache \<Rightarrow> shared" where
  "shared_init bc = \<lparr>ss_object = (\<lambda>_. new_active (CellJoinCacheKey [] CtMixed) SyncOwner), ss_objects = 0,
     ss_active = [], ss_lingering = [], ss_waiter = (\<lambda>_. WaiterCanceled), ss_tickets = 0,
     ss_callbacks = [], ss_cache = bc, ss_others = refholder_count bc\<rparr>"

definition on_object :: "nat \<Rightarrow> (active \<Rightarrow> active) \<Rightarrow> shared \<Rightarrow> shared" where
  "on_object i f s = s\<lparr>ss_object := (ss_object s)(i := f (ss_object s i))\<rparr>"

definition call_soon :: "callback list \<Rightarrow> shared \<Rightarrow> shared" where
  "call_soon cbs s = s\<lparr>ss_callbacks := ss_callbacks s @ cbs\<rparr>"

section \<open>Held inputs\<close>

definition unique_checksums :: "checksum list \<Rightarrow> checksum list" where
  "unique_checksums cs = fold add_distinct cs []"

definition claim_inputs :: "(bytes \<Rightarrow> checksum) \<Rightarrow> checksum list \<Rightarrow> buffer_cache \<Rightarrow> buffer_cache" where
  "claim_inputs sha cs bc = fold (\<lambda>c bc. snd (incref_refholder sha c None None bc)) cs bc"

definition release_claims :: "real \<Rightarrow> checksum list \<Rightarrow> buffer_cache \<Rightarrow> buffer_cache" where
  "release_claims now cs bc = fold (\<lambda>c bc. snd (decref_refholder now c bc)) cs bc"

definition hold_inputs :: "(bytes \<Rightarrow> checksum) \<Rightarrow> checksum list \<Rightarrow> nat \<Rightarrow> shared \<Rightarrow> shared" where
  "hold_inputs sha cs i s =
     on_object i (\<lambda>a. a\<lparr>av_input_claims := unique_checksums cs, av_inputs := cs\<rparr>)
       (s\<lparr>ss_cache := claim_inputs sha (unique_checksums cs) (ss_cache s)\<rparr>)"

definition refheld_checksums :: "active \<Rightarrow> claim_entry list" where
  "refheld_checksums a = map (\<lambda>c. Claim c (u ''expression materialization'')) (av_input_claims a)"

definition release_refholds :: "real \<Rightarrow> nat \<Rightarrow> shared \<Rightarrow> shared" where
  "release_refholds now i s =
     (let claims = av_input_claims (ss_object s i) in
      on_object i (\<lambda>a. a\<lparr>av_input_claims := []\<rparr>) (s\<lparr>ss_cache := release_claims now claims (ss_cache s)\<rparr>))"

section \<open>The shared future and the waiters\<close>

text \<open>\<open>if not future.done(): future.set_\<dots>\<close>, with the done callbacks of \<open>_join_expression\<close>.\<close>

definition set_future :: "nat \<Rightarrow> outcome \<Rightarrow> shared \<Rightarrow> shared" where
  "set_future i out s =
     (if av_future (ss_object s i) \<noteq> None then s
      else call_soon (map (\<lambda>w. Deliver w out) (av_listeners (ss_object s i)))
        (on_object i (\<lambda>a. a\<lparr>av_future := Some out\<rparr>) s))"

definition cancel_linger :: "nat \<Rightarrow> shared \<Rightarrow> shared" where
  "cancel_linger i s =
     (case av_linger (ss_object s i) of
        None \<Rightarrow> s
      | Some t \<Rightarrow> s\<lparr>ss_callbacks := filter (\<lambda>cb. case cb of Expire v _ \<Rightarrow> v \<noteq> t | _ \<Rightarrow> True) (ss_callbacks s)\<rparr>)"

definition join_expression :: "nat \<Rightarrow> nat \<Rightarrow> shared \<Rightarrow> nat \<times> shared" where
  "join_expression i m s =
     (let s1 = on_object i (\<lambda>a. a\<lparr>av_linger := None\<rparr>) (cancel_linger i s);
          w = ss_tickets s1;
          s2 = s1\<lparr>ss_tickets := Suc w, ss_waiter := (ss_waiter s1)(w := Waiting)\<rparr>;
          s3 = on_object i (\<lambda>a. a\<lparr>av_members := insert m (av_members a), av_waiters := dset m w (av_waiters a)\<rparr>) s2
      in (w, case av_future (ss_object s i) of
               None \<Rightarrow> on_object i (\<lambda>a. a\<lparr>av_listeners := av_listeners a @ [w]\<rparr>) s3
             | Some out \<Rightarrow> call_soon [Deliver w out] s3))"

section \<open>Entering an evaluation\<close>

text \<open>\<open>_active_expressions.get(key) or _lingering_expressions.pop(key, None)\<close>\<close>

definition take_active :: "cache_key \<Rightarrow> shared \<Rightarrow> nat option \<times> shared" where
  "take_active k s =
     (case dget (ss_active s) k of
        Some i \<Rightarrow> (Some i, s)
      | None \<Rightarrow> (dget (ss_lingering s) k, s\<lparr>ss_lingering := ddel k (ss_lingering s)\<rparr>))"

text \<open>\<open>_ActiveExpression(\<dots>)\<close>, \<open>hold_inputs\<close> and the task that will run it.\<close>

definition create_active ::
  "(bytes \<Rightarrow> checksum) \<Rightarrow> cache_key \<Rightarrow> evaluator \<Rightarrow> checksum list \<Rightarrow> shared \<Rightarrow> nat \<times> shared" where
  "create_active sha k kind claims s =
     (let i = ss_objects s in
      (i, hold_inputs sha claims i
            (s\<lparr>ss_objects := Suc i, ss_object := (ss_object s)(i := new_active k kind)\<rparr>)))"

definition join_or_create ::
  "(bytes \<Rightarrow> checksum) \<Rightarrow> cache_key \<Rightarrow> evaluator \<Rightarrow> checksum list \<Rightarrow> shared \<Rightarrow> nat \<times> bool \<times> shared" where
  "join_or_create sha k kind claims s =
     (let (found, s1) = take_active k s;
          fresh = (case found of None \<Rightarrow> True | Some i \<Rightarrow> av_future (ss_object s1 i) \<noteq> None);
          (i, s2) = (if fresh then create_active sha k kind claims s1 else (the found, s1))
      in (i, fresh, s2\<lparr>ss_active := dset k i (ss_active s2)\<rparr>))"

text \<open>\<open>evaluate_expression_local\<close>: the caller evaluates itself when it owns the evaluation.\<close>

definition enter_sync ::
  "(bytes \<Rightarrow> checksum) \<Rightarrow> cache_key \<Rightarrow> checksum list \<Rightarrow> nat \<Rightarrow> shared \<Rightarrow> nat \<times> bool \<times> shared" where
  "enter_sync sha k claims m s =
     (let (i, owns, s1) = join_or_create sha k SyncOwner claims s in
      (i, owns, on_object i (\<lambda>a. a\<lparr>av_members := insert m (av_members a)\<rparr>) s1))"

text \<open>\<open>evaluate_expression_local_async\<close> and \<open>evaluate_celljoin_local_async\<close>\<close>

definition enter_async ::
  "(bytes \<Rightarrow> checksum) \<Rightarrow> cache_key \<Rightarrow> checksum list \<Rightarrow> nat \<Rightarrow> shared \<Rightarrow> nat \<times> nat \<times> shared" where
  "enter_async sha k claims m s =
     (let (i, owns, s1) = join_or_create sha k LocalTask claims s; (w, s2) = join_expression i m s1
      in (i, w, s2))"

text \<open>\<open>_run_active_remote\<close>\<close>

definition enter_remote ::
  "(bytes \<Rightarrow> checksum) \<Rightarrow> cache_key \<Rightarrow> checksum list \<Rightarrow> nat \<Rightarrow> bool \<Rightarrow> shared \<Rightarrow> nat \<times> nat \<times> shared" where
  "enter_remote sha k claims m scratch s =
     (let (i, owns, s1) = join_or_create sha k RemoteTask claims s;
          s2 = on_object i (\<lambda>a. a\<lparr>av_scratch := av_scratch a \<and> scratch\<rparr>) s1;
          (w, s3) = join_expression i m s2
      in (i, w, s3))"

text \<open>The future \<open>wait_for_active_key\<close> waits for.\<close>

definition active_future :: "cache_key \<Rightarrow> shared \<Rightarrow> nat option" where
  "active_future k s = (case dget (ss_active s) k of Some i \<Rightarrow> Some i | None \<Rightarrow> dget (ss_lingering s) k)"

section \<open>Ending an evaluation\<close>

definition drop_active :: "nat \<Rightarrow> shared \<Rightarrow> shared" where
  "drop_active i s =
     (let k = av_key (ss_object s i) in
      if dget (ss_active s) k = Some i then s\<lparr>ss_active := ddel k (ss_active s)\<rparr> else s)"

definition drop_lingering :: "nat \<Rightarrow> shared \<Rightarrow> shared" where
  "drop_lingering i s =
     (let k = av_key (ss_object s i) in
      if dget (ss_lingering s) k = Some i then s\<lparr>ss_lingering := ddel k (ss_lingering s)\<rparr> else s)"

text \<open>\<open>_discard_active_expression\<close>\<close>

definition discard_active :: "real \<Rightarrow> nat \<Rightarrow> shared \<Rightarrow> shared" where
  "discard_active now i s =
     set_future i Cancellation (release_refholds now i (cancel_linger i (drop_lingering i (drop_active i s))))"

text \<open>The end of a synchronous owner.\<close>

definition finish_sync :: "real \<Rightarrow> nat \<Rightarrow> outcome \<Rightarrow> shared \<Rightarrow> shared" where
  "finish_sync now i out s =
     release_refholds now i (cancel_linger i (drop_lingering i (drop_active i (set_future i out s))))"

text \<open>The end of \<open>execute\<close>, of \<open>_execute_active_remote\<close>, and of a task cancelled before its
  first step; the task's done callback is queued.\<close>

definition end_task :: "nat \<Rightarrow> shared \<Rightarrow> shared" where
  "end_task i s = call_soon [TaskDone i] (on_object i (\<lambda>a. a\<lparr>av_task := Ended\<rparr>) s)"

definition finish_local :: "nat \<Rightarrow> outcome \<Rightarrow> shared \<Rightarrow> shared" where
  "finish_local i out s = end_task i (drop_active i (set_future i out s))"

definition begin_dispatch :: "nat \<Rightarrow> shared \<Rightarrow> shared" where
  "begin_dispatch i s = on_object i (\<lambda>a. a\<lparr>av_dispatched_scratch := Some (av_scratch a)\<rparr>) s"

definition finish_remote :: "real \<Rightarrow> nat \<Rightarrow> outcome \<Rightarrow> shared \<Rightarrow> shared" where
  "finish_remote now i out s =
     end_task i (discard_active now i (set_future i out
       (on_object i (\<lambda>a. a\<lparr>av_canceled := av_canceled a \<or> out = Cancellation\<rparr>) s)))"

section \<open>Soft cancellation and the linger timer\<close>

definition softcancel_expression :: "cache_key \<Rightarrow> nat \<Rightarrow> shared \<Rightarrow> bool \<times> shared" where
  "softcancel_expression k m s =
     (case dget (ss_active s) k of
        None \<Rightarrow> (False, s)
      | Some i \<Rightarrow>
          let a = ss_object s i in
          if m \<notin> av_members a \<or> av_future a \<noteq> None then (False, s)
          else
            let members = av_members a - {m};
                s1 = on_object i (\<lambda>a. a\<lparr>av_members := members, av_waiters := ddel m (av_waiters a)\<rparr>) s;
                s2 = call_soon (case dget (av_waiters a) m of None \<Rightarrow> [] | Some w \<Rightarrow> [CancelWaiter w]) s1
            in if members \<noteq> {} \<or> av_task a = NoTask then (True, s2)
               else (True, call_soon [Schedule i]
                      (s2\<lparr>ss_active := ddel k (ss_active s2), ss_lingering := dset k i (ss_lingering s2)\<rparr>)))"

definition schedule_expiry :: "nat \<Rightarrow> shared \<Rightarrow> shared" where
  "schedule_expiry i s =
     (let a = ss_object s i; t = ss_tickets s in
      if av_members a = {} \<and> av_future a = None then
        call_soon [Expire t i] (on_object i (\<lambda>a. a\<lparr>av_linger := Some t\<rparr>) (s\<lparr>ss_tickets := Suc t\<rparr>))
      else s)"

definition expire_lingering :: "nat \<Rightarrow> shared \<Rightarrow> shared" where
  "expire_lingering i s =
     (let a = ss_object s i; k = av_key a in
      if dget (ss_lingering s) k \<noteq> Some i then s
      else
        let s1 = s\<lparr>ss_lingering := ddel k (ss_lingering s)\<rparr> in
        if av_members a = {} \<and> av_task a = Running then on_object i (\<lambda>a. a\<lparr>av_task := Stopping\<rparr>) s1 else s1)"

definition deliver :: "nat \<Rightarrow> waiter \<Rightarrow> shared \<Rightarrow> shared" where
  "deliver w r s =
     (if ss_waiter s w \<noteq> Waiting then s else s\<lparr>ss_waiter := (ss_waiter s)(w := r)\<rparr>)"

fun run_callback :: "real \<Rightarrow> callback \<Rightarrow> shared \<Rightarrow> shared" where
  "run_callback now (Deliver w out) s = deliver w (Delivered out) s"
| "run_callback now (CancelWaiter w) s = deliver w WaiterCanceled s"
| "run_callback now (Schedule i) s = schedule_expiry i s"
| "run_callback now (Expire t i) s = expire_lingering i s"
| "run_callback now (TaskDone i) s = discard_active now i s"

section \<open>Interleavings\<close>

datatype shared_event =
    EnterSync cache_key "checksum list" nat
  | EnterAsync cache_key "checksum list" nat
  | EnterRemote cache_key "checksum list" nat bool
  | Leave cache_key nat
  | BeginDispatch nat
  | Finish nat outcome
  | NeverStarted nat
  | RunCallback nat
  | Environment

text \<open>\<open>Environment\<close> is the rest of the program at work on the buffer cache: it changes the
  counts by exactly the claims it takes and gives back itself.\<close>

inductive shared_step :: "(bytes \<Rightarrow> checksum) \<Rightarrow> shared \<Rightarrow> shared_event \<Rightarrow> shared \<Rightarrow> bool"
  for sha :: "bytes \<Rightarrow> checksum" where
  enter_sync_step: "enter_sync sha k claims m s = (i, owns, s') \<Longrightarrow> shared_step sha s (EnterSync k claims m) s'"
| enter_async_step: "enter_async sha k claims m s = (i, w, s') \<Longrightarrow> shared_step sha s (EnterAsync k claims m) s'"
| enter_remote_step:
    "enter_remote sha k claims m scratch s = (i, w, s') \<Longrightarrow> shared_step sha s (EnterRemote k claims m scratch) s'"
| leave_step: "shared_step sha s (Leave k m) (snd (softcancel_expression k m s))"
| dispatch_step: "i < ss_objects s \<Longrightarrow> shared_step sha s (BeginDispatch i) (begin_dispatch i s)"
| finish_sync_step:
    "i < ss_objects s \<Longrightarrow> av_kind (ss_object s i) = SyncOwner \<Longrightarrow> av_future (ss_object s i) = None \<Longrightarrow>
       shared_step sha s (Finish i out) (finish_sync now i out s)"
| finish_local_step:
    "i < ss_objects s \<Longrightarrow> av_kind (ss_object s i) = LocalTask \<Longrightarrow> av_task (ss_object s i) \<in> {Running, Stopping} \<Longrightarrow>
       shared_step sha s (Finish i out) (finish_local i out s)"
| finish_remote_step:
    "i < ss_objects s \<Longrightarrow> av_kind (ss_object s i) = RemoteTask \<Longrightarrow> av_task (ss_object s i) \<in> {Running, Stopping} \<Longrightarrow>
       shared_step sha s (Finish i out) (finish_remote now i out s)"
| never_started_step:
    "i < ss_objects s \<Longrightarrow> av_task (ss_object s i) = Stopping \<Longrightarrow> shared_step sha s (NeverStarted i) (end_task i s)"
| callback_step:
    "n < length (ss_callbacks s) \<Longrightarrow>
       shared_step sha s (RunCallback n)
         (run_callback now (ss_callbacks s ! n)
           (s\<lparr>ss_callbacks := take n (ss_callbacks s) @ drop (Suc n) (ss_callbacks s)\<rparr>))"
| environment_step:
    "claims_ok bc' \<Longrightarrow> (\<And>c. refholder_count bc' c + ss_others s c = refholder_count (ss_cache s) c + others' c) \<Longrightarrow>
       shared_step sha s Environment (s\<lparr>ss_cache := bc', ss_others := others'\<rparr>)"

inductive_cases shared_stepE: "shared_step sha s e s'"

definition shared_start :: "shared \<Rightarrow> bool" where
  "shared_start s \<longleftrightarrow> (\<exists>bc. claims_ok bc \<and> s = shared_init bc)"

section \<open>What the building blocks change\<close>

lemma on_object_simps [simp]:
  "ss_object (on_object i f s) j = (if j = i then f (ss_object s i) else ss_object s j)"
  "ss_objects (on_object i f s) = ss_objects s" "ss_active (on_object i f s) = ss_active s"
  "ss_lingering (on_object i f s) = ss_lingering s" "ss_waiter (on_object i f s) = ss_waiter s"
  "ss_tickets (on_object i f s) = ss_tickets s" "ss_callbacks (on_object i f s) = ss_callbacks s"
  "ss_cache (on_object i f s) = ss_cache s" "ss_others (on_object i f s) = ss_others s"
  by (simp_all add: on_object_def)

lemma call_soon_simps [simp]:
  "ss_object (call_soon cbs s) = ss_object s" "ss_objects (call_soon cbs s) = ss_objects s"
  "ss_active (call_soon cbs s) = ss_active s" "ss_lingering (call_soon cbs s) = ss_lingering s"
  "ss_waiter (call_soon cbs s) = ss_waiter s" "ss_tickets (call_soon cbs s) = ss_tickets s"
  "ss_callbacks (call_soon cbs s) = ss_callbacks s @ cbs"
  "ss_cache (call_soon cbs s) = ss_cache s" "ss_others (call_soon cbs s) = ss_others s"
  by (simp_all add: call_soon_def)

lemma set_future_simps [simp]:
  "ss_object (set_future i out s) j =
     (if j = i \<and> av_future (ss_object s i) = None then (ss_object s i)\<lparr>av_future := Some out\<rparr> else ss_object s j)"
  "ss_objects (set_future i out s) = ss_objects s" "ss_active (set_future i out s) = ss_active s"
  "ss_lingering (set_future i out s) = ss_lingering s" "ss_waiter (set_future i out s) = ss_waiter s"
  "ss_tickets (set_future i out s) = ss_tickets s"
  "ss_callbacks (set_future i out s) = ss_callbacks s
     @ (if av_future (ss_object s i) = None then map (\<lambda>w. Deliver w out) (av_listeners (ss_object s i)) else [])"
  "ss_cache (set_future i out s) = ss_cache s" "ss_others (set_future i out s) = ss_others s"
  by (auto simp: set_future_def)

definition not_timer :: "nat option \<Rightarrow> callback \<Rightarrow> bool" where
  "not_timer t cb = (case cb of Expire v _ \<Rightarrow> Some v \<noteq> t | _ \<Rightarrow> True)"

lemma cancel_linger_simps [simp]:
  "ss_object (cancel_linger i s) = ss_object s" "ss_objects (cancel_linger i s) = ss_objects s"
  "ss_active (cancel_linger i s) = ss_active s" "ss_lingering (cancel_linger i s) = ss_lingering s"
  "ss_waiter (cancel_linger i s) = ss_waiter s" "ss_tickets (cancel_linger i s) = ss_tickets s"
  "ss_callbacks (cancel_linger i s) = filter (not_timer (av_linger (ss_object s i))) (ss_callbacks s)"
  "ss_cache (cancel_linger i s) = ss_cache s" "ss_others (cancel_linger i s) = ss_others s"
  by (auto simp: cancel_linger_def not_timer_def filter_id_conv split: option.split callback.split
      intro!: filter_cong)

lemma not_timer_simps [simp]:
  "not_timer t (Deliver w out)" "not_timer t (CancelWaiter w)" "not_timer t (Schedule i)" "not_timer t (TaskDone i)"
  by (simp_all add: not_timer_def)

lemma drop_simps [simp]:
  "ss_object (drop_active i s) = ss_object s" "ss_objects (drop_active i s) = ss_objects s"
  "ss_lingering (drop_active i s) = ss_lingering s" "ss_waiter (drop_active i s) = ss_waiter s"
  "ss_tickets (drop_active i s) = ss_tickets s" "ss_callbacks (drop_active i s) = ss_callbacks s"
  "ss_cache (drop_active i s) = ss_cache s" "ss_others (drop_active i s) = ss_others s"
  "ss_object (drop_lingering i s) = ss_object s" "ss_objects (drop_lingering i s) = ss_objects s"
  "ss_active (drop_lingering i s) = ss_active s" "ss_waiter (drop_lingering i s) = ss_waiter s"
  "ss_tickets (drop_lingering i s) = ss_tickets s" "ss_callbacks (drop_lingering i s) = ss_callbacks s"
  "ss_cache (drop_lingering i s) = ss_cache s" "ss_others (drop_lingering i s) = ss_others s"
  by (simp_all add: drop_active_def drop_lingering_def Let_def)

lemma dget_drop [simp]:
  "dget (ss_active (drop_active i s)) k =
     (if dget (ss_active s) k = Some i \<and> av_key (ss_object s i) = k then None else dget (ss_active s) k)"
  "dget (ss_lingering (drop_lingering i s)) k =
     (if dget (ss_lingering s) k = Some i \<and> av_key (ss_object s i) = k then None else dget (ss_lingering s) k)"
  by (auto simp: drop_active_def drop_lingering_def Let_def)

lemma release_simps [simp]:
  "ss_object (release_refholds now i s) j =
     (if j = i then (ss_object s i)\<lparr>av_input_claims := []\<rparr> else ss_object s j)"
  "ss_objects (release_refholds now i s) = ss_objects s" "ss_active (release_refholds now i s) = ss_active s"
  "ss_lingering (release_refholds now i s) = ss_lingering s" "ss_waiter (release_refholds now i s) = ss_waiter s"
  "ss_tickets (release_refholds now i s) = ss_tickets s" "ss_callbacks (release_refholds now i s) = ss_callbacks s"
  "ss_cache (release_refholds now i s) = release_claims now (av_input_claims (ss_object s i)) (ss_cache s)"
  "ss_others (release_refholds now i s) = ss_others s"
  by (simp_all add: release_refholds_def Let_def)

lemma join_expression_simps:
  assumes "join_expression i m s = (w, s')" and "av_future (ss_object s i) = None"
  shows "ss_object s' j = (if j = i then (ss_object s i)\<lparr>av_linger := None, av_members := insert m (av_members (ss_object s i)),
      av_waiters := dset m (ss_tickets s) (av_waiters (ss_object s i)), av_listeners := av_listeners (ss_object s i) @ [ss_tickets s]\<rparr>
      else ss_object s j)"
    "ss_objects s' = ss_objects s" "ss_active s' = ss_active s" "ss_lingering s' = ss_lingering s"
    "ss_waiter s' = (ss_waiter s)(ss_tickets s := Waiting)" "ss_tickets s' = Suc (ss_tickets s)"
    "ss_callbacks s' = filter (not_timer (av_linger (ss_object s i))) (ss_callbacks s)"
    "ss_cache s' = ss_cache s" "ss_others s' = ss_others s" "w = ss_tickets s"
  using assms by (auto simp: join_expression_def Let_def)

section \<open>Counting claims\<close>

lemma claim_inputs_spec:
  assumes "claims_ok bc"
  shows "claims_ok (claim_inputs sha cs bc)
    \<and> refholder_count (claim_inputs sha cs bc) c = refholder_count bc c + count_list cs c"
  using assms
proof (induction cs arbitrary: bc)
  case Nil
  then show ?case by (simp add: claim_inputs_def)
next
  case (Cons d cs)
  from Cons.IH [of "snd (incref_refholder sha d None None bc)"] Cons.prems
  show ?case by (simp add: claim_inputs_def incref_refholder_spec)
qed

lemma release_claims_spec:
  assumes "claims_ok bc"
  shows "claims_ok (release_claims now cs bc)
    \<and> refholder_count (release_claims now cs bc) c = refholder_count bc c - count_list cs c"
  using assms
proof (induction cs arbitrary: bc)
  case Nil
  then show ?case by (simp add: release_claims_def)
next
  case (Cons d cs)
  from Cons.IH [of "snd (decref_refholder now d bc)"] Cons.prems
  show ?case by (simp add: release_claims_def decref_refholder_spec)
qed

text \<open>The claims all objects hold on a checksum.\<close>

definition held_claims :: "shared \<Rightarrow> checksum \<Rightarrow> nat" where
  "held_claims s c = (\<Sum>i\<in>{..<ss_objects s}. count_list (av_input_claims (ss_object s i)) c)"

definition books_balance :: "shared \<Rightarrow> bool" where
  "books_balance s \<longleftrightarrow> claims_ok (ss_cache s)
     \<and> (\<forall>c. refholder_count (ss_cache s) c = ss_others s c + held_claims s c)"

lemma held_claims_cong:
  "ss_objects s' = ss_objects s \<Longrightarrow> (\<And>i. av_input_claims (ss_object s' i) = av_input_claims (ss_object s i)) \<Longrightarrow>
     held_claims s' c = held_claims s c"
  by (simp add: held_claims_def)

lemma books_cong:
  "books_balance s \<Longrightarrow> ss_objects s' = ss_objects s \<Longrightarrow>
     (\<And>i. av_input_claims (ss_object s' i) = av_input_claims (ss_object s i)) \<Longrightarrow>
     ss_cache s' = ss_cache s \<Longrightarrow> ss_others s' = ss_others s \<Longrightarrow> books_balance s'"
  by (simp add: books_balance_def held_claims_def)

lemma books_release:
  assumes "books_balance s" and "i < ss_objects s"
  shows "books_balance (release_refholds now i s)"
proof -
  let ?cs = "av_input_claims (ss_object s i)"
  have split: "held_claims s c = count_list ?cs c + held_claims (release_refholds now i s) c" for c
    unfolding held_claims_def using assms(2)
    by (simp add: sum.remove [of _ i])
  from assms(1) have ok: "claims_ok (ss_cache s)" by (simp add: books_balance_def)
  show ?thesis
    unfolding books_balance_def
  proof (intro conjI allI)
    show "claims_ok (ss_cache (release_refholds now i s))" using release_claims_spec [OF ok] by simp
    fix c
    show "refholder_count (ss_cache (release_refholds now i s)) c =
        ss_others (release_refholds now i s) c + held_claims (release_refholds now i s) c"
      using release_claims_spec [OF ok, of now ?cs c] split [of c] assms(1) by (simp add: books_balance_def)
  qed
qed

lemma books_create:
  assumes "books_balance s"
  shows "books_balance (snd (create_active sha k kind claims s))"
proof -
  let ?s' = "snd (create_active sha k kind claims s)" and ?cs = "unique_checksums claims"
  have sum: "held_claims ?s' c = held_claims s c + count_list ?cs c" for c
    by (simp add: held_claims_def create_active_def hold_inputs_def Let_def)
  from assms have ok: "claims_ok (ss_cache s)" by (simp add: books_balance_def)
  show ?thesis
    unfolding books_balance_def
  proof (intro conjI allI)
    show "claims_ok (ss_cache ?s')"
      using claim_inputs_spec [OF ok] by (simp add: create_active_def hold_inputs_def Let_def)
    fix c
    have "ss_others ?s' = ss_others s" and "ss_cache ?s' = claim_inputs sha ?cs (ss_cache s)"
      by (simp_all add: create_active_def hold_inputs_def Let_def)
    then show "refholder_count (ss_cache ?s') c = ss_others ?s' c + held_claims ?s' c"
      using claim_inputs_spec [OF ok, of sha ?cs c] sum [of c] assms by (simp add: books_balance_def)
  qed
qed

section \<open>The invariant\<close>

definition object_ok :: "shared \<Rightarrow> nat \<Rightarrow> bool" where
  "object_ok s i \<longleftrightarrow>
     (av_kind (ss_object s i) = SyncOwner \<longleftrightarrow> av_task (ss_object s i) = NoTask) \<and>
     (av_task (ss_object s i) = Stopping \<longrightarrow> av_members (ss_object s i) = {}
        \<and> dget (ss_active s) (av_key (ss_object s i)) \<noteq> Some i
        \<and> dget (ss_lingering s) (av_key (ss_object s i)) \<noteq> Some i) \<and>
     (av_future (ss_object s i) = None \<longrightarrow>
        av_input_claims (ss_object s i) = unique_checksums (av_inputs (ss_object s i))) \<and>
     (av_future (ss_object s i) \<noteq> None \<and> av_input_claims (ss_object s i) \<noteq> [] \<longrightarrow> TaskDone i \<in> set (ss_callbacks s)) \<and>
     (av_future (ss_object s i) = None \<and> av_task (ss_object s i) = Ended \<longrightarrow> TaskDone i \<in> set (ss_callbacks s))"

definition maps_ok :: "shared \<Rightarrow> bool" where
  "maps_ok s \<longleftrightarrow>
     (\<forall>k i. dget (ss_active s) k = Some i \<longrightarrow> i < ss_objects s \<and> av_key (ss_object s i) = k) \<and>
     (\<forall>k i. dget (ss_lingering s) k = Some i \<longrightarrow> i < ss_objects s \<and> av_key (ss_object s i) = k
        \<and> av_members (ss_object s i) = {} \<and> dget (ss_active s) k = None)"

definition done_ok :: "shared \<Rightarrow> bool" where
  "done_ok s \<longleftrightarrow> (\<forall>i. TaskDone i \<in> set (ss_callbacks s) \<longrightarrow> i < ss_objects s \<and> av_task (ss_object s i) = Ended)"

definition waiters_ok :: "shared \<Rightarrow> bool" where
  "waiters_ok s \<longleftrightarrow> (\<forall>w. ss_waiter s w = Waiting \<longrightarrow>
     (\<exists>i < ss_objects s. av_future (ss_object s i) = None \<and> w \<in> set (av_listeners (ss_object s i)))
     \<or> (\<exists>out. Deliver w out \<in> set (ss_callbacks s)))"

definition answers_ok :: "shared \<Rightarrow> bool" where
  "answers_ok s \<longleftrightarrow> (\<forall>w out. Deliver w out \<in> set (ss_callbacks s) \<or> ss_waiter s w = Delivered out \<longrightarrow>
     (\<exists>i < ss_objects s. w \<in> set (av_listeners (ss_object s i)) \<and> av_future (ss_object s i) = Some out))"

definition shared_ok :: "shared \<Rightarrow> bool" where
  "shared_ok s \<longleftrightarrow> (\<forall>i < ss_objects s. object_ok s i) \<and> maps_ok s \<and> done_ok s \<and> waiters_ok s \<and> answers_ok s"

lemma shared_okI:
  "(\<And>i. i < ss_objects s \<Longrightarrow> object_ok s i) \<Longrightarrow> maps_ok s \<Longrightarrow> done_ok s \<Longrightarrow> waiters_ok s \<Longrightarrow> answers_ok s \<Longrightarrow> shared_ok s"
  by (simp add: shared_ok_def)

lemma shared_okD:
  assumes "shared_ok s"
  shows "i < ss_objects s \<Longrightarrow> object_ok s i" "maps_ok s" "done_ok s" "waiters_ok s" "answers_ok s"
  using assms by (simp_all add: shared_ok_def)

text \<open>What waits and what is delivered depend on little.\<close>

definition same_waiting :: "shared \<Rightarrow> shared \<Rightarrow> bool" where
  "same_waiting s' s \<longleftrightarrow> ss_waiter s' = ss_waiter s \<and> ss_objects s' = ss_objects s
     \<and> (\<forall>i. av_future (ss_object s' i) = av_future (ss_object s i))
     \<and> (\<forall>i. av_listeners (ss_object s' i) = av_listeners (ss_object s i))
     \<and> (\<forall>w out. Deliver w out \<in> set (ss_callbacks s') \<longleftrightarrow> Deliver w out \<in> set (ss_callbacks s))"

lemma waiting_cong:
  "same_waiting s' s \<Longrightarrow> waiters_ok s' = waiters_ok s" "same_waiting s' s \<Longrightarrow> answers_ok s' = answers_ok s"
  by (simp_all add: same_waiting_def waiters_ok_def answers_ok_def)

lemma waiters_simps [simp]:
  "waiters_ok (drop_active i s) = waiters_ok s" "waiters_ok (drop_lingering i s) = waiters_ok s"
  "waiters_ok (cancel_linger i s) = waiters_ok s" "waiters_ok (release_refholds now i s) = waiters_ok s"
  "waiters_ok (end_task i s) = waiters_ok s"
  "answers_ok (drop_active i s) = answers_ok s" "answers_ok (drop_lingering i s) = answers_ok s"
  "answers_ok (cancel_linger i s) = answers_ok s" "answers_ok (release_refholds now i s) = answers_ok s"
  "answers_ok (end_task i s) = answers_ok s"
  by (rule waiting_cong; simp add: same_waiting_def end_task_def)+

lemma waiters_set_future: "waiters_ok s \<Longrightarrow> waiters_ok (set_future i out s)"
  unfolding waiters_ok_def by (auto; metis image_eqI)

lemma answers_set_future: "answers_ok s \<Longrightarrow> i < ss_objects s \<Longrightarrow> answers_ok (set_future i out s)"
  unfolding answers_ok_def by (cases "av_future (ss_object s i)") (simp; fastforce)+

definition same_maps :: "shared \<Rightarrow> shared \<Rightarrow> bool" where
  "same_maps s' s \<longleftrightarrow> ss_objects s' = ss_objects s \<and> ss_active s' = ss_active s \<and> ss_lingering s' = ss_lingering s
     \<and> (\<forall>i. av_key (ss_object s' i) = av_key (ss_object s i))
     \<and> (\<forall>i. av_members (ss_object s' i) = av_members (ss_object s i))"

lemma maps_cong: "same_maps s' s \<Longrightarrow> maps_ok s' = maps_ok s"
  by (simp add: same_maps_def maps_ok_def)

lemma maps_simps [simp]:
  "maps_ok (set_future i out s) = maps_ok s" "maps_ok (cancel_linger i s) = maps_ok s"
  "maps_ok (release_refholds now i s) = maps_ok s" "maps_ok (end_task i s) = maps_ok s"
  "maps_ok (call_soon cbs s) = maps_ok s"
  by (rule maps_cong; simp add: same_maps_def end_task_def)+

lemma maps_okD:
  assumes "maps_ok s"
  shows "dget (ss_active s) k = Some i \<Longrightarrow> i < ss_objects s \<and> av_key (ss_object s i) = k"
    and "dget (ss_lingering s) k = Some i \<Longrightarrow> i < ss_objects s \<and> av_key (ss_object s i) = k
      \<and> av_members (ss_object s i) = {} \<and> dget (ss_active s) k = None"
  using assms by (auto simp: maps_ok_def)

lemma maps_drop:
  "maps_ok s \<Longrightarrow> maps_ok (drop_active i s)" "maps_ok s \<Longrightarrow> maps_ok (drop_lingering i s)"
  unfolding maps_ok_def by (simp_all split: if_splits)

lemma object_ok_other:
  assumes "object_ok s j" and "ss_object s' j = ss_object s j"
    and "TaskDone j \<in> set (ss_callbacks s) \<Longrightarrow> TaskDone j \<in> set (ss_callbacks s')"
    and "\<And>k. dget (ss_active s') k = Some j \<Longrightarrow> dget (ss_active s) k = Some j"
    and "\<And>k. dget (ss_lingering s') k = Some j \<Longrightarrow> dget (ss_lingering s) k = Some j"
  shows "object_ok s' j"
  using assms unfolding object_ok_def by metis

lemma object_ok_settled:
  assumes "object_ok s j" and "av_future (ss_object s' j) \<noteq> None" and "av_input_claims (ss_object s' j) = []"
    and "av_task (ss_object s' j) = av_task (ss_object s j)" and "av_kind (ss_object s' j) = av_kind (ss_object s j)"
    and "av_members (ss_object s' j) = av_members (ss_object s j)" and "av_key (ss_object s' j) = av_key (ss_object s j)"
    and "\<And>k. dget (ss_active s') k = Some j \<Longrightarrow> dget (ss_active s) k = Some j"
    and "\<And>k. dget (ss_lingering s') k = Some j \<Longrightarrow> dget (ss_lingering s) k = Some j"
  shows "object_ok s' j"
  using assms unfolding object_ok_def by metis

text \<open>The end of a task, local or synchronous.\<close>

lemma ok_finish_local:
  assumes ok: "shared_ok s" and i: "i < ss_objects s"
    and task: "av_task (ss_object s i) \<in> {Running, Stopping}"
  shows "shared_ok (finish_local i out s)"
proof (rule shared_okI)
  fix j assume j: "j < ss_objects (finish_local i out s)"
  then have "object_ok s j" using ok by (simp add: finish_local_def end_task_def shared_okD)
  then show "object_ok (finish_local i out s) j"
    using task by (auto simp: finish_local_def end_task_def object_ok_def)
next
  show "maps_ok (finish_local i out s)"
    using shared_okD(2) [OF ok] by (simp add: finish_local_def maps_drop)
  show "done_ok (finish_local i out s)"
    using shared_okD(3) [OF ok] i by (auto simp: finish_local_def end_task_def done_ok_def)
  show "waiters_ok (finish_local i out s)"
    using shared_okD(4) [OF ok] by (simp add: finish_local_def waiters_set_future)
  show "answers_ok (finish_local i out s)"
    using shared_okD(5) [OF ok] i by (simp add: finish_local_def answers_set_future)
qed

lemma ok_discard:
  assumes ok: "shared_ok s" and i: "i < ss_objects s"
  shows "shared_ok (discard_active now i s)"
proof (rule shared_okI)
  fix j assume j: "j < ss_objects (discard_active now i s)"
  then have "object_ok s j" using ok by (simp add: discard_active_def shared_okD)
  then show "object_ok (discard_active now i s) j"
  proof (cases "j = i")
    case True
    with \<open>object_ok s j\<close> show ?thesis
      by (elim object_ok_settled) (auto simp: discard_active_def split: if_splits)
  next
    case False
    with \<open>object_ok s j\<close> show ?thesis
      by (elim object_ok_other) (auto simp: discard_active_def split: if_splits)
  qed
next
  show "maps_ok (discard_active now i s)"
    using shared_okD(2) [OF ok] by (simp add: discard_active_def maps_drop)
  show "done_ok (discard_active now i s)"
    using shared_okD(3) [OF ok] i by (auto simp: discard_active_def done_ok_def)
  show "waiters_ok (discard_active now i s)"
    using shared_okD(4) [OF ok] by (simp add: discard_active_def waiters_set_future)
  show "answers_ok (discard_active now i s)"
    using shared_okD(5) [OF ok] i by (simp add: discard_active_def answers_set_future)
qed

lemma ok_finish_sync:
  assumes ok: "shared_ok s" and i: "i < ss_objects s"
  shows "shared_ok (finish_sync now i out s)"
proof (rule shared_okI)
  fix j assume j: "j < ss_objects (finish_sync now i out s)"
  then have "object_ok s j" using ok by (simp add: finish_sync_def shared_okD)
  then show "object_ok (finish_sync now i out s) j"
  proof (cases "j = i")
    case True
    with \<open>object_ok s j\<close> show ?thesis
      by (elim object_ok_settled) (auto simp: finish_sync_def split: if_splits)
  next
    case False
    with \<open>object_ok s j\<close> show ?thesis
      by (elim object_ok_other) (auto simp: finish_sync_def split: if_splits)
  qed
next
  show "maps_ok (finish_sync now i out s)"
    using shared_okD(2) [OF ok] by (simp add: finish_sync_def maps_drop)
  show "done_ok (finish_sync now i out s)"
    using shared_okD(3) [OF ok] i by (auto simp: finish_sync_def done_ok_def)
  show "waiters_ok (finish_sync now i out s)"
    using shared_okD(4) [OF ok] by (simp add: finish_sync_def waiters_set_future)
  show "answers_ok (finish_sync now i out s)"
    using shared_okD(5) [OF ok] i by (simp add: finish_sync_def answers_set_future)
qed

text \<open>After an answer, discarding only cleans up.\<close>

lemma discard_after_answer: "discard_active now i (set_future i out s) = finish_sync now i out s"
proof -
  have "av_future (ss_object (finish_sync now i out s) i) \<noteq> None" by (simp add: finish_sync_def)
  then show ?thesis by (simp add: discard_active_def finish_sync_def set_future_def)
qed

lemma ok_end_task:
  assumes ok: "shared_ok s" and i: "i < ss_objects s" and task: "av_task (ss_object s i) \<in> {Running, Stopping}"
  shows "shared_ok (end_task i s)"
proof (rule shared_okI)
  fix j assume j: "j < ss_objects (end_task i s)"
  then have "object_ok s j" using ok by (simp add: end_task_def shared_okD)
  with task show "object_ok (end_task i s) j" by (auto simp: end_task_def object_ok_def)
next
  show "maps_ok (end_task i s)" "waiters_ok (end_task i s)" "answers_ok (end_task i s)"
    using ok by (simp_all add: shared_okD)
  show "done_ok (end_task i s)"
    using shared_okD(3) [OF ok] i by (auto simp: end_task_def done_ok_def)
qed

text \<open>Fields no part of the invariant reads.\<close>

lemma ok_frame:
  assumes "shared_ok s" and "same_maps s' s" and "same_waiting s' s"
    and "\<And>i. av_kind (ss_object s' i) = av_kind (ss_object s i)" "\<And>i. av_task (ss_object s' i) = av_task (ss_object s i)"
    "\<And>i. av_input_claims (ss_object s' i) = av_input_claims (ss_object s i)"
    "\<And>i. av_inputs (ss_object s' i) = av_inputs (ss_object s i)"
    and "\<And>i. TaskDone i \<in> set (ss_callbacks s') \<longleftrightarrow> TaskDone i \<in> set (ss_callbacks s)"
  shows "shared_ok s'"
proof -
  have "object_ok s' i = object_ok s i" for i
    using assms(2-) by (simp add: object_ok_def same_maps_def same_waiting_def)
  moreover have "done_ok s' = done_ok s" using assms(2-) by (simp add: done_ok_def same_maps_def)
  ultimately show ?thesis
    using assms(1,2) maps_cong [OF assms(2)] waiting_cong [OF assms(3)]
    by (simp add: shared_ok_def same_maps_def)
qed

lemma ok_finish_remote:
  assumes ok: "shared_ok s" and i: "i < ss_objects s" and task: "av_task (ss_object s i) \<in> {Running, Stopping}"
  shows "shared_ok (finish_remote now i out s)"
proof -
  let ?s1 = "on_object i (\<lambda>a. a\<lparr>av_canceled := av_canceled a \<or> out = Cancellation\<rparr>) s"
  have "shared_ok ?s1"
    by (rule ok_frame [OF ok]) (simp_all add: same_maps_def same_waiting_def)
  from ok_finish_sync [OF this] i have "shared_ok (finish_sync now i out ?s1)" by simp
  from ok_end_task [OF this, of i] i task show ?thesis
    by (simp add: finish_remote_def discard_after_answer) (simp add: finish_sync_def)
qed

section \<open>Callbacks\<close>

definition without_callback :: "nat \<Rightarrow> shared \<Rightarrow> shared" where
  "without_callback n s = s\<lparr>ss_callbacks := take n (ss_callbacks s) @ drop (Suc n) (ss_callbacks s)\<rparr>"

lemma without_simps [simp]:
  "ss_object (without_callback n s) = ss_object s" "ss_objects (without_callback n s) = ss_objects s"
  "ss_active (without_callback n s) = ss_active s" "ss_lingering (without_callback n s) = ss_lingering s"
  "ss_waiter (without_callback n s) = ss_waiter s" "ss_tickets (without_callback n s) = ss_tickets s"
  "ss_cache (without_callback n s) = ss_cache s" "ss_others (without_callback n s) = ss_others s"
  by (simp_all add: without_callback_def)

lemma without_callbacks:
  assumes "n < length (ss_callbacks s)"
  shows "insert (ss_callbacks s ! n) (set (ss_callbacks (without_callback n s))) = set (ss_callbacks s)"
proof -
  have "ss_callbacks s = take n (ss_callbacks s) @ ss_callbacks s ! n # drop (Suc n) (ss_callbacks s)"
    using assms by (rule id_take_nth_drop)
  then have "set (ss_callbacks s) = set (take n (ss_callbacks s) @ ss_callbacks s ! n # drop (Suc n) (ss_callbacks s))"
    by simp
  then show ?thesis by (simp add: without_callback_def)
qed

lemma in_without:
  assumes "n < length (ss_callbacks s)" and "cb \<noteq> ss_callbacks s ! n"
  shows "cb \<in> set (ss_callbacks (without_callback n s)) \<longleftrightarrow> cb \<in> set (ss_callbacks s)"
  using without_callbacks [OF assms(1)] assms(2) by blast

lemma without_subset:
  "n < length (ss_callbacks s) \<Longrightarrow> cb \<in> set (ss_callbacks (without_callback n s)) \<Longrightarrow> cb \<in> set (ss_callbacks s)"
  using without_callbacks by blast

lemma ok_without_timer:
  assumes ok: "shared_ok s" and n: "n < length (ss_callbacks s)"
    and cb: "\<And>w out. ss_callbacks s ! n \<noteq> Deliver w out" "\<And>i. ss_callbacks s ! n \<noteq> TaskDone i"
  shows "shared_ok (without_callback n s)"
proof (rule ok_frame [OF ok])
  show "same_waiting (without_callback n s) s"
    using in_without [OF n, OF cb(1) [THEN not_sym]] by (simp add: same_waiting_def)
  show "TaskDone i \<in> set (ss_callbacks (without_callback n s)) \<longleftrightarrow> TaskDone i \<in> set (ss_callbacks s)" for i
    using in_without [OF n, OF cb(2) [THEN not_sym]] by simp
qed (simp_all add: same_maps_def)

lemma ok_cancel_waiter:
  assumes ok: "shared_ok s"
  shows "shared_ok (deliver w WaiterCanceled s)"
proof -
  have "waiters_ok (deliver w WaiterCanceled s)" "answers_ok (deliver w WaiterCanceled s)"
    using shared_okD(4,5) [OF ok] by (auto simp: deliver_def waiters_ok_def answers_ok_def)
  moreover have "object_ok (deliver w WaiterCanceled s) i = object_ok s i" for i
    by (simp add: deliver_def object_ok_def)
  ultimately show ?thesis
    using ok by (auto simp: shared_ok_def deliver_def maps_ok_def done_ok_def)
qed

lemma ok_deliver:
  assumes ok: "shared_ok s" and n: "n < length (ss_callbacks s)" and cb: "ss_callbacks s ! n = Deliver w out"
  shows "shared_ok (deliver w (Delivered out) (without_callback n s))"
proof -
  let ?s = "deliver w (Delivered out) (without_callback n s)"
  have fields: "ss_object ?s = ss_object s" "ss_objects ?s = ss_objects s" "ss_active ?s = ss_active s"
      "ss_lingering ?s = ss_lingering s" "ss_callbacks ?s = ss_callbacks (without_callback n s)"
      "ss_waiter ?s v = (if v = w \<and> ss_waiter s w = Waiting then Delivered out else ss_waiter s v)" for v
    by (auto simp: deliver_def)
  have mem: "Deliver w out \<in> set (ss_callbacks s)" using n cb by (metis nth_mem)
  have dn: "TaskDone i \<in> set (ss_callbacks (without_callback n s)) \<longleftrightarrow> TaskDone i \<in> set (ss_callbacks s)" for i
    using cb by (simp add: in_without [OF n])
  have left: "Deliver v r \<in> set (ss_callbacks (without_callback n s)) \<longleftrightarrow> Deliver v r \<in> set (ss_callbacks s)"
    if "v \<noteq> w" for v r
    using cb that by (simp add: in_without [OF n])
  show ?thesis
  proof (rule shared_okI)
    show "object_ok ?s i" if "i < ss_objects ?s" for i
    proof -
      have "object_ok ?s i = object_ok s i" by (simp only: object_ok_def fields dn)
      with that shared_okD(1) [OF ok, of i] show ?thesis by (simp only: fields)
    qed
    show "maps_ok ?s" using shared_okD(2) [OF ok] by (simp only: maps_ok_def fields)
    show "done_ok ?s" using shared_okD(3) [OF ok] by (simp only: done_ok_def fields dn)
    show "waiters_ok ?s"
      unfolding waiters_ok_def fields
    proof (intro allI impI)
      fix v assume "(if v = w \<and> ss_waiter s w = Waiting then Delivered out else ss_waiter s v) = Waiting"
      then have "v \<noteq> w" and "ss_waiter s v = Waiting" by (auto split: if_splits)
      with shared_okD(4) [OF ok] left [of v]
      show "(\<exists>i < ss_objects s. av_future (ss_object s i) = None \<and> v \<in> set (av_listeners (ss_object s i)))
          \<or> (\<exists>out. Deliver v out \<in> set (ss_callbacks (without_callback n s)))"
        by (simp add: waiters_ok_def)
    qed
    show "answers_ok ?s"
      unfolding answers_ok_def fields
      using shared_okD(5) [OF ok] mem without_subset [OF n] by (auto simp: answers_ok_def split: if_splits)
  qed
qed

lemma ok_task_done:
  assumes ok: "shared_ok s" and n: "n < length (ss_callbacks s)" and cb: "ss_callbacks s ! n = TaskDone i"
  shows "shared_ok (discard_active now i (without_callback n s))"
proof -
  let ?s = "without_callback n s"
  have mem: "TaskDone i \<in> set (ss_callbacks s)" using n cb by (metis nth_mem)
  with shared_okD(3) [OF ok] have i: "i < ss_objects s" by (simp add: done_ok_def)
  have other: "Deliver v r \<in> set (ss_callbacks ?s) \<longleftrightarrow> Deliver v r \<in> set (ss_callbacks s)" for v r
    using cb by (simp add: in_without [OF n])
  have same: "same_waiting ?s s" by (simp add: same_waiting_def other)
  have maps: "maps_ok ?s" using shared_okD(2) [OF ok] maps_cong [of ?s s] by (simp add: same_maps_def)
  show ?thesis
  proof (rule shared_okI)
    fix j assume j: "j < ss_objects (discard_active now i ?s)"
    then have "object_ok s j" using ok by (simp add: discard_active_def shared_okD)
    then show "object_ok (discard_active now i ?s) j"
    proof (cases "j = i")
      case True
      with \<open>object_ok s j\<close> show ?thesis
        by (elim object_ok_settled) (auto simp: discard_active_def split: if_splits)
    next
      case False
      then have "TaskDone j \<noteq> ss_callbacks s ! n" using cb by simp
      from False in_without [OF n this] \<open>object_ok s j\<close> show ?thesis
        by (elim object_ok_other) (auto simp: discard_active_def split: if_splits)
    qed
  next
    show "maps_ok (discard_active now i ?s)" using maps by (simp add: discard_active_def maps_drop)
    show "done_ok (discard_active now i ?s)"
      using shared_okD(3) [OF ok] i without_subset [OF n] by (auto simp: discard_active_def done_ok_def)
    show "waiters_ok (discard_active now i ?s)"
      using shared_okD(4) [OF ok] waiting_cong(1) [OF same] by (simp add: discard_active_def waiters_set_future)
    show "answers_ok (discard_active now i ?s)"
      using shared_okD(5) [OF ok] waiting_cong(2) [OF same] i by (simp add: discard_active_def answers_set_future)
  qed
qed

lemma ok_schedule:
  assumes ok: "shared_ok s"
  shows "shared_ok (schedule_expiry i s)"
  by (rule ok_frame [OF ok])
     (auto simp: schedule_expiry_def same_maps_def same_waiting_def Let_def)

text \<open>A lingering evaluation that expires leaves the map before its task is asked to stop.\<close>

lemma ok_expire:
  assumes ok: "shared_ok s"
  shows "shared_ok (expire_lingering i s)"
proof (cases "dget (ss_lingering s) (av_key (ss_object s i)) = Some i")
  case False
  then show ?thesis using ok by (simp add: expire_lingering_def)
next
  case True
  let ?k = "av_key (ss_object s i)"
  from maps_okD(2) [OF shared_okD(2) [OF ok] True]
  have i: "i < ss_objects s" "av_members (ss_object s i) = {}" "dget (ss_active s) ?k = None" by simp_all
  define s' where "s' = expire_lingering i s"
  have fields: "ss_objects s' = ss_objects s" "ss_active s' = ss_active s" "ss_callbacks s' = ss_callbacks s"
      "ss_waiter s' = ss_waiter s" "ss_lingering s' = ddel ?k (ss_lingering s)"
      "ss_object s' j = (if j = i \<and> av_task (ss_object s i) = Running then (ss_object s i)\<lparr>av_task := Stopping\<rparr>
         else ss_object s j)" for j
    using True i(2) by (auto simp: s'_def expire_lingering_def Let_def)
  show ?thesis unfolding s'_def [symmetric]
  proof (rule shared_okI)
    fix j assume "j < ss_objects s'"
    then have "object_ok s j" using ok by (simp add: fields shared_okD)
    then show "object_ok s' j"
      using i by (cases "j = i") (auto simp: object_ok_def fields)
  next
    show "maps_ok s'" using shared_okD(2) [OF ok] by (auto simp: maps_ok_def fields)
    show "done_ok s'" using shared_okD(3) [OF ok] by (auto simp: done_ok_def fields)
    have "same_waiting s' s" by (simp add: same_waiting_def fields)
    with shared_okD(4,5) [OF ok] show "waiters_ok s'" "answers_ok s'" by (simp_all add: waiting_cong)
  qed
qed

lemma ok_callback:
  assumes ok: "shared_ok s" and n: "n < length (ss_callbacks s)"
  shows "shared_ok (run_callback now (ss_callbacks s ! n) (without_callback n s))"
proof (cases "ss_callbacks s ! n")
  case (Deliver w out)
  with ok_deliver [OF ok n] show ?thesis by simp
next
  case (CancelWaiter w)
  with ok_cancel_waiter [OF ok_without_timer [OF ok n]] show ?thesis by simp
next
  case (Schedule i)
  with ok_schedule [OF ok_without_timer [OF ok n]] show ?thesis by simp
next
  case (Expire t i)
  with ok_expire [OF ok_without_timer [OF ok n]] show ?thesis by simp
next
  case (TaskDone i)
  with ok_task_done [OF ok n] show ?thesis by simp
qed

section \<open>Entering and leaving\<close>

lemma ok_softcancel:
  assumes ok: "shared_ok s"
  shows "shared_ok (snd (softcancel_expression k m s))"
proof (cases "\<exists>i. dget (ss_active s) k = Some i \<and> m \<in> av_members (ss_object s i) \<and> av_future (ss_object s i) = None")
  case False
  then show ?thesis using ok by (auto simp: softcancel_expression_def Let_def split: option.split)
next
  case True
  then obtain i where a: "dget (ss_active s) k = Some i" "m \<in> av_members (ss_object s i)"
    "av_future (ss_object s i) = None" by blast
  from maps_okD(1) [OF shared_okD(2) [OF ok] a(1)] have i: "i < ss_objects s" "av_key (ss_object s i) = k" by simp_all
  have run: "av_task (ss_object s i) \<noteq> Stopping" using shared_okD(1) [OF ok i(1)] a(1) i(2) by (simp add: object_ok_def)
  have nolinger: "dget (ss_lingering s) k = None"
    using maps_okD(2) [OF shared_okD(2) [OF ok], of k] a(1) by (cases "dget (ss_lingering s) k") auto
  have notin: "dget (ss_lingering s) j \<noteq> Some i" for j
    using maps_okD(2) [OF shared_okD(2) [OF ok], of j i] i(2) nolinger by auto
  define s' where "s' = snd (softcancel_expression k m s)"
  define out where "out \<longleftrightarrow> av_members (ss_object s i) - {m} = {} \<and> av_task (ss_object s i) \<noteq> NoTask"
  have fields: "ss_objects s' = ss_objects s" "ss_waiter s' = ss_waiter s"
      "ss_active s' = (if out then ddel k (ss_active s) else ss_active s)"
      "ss_lingering s' = (if out then dset k i (ss_lingering s) else ss_lingering s)"
      "ss_object s' j = (if j = i then (ss_object s i)\<lparr>av_members := av_members (ss_object s i) - {m},
         av_waiters := ddel m (av_waiters (ss_object s i))\<rparr> else ss_object s j)" for j
    using a by (auto simp: s'_def out_def softcancel_expression_def Let_def)
  have cbs: "TaskDone j \<in> set (ss_callbacks s') \<longleftrightarrow> TaskDone j \<in> set (ss_callbacks s)"
    "Deliver w r \<in> set (ss_callbacks s') \<longleftrightarrow> Deliver w r \<in> set (ss_callbacks s)" for j w r
    using a by (auto simp: s'_def softcancel_expression_def Let_def split: option.split)
  show ?thesis unfolding s'_def [symmetric]
  proof (rule shared_okI)
    fix j assume "j < ss_objects s'"
    then have j: "object_ok s j" using ok by (simp add: fields shared_okD)
    show "object_ok s' j"
    proof (cases "j = i")
      case True
      with j run show ?thesis by (simp add: object_ok_def fields cbs)
    next
      case False
      with j show ?thesis by (elim object_ok_other) (auto simp: fields cbs split: if_splits)
    qed
  next
    show "maps_ok s'"
      unfolding maps_ok_def
    proof (intro conjI allI impI)
      fix j l assume "dget (ss_active s') j = Some l"
      then have "dget (ss_active s) j = Some l" by (cases "out \<and> j = k") (simp_all add: fields split: if_splits)
      from maps_okD(1) [OF shared_okD(2) [OF ok] this]
      show "l < ss_objects s'" "av_key (ss_object s' l) = j" by (auto simp: fields)
    next
      fix j l assume "dget (ss_lingering s') j = Some l"
      moreover have "dget (ss_lingering s') j = (if out \<and> j = k then Some i else dget (ss_lingering s) j)"
        by (simp add: fields)
      ultimately consider "out" "j = k" "l = i" | "dget (ss_lingering s) j = Some l" "\<not> (out \<and> j = k)"
        by (cases "out \<and> j = k") auto
      then have "l < ss_objects s' \<and> av_key (ss_object s' l) = j \<and> av_members (ss_object s' l) = {}
          \<and> dget (ss_active s') j = None"
      proof cases
        case 1
        then show ?thesis using i by (simp add: fields) (simp add: out_def)
      next
        case 2
        then show ?thesis using maps_okD(2) [OF shared_okD(2) [OF ok] 2(1)] notin [of j]
          by (auto simp: fields)
      qed
      then show "l < ss_objects s'" "av_key (ss_object s' l) = j" "av_members (ss_object s' l) = {}"
        "dget (ss_active s') j = None" by simp_all
    qed
    show "done_ok s'" using shared_okD(3) [OF ok] by (auto simp: done_ok_def fields cbs)
    have "same_waiting s' s" by (simp add: same_waiting_def fields cbs)
    with shared_okD(4,5) [OF ok] show "waiters_ok s'" "answers_ok s'" by (simp_all add: waiting_cong)
  qed
qed

text \<open>Whoever enters finds or makes an object that still runs, under its key.\<close>

definition entered :: "cache_key \<Rightarrow> nat \<Rightarrow> shared \<Rightarrow> bool" where
  "entered k i s \<longleftrightarrow> i < ss_objects s \<and> av_future (ss_object s i) = None \<and> av_task (ss_object s i) \<noteq> Stopping
     \<and> dget (ss_active s) k = Some i"

lemma take_active_spec:
  assumes ok: "shared_ok s" and run: "take_active k s = (found, s1)"
  shows "ss_objects s1 = ss_objects s" "ss_object s1 = ss_object s" "ss_active s1 = ss_active s"
    "ss_callbacks s1 = ss_callbacks s" "ss_waiter s1 = ss_waiter s" "ss_cache s1 = ss_cache s"
    "ss_others s1 = ss_others s" "ss_tickets s1 = ss_tickets s"
    and "dget (ss_lingering s1) j = (if j = k then None else dget (ss_lingering s) j)"
    and "found = Some i \<Longrightarrow> i < ss_objects s \<and> av_key (ss_object s i) = k \<and> av_task (ss_object s i) \<noteq> Stopping
      \<and> (\<forall>j. dget (ss_lingering s1) j \<noteq> Some i)"
    and "found \<noteq> None \<or> dget (ss_active s) k = None"
    and "dget (ss_active s) k = Some i \<Longrightarrow> found = Some i"
proof -
  show fields: "ss_objects s1 = ss_objects s" "ss_object s1 = ss_object s" "ss_active s1 = ss_active s"
    "ss_callbacks s1 = ss_callbacks s" "ss_waiter s1 = ss_waiter s" "ss_cache s1 = ss_cache s"
    "ss_others s1 = ss_others s" "ss_tickets s1 = ss_tickets s"
    "found \<noteq> None \<or> dget (ss_active s) k = None" "dget (ss_active s) k = Some i \<Longrightarrow> found = Some i"
    using run by (auto simp: take_active_def split: option.splits)
  have nolinger: "dget (ss_lingering s) k = None" if "dget (ss_active s) k \<noteq> None"
    using maps_okD(2) [OF shared_okD(2) [OF ok], of k] that by (cases "dget (ss_lingering s) k") auto
  then show linger: "dget (ss_lingering s1) j = (if j = k then None else dget (ss_lingering s) j)" for j
    using run by (auto simp: take_active_def split: option.splits)
  show "i < ss_objects s \<and> av_key (ss_object s i) = k \<and> av_task (ss_object s i) \<noteq> Stopping
      \<and> (\<forall>j. dget (ss_lingering s1) j \<noteq> Some i)" if "found = Some i"
  proof -
    from that run consider "dget (ss_active s) k = Some i" | "dget (ss_lingering s) k = Some i"
      by (auto simp: take_active_def split: option.splits)
    then have "i < ss_objects s \<and> av_key (ss_object s i) = k \<and> av_task (ss_object s i) \<noteq> Stopping"
    proof cases
      case 1
      with maps_okD(1) [OF shared_okD(2) [OF ok] 1] shared_okD(1) [OF ok, of i] show ?thesis
        by (auto simp: object_ok_def)
    next
      case 2
      with maps_okD(2) [OF shared_okD(2) [OF ok] 2] shared_okD(1) [OF ok, of i] show ?thesis
        by (auto simp: object_ok_def)
    qed
    moreover have "dget (ss_lingering s1) j \<noteq> Some i" for j
      using maps_okD(2) [OF shared_okD(2) [OF ok], of j i] calculation by (auto simp: linger)
    ultimately show ?thesis by blast
  qed
qed

lemma create_active_simps:
  assumes "create_active sha k kind claims s = (i, s')"
  shows "i = ss_objects s" "ss_objects s' = Suc (ss_objects s)" "ss_active s' = ss_active s"
    "ss_lingering s' = ss_lingering s" "ss_waiter s' = ss_waiter s" "ss_callbacks s' = ss_callbacks s"
    "ss_others s' = ss_others s" "ss_tickets s' = ss_tickets s"
    "ss_object s' j = (if j = ss_objects s then (new_active k kind)\<lparr>av_input_claims := unique_checksums claims, av_inputs := claims\<rparr>
       else ss_object s j)"
  using assms by (auto simp: create_active_def hold_inputs_def Let_def)

lemma new_active_simps [simp]:
  "av_future (new_active k kind) = None" "av_task (new_active k kind) = (if kind = SyncOwner then NoTask else Running)"
  "av_members (new_active k kind) = {}" "av_listeners (new_active k kind) = []" "av_key (new_active k kind) = k"
  "av_kind (new_active k kind) = kind" "av_input_claims (new_active k kind) = []" "av_inputs (new_active k kind) = []"
  by (simp_all add: new_active_def)

text \<open>The state of \<open>join_or_create\<close> before the map is written.\<close>

lemma ok_join_or_create:
  assumes ok: "shared_ok s" and run: "join_or_create sha k kind claims s = (i, owns, s')"
  shows "shared_ok s' \<and> entered k i s'"
proof -
  obtain found s1 where t: "take_active k s = (found, s1)" by fastforce
  note one = take_active_spec [OF ok t]
  define fresh where "fresh = (case found of None \<Rightarrow> True | Some i \<Rightarrow> av_future (ss_object s1 i) \<noteq> None)"
  obtain j s2 where c: "(if fresh then create_active sha k kind claims s1 else (the found, s1)) = (j, s2)" by fastforce
  have s': "s' = s2\<lparr>ss_active := dset k i (ss_active s2)\<rparr>" and ij: "i = j"
    using run by (auto simp: join_or_create_def t c fresh_def [symmetric] Let_def)
  have still: "\<not> fresh \<Longrightarrow> found = Some i \<and> av_future (ss_object s i) = None \<and> s2 = s1"
    using c ij one(2) by (auto simp: fresh_def split: option.splits)
  have i: "i < ss_objects s2" "av_key (ss_object s2 i) = k" "av_future (ss_object s2 i) = None"
    "av_task (ss_object s2 i) \<noteq> Stopping" "\<And>j. dget (ss_lingering s1) j \<noteq> Some i"
  proof -
    have "i < ss_objects s2 \<and> av_key (ss_object s2 i) = k \<and> av_future (ss_object s2 i) = None
       \<and> av_task (ss_object s2 i) \<noteq> Stopping \<and> (\<forall>j. dget (ss_lingering s1) j \<noteq> Some i)"
    proof (cases fresh)
      case True
      then have "create_active sha k kind claims s1 = (i, s2)" using c ij by simp
      note cr = create_active_simps [OF this]
      have "dget (ss_lingering s1) j \<noteq> Some i" for j
        using maps_okD(2) [OF shared_okD(2) [OF ok], of j i] cr(1) one(1,9) by auto
      with cr show ?thesis by simp
    next
      case False
      with still one(10) [of i] one(1,2) show ?thesis by auto
    qed
    then show "i < ss_objects s2" "av_key (ss_object s2 i) = k" "av_future (ss_object s2 i) = None"
      "av_task (ss_object s2 i) \<noteq> Stopping" "\<And>j. dget (ss_lingering s1) j \<noteq> Some i" by simp_all
  qed
  have fields: "ss_lingering s2 = ss_lingering s1" "ss_active s2 = ss_active s" "ss_callbacks s2 = ss_callbacks s"
    "ss_waiter s2 = ss_waiter s" "ss_objects s \<le> ss_objects s2"
    and old: "\<And>l. l < ss_objects s \<Longrightarrow> ss_object s2 l = ss_object s l"
    and new: "\<And>l. l < ss_objects s2 \<Longrightarrow> \<not> l < ss_objects s \<Longrightarrow> fresh \<and> l = i"
    using c one(1-8) still create_active_simps [of sha k kind claims s1 i s2] ij
    by (auto split: if_splits)
  show ?thesis
  proof (intro conjI shared_okI)
    fix l assume l: "l < ss_objects s'"
    show "object_ok s' l"
    proof (cases "l < ss_objects s")
      case True
      with ok have "object_ok s l" by (simp add: shared_okD)
      moreover have "av_task (ss_object s i) \<noteq> Stopping" if "i < ss_objects s"
        using i(4) old [OF that] by simp
      ultimately show ?thesis
        using True i(5) one(9) fields old [OF True] by (cases "l = i") (auto simp: object_ok_def s' fields split: if_splits)
    next
      case False
      with l new have "fresh" "l = i" by (auto simp: s')
      with c ij create_active_simps [of sha k kind claims s1 i s2] show ?thesis
        by (simp add: object_ok_def s' unique_checksums_def)
    qed
  next
    show "maps_ok s'"
      unfolding maps_ok_def
    proof (intro conjI allI impI)
      fix j l assume "dget (ss_active s') j = Some l"
      then consider "j = k" "l = i" | "dget (ss_active s) j = Some l" by (cases "j = k") (simp_all add: s' fields)
      then have "l < ss_objects s2 \<and> av_key (ss_object s2 l) = j"
      proof cases
        case 1
        then show ?thesis using i by simp
      next
        case 2
        from maps_okD(1) [OF shared_okD(2) [OF ok] 2] old [of l] fields(5) show ?thesis by simp
      qed
      then show "l < ss_objects s'" "av_key (ss_object s' l) = j" by (simp_all add: s')
    next
      fix j l assume "dget (ss_lingering s') j = Some l"
      then have "j \<noteq> k" and "dget (ss_lingering s) j = Some l"
        by (cases "j = k"; simp add: s' fields one(9))+
      with maps_okD(2) [OF shared_okD(2) [OF ok], of j l] old [of l] fields(5)
      have "l < ss_objects s' \<and> av_key (ss_object s' l) = j \<and> av_members (ss_object s' l) = {}
        \<and> dget (ss_active s') j = None" by (simp add: s' fields(1-4))
      then show "l < ss_objects s'" "av_key (ss_object s' l) = j" "av_members (ss_object s' l) = {}"
        "dget (ss_active s') j = None" by simp_all
    qed
    show "done_ok s'"
      unfolding done_ok_def
    proof (intro allI impI)
      fix l assume "TaskDone l \<in> set (ss_callbacks s')"
      with shared_okD(3) [OF ok] have "l < ss_objects s" "av_task (ss_object s l) = Ended"
        by (simp_all add: done_ok_def s' fields(3))
      with old [of l] fields(5) show "l < ss_objects s' \<and> av_task (ss_object s' l) = Ended"
        by (simp add: s' fields(1-4))
    qed
    show "waiters_ok s'"
      unfolding waiters_ok_def
    proof (intro allI impI)
      fix w assume "ss_waiter s' w = Waiting"
      with shared_okD(4) [OF ok] consider l where "l < ss_objects s" "av_future (ss_object s l) = None"
          "w \<in> set (av_listeners (ss_object s l))" | out where "Deliver w out \<in> set (ss_callbacks s)"
        by (auto simp: waiters_ok_def s' fields)
      then show "(\<exists>l < ss_objects s'. av_future (ss_object s' l) = None \<and> w \<in> set (av_listeners (ss_object s' l)))
          \<or> (\<exists>out. Deliver w out \<in> set (ss_callbacks s'))"
      proof cases
        case 1
        with old [of l] fields(5) show ?thesis by (intro disjI1 exI [of _ l]) (simp add: s')
      next
        case 2
        then show ?thesis by (auto simp: s' fields)
      qed
    qed
    show "answers_ok s'"
      unfolding answers_ok_def
    proof (intro allI impI)
      fix w out assume "Deliver w out \<in> set (ss_callbacks s') \<or> ss_waiter s' w = Delivered out"
      then obtain l where "l < ss_objects s" "w \<in> set (av_listeners (ss_object s l))" "av_future (ss_object s l) = Some out"
        using shared_okD(5) [OF ok] by (auto simp: answers_ok_def s' fields)
      with old [of l] fields(5)
      show "\<exists>l < ss_objects s'. w \<in> set (av_listeners (ss_object s' l)) \<and> av_future (ss_object s' l) = Some out"
        by (intro exI [of _ l]) (simp add: s')
    qed
    show "entered k i s'" using i by (simp add: entered_def s')
  qed
qed

lemma ok_join:
  assumes ok: "shared_ok s" and e: "entered k i s" and run: "join_expression i m s = (w, s')"
  shows "shared_ok s'"
proof -
  from e have i: "i < ss_objects s" "av_future (ss_object s i) = None" "av_task (ss_object s i) \<noteq> Stopping"
    and act: "dget (ss_active s) k = Some i" by (simp_all add: entered_def)
  note fields = join_expression_simps [OF run i(2)]
  have key: "av_key (ss_object s i) = k" using maps_okD(1) [OF shared_okD(2) [OF ok] act] by simp
  have notin: "dget (ss_lingering s) j \<noteq> Some i" for j
    using maps_okD(2) [OF shared_okD(2) [OF ok], of j i] act key by auto
  show ?thesis
  proof (rule shared_okI)
    fix l assume "l < ss_objects s'"
    then have l: "object_ok s l" using ok by (simp add: fields shared_okD)
    show "object_ok s' l"
    proof (cases "l = i")
      case True
      with l i show ?thesis by (simp add: object_ok_def fields)
    next
      case False
      with l show ?thesis by (elim object_ok_other) (simp_all add: fields)
    qed
  next
    show "maps_ok s'"
      using shared_okD(2) [OF ok] notin by (auto simp: maps_ok_def fields)
    show "done_ok s'" using shared_okD(3) [OF ok] by (auto simp: done_ok_def fields)
    show "waiters_ok s'"
      using shared_okD(4) [OF ok] i by (auto simp: waiters_ok_def fields)
    show "answers_ok s'"
      unfolding answers_ok_def
    proof (intro allI impI)
      fix v out assume "Deliver v out \<in> set (ss_callbacks s') \<or> ss_waiter s' v = Delivered out"
      then have "Deliver v out \<in> set (ss_callbacks s) \<or> ss_waiter s v = Delivered out"
        by (auto simp: fields split: if_splits)
      with shared_okD(5) [OF ok] obtain l where "l < ss_objects s" "v \<in> set (av_listeners (ss_object s l))"
        "av_future (ss_object s l) = Some out" by (auto simp: answers_ok_def)
      then show "\<exists>l < ss_objects s'. v \<in> set (av_listeners (ss_object s' l)) \<and> av_future (ss_object s' l) = Some out"
        by (intro exI [of _ l]) (auto simp: fields)
    qed
  qed
qed

lemma ok_add_member:
  assumes ok: "shared_ok s" and e: "entered k i s"
  shows "shared_ok (on_object i (\<lambda>a. a\<lparr>av_members := insert m (av_members a)\<rparr>) s)"
proof -
  from e have i: "av_task (ss_object s i) \<noteq> Stopping" and act: "dget (ss_active s) k = Some i"
    by (simp_all add: entered_def)
  have key: "av_key (ss_object s i) = k" using maps_okD(1) [OF shared_okD(2) [OF ok] act] by simp
  have notin: "dget (ss_lingering s) j \<noteq> Some i" for j
    using maps_okD(2) [OF shared_okD(2) [OF ok], of j i] act key by auto
  let ?s = "on_object i (\<lambda>a. a\<lparr>av_members := insert m (av_members a)\<rparr>) s"
  have "same_waiting ?s s" by (simp add: same_waiting_def)
  with shared_okD(4,5) [OF ok] have "waiters_ok ?s" "answers_ok ?s" by (simp_all add: waiting_cong)
  moreover have "object_ok ?s l" if "l < ss_objects s" for l
    using shared_okD(1) [OF ok that] i by (cases "l = i") (simp_all add: object_ok_def)
  moreover have "maps_ok ?s" using shared_okD(2) [OF ok] notin by (auto simp: maps_ok_def)
  moreover have "done_ok ?s" using shared_okD(3) [OF ok] by (auto simp: done_ok_def)
  ultimately show ?thesis by (simp add: shared_ok_def)
qed

lemma ok_mark_scratch:
  assumes "shared_ok s"
  shows "shared_ok (on_object i (\<lambda>a. a\<lparr>av_scratch := f a\<rparr>) s)"
    and "shared_ok (on_object i (\<lambda>a. a\<lparr>av_dispatched_scratch := g a\<rparr>) s)"
  by (rule ok_frame [OF assms]; simp add: same_maps_def same_waiting_def)+

lemma entered_mark: "entered k i (on_object j (\<lambda>a. a\<lparr>av_scratch := f a\<rparr>) s) = entered k i s"
  by (simp add: entered_def)

lemma ok_start: "shared_ok (shared_init bc)"
  by (simp add: shared_ok_def shared_init_def maps_ok_def done_ok_def waiters_ok_def answers_ok_def)

lemma ok_step:
  assumes ok: "shared_ok s" and step: "shared_step sha s e s'"
  shows "shared_ok s'"
  using step
proof cases
  case (enter_sync_step k claims m i owns)
  then obtain s1 where "join_or_create sha k SyncOwner claims s = (i, owns, s1)"
      "s' = on_object i (\<lambda>a. a\<lparr>av_members := insert m (av_members a)\<rparr>) s1"
    by (auto simp: enter_sync_def Let_def split: prod.splits)
  with ok_join_or_create [OF ok] ok_add_member show ?thesis by blast
next
  case (enter_async_step k claims m i w)
  then obtain owns s1 where "join_or_create sha k LocalTask claims s = (i, owns, s1)" "join_expression i m s1 = (w, s')"
    by (auto simp: enter_async_def Let_def split: prod.splits)
  with ok_join_or_create [OF ok] ok_join show ?thesis by blast
next
  case (enter_remote_step k claims m scratch i w)
  then obtain owns s1 where "join_or_create sha k RemoteTask claims s = (i, owns, s1)"
      "join_expression i m (on_object i (\<lambda>a. a\<lparr>av_scratch := av_scratch a \<and> scratch\<rparr>) s1) = (w, s')"
    by (auto simp: enter_remote_def Let_def split: prod.splits)
  note run = this
  from ok_join_or_create [OF ok run(1)] have "shared_ok s1" "entered k i s1" by simp_all
  then show ?thesis by (intro ok_join [OF ok_mark_scratch(1) _ run(2)]) (simp_all add: entered_mark)
next
  case (leave_step k m)
  with ok_softcancel [OF ok] show ?thesis by simp
next
  case (dispatch_step i)
  with ok_mark_scratch(2) [OF ok] show ?thesis by (simp add: begin_dispatch_def)
next
  case (finish_sync_step i out now)
  with ok_finish_sync [OF ok] show ?thesis by simp
next
  case (finish_local_step i out)
  with ok_finish_local [OF ok] show ?thesis by simp
next
  case (finish_remote_step i out now)
  with ok_finish_remote [OF ok] show ?thesis by simp
next
  case (never_started_step i)
  with ok_end_task [OF ok] show ?thesis by simp
next
  case (callback_step n now)
  with ok_callback [OF ok] show ?thesis by (simp add: without_callback_def)
next
  case (environment_step bc' others')
  have "shared_ok (s\<lparr>ss_cache := bc', ss_others := others'\<rparr>)"
    by (rule ok_frame [OF ok]) (simp_all add: same_maps_def same_waiting_def)
  with environment_step show ?thesis by simp
qed

section \<open>The books in every step\<close>

lemma books_iff:
  assumes "ss_objects s' = ss_objects s" "\<And>i. av_input_claims (ss_object s' i) = av_input_claims (ss_object s i)"
    "ss_cache s' = ss_cache s" "ss_others s' = ss_others s"
  shows "books_balance s' = books_balance s"
  using assms by (simp add: books_balance_def held_claims_def)

lemma books_simps [simp]:
  "books_balance (set_future i out s) = books_balance s" "books_balance (cancel_linger i s) = books_balance s"
  "books_balance (drop_active i s) = books_balance s" "books_balance (drop_lingering i s) = books_balance s"
  "books_balance (call_soon cbs s) = books_balance s" "books_balance (end_task i s) = books_balance s"
  "books_balance (begin_dispatch i s) = books_balance s" "books_balance (without_callback n s) = books_balance s"
  "books_balance (deliver w r s) = books_balance s" "books_balance (schedule_expiry i s) = books_balance s"
  "books_balance (expire_lingering i s) = books_balance s"
  "books_balance (snd (softcancel_expression k m s)) = books_balance s"
  "books_balance (on_object i (\<lambda>a. a\<lparr>av_members := f a\<rparr>) s) = books_balance s"
  "books_balance (on_object i (\<lambda>a. a\<lparr>av_scratch := g a\<rparr>) s) = books_balance s"
  "books_balance (on_object i (\<lambda>a. a\<lparr>av_canceled := g a\<rparr>) s) = books_balance s"
  by (rule books_iff; simp add: end_task_def begin_dispatch_def deliver_def schedule_expiry_def expire_lingering_def
      softcancel_expression_def Let_def split: option.split)+

lemma evaluation_books_discard: "books_balance s \<Longrightarrow> i < ss_objects s \<Longrightarrow> books_balance (discard_active now i s)"
  by (simp add: discard_active_def books_release)

lemma books_finish_sync: "books_balance s \<Longrightarrow> i < ss_objects s \<Longrightarrow> books_balance (finish_sync now i out s)"
  by (simp add: finish_sync_def books_release)

lemma books_finish_remote: "books_balance s \<Longrightarrow> i < ss_objects s \<Longrightarrow> books_balance (finish_remote now i out s)"
  by (simp add: finish_remote_def evaluation_books_discard)

lemma books_join: "books_balance s \<Longrightarrow> join_expression i m s = (w, s') \<Longrightarrow> books_balance s'"
  by (rule books_iff [THEN iffD2, of s' s]) (auto simp: join_expression_def Let_def split: option.splits)

lemma books_join_or_create:
  assumes "books_balance s" and "join_or_create sha k kind claims s = (i, owns, s')"
  shows "books_balance s'"
proof -
  obtain found s1 where t: "take_active k s = (found, s1)" by fastforce
  have one: "books_balance s1" using assms(1) t
    by (subst books_iff [of s1 s]) (auto simp: take_active_def split: option.splits)
  obtain j s2 fresh where c: "(if fresh then create_active sha k kind claims s1 else (the found, s1)) = (j, s2)"
      "s' = s2\<lparr>ss_active := dset k j (ss_active s2)\<rparr>"
    using assms(2) by (auto simp: join_or_create_def t Let_def split: prod.splits)
  have "books_balance s2" using books_create [OF one, of sha k kind claims] one c(1) by (auto split: if_splits)
  then show ?thesis unfolding c(2) by (subst books_iff [of _ s2]) simp_all
qed

lemma books_callback:
  assumes "books_balance s" and "shared_ok s" and n: "n < length (ss_callbacks s)"
  shows "books_balance (run_callback now (ss_callbacks s ! n) (without_callback n s))"
proof (cases "ss_callbacks s ! n")
  case (TaskDone i)
  then have "TaskDone i \<in> set (ss_callbacks s)" using n by (metis nth_mem)
  then have "i < ss_objects s" using shared_okD(3) [OF assms(2)] by (simp add: done_ok_def)
  with TaskDone assms(1) show ?thesis by (simp add: evaluation_books_discard)
qed (use assms(1) in simp_all)

lemma books_environment:
  assumes "books_balance s" and "claims_ok bc'"
    and "\<And>c. refholder_count bc' c + ss_others s c = refholder_count (ss_cache s) c + others' c"
  shows "books_balance (s\<lparr>ss_cache := bc', ss_others := others'\<rparr>)"
  unfolding books_balance_def
proof (intro conjI allI)
  show "claims_ok (ss_cache (s\<lparr>ss_cache := bc', ss_others := others'\<rparr>))" using assms(2) by simp
  fix c
  have "held_claims (s\<lparr>ss_cache := bc', ss_others := others'\<rparr>) c = held_claims s c" by (simp add: held_claims_def)
  with assms(1) assms(3) [of c]
  show "refholder_count (ss_cache (s\<lparr>ss_cache := bc', ss_others := others'\<rparr>)) c =
      ss_others (s\<lparr>ss_cache := bc', ss_others := others'\<rparr>) c + held_claims (s\<lparr>ss_cache := bc', ss_others := others'\<rparr>) c"
    by (simp add: books_balance_def)
qed

lemma books_step:
  assumes books: "books_balance s" and ok: "shared_ok s" and step: "shared_step sha s e s'"
  shows "books_balance s'"
  using step
proof cases
  case (enter_sync_step k claims m i owns)
  then obtain s1 where "join_or_create sha k SyncOwner claims s = (i, owns, s1)"
      "s' = on_object i (\<lambda>a. a\<lparr>av_members := insert m (av_members a)\<rparr>) s1"
    by (auto simp: enter_sync_def Let_def split: prod.splits)
  with books_join_or_create [OF books] show ?thesis by simp
next
  case (enter_async_step k claims m i w)
  then obtain owns s1 where "join_or_create sha k LocalTask claims s = (i, owns, s1)" "join_expression i m s1 = (w, s')"
    by (auto simp: enter_async_def Let_def split: prod.splits)
  with books_join_or_create [OF books] books_join show ?thesis by blast
next
  case (enter_remote_step k claims m scratch i w)
  then obtain owns s1 where "join_or_create sha k RemoteTask claims s = (i, owns, s1)"
      "join_expression i m (on_object i (\<lambda>a. a\<lparr>av_scratch := av_scratch a \<and> scratch\<rparr>) s1) = (w, s')"
    by (auto simp: enter_remote_def Let_def split: prod.splits)
  note run = this
  from books_join_or_create [OF books run(1)] show ?thesis by (intro books_join [OF _ run(2)]) simp
next
  case (finish_local_step i out)
  with books show ?thesis by (simp add: finish_local_def)
next
  case (callback_step n now)
  with books_callback [OF books ok] show ?thesis by (simp add: without_callback_def)
next
  case (environment_step bc' others')
  with books_environment [OF books] show ?thesis by simp
qed (use books in \<open>simp_all add: books_finish_sync books_finish_remote\<close>)

definition shared_inv :: "shared \<Rightarrow> bool" where
  "shared_inv s \<longleftrightarrow> shared_ok s \<and> books_balance s"

interpretation shared_evaluations: inductive_invariant shared_start "shared_step sha" shared_inv for sha
proof unfold_locales
  fix s assume "shared_start s"
  then show "shared_inv s"
    by (auto simp: shared_start_def shared_inv_def ok_start books_balance_def held_claims_def)
       (auto simp: shared_init_def)
next
  fix s e s' assume "shared_inv s" "shared_step sha s e s'"
  then show "shared_inv s'" using ok_step books_step by (auto simp: shared_inv_def)
qed

section \<open>Work left\<close>

text \<open>The events the evaluators and the event loops produce by themselves.\<close>

fun internal :: "shared_event \<Rightarrow> bool" where
  "internal (Finish i out) = True"
| "internal (NeverStarted i) = True"
| "internal (RunCallback n) = True"
| "internal _ = False"

fun task_work :: "task \<Rightarrow> nat" where
  "task_work Running = 6" | "task_work Stopping = 4" | "task_work _ = 0"

fun callback_work :: "callback \<Rightarrow> nat" where
  "callback_work (Schedule i) = 2" | "callback_work (TaskDone i) = 2" | "callback_work _ = 1"

definition object_work :: "active \<Rightarrow> nat" where
  "object_work a = (if av_future a = None then 2 * length (av_listeners a) + 1 else 0) + task_work (av_task a)"

definition callbacks_work :: "callback list \<Rightarrow> nat" where
  "callbacks_work cbs = (\<Sum>cb\<leftarrow>cbs. callback_work cb)"

definition shared_work :: "shared \<Rightarrow> nat" where
  "shared_work s = (\<Sum>i\<in>{..<ss_objects s}. object_work (ss_object s i)) + callbacks_work (ss_callbacks s)"

lemma callbacks_work_simps [simp]:
  "callbacks_work [] = 0" "callbacks_work (cb # cbs) = callback_work cb + callbacks_work cbs"
  "callbacks_work (xs @ ys) = callbacks_work xs + callbacks_work ys"
  "callbacks_work (map (\<lambda>w. Deliver w out) ws) = length ws"
  by (simp_all add: callbacks_work_def comp_def) (induction ws; simp)

lemma callbacks_work_filter: "callbacks_work (filter P cbs) \<le> callbacks_work cbs"
  by (induction cbs) auto

lemma sum_one_changed:
  fixes g :: "'a \<Rightarrow> nat" and f :: "nat \<Rightarrow> 'a"
  assumes "i < n" and "\<And>j. j \<noteq> i \<Longrightarrow> f' j = f j"
  shows "(\<Sum>j\<in>{..<n}. g (f' j)) + g (f i) = (\<Sum>j\<in>{..<n}. g (f j)) + g (f' i)"
proof -
  have "(\<Sum>j\<in>{..<n} - {i}. g (f' j)) = (\<Sum>j\<in>{..<n} - {i}. g (f j))"
    by (intro sum.cong) (simp_all add: assms(2))
  moreover have "i \<in> {..<n}" using assms(1) by simp
  ultimately show ?thesis
    using sum.remove [OF finite_lessThan, of i n "\<lambda>j. g (f' j)"] sum.remove [OF finite_lessThan, of i n "\<lambda>j. g (f j)"]
    by linarith
qed

lemma work_set_future:
  assumes "i < ss_objects s"
  shows "shared_work (set_future i out s) \<le> shared_work s"
    and "av_future (ss_object s i) = None \<Longrightarrow> shared_work (set_future i out s) < shared_work s"
proof -
  have "shared_work (set_future i out s) < shared_work s" if "av_future (ss_object s i) = None"
    using sum_one_changed [of i "ss_objects s" "ss_object (set_future i out s)" "ss_object s" object_work] assms that
    by (simp add: shared_work_def object_work_def [of "ss_object s i"] object_work_def [of "_\<lparr>av_future := _\<rparr>"])
  then show "av_future (ss_object s i) = None \<Longrightarrow> shared_work (set_future i out s) < shared_work s"
    and "shared_work (set_future i out s) \<le> shared_work s"
    by (auto simp: set_future_def dest: less_imp_le)
qed

lemma work_cong:
  assumes "ss_objects s' = ss_objects s" "\<And>i. object_work (ss_object s' i) = object_work (ss_object s i)"
    "ss_callbacks s' = ss_callbacks s"
  shows "shared_work s' = shared_work s"
  using assms by (simp add: shared_work_def)

lemma work_simps [simp]:
  "shared_work (drop_active i s) = shared_work s" "shared_work (drop_lingering i s) = shared_work s"
  "shared_work (release_refholds now i s) = shared_work s" "shared_work (deliver w r s) = shared_work s"
  "shared_work (on_object i (\<lambda>a. a\<lparr>av_canceled := f a\<rparr>) s) = shared_work s"
  "shared_work (on_object i (\<lambda>a. a\<lparr>av_linger := t\<rparr>) s) = shared_work s"
  by (rule work_cong; simp add: object_work_def deliver_def)+

lemma work_cancel_linger: "shared_work (cancel_linger i s) \<le> shared_work s"
  by (simp add: shared_work_def callbacks_work_filter)

lemma work_call_soon [simp]: "shared_work (call_soon cbs s) = shared_work s + callbacks_work cbs"
  by (simp add: shared_work_def)

lemma work_set_task:
  assumes "i < ss_objects s"
  shows "shared_work (on_object i (\<lambda>a. a\<lparr>av_task := t\<rparr>) s) + task_work (av_task (ss_object s i))
    = shared_work s + task_work t"
proof -
  have "object_work (a\<lparr>av_task := t\<rparr>) + task_work (av_task a) = object_work a + task_work t" for a
    by (simp add: object_work_def)
  from this [of "ss_object s i"] show ?thesis
    using sum_one_changed [of i "ss_objects s" "ss_object (on_object i (\<lambda>a. a\<lparr>av_task := t\<rparr>) s)" "ss_object s" object_work] assms
    by (simp add: shared_work_def)
qed

lemma work_discard: "i < ss_objects s \<Longrightarrow> shared_work (discard_active now i s) \<le> shared_work s"
  unfolding discard_active_def
  by (rule order_trans [OF work_set_future(1)]) (simp_all add: order_trans [OF work_cancel_linger])

lemma work_end_task:
  "i < ss_objects s \<Longrightarrow> av_task (ss_object s i) \<in> {Running, Stopping} \<Longrightarrow> shared_work (end_task i s) < shared_work s"
  using work_set_task [of i s Ended] by (auto simp: end_task_def)

lemma work_callback:
  assumes ok: "shared_ok s" and n: "n < length (ss_callbacks s)"
  shows "shared_work (run_callback now (ss_callbacks s ! n) (without_callback n s)) < shared_work s"
proof -
  let ?s = "without_callback n s"
  have cbs: "callbacks_work (ss_callbacks s) = callbacks_work (ss_callbacks ?s) + callback_work (ss_callbacks s ! n)"
  proof -
    have "ss_callbacks s = take n (ss_callbacks s) @ ss_callbacks s ! n # drop (Suc n) (ss_callbacks s)"
      using n by (rule id_take_nth_drop)
    then have "callbacks_work (ss_callbacks s) =
      callbacks_work (take n (ss_callbacks s) @ ss_callbacks s ! n # drop (Suc n) (ss_callbacks s))" by simp
    then show ?thesis by (simp add: without_callback_def)
  qed
  have w: "shared_work s = shared_work ?s + callback_work (ss_callbacks s ! n)"
    by (simp add: shared_work_def cbs)
  show ?thesis
  proof (cases "ss_callbacks s ! n")
    case (TaskDone i)
    then have "TaskDone i \<in> set (ss_callbacks s)" using n by (metis nth_mem)
    then have "i < ss_objects s" using shared_okD(3) [OF ok] by (simp add: done_ok_def)
    with TaskDone w work_discard [of i ?s now] show ?thesis by simp
  next
    case (Schedule i)
    have "shared_work (schedule_expiry i ?s) \<le> shared_work ?s + 1"
    proof (cases "av_members (ss_object ?s i) = {} \<and> av_future (ss_object ?s i) = None")
      case True
      have "shared_work (?s\<lparr>ss_tickets := t\<rparr>) = shared_work ?s" for t by (simp add: shared_work_def)
      with True show ?thesis by (simp add: schedule_expiry_def Let_def)
    qed (auto simp: schedule_expiry_def Let_def)
    with Schedule w show ?thesis by simp
  next
    case (Expire t i)
    have "shared_work (expire_lingering i ?s) \<le> shared_work ?s"
    proof (cases "dget (ss_lingering ?s) (av_key (ss_object ?s i)) = Some i")
      case True
      then have i: "i < ss_objects s" using maps_okD(2) [OF shared_okD(2) [OF ok]] by simp
      let ?l = "?s\<lparr>ss_lingering := ddel (av_key (ss_object ?s i)) (ss_lingering ?s)\<rparr>"
      have "shared_work ?l = shared_work ?s" by (rule work_cong) simp_all
      with True i work_set_task [of i ?l Stopping] show ?thesis by (auto simp: expire_lingering_def Let_def)
    qed (simp add: expire_lingering_def Let_def)
    with Expire w show ?thesis by simp
  qed (use w in simp_all)
qed

lemma work_internal:
  assumes ok: "shared_ok s" and step: "shared_step sha s e s'" and "internal e"
  shows "shared_work s' < shared_work s"
  using step
proof cases
  case (finish_sync_step i out now)
  then have "shared_work (set_future i out s) < shared_work s" by (simp add: work_set_future)
  with finish_sync_step show ?thesis
    using work_cancel_linger [of i "drop_lingering i (drop_active i (set_future i out s))"]
    by (simp add: finish_sync_def)
next
  case (finish_local_step i out)
  then have "shared_work (finish_local i out s) < shared_work (drop_active i (set_future i out s))"
    unfolding finish_local_def by (intro work_end_task) auto
  with finish_local_step work_set_future(1) [of i s out] show ?thesis by simp
next
  case (finish_remote_step i out now)
  let ?s1 = "on_object i (\<lambda>a. a\<lparr>av_canceled := av_canceled a \<or> out = Cancellation\<rparr>) s"
  let ?s2 = "discard_active now i (set_future i out ?s1)"
  have "shared_work (end_task i ?s2) < shared_work ?s2"
    using finish_remote_step by (intro work_end_task) (auto simp: discard_active_def)
  also have "shared_work ?s2 \<le> shared_work (set_future i out ?s1)"
    using finish_remote_step by (intro work_discard) simp
  also have "\<dots> \<le> shared_work ?s1" using finish_remote_step by (intro work_set_future) simp
  finally show ?thesis using finish_remote_step by (simp add: finish_remote_def)
next
  case (never_started_step i)
  then show ?thesis by (simp add: work_end_task)
next
  case (callback_step n now)
  with work_callback [OF ok] show ?thesis by (simp add: without_callback_def)
qed (use assms(3) in simp_all)

text \<open>Where no evaluator and no callback can go on, everything is answered and released.\<close>

lemma stuck_settled:
  assumes inv: "shared_ok s" and stuck: "\<And>e s'. internal e \<Longrightarrow> \<not> shared_step sha s e s'"
  shows "(\<forall>i < ss_objects s. av_future (ss_object s i) \<noteq> None \<and> av_input_claims (ss_object s i) = [])
    \<and> (\<forall>w. ss_waiter s w \<noteq> Waiting)"
proof -
  have cbs: "ss_callbacks s = []"
    using stuck [of "RunCallback 0"] callback_step [of 0 s sha] by (cases "ss_callbacks s") auto
  have fut: "av_future (ss_object s i) \<noteq> None" if i: "i < ss_objects s" for i
  proof
    assume none: "av_future (ss_object s i) = None"
    with shared_okD(1) [OF inv i] cbs have "av_task (ss_object s i) \<noteq> Ended" by (simp add: object_ok_def)
    then consider "av_kind (ss_object s i) = SyncOwner"
      | "av_task (ss_object s i) \<in> {Running, Stopping}" "av_kind (ss_object s i) = LocalTask"
      | "av_task (ss_object s i) \<in> {Running, Stopping}" "av_kind (ss_object s i) = RemoteTask"
      using shared_okD(1) [OF inv i] by (cases "av_task (ss_object s i)"; cases "av_kind (ss_object s i)") (auto simp: object_ok_def)
    then show False
    proof cases
      case 1
      with stuck [of "Finish i Cancellation"] finish_sync_step [OF i _ none] show False by auto
    next
      case 2
      with stuck [of "Finish i Cancellation"] finish_local_step [OF i] show False by auto
    next
      case 3
      with stuck [of "Finish i Cancellation"] finish_remote_step [OF i] show False by auto
    qed
  qed
  moreover have "av_input_claims (ss_object s i) = []" if i: "i < ss_objects s" for i
    using shared_okD(1) [OF inv i] fut [OF i] cbs by (auto simp: object_ok_def)
  moreover have "ss_waiter s w \<noteq> Waiting" for w
    using shared_okD(4) [OF inv] fut cbs unfolding waiters_ok_def by (metis empty_iff list.set(1))
  ultimately show ?thesis by blast
qed

section \<open>Properties\<close>

lemma reachable_ok:
  assumes "reachable shared_start (shared_step sha) s"
  shows "shared_ok s" "books_balance s"
  using shared_evaluations.reachable_inv [OF assms] by (simp_all add: shared_inv_def)

text \<open>Who enters never gets an evaluation that was asked to stop.\<close>

lemma entered_not_stopping:
  assumes ok: "shared_ok s" and run: "join_or_create sha k kind claims s = (j, owns, s')"
    and stop: "i < ss_objects s" "av_task (ss_object s i) = Stopping"
  shows "j \<noteq> i"
proof
  assume "j = i"
  obtain found s1 where t: "take_active k s = (found, s1)" by fastforce
  note one = take_active_spec [OF ok t]
  from run \<open>j = i\<close> stop(1) one(1) have "found = Some i"
    by (auto simp: join_or_create_def t create_active_def Let_def split: if_splits option.splits)
  with one(10) [of i] stop(2) show False by simp
qed

text \<open>C35: a shared evaluation is asked to stop only when nobody waits for it any more, and
  then nobody can join it: an evaluation whose task was canceled has no members, stands in
  neither map, and a caller that enters its key, in any of the three ways, gets another one.
  A waiter that leaves therefore never takes the result away from one that stays.\<close>

theorem stopped_evaluation_is_unused:
  assumes "reachable shared_start (shared_step sha) s"
    and "i < ss_objects s" and "av_task (ss_object s i) = Stopping"
  shows "av_members (ss_object s i) = {}
    \<and> Some i \<notin> range (dget (ss_active s)) \<and> Some i \<notin> range (dget (ss_lingering s))
    \<and> fst (enter_sync sha k claims m s) \<noteq> i \<and> fst (enter_async sha k claims m s) \<noteq> i
    \<and> fst (enter_remote sha k claims m scratch s) \<noteq> i"
proof -
  note ok = reachable_ok(1) [OF assms(1)]
  from shared_okD(1) [OF ok assms(2)] assms(3)
  have unused: "av_members (ss_object s i) = {}" "dget (ss_active s) (av_key (ss_object s i)) \<noteq> Some i"
    "dget (ss_lingering s) (av_key (ss_object s i)) \<noteq> Some i" by (simp_all add: object_ok_def)
  then have "dget (ss_active s) j \<noteq> Some i" "dget (ss_lingering s) j \<noteq> Some i" for j
    using maps_okD [OF shared_okD(2) [OF ok], of j i] by auto
  then have "Some i \<notin> range (dget (ss_active s))" "Some i \<notin> range (dget (ss_lingering s))" by (auto simp: eq_commute)
  moreover have "fst (enter_sync sha k claims m s) \<noteq> i" "fst (enter_async sha k claims m s) \<noteq> i"
    "fst (enter_remote sha k claims m scratch s) \<noteq> i"
    using entered_not_stopping [OF ok _ assms(2,3)]
    by (auto simp: enter_sync_def enter_async_def enter_remote_def Let_def split: prod.splits)
  ultimately show ?thesis using unused by blast
qed

definition active_holder :: "shared \<Rightarrow> nat \<Rightarrow> holder" where
  "active_holder s i = \<lparr>hd_id = i, hd_type = u ''_ActiveExpression'', hd_entries = Inr (refheld_checksums (ss_object s i))\<rparr>"

lemma entry_count_claims: "entry_count c (map (\<lambda>c. Claim c r) cs) = count_list cs c"
  by (induction cs) auto

lemma active_claims: "claim_count (map (active_holder s) [0..<n]) c =
    (\<Sum>i\<in>{..<n}. count_list (av_input_claims (ss_object s i)) c)"
  by (induction n) (simp_all add: claim_count_def active_holder_def refheld_checksums_def entry_count_claims)

lemma well_behaved_actives: "list_all well_behaved (map (active_holder s) is)"
  by (induction "is") (simp_all add: well_behaved_def active_holder_def refheld_checksums_def list_all_iff)

lemma count_unique: "c \<in> set cs \<Longrightarrow> count_list (unique_checksums cs) c > 0"
proof -
  have "set (fold add_distinct cs xs) = set cs \<union> set xs" for xs
    by (induction cs arbitrary: xs) (auto simp: add_distinct_def)
  then show "c \<in> set cs \<Longrightarrow> count_list (unique_checksums cs) c > 0"
    by (simp add: unique_checksums_def count_list_0_iff [symmetric] del: count_list_0_iff)
       (metis count_list_0_iff gr0I set_empty2 Un_empty_right)
qed

text \<open>C36: the inputs of a running evaluation are held. In every reachable state, for each
  checksum, the buffer cache counts the claims of the evaluations and those of the rest of
  the program, no more and no less; every input of an evaluation without an outcome has an
  entry that eviction may not drop; and the shutdown audit over the evaluations and any
  holders that account for the rest says nothing.\<close>

theorem running_inputs_are_held:
  assumes "reachable shared_start (shared_step sha) s"
    and "i < ss_objects s" and "av_future (ss_object s i) = None" and "d \<in> set (av_inputs (ss_object s i))"
    and "list_all well_behaved hs" and "claim_count hs = ss_others s"
  shows "refholder_count (ss_cache s) c = ss_others s c + held_claims s c
    \<and> (\<exists>e. dget (bc_strong (ss_cache s)) d = Some e \<and> eviction_protected e)
    \<and> fst (audit_reference_accounting False (ss_cache s) (hs @ map (active_holder s) [0..<ss_objects s]) False None) = []"
proof -
  note ok = reachable_ok(1) [OF assms(1)] and books = reachable_ok(2) [OF assms(1)]
  have count: "refholder_count (ss_cache s) c = ss_others s c + held_claims s c" for c
    using books by (simp add: books_balance_def)
  have inv: "bc_inv (ss_cache s)" using books by (simp add: books_balance_def claims_ok_def)
  have "av_input_claims (ss_object s i) = unique_checksums (av_inputs (ss_object s i))"
    using shared_okD(1) [OF ok assms(2)] assms(3) by (simp add: object_ok_def)
  then have "0 < count_list (av_input_claims (ss_object s i)) d" using count_unique [OF assms(4)] by simp
  also have "\<dots> \<le> held_claims s d"
    unfolding held_claims_def using assms(2) by (intro member_le_sum) auto
  finally have "refholder_count (ss_cache s) d > 0" using count [of d] by simp
  with bridged_iff_counted [OF inv, of d]
  obtain e where e: "dget (bc_strong (ss_cache s)) d = Some e" "se_bridge e" by (auto split: option.splits)
  have wb: "list_all well_behaved (hs @ map (active_holder s) [0..<ss_objects s])"
    using assms(5) well_behaved_actives by simp
  have "refholder_count (ss_cache s) = claim_count (hs @ map (active_holder s) [0..<ss_objects s])"
  proof
    fix c
    have "claim_count (hs @ map (active_holder s) [0..<ss_objects s]) c
        = claim_count hs c + claim_count (map (active_holder s) [0..<ss_objects s]) c"
      by (simp add: claim_count_def)
    then show "refholder_count (ss_cache s) c = claim_count (hs @ map (active_holder s) [0..<ss_objects s]) c"
      using count [of c] assms(6) by (simp add: active_claims held_claims_def)
  qed
  with audit_silent [OF inv wb, of None]
  have "fst (audit_reference_accounting False (ss_cache s) (hs @ map (active_holder s) [0..<ss_objects s]) False None) = []"
    by blast
  with count e show ?thesis by (auto simp: eviction_protected_def)
qed

text \<open>C37: the evaluators and the event loops, left to themselves, come to an end, and then
  everyone is served: from every reachable state there is no infinite run of task ends and
  callbacks, and where none of them is possible any more every evaluation has an outcome and
  holds no input, every waiter is canceled or has been given the outcome of the evaluation
  it joined, whatever came in and left before.\<close>

theorem evaluations_settle:
  assumes "reachable shared_start (shared_step sha) s"
  shows "\<not> (\<exists>run. run 0 = s \<and> (\<forall>n. \<exists>e. internal e \<and> shared_step sha (run n) e (run (Suc n))))
    \<and> ((\<exists>e s'. internal e \<and> shared_step sha s e s')
       \<or> (\<forall>i. ss_objects s \<le> i \<or> av_future (ss_object s i) \<noteq> None \<and> av_input_claims (ss_object s i) = [])
         \<and> (\<forall>w. ss_waiter s w = WaiterCanceled
              \<or> (\<exists>i out. i < ss_objects s \<and> ss_waiter s w = Delivered out \<and> w \<in> set (av_listeners (ss_object s i))
                   \<and> av_future (ss_object s i) = Some out)))"
proof
  note ok = reachable_ok(1) [OF assms]
  show "\<not> (\<exists>run. run 0 = s \<and> (\<forall>n. \<exists>e. internal e \<and> shared_step sha (run n) e (run (Suc n))))"
  proof (rule notI, elim exE conjE)
    fix run assume r: "run 0 = s" and step: "\<forall>n. \<exists>e. internal e \<and> shared_step sha (run n) e (run (Suc n))"
    have okn: "shared_ok (run n)" for n
    proof (induction n)
      case 0
      with r ok show ?case by simp
    next
      case (Suc n)
      with step ok_step show ?case by blast
    qed
    have "shared_work (run (Suc n)) < shared_work (run n)" for n
      using step work_internal [OF okn] by blast
    then show False using wf_iff_no_infinite_down_chain [THEN iffD1, OF wf_measure [of shared_work]]
      by (auto simp: in_measure)
  qed
  show "(\<exists>e s'. internal e \<and> shared_step sha s e s')
       \<or> (\<forall>i. ss_objects s \<le> i \<or> av_future (ss_object s i) \<noteq> None \<and> av_input_claims (ss_object s i) = [])
         \<and> (\<forall>w. ss_waiter s w = WaiterCanceled
              \<or> (\<exists>i out. i < ss_objects s \<and> ss_waiter s w = Delivered out \<and> w \<in> set (av_listeners (ss_object s i))
                   \<and> av_future (ss_object s i) = Some out))"
  proof (rule disjCI)
    assume some: "\<not> ((\<forall>i. ss_objects s \<le> i \<or> av_future (ss_object s i) \<noteq> None \<and> av_input_claims (ss_object s i) = [])
         \<and> (\<forall>w. ss_waiter s w = WaiterCanceled
              \<or> (\<exists>i out. i < ss_objects s \<and> ss_waiter s w = Delivered out \<and> w \<in> set (av_listeners (ss_object s i))
                   \<and> av_future (ss_object s i) = Some out)))"
    show "\<exists>e s'. internal e \<and> shared_step sha s e s'"
    proof (rule ccontr)
      assume "\<nexists>e s'. internal e \<and> shared_step sha s e s'"
      with stuck_settled [OF ok, of sha]
      have st: "\<forall>i < ss_objects s. av_future (ss_object s i) \<noteq> None \<and> av_input_claims (ss_object s i) = []"
        "\<forall>w. ss_waiter s w \<noteq> Waiting" by blast+
      moreover have "ss_waiter s w = WaiterCanceled
              \<or> (\<exists>i out. i < ss_objects s \<and> ss_waiter s w = Delivered out \<and> w \<in> set (av_listeners (ss_object s i))
                   \<and> av_future (ss_object s i) = Some out)" for w
        using st(2) shared_okD(5) [OF ok] by (cases "ss_waiter s w") (auto simp: answers_ok_def)
      ultimately show False using some by (meson not_le)
    qed
  qed
qed

section \<open>A run\<close>

text \<open>One caller joins, leaves, and the linger timer fires.\<close>

definition one_key :: cache_key where
  "one_key = CellJoinCacheKey [] CtMixed"

definition joined_once :: shared where
  "joined_once = snd (snd (enter_async pad_sha one_key [small] 1 (shared_init (cache_init 2))))"

definition left_again :: shared where
  "left_again = snd (softcancel_expression one_key 1 joined_once)"

definition timer_set :: shared where
  "timer_set = run_callback 0 (ss_callbacks left_again ! 1) (without_callback 1 left_again)"

definition timed_out :: shared where
  "timed_out = run_callback 0 (ss_callbacks timer_set ! 1) (without_callback 1 timer_set)"

lemma joined_once_fields:
  "ss_objects joined_once = 1" "ss_callbacks joined_once = []" "ss_active joined_once = [(one_key, 0)]"
  "ss_lingering joined_once = []" "ss_tickets joined_once = 1"
  "ss_object joined_once 0 = (new_active one_key LocalTask)\<lparr>av_input_claims := [small], av_inputs := [small],
     av_members := {1}, av_waiters := [(1, 0)], av_listeners := [0]\<rparr>"
  by (simp_all add: joined_once_def enter_async_def join_or_create_def take_active_def create_active_def
      hold_inputs_def join_expression_def cancel_linger_def shared_init_def Let_def unique_checksums_def
      add_distinct_def new_active_def on_object_def)

lemma left_again_fields:
  "ss_objects left_again = 1" "ss_callbacks left_again = [CancelWaiter 0, Schedule 0]" "ss_active left_again = []"
  "ss_lingering left_again = [(one_key, 0)]" "ss_tickets left_again = 1"
  "av_members (ss_object left_again 0) = {}" "av_future (ss_object left_again 0) = None"
  "av_task (ss_object left_again 0) = Running" "av_key (ss_object left_again 0) = one_key"
  by (simp_all add: left_again_def softcancel_expression_def joined_once_fields Let_def new_active_def)

lemma timer_set_fields:
  "ss_objects timer_set = 1" "ss_callbacks timer_set = [CancelWaiter 0, Expire 1 0]" "ss_active timer_set = []"
  "ss_lingering timer_set = [(one_key, 0)]"
  "av_members (ss_object timer_set 0) = {}" "av_task (ss_object timer_set 0) = Running"
  "av_key (ss_object timer_set 0) = one_key"
  by (simp_all add: timer_set_def left_again_fields schedule_expiry_def Let_def) (simp add: without_callback_def left_again_fields)

lemma timed_out_fields: "ss_objects timed_out = 1" "av_task (ss_object timed_out 0) = Stopping"
  by (simp_all add: timed_out_def timer_set_fields expire_lingering_def Let_def)

lemma run_reachable:
  "reachable shared_start (shared_step pad_sha) joined_once"
  "reachable shared_start (shared_step pad_sha) timed_out"
proof -
  have "claims_ok (cache_init 2)" by (simp add: claims_ok_def inv_init) (simp add: buffers_ok_def cache_init_def)
  then have "reachable shared_start (shared_step pad_sha) (shared_init (cache_init 2))"
    by (intro reach_start) (auto simp: shared_start_def)
  moreover have "shared_step pad_sha (shared_init (cache_init 2)) (EnterAsync one_key [small] 1) joined_once"
    unfolding joined_once_def
    by (rule enter_async_step [of _ _ _ _ _ "fst x" "fst (snd x)" for x]) (simp add: prod_eq_iff)
  ultimately show one: "reachable shared_start (shared_step pad_sha) joined_once" by (rule reach_step)
  have "reachable shared_start (shared_step pad_sha) left_again"
    unfolding left_again_def by (rule reach_step [OF one leave_step])
  then have "reachable shared_start (shared_step pad_sha) timer_set"
    unfolding timer_set_def without_callback_def
    by - (erule reach_step, rule callback_step, simp add: left_again_fields)
  then show "reachable shared_start (shared_step pad_sha) timed_out"
    unfolding timed_out_def without_callback_def
    by - (erule reach_step, rule callback_step, simp add: timer_set_fields)
qed

theorem stopped_evaluation_is_unused_witness:
  "av_members (ss_object timed_out 0) = {} \<and> fst (enter_async pad_sha one_key [small] 2 timed_out) \<noteq> 0"
  using stopped_evaluation_is_unused [OF run_reachable(2), of 0 one_key "[small]" 2] timed_out_fields by simp

theorem running_inputs_are_held_witness:
  "(\<exists>e. dget (bc_strong (ss_cache joined_once)) small = Some e \<and> eviction_protected e)
    \<and> fst (audit_reference_accounting False (ss_cache joined_once) [active_holder joined_once 0] False None) = []"
proof -
  have "ss_others joined_once = refholder_count (cache_init 2)"
    by (simp add: joined_once_def enter_async_def join_or_create_def take_active_def create_active_def
        hold_inputs_def join_expression_def cancel_linger_def shared_init_def Let_def split: option.split)
  then have "claim_count [] = ss_others joined_once"
    by (auto simp: claim_count_def refholder_count_def cache_init_def)
  with running_inputs_are_held [OF run_reachable(1), of 0 small "[]"] joined_once_fields
  show ?thesis by (simp add: new_active_def upt_rec)
qed

theorem evaluations_settle_witness:
  "\<not> (\<exists>run. run 0 = timed_out \<and> (\<forall>n. \<exists>e. internal e \<and> shared_step pad_sha (run n) e (run (Suc n))))"
  using evaluations_settle [OF run_reachable(2)] by blast

end
