(* ===== verification/BufferSource.thy ===== *)
theory BufferSource
  imports BufferCache
begin

text \<open>
  \<open>seamless/caching/buffer_source.py\<close>: the registry of local stores and the lookups in
  them. The callbacks of a store are not code of the program: a callback is a function that
  answers or raises. \<open>Buffer(content, checksum=\<dots>)\<close> registers itself with the buffer cache,
  so the lookups run on it. The lookups several callers share are a step relation.
\<close>

section \<open>Sources\<close>

datatype fetched = FetchedNone | FetchedBuffer buffer | FetchedBytes bytes | FetchedOther

text \<open>What a length callback answers; a bool is no length.\<close>

datatype length_answer = NoLength | IntLength int | BoolLength bool | OtherLength

record source =
  so_get_buffer :: "(checksum \<Rightarrow> fetched result) option"
  so_get_buffer_async :: "(checksum \<Rightarrow> fetched result) option"
  so_has_buffer :: "(checksum \<Rightarrow> bool result) option"
  so_get_buffer_length :: "(checksum \<Rightarrow> length_answer result) option"
  so_returns_verified_buffer :: bool

type_synonym 'o sources = "('o, source list) dict"

text \<open>\<open>replace\<close> drops the owner's entry and, unless the new one is empty, appends it.\<close>

definition replace_sources :: "'o \<Rightarrow> source list \<Rightarrow> 'o sources \<Rightarrow> 'o sources" where
  "replace_sources owner ss reg =
     (let reg1 = ddel owner reg in if ss = [] then reg1 else dset owner ss reg1)"

definition unregister :: "'o \<Rightarrow> 'o sources \<Rightarrow> 'o sources" where
  "unregister owner reg = ddel owner reg"

definition has_owner :: "'o \<Rightarrow> 'o sources \<Rightarrow> bool" where
  "has_owner owner reg \<longleftrightarrow> dget reg owner \<noteq> None"

definition source_snapshot :: "'o sources \<Rightarrow> source list" where
  "source_snapshot reg = concat (map snd reg)"

definition has_async_only_sources :: "'o sources \<Rightarrow> bool" where
  "has_async_only_sources reg \<longleftrightarrow>
     list_ex (\<lambda>s. so_get_buffer s = None \<and> so_get_buffer_async s \<noteq> None) (source_snapshot reg)"

section \<open>Retrieval\<close>

definition make_buffer :: "bytes \<Rightarrow> checksum \<Rightarrow> buffer_cache \<Rightarrow> buffer \<times> buffer_cache" where
  "make_buffer content c bc =
     (let b = \<lparr>b_content = content, b_checksum = Some c\<rparr>
      in (b, register_buffer c b (Some (length content)) bc))"

definition check_content ::
  "(bytes \<Rightarrow> checksum) \<Rightarrow> bytes \<Rightarrow> checksum \<Rightarrow> buffer_cache \<Rightarrow> buffer option \<times> buffer_cache" where
  "check_content sha content c bc =
     (if hex (sha content) \<noteq> hex c then (None, bc)
      else let (b, bc') = make_buffer content c bc in (Some b, bc'))"

definition to_buffer ::
  "(bytes \<Rightarrow> checksum) \<Rightarrow> fetched \<Rightarrow> checksum \<Rightarrow> bool \<Rightarrow> buffer_cache \<Rightarrow> buffer option \<times> buffer_cache" where
  "to_buffer sha r c verified bc =
     (case r of
        FetchedNone \<Rightarrow> (None, bc)
      | FetchedBuffer b \<Rightarrow>
          if verified \<and> b_checksum b = Some c then (Some b, bc) else check_content sha (b_content b) c bc
      | FetchedBytes content \<Rightarrow> check_content sha content c bc
      | FetchedOther \<Rightarrow> (None, bc))"

text \<open>One source of the loop of \<open>get_buffer\<close>: an exception is no answer.\<close>

definition ask_source ::
  "(bytes \<Rightarrow> checksum) \<Rightarrow> (checksum \<Rightarrow> fetched result) \<Rightarrow> bool \<Rightarrow> checksum \<Rightarrow> buffer_cache \<Rightarrow> buffer option \<times> buffer_cache"
where
  "ask_source sha get verified c bc =
     (case get c of Inl _ \<Rightarrow> (None, bc) | Inr r \<Rightarrow> to_buffer sha r c verified bc)"

fun get_buffer_from ::
  "(bytes \<Rightarrow> checksum) \<Rightarrow> source list \<Rightarrow> checksum \<Rightarrow> buffer_cache \<Rightarrow> buffer option \<times> buffer_cache" where
  "get_buffer_from sha [] c bc = (None, bc)"
| "get_buffer_from sha (s # ss) c bc =
     (case so_get_buffer s of
        None \<Rightarrow> get_buffer_from sha ss c bc
      | Some get \<Rightarrow>
          (case ask_source sha get (so_returns_verified_buffer s) c bc of
             (Some b, bc') \<Rightarrow> (Some b, bc')
           | (None, bc') \<Rightarrow> get_buffer_from sha ss c bc'))"

definition get_buffer_source ::
  "(bytes \<Rightarrow> checksum) \<Rightarrow> 'o sources \<Rightarrow> checksum \<Rightarrow> buffer_cache \<Rightarrow> buffer option \<times> buffer_cache" where
  "get_buffer_source sha reg c bc = get_buffer_from sha (source_snapshot reg) c bc"

text \<open>The callback \<open>_get_buffer_uncached\<close> uses of a source: the asynchronous one, else the
  synchronous one unless only asynchronous sources are wanted.\<close>

definition async_callback :: "bool \<Rightarrow> source \<Rightarrow> (checksum \<Rightarrow> fetched result) option" where
  "async_callback async_only s =
     (if async_only \<and> so_get_buffer s \<noteq> None then None
      else case so_get_buffer_async s of
          Some get \<Rightarrow> Some get
        | None \<Rightarrow> if async_only then None else so_get_buffer s)"

fun get_buffer_uncached ::
  "(bytes \<Rightarrow> checksum) \<Rightarrow> bool \<Rightarrow> source list \<Rightarrow> checksum \<Rightarrow> buffer_cache \<Rightarrow> buffer option \<times> buffer_cache" where
  "get_buffer_uncached sha async_only [] c bc = (None, bc)"
| "get_buffer_uncached sha async_only (s # ss) c bc =
     (case async_callback async_only s of
        None \<Rightarrow> get_buffer_uncached sha async_only ss c bc
      | Some get \<Rightarrow>
          (case ask_source sha get (so_returns_verified_buffer s) c bc of
             (Some b, bc') \<Rightarrow> (Some b, bc')
           | (None, bc') \<Rightarrow> get_buffer_uncached sha async_only ss c bc'))"

section \<open>Metadata\<close>

fun usable_length :: "length_answer result \<Rightarrow> int option" where
  "usable_length (Inr (IntLength n)) = (if n \<ge> 0 then Some n else None)"
| "usable_length _ = None"

fun source_has :: "checksum \<Rightarrow> source list \<Rightarrow> bool" where
  "source_has c [] = False"
| "source_has c (s # ss) =
     (case so_has_buffer s of
        Some has \<Rightarrow>
          (case has c of
             Inr True \<Rightarrow> True
           | Inl _ \<Rightarrow> source_has c ss
           | Inr False \<Rightarrow>
               (case so_get_buffer_length s of
                  Some len \<Rightarrow> usable_length (len c) \<noteq> None \<or> source_has c ss
                | None \<Rightarrow> source_has c ss))
      | None \<Rightarrow>
          (case so_get_buffer_length s of
             Some len \<Rightarrow> usable_length (len c) \<noteq> None \<or> source_has c ss
           | None \<Rightarrow> source_has c ss))"

definition has_buffer_source :: "'o sources \<Rightarrow> checksum \<Rightarrow> bool" where
  "has_buffer_source reg c = source_has c (source_snapshot reg)"

text \<open>One source of \<open>get_buffer_lengths\<close>: the indices still pending, in order.\<close>

fun length_pass ::
  "(checksum \<Rightarrow> length_answer result) \<Rightarrow> checksum list \<Rightarrow> nat list \<Rightarrow> int option list \<Rightarrow> nat list \<times> int option list" where
  "length_pass len cs [] results = ([], results)"
| "length_pass len cs (i # pending) results =
     (case usable_length (len (cs ! i)) of
        Some n \<Rightarrow> length_pass len cs pending (results[i := Some n])
      | None \<Rightarrow> (let (remaining, r) = length_pass len cs pending results in (i # remaining, r)))"

fun length_passes ::
  "source list \<Rightarrow> checksum list \<Rightarrow> nat list \<Rightarrow> int option list \<Rightarrow> int option list" where
  "length_passes [] cs pending results = results"
| "length_passes (s # ss) cs pending results =
     (case so_get_buffer_length s of
        None \<Rightarrow> length_passes ss cs pending results
      | Some len \<Rightarrow>
          if pending = [] then length_passes ss cs pending results
          else let (remaining, r) = length_pass len cs pending results in length_passes ss cs remaining r)"

definition get_buffer_lengths :: "'o sources \<Rightarrow> checksum list \<Rightarrow> int option list" where
  "get_buffer_lengths reg cs =
     length_passes (source_snapshot reg) cs [0..<length cs] (replicate (length cs) None)"

section \<open>Retrieval is exact\<close>

text \<open>What a store that declares verified buffers promises.\<close>

definition keeps_its_word :: "(bytes \<Rightarrow> checksum) \<Rightarrow> source \<Rightarrow> bool" where
  "keeps_its_word sha s \<longleftrightarrow>
     (so_returns_verified_buffer s \<longrightarrow>
       (\<forall>get c b. get \<in> set_option (so_get_buffer s) \<union> set_option (so_get_buffer_async s) \<longrightarrow>
          get c = Inr (FetchedBuffer b) \<longrightarrow> b_checksum b = Some c \<longrightarrow> sha (b_content b) = c))"

text \<open>The content a fetched value has, if any.\<close>

fun fetched_content :: "fetched result \<Rightarrow> bytes option" where
  "fetched_content (Inr (FetchedBuffer b)) = Some (b_content b)"
| "fetched_content (Inr (FetchedBytes x)) = Some x"
| "fetched_content _ = None"

text \<open>The specification: the first answer that hashes to the checksum.\<close>

fun first_match :: "(bytes \<Rightarrow> checksum) \<Rightarrow> checksum \<Rightarrow> (checksum \<Rightarrow> fetched result) list \<Rightarrow> bytes option" where
  "first_match sha c [] = None"
| "first_match sha c (get # gets) =
     (case fetched_content (get c) of
        Some x \<Rightarrow> if sha x = c then Some x else first_match sha c gets
      | None \<Rightarrow> first_match sha c gets)"

lemma check_content_spec:
  "fst (check_content sha x c bc) = (if sha x = c then Some \<lparr>b_content = x, b_checksum = Some c\<rparr> else None)"
  "fst (check_content sha x c bc) = Some b \<Longrightarrow> b_checksum b = Some c"
  "fst (check_content sha x c bc) = None \<Longrightarrow> snd (check_content sha x c bc) = bc"
  by (auto simp: check_content_def make_buffer_def Let_def split: if_splits)

declare check_content_spec(1) [simp]

lemma ask_source_spec:
  assumes "keeps_its_word sha s" and "get \<in> set_option (so_get_buffer s) \<union> set_option (so_get_buffer_async s)"
  shows "map_option b_content (fst (ask_source sha get (so_returns_verified_buffer s) c bc)) =
      (case fetched_content (get c) of Some x \<Rightarrow> if sha x = c then Some x else None | None \<Rightarrow> None)"
    and "fst (ask_source sha get (so_returns_verified_buffer s) c bc) = Some b \<Longrightarrow> b_checksum b = Some c"
    and "fst (ask_source sha get (so_returns_verified_buffer s) c bc) = None \<Longrightarrow>
      snd (ask_source sha get (so_returns_verified_buffer s) c bc) = bc"
proof -
  have word: "sha (b_content x) = c" if "so_returns_verified_buffer s" "get c = Inr (FetchedBuffer x)" "b_checksum x = Some c" for x
    using assms that unfolding keeps_its_word_def by blast
  show "map_option b_content (fst (ask_source sha get (so_returns_verified_buffer s) c bc)) =
      (case fetched_content (get c) of Some x \<Rightarrow> if sha x = c then Some x else None | None \<Rightarrow> None)"
    using word by (auto simp: ask_source_def to_buffer_def check_content_spec split: sum.split fetched.split)
  show "fst (ask_source sha get (so_returns_verified_buffer s) c bc) = Some b \<Longrightarrow> b_checksum b = Some c"
    by (auto simp: ask_source_def to_buffer_def simp: check_content_spec(1) split: sum.splits fetched.splits if_splits)
  show "fst (ask_source sha get (so_returns_verified_buffer s) c bc) = None \<Longrightarrow>
      snd (ask_source sha get (so_returns_verified_buffer s) c bc) = bc"
    by (auto simp: ask_source_def to_buffer_def check_content_spec split: sum.splits fetched.splits if_splits)
qed

lemma get_buffer_from_spec:
  assumes "list_all (keeps_its_word sha) ss"
  shows "map_option b_content (fst (get_buffer_from sha ss c bc)) =
      first_match sha c (List.map_filter so_get_buffer ss)
    \<and> (\<forall>b. fst (get_buffer_from sha ss c bc) = Some b \<longrightarrow> b_checksum b = Some c)
    \<and> (fst (get_buffer_from sha ss c bc) = None \<longrightarrow> snd (get_buffer_from sha ss c bc) = bc)"
  using assms
proof (induction ss)
  case Nil
  show ?case by (simp add: List.map_filter_def)
next
  case (Cons s ss)
  show ?case
  proof (cases "so_get_buffer s")
    case None
    with Cons show ?thesis by (simp add: List.map_filter_def)
  next
    case (Some get)
    obtain r bc' where ask: "ask_source sha get (so_returns_verified_buffer s) c bc = (r, bc')" by fastforce
    from Cons.prems Some have k: "keeps_its_word sha s"
      "get \<in> set_option (so_get_buffer s) \<union> set_option (so_get_buffer_async s)" by simp_all
    note one = ask_source_spec [OF k, of c bc]
    show ?thesis
    proof (cases r)
      case None
      with one ask have "bc' = bc" "(case fetched_content (get c) of Some x \<Rightarrow> if sha x = c then Some x else None | None \<Rightarrow> None) = None"
        by simp_all
      with None Some ask Cons show ?thesis by (auto simp: List.map_filter_def split: option.splits if_splits)
    next
      case (Some b)
      with one ask have "b_checksum b = Some c"
        "(case fetched_content (get c) of Some x \<Rightarrow> if sha x = c then Some x else None | None \<Rightarrow> None) = Some (b_content b)"
        by (simp, metis fst_conv option.map(2))
      with Some \<open>so_get_buffer s = Some get\<close> ask show ?thesis
        by (auto simp: List.map_filter_def split: option.splits if_splits)
    qed
  qed
qed

text \<open>The asynchronous loop is the synchronous one over the callbacks it chooses.\<close>

definition as_sync :: "bool \<Rightarrow> source \<Rightarrow> source" where
  "as_sync async_only s = s\<lparr>so_get_buffer := async_callback async_only s\<rparr>"

lemma uncached_as_sync:
  "get_buffer_uncached sha async_only ss c bc = get_buffer_from sha (map (as_sync async_only) ss) c bc"
  by (induction ss arbitrary: bc) (simp_all add: as_sync_def split: option.split prod.split)

lemma as_sync_keeps: "keeps_its_word sha s \<Longrightarrow> keeps_its_word sha (as_sync async_only s)"
  unfolding keeps_its_word_def as_sync_def async_callback_def
  by (auto split: if_splits option.splits)

lemma as_sync_callbacks:
  "List.map_filter so_get_buffer (map (as_sync async_only) ss) = List.map_filter (async_callback async_only) ss"
  by (simp add: List.map_filter_def as_sync_def comp_def filter_map)

text \<open>C38: a lookup in the local stores returns the requested bytes and no others. With stores
  that keep the promise they declare, the synchronous and the asynchronous lookup return the
  first content, in registration order, that hashes to the requested checksum, as a buffer of
  that checksum; they skip a store that raises, answers nothing, answers something else or
  answers the wrong bytes, and leave the buffer cache alone when no store has it.\<close>

theorem source_lookup_is_exact:
  assumes "list_all (keeps_its_word sha) (source_snapshot reg)"
  shows "map_option b_content (fst (get_buffer_source sha reg c bc)) =
      first_match sha c (List.map_filter so_get_buffer (source_snapshot reg))
    \<and> map_option b_content (fst (get_buffer_uncached sha async_only (source_snapshot reg) c bc)) =
      first_match sha c (List.map_filter (async_callback async_only) (source_snapshot reg))
    \<and> (\<forall>b. fst (get_buffer_source sha reg c bc) = Some b \<longrightarrow> b_checksum b = Some c \<and> sha (b_content b) = c)
    \<and> (fst (get_buffer_source sha reg c bc) = None \<longrightarrow> snd (get_buffer_source sha reg c bc) = bc)"
proof -
  have hit: "first_match sha c gets = Some x \<Longrightarrow> sha x = c" for gets x
    by (induction gets) (auto split: option.splits if_splits)
  have keeps: "list_all (keeps_its_word sha) (map (as_sync async_only) (source_snapshot reg))"
    using assms by (simp add: list_all_iff as_sync_keeps)
  note sync = get_buffer_from_spec [OF assms, of c bc] and async = get_buffer_from_spec [OF keeps, of c bc]
  have "b_checksum b = Some c \<and> sha (b_content b) = c" if "fst (get_buffer_source sha reg c bc) = Some b" for b
    using that sync hit by (auto simp: get_buffer_source_def)
  with sync async show ?thesis
    by (simp add: get_buffer_source_def uncached_as_sync as_sync_callbacks)
qed

definition wrong_store :: source where
  "wrong_store = \<lparr>so_get_buffer = Some (\<lambda>_. Inr (FetchedBytes [1])), so_get_buffer_async = None, so_has_buffer = None,
     so_get_buffer_length = None, so_returns_verified_buffer = False\<rparr>"

definition right_store :: source where
  "right_store = \<lparr>so_get_buffer = Some (\<lambda>_. Inr (FetchedBytes [])), so_get_buffer_async = None, so_has_buffer = None,
     so_get_buffer_length = None, so_returns_verified_buffer = False\<rparr>"

theorem source_lookup_is_exact_witness:
  "map_option b_content (fst (get_buffer_source pad_sha [(0::nat, [wrong_store, right_store])] (pad_sha []) (cache_init 2))) = Some []"
proof -
  let ?reg = "[(0::nat, [wrong_store, right_store])]"
  have "list_all (keeps_its_word pad_sha) (source_snapshot ?reg)"
    by (simp add: source_snapshot_def keeps_its_word_def wrong_store_def right_store_def)
  moreover have "first_match pad_sha (pad_sha []) (List.map_filter so_get_buffer (source_snapshot ?reg)) = Some []"
    by code_simp
  ultimately show ?thesis
    using source_lookup_is_exact [of pad_sha ?reg "pad_sha []" "cache_init 2" False] by simp
qed

section \<open>Metadata is what the first store says\<close>

fun first_length :: "checksum \<Rightarrow> source list \<Rightarrow> int option" where
  "first_length c [] = None"
| "first_length c (s # ss) =
     (case so_get_buffer_length s of
        None \<Rightarrow> first_length c ss
      | Some len \<Rightarrow> (case usable_length (len c) of Some n \<Rightarrow> Some n | None \<Rightarrow> first_length c ss))"

lemma length_pass_spec:
  assumes "\<forall>i\<in>set pending. i < length results" and "length_pass len cs pending results = (remaining, r)"
  shows "remaining = filter (\<lambda>i. usable_length (len (cs ! i)) = None) pending \<and> length r = length results
    \<and> (\<forall>j < length results. r ! j =
        (if j \<in> set pending \<and> usable_length (len (cs ! j)) \<noteq> None then usable_length (len (cs ! j)) else results ! j))"
  using assms
proof (induction len cs pending results arbitrary: remaining r rule: length_pass.induct)
  case (1 len cs results)
  then show ?case by simp
next
  case (2 len cs i pending results)
  show ?case
  proof (cases "usable_length (len (cs ! i))")
    case None
    obtain rem' where p: "length_pass len cs pending results = (rem', r)" "remaining = i # rem'"
      using 2(4) None by (auto split: prod.splits)
    from 2(1) [OF None _ p(1)] 2(3) None p(2) show ?thesis by auto
  next
    case (Some n)
    with 2(4) have "length_pass len cs pending (results[i := Some n]) = (remaining, r)" by simp
    from 2(2) [OF Some _ this] 2(3) Some show ?thesis by (auto simp: nth_list_update)
  qed
qed

lemma length_passes_spec:
  assumes "\<forall>i\<in>set pending. i < length results"
  shows "length (length_passes ss cs pending results) = length results
    \<and> (\<forall>j < length results. length_passes ss cs pending results ! j =
        (case first_length (cs ! j) ss of Some n \<Rightarrow> if j \<in> set pending then Some n else results ! j | None \<Rightarrow> results ! j))"
  using assms
proof (induction ss arbitrary: pending results)
  case Nil
  then show ?case by simp
next
  case (Cons s ss)
  show ?case
  proof (cases "so_get_buffer_length s")
    case None
    with Cons show ?thesis by simp
  next
    case (Some len)
    show ?thesis
    proof (cases "pending = []")
      case True
      with Cons.IH [of pending results] Some show ?thesis by (auto split: option.splits)
    next
      case False
      obtain rem r where p: "length_pass len cs pending results = (rem, r)" by fastforce
      note one = length_pass_spec [OF Cons.prems p]
      have "\<forall>i\<in>set rem. i < length r" using one Cons.prems by auto
      from Cons.IH [OF this] one p False Some show ?thesis by (auto split: option.splits)
    qed
  qed
qed

lemma lengths_are_first: "get_buffer_lengths reg cs = map (\<lambda>c. first_length c (source_snapshot reg)) cs"
proof (rule nth_equalityI)
  note spec = length_passes_spec [of "[0..<length cs]" "replicate (length cs) None" "source_snapshot reg" cs]
  then show len: "length (get_buffer_lengths reg cs) = length (map (\<lambda>c. first_length c (source_snapshot reg)) cs)"
    by (simp add: get_buffer_lengths_def)
  fix j assume "j < length (get_buffer_lengths reg cs)"
  then have j: "j < length cs" using len by simp
  with spec have "get_buffer_lengths reg cs ! j =
      first_length (cs ! j) (source_snapshot reg)"
    by (simp add: get_buffer_lengths_def split: option.splits)
  with j show "get_buffer_lengths reg cs ! j = map (\<lambda>c. first_length c (source_snapshot reg)) cs ! j" by simp
qed

text \<open>A known length is a presence, unless a store's presence callback raises: then that
  store's length is not consulted.\<close>

lemma length_is_presence:
  assumes "list_all (\<lambda>s. \<forall>has. so_has_buffer s = Some has \<longrightarrow> (\<exists>b. has c = Inr b)) (source_snapshot reg)"
    and "first_length c (source_snapshot reg) = Some n"
  shows "has_buffer_source reg c"
proof -
  have "list_all (\<lambda>s. \<forall>has. so_has_buffer s = Some has \<longrightarrow> (\<exists>b. has c = Inr b)) ss \<Longrightarrow> first_length c ss = Some n
      \<Longrightarrow> source_has c ss" for ss
    by (induction ss) (auto split: option.splits sum.splits bool.splits)
  with assms show ?thesis by (simp add: has_buffer_source_def)
qed

section \<open>Shared lookups\<close>

text \<open>
  \<open>get_buffer_async\<close> shares one lookup per event loop, checksum and kind. A key is
  \<open>(loop, checksum, async_only)\<close>; \<open>lk_waiting\<close> has one pair for each caller inside the
  \<open>try\<close>, \<open>lk_finished\<close> the done callbacks not yet run.
\<close>

type_synonym lookup_key = "nat \<times> checksum \<times> bool"

datatype lookup_task = LookupRunning | LookupCanceled | LookupDone

record lookups =
  lk_pending :: "(lookup_key, nat \<times> nat) dict"
  lk_task :: "nat \<Rightarrow> lookup_task"
  lk_key :: "nat \<Rightarrow> lookup_key"
  lk_next :: nat
  lk_waiting :: "(lookup_key \<times> nat) list"
  lk_finished :: "(lookup_key \<times> nat) list"

definition lookups_init :: lookups where
  "lookups_init = \<lparr>lk_pending = [], lk_task = (\<lambda>_. LookupDone), lk_key = (\<lambda>_. (0, Checksum [], False)), lk_next = 0,
     lk_waiting = [], lk_finished = []\<rparr>"

definition ask_lookup :: "'o sources \<Rightarrow> lookup_key \<Rightarrow> lookups \<Rightarrow> lookups" where
  "ask_lookup reg k s =
     (if reg = [] then s
      else case dget (lk_pending s) k of
          Some (t, n) \<Rightarrow> s\<lparr>lk_pending := dset k (t, n + 1) (lk_pending s), lk_waiting := (k, t) # lk_waiting s\<rparr>
        | None \<Rightarrow>
            let t = lk_next s in
            s\<lparr>lk_next := Suc t, lk_task := (lk_task s)(t := LookupRunning), lk_key := (lk_key s)(t := k),
              lk_pending := dset k (t, 0 + 1) (lk_pending s), lk_waiting := (k, t) # lk_waiting s\<rparr>)"

text \<open>The \<open>finally\<close> of a caller, whatever ended its wait.\<close>

definition leave_lookup :: "lookup_key \<Rightarrow> nat \<Rightarrow> lookups \<Rightarrow> lookups" where
  "leave_lookup k t s =
     (let s1 = s\<lparr>lk_waiting := remove1 (k, t) (lk_waiting s)\<rparr> in
      case dget (lk_pending s) k of
        None \<Rightarrow> s1
      | Some (t', n) \<Rightarrow>
          if t' \<noteq> t then s1
          else if n - 1 = 0 then
            s1\<lparr>lk_pending := ddel k (lk_pending s),
               lk_task := (if lk_task s t = LookupDone then lk_task s else (lk_task s)(t := LookupCanceled))\<rparr>
          else s1\<lparr>lk_pending := dset k (t, n - 1) (lk_pending s)\<rparr>)"

definition finish_lookup :: "nat \<Rightarrow> lookups \<Rightarrow> lookups" where
  "finish_lookup t s = s\<lparr>lk_task := (lk_task s)(t := LookupDone), lk_finished := (lk_key s t, t) # lk_finished s\<rparr>"

text \<open>\<open>finished\<close>\<close>

definition lookup_callback :: "lookup_key \<Rightarrow> nat \<Rightarrow> lookups \<Rightarrow> lookups" where
  "lookup_callback k t s =
     (let s1 = s\<lparr>lk_finished := remove1 (k, t) (lk_finished s)\<rparr> in
      case dget (lk_pending s) k of
        Some (t', n) \<Rightarrow> if t' = t then s1\<lparr>lk_pending := ddel k (lk_pending s)\<rparr> else s1
      | None \<Rightarrow> s1)"

datatype lookup_event = AskLookup lookup_key | LeaveLookup lookup_key nat | FinishLookup nat | LookupCallback lookup_key nat

inductive lookup_step :: "lookups \<Rightarrow> lookup_event \<Rightarrow> lookups \<Rightarrow> bool" where
  ask_step: "lookup_step s (AskLookup k) (ask_lookup (reg :: (nat, source list) dict) k s)"
| leave_step: "(k, t) \<in> set (lk_waiting s) \<Longrightarrow> lookup_step s (LeaveLookup k t) (leave_lookup k t s)"
| finish_step: "t < lk_next s \<Longrightarrow> lk_task s t \<noteq> LookupDone \<Longrightarrow> lookup_step s (FinishLookup t) (finish_lookup t s)"
| callback_step: "(k, t) \<in> set (lk_finished s) \<Longrightarrow> lookup_step s (LookupCallback k t) (lookup_callback k t s)"

definition lookups_ok :: "lookups \<Rightarrow> bool" where
  "lookups_ok s \<longleftrightarrow>
     (\<forall>k t n. dget (lk_pending s) k = Some (t, n) \<longrightarrow>
        t < lk_next s \<and> lk_key s t = k \<and> n = count_list (lk_waiting s) (k, t) \<and> 0 < n) \<and>
     (\<forall>k t. (k, t) \<in> set (lk_waiting s) \<longrightarrow> t < lk_next s \<and> lk_key s t = k \<and> lk_task s t \<noteq> LookupCanceled
        \<and> (lk_task s t = LookupRunning \<longrightarrow> (\<exists>n. dget (lk_pending s) k = Some (t, n)))) \<and>
     (\<forall>t < lk_next s. lk_task s t = LookupRunning \<longrightarrow> (\<exists>n. dget (lk_pending s) (lk_key s t) = Some (t, n))) \<and>
     (\<forall>k t. (k, t) \<in> set (lk_finished s) \<longrightarrow> t < lk_next s \<and> lk_task s t = LookupDone)"

lemma lookups_okD:
  assumes "lookups_ok s"
  shows "dget (lk_pending s) k = Some (t, n) \<Longrightarrow>
      t < lk_next s \<and> lk_key s t = k \<and> n = count_list (lk_waiting s) (k, t) \<and> 0 < n"
    and "(k, t) \<in> set (lk_waiting s) \<Longrightarrow> t < lk_next s \<and> lk_key s t = k \<and> lk_task s t \<noteq> LookupCanceled
        \<and> (lk_task s t = LookupRunning \<longrightarrow> (\<exists>n. dget (lk_pending s) k = Some (t, n)))"
    and "t < lk_next s \<Longrightarrow> lk_task s t = LookupRunning \<Longrightarrow> \<exists>n. dget (lk_pending s) (lk_key s t) = Some (t, n)"
    and "(k, t) \<in> set (lk_finished s) \<Longrightarrow> t < lk_next s \<and> lk_task s t = LookupDone"
  using assms unfolding lookups_ok_def by blast+

lemma lookups_okI:
  assumes "\<And>k t n. dget (lk_pending s) k = Some (t, n) \<Longrightarrow>
      t < lk_next s \<and> lk_key s t = k \<and> n = count_list (lk_waiting s) (k, t) \<and> 0 < n"
    and "\<And>k t. (k, t) \<in> set (lk_waiting s) \<Longrightarrow> t < lk_next s \<and> lk_key s t = k \<and> lk_task s t \<noteq> LookupCanceled
        \<and> (lk_task s t = LookupRunning \<longrightarrow> (\<exists>n. dget (lk_pending s) k = Some (t, n)))"
    and "\<And>t. t < lk_next s \<Longrightarrow> lk_task s t = LookupRunning \<Longrightarrow> \<exists>n. dget (lk_pending s) (lk_key s t) = Some (t, n)"
    and "\<And>k t. (k, t) \<in> set (lk_finished s) \<Longrightarrow> t < lk_next s \<and> lk_task s t = LookupDone"
  shows "lookups_ok s"
  using assms unfolding lookups_ok_def by blast

lemma ok_ask:
  assumes ok: "lookups_ok s"
  shows "lookups_ok (ask_lookup reg k s)"
proof (cases "reg = []")
  case True
  with ok show ?thesis by (simp add: ask_lookup_def)
next
  case reg: False
  show ?thesis
  proof (cases "dget (lk_pending s) k")
    case None
    let ?s = "ask_lookup reg k s"
    have fields: "dget (lk_pending ?s) j = (if j = k then Some (lk_next s, 1) else dget (lk_pending s) j)"
      "lk_waiting ?s = (k, lk_next s) # lk_waiting s" "lk_next ?s = Suc (lk_next s)"
      "lk_task ?s = (lk_task s)(lk_next s := LookupRunning)" "lk_key ?s = (lk_key s)(lk_next s := k)"
      "lk_finished ?s = lk_finished s" for j
      using reg None by (simp_all add: ask_lookup_def Let_def)
    have fresh: "(j, lk_next s) \<notin> set (lk_waiting s)" "(j, lk_next s) \<notin> set (lk_finished s)"
      "dget (lk_pending s) j \<noteq> Some (lk_next s, n)" for j n
      using lookups_okD(1,2,4) [OF ok, of j "lk_next s"] by auto
    show ?thesis
    proof (rule lookups_okI)
      fix j t n assume "dget (lk_pending ?s) j = Some (t, n)"
      with lookups_okD(1) [OF ok, of j t n] fresh(1,3)
      show "t < lk_next ?s \<and> lk_key ?s t = j \<and> n = count_list (lk_waiting ?s) (j, t) \<and> 0 < n"
        by (cases "j = k") (auto simp: fields count_list_0_iff)
    next
      fix j t assume "(j, t) \<in> set (lk_waiting ?s)"
      with lookups_okD(2) [OF ok, of j t] None
      show "t < lk_next ?s \<and> lk_key ?s t = j \<and> lk_task ?s t \<noteq> LookupCanceled
        \<and> (lk_task ?s t = LookupRunning \<longrightarrow> (\<exists>n. dget (lk_pending ?s) j = Some (t, n)))"
        by (cases "t = lk_next s") (auto simp: fields)
    next
      fix t assume "t < lk_next ?s" "lk_task ?s t = LookupRunning"
      with lookups_okD(3) [OF ok, of t] None show "\<exists>n. dget (lk_pending ?s) (lk_key ?s t) = Some (t, n)"
        by (cases "t = lk_next s") (auto simp: fields)
    next
      fix j t assume "(j, t) \<in> set (lk_finished ?s)"
      with lookups_okD(4) [OF ok, of j t] fresh show "t < lk_next ?s \<and> lk_task ?s t = LookupDone" by (auto simp: fields)
    qed
  next
    case (Some p)
    obtain t n where p: "dget (lk_pending s) k = Some (t, n)" using Some by (cases p) auto
    let ?s = "ask_lookup reg k s"
    have fields: "dget (lk_pending ?s) j = (if j = k then Some (t, n + 1) else dget (lk_pending s) j)"
      "lk_waiting ?s = (k, t) # lk_waiting s" "lk_next ?s = lk_next s" "lk_task ?s = lk_task s" "lk_key ?s = lk_key s"
      "lk_finished ?s = lk_finished s" for j
      using reg p by (simp_all add: ask_lookup_def)
    note P = lookups_okD(1) [OF ok p]
    then have "count_list (lk_waiting s) (k, t) \<noteq> 0" by simp
    then have "(k, t) \<in> set (lk_waiting s)" by (simp add: count_list_0_iff)
    from lookups_okD(2) [OF ok this] have task: "lk_task s t \<noteq> LookupCanceled" by simp
    show ?thesis
    proof (rule lookups_okI)
      fix j t' m assume "dget (lk_pending ?s) j = Some (t', m)"
      with lookups_okD(1) [OF ok, of j t' m] P
      show "t' < lk_next ?s \<and> lk_key ?s t' = j \<and> m = count_list (lk_waiting ?s) (j, t') \<and> 0 < m"
        by (cases "j = k") (auto simp: fields)
    next
      fix j t' assume "(j, t') \<in> set (lk_waiting ?s)"
      then consider "j = k" "t' = t" | "(j, t') \<in> set (lk_waiting s)" by (auto simp: fields)
      then show "t' < lk_next ?s \<and> lk_key ?s t' = j \<and> lk_task ?s t' \<noteq> LookupCanceled
        \<and> (lk_task ?s t' = LookupRunning \<longrightarrow> (\<exists>n. dget (lk_pending ?s) j = Some (t', n)))"
      proof cases
        case 1
        with P task show ?thesis by (simp add: fields)
      next
        case 2
        from lookups_okD(2) [OF ok 2] p show ?thesis by (cases "j = k") (auto simp: fields)
      qed
    next
      fix t' assume "t' < lk_next ?s" "lk_task ?s t' = LookupRunning"
      with lookups_okD(3) [OF ok, of t'] p show "\<exists>n. dget (lk_pending ?s) (lk_key ?s t') = Some (t', n)"
        by (auto simp: fields)
    next
      fix j t' assume "(j, t') \<in> set (lk_finished ?s)"
      with lookups_okD(4) [OF ok, of j t'] show "t' < lk_next ?s \<and> lk_task ?s t' = LookupDone" by (simp add: fields)
    qed
  qed
qed

lemma lookup_ok_callback:
  assumes ok: "lookups_ok s" and "(k, t) \<in> set (lk_finished s)"
  shows "lookups_ok (lookup_callback k t s)"
proof -
  have gone: "t < lk_next s" "lk_task s t = LookupDone" using lookups_okD(4) [OF ok assms(2)] by simp_all
  let ?s = "lookup_callback k t s"
  have fields: "dget (lk_pending ?s) j =
      (if j = k \<and> (\<exists>n. dget (lk_pending s) k = Some (t, n)) then None else dget (lk_pending s) j)"
    "lk_waiting ?s = lk_waiting s" "lk_next ?s = lk_next s" "lk_task ?s = lk_task s" "lk_key ?s = lk_key s"
    "lk_finished ?s = remove1 (k, t) (lk_finished s)" for j
    by (auto simp: lookup_callback_def Let_def split: option.splits)
  show ?thesis
  proof (rule lookups_okI)
    fix j t' n assume "dget (lk_pending ?s) j = Some (t', n)"
    with lookups_okD(1) [OF ok, of j t' n]
    show "t' < lk_next ?s \<and> lk_key ?s t' = j \<and> n = count_list (lk_waiting ?s) (j, t') \<and> 0 < n"
      by (simp add: fields split: if_splits)
  next
    fix j t' assume "(j, t') \<in> set (lk_waiting ?s)"
    with lookups_okD(2) [OF ok, of j t'] gone
    show "t' < lk_next ?s \<and> lk_key ?s t' = j \<and> lk_task ?s t' \<noteq> LookupCanceled
      \<and> (lk_task ?s t' = LookupRunning \<longrightarrow> (\<exists>n. dget (lk_pending ?s) j = Some (t', n)))"
      by (auto simp: fields)
  next
    fix t' assume "t' < lk_next ?s" "lk_task ?s t' = LookupRunning"
    with lookups_okD(3) [OF ok, of t'] gone show "\<exists>n. dget (lk_pending ?s) (lk_key ?s t') = Some (t', n)"
      by (auto simp: fields)
  next
    fix j t' assume "(j, t') \<in> set (lk_finished ?s)"
    then have "(j, t') \<in> set (lk_finished s)" using set_remove1_subset by (force simp: fields)
    from lookups_okD(4) [OF ok this] show "t' < lk_next ?s \<and> lk_task ?s t' = LookupDone" by (simp add: fields)
  qed
qed

lemma ok_finish:
  assumes ok: "lookups_ok s" and "t < lk_next s"
  shows "lookups_ok (finish_lookup t s)"
  using assms unfolding lookups_ok_def finish_lookup_def by auto

lemma count_remove1: "count_list (remove1 x xs) y = (if x = y then count_list xs y - 1 else count_list xs y)"
  by (induction xs) (auto simp: count_list_0_iff Suc_pred')

lemma ok_leave:
  assumes ok: "lookups_ok s" and w: "(k, t) \<in> set (lk_waiting s)"
  shows "lookups_ok (leave_lookup k t s)"
proof -
  let ?s = "leave_lookup k t s"
  note W = lookups_okD(2) [OF ok w]
  define last where "last \<longleftrightarrow> dget (lk_pending s) k = Some (t, 1)"
  have fields: "dget (lk_pending ?s) j =
      (if j = k then (case dget (lk_pending s) k of
          Some (t', n) \<Rightarrow> if t' \<noteq> t then Some (t', n) else if n - 1 = 0 then None else Some (t, n - 1) | None \<Rightarrow> None)
       else dget (lk_pending s) j)"
    "lk_waiting ?s = remove1 (k, t) (lk_waiting s)" "lk_next ?s = lk_next s" "lk_key ?s = lk_key s"
    "lk_finished ?s = lk_finished s" for j
    by (auto simp: leave_lookup_def Let_def split: option.splits)
  have task: "lk_task ?s t' = (if t' = t \<and> last \<and> lk_task s t \<noteq> LookupDone then LookupCanceled else lk_task s t')" for t'
    using lookups_okD(1) [OF ok, of k t] by (auto simp: leave_lookup_def last_def Let_def split: option.splits)
  have only: "(j, t) \<notin> set (remove1 (k, t) (lk_waiting s))" if "last" for j
  proof -
    from that have "count_list (lk_waiting s) (k, t) = 1" using lookups_okD(1) [OF ok, of k t 1] by (simp add: last_def)
    then have "count_list (remove1 (k, t) (lk_waiting s)) (k, t) = 0" by (simp add: count_remove1)
    then have "(k, t) \<notin> set (remove1 (k, t) (lk_waiting s))" by (simp only: count_list_0_iff not_False_eq_True)
    moreover have "j = k" if "(j, t) \<in> set (lk_waiting s)" using lookups_okD(2) [OF ok that] W by simp
    ultimately show ?thesis using set_remove1_subset by fastforce
  qed
  show ?thesis
  proof (rule lookups_okI)
    fix j t' n assume p: "dget (lk_pending ?s) j = Some (t', n)"
    show "t' < lk_next ?s \<and> lk_key ?s t' = j \<and> n = count_list (lk_waiting ?s) (j, t') \<and> 0 < n"
    proof (cases "j = k")
      case False
      with p lookups_okD(1) [OF ok, of j t' n] show ?thesis by (simp add: fields count_remove1)
    next
      case True
      with p lookups_okD(1) [OF ok, of k] show ?thesis
        by (auto simp: fields count_remove1 split: option.splits if_splits prod.splits)
    qed
  next
    fix j t' assume m: "(j, t') \<in> set (lk_waiting ?s)"
    then have old: "(j, t') \<in> set (lk_waiting s)" using set_remove1_subset by (force simp: fields)
    have "\<not> (t' = t \<and> last)"
    proof
      assume "t' = t \<and> last"
      with m only [of j] show False by (simp only: fields)
    qed
    with lookups_okD(2) [OF ok old] lookups_okD(1) [OF ok, of k t]
    show "t' < lk_next ?s \<and> lk_key ?s t' = j \<and> lk_task ?s t' \<noteq> LookupCanceled
      \<and> (lk_task ?s t' = LookupRunning \<longrightarrow> (\<exists>n. dget (lk_pending ?s) j = Some (t', n)))"
      by (auto simp: fields task last_def split: option.splits)
  next
    fix t' assume "t' < lk_next ?s" "lk_task ?s t' = LookupRunning"
    then have "t' < lk_next s" "lk_task s t' = LookupRunning" "\<not> (t' = t \<and> last)"
      by (auto simp: fields task split: if_splits)
    with lookups_okD(3) [OF ok, of t'] lookups_okD(1) [OF ok, of k t]
    show "\<exists>n. dget (lk_pending ?s) (lk_key ?s t') = Some (t', n)"
      by (auto simp: fields last_def split: option.splits)
  next
    fix j t' assume "(j, t') \<in> set (lk_finished ?s)"
    with lookups_okD(4) [OF ok, of j t'] show "t' < lk_next ?s \<and> lk_task ?s t' = LookupDone"
      by (auto simp: fields task)
  qed
qed

interpretation shared_lookups: inductive_invariant "\<lambda>s. s = lookups_init" lookup_step lookups_ok
proof unfold_locales
  show "s = lookups_init \<Longrightarrow> lookups_ok s" for s by (simp add: lookups_ok_def lookups_init_def)
  fix s e s' assume ok: "lookups_ok s" and "lookup_step s e s'"
  from this(2) show "lookups_ok s'"
    by cases (use ok ok_ask ok_leave ok_finish lookup_ok_callback in auto)
qed

text \<open>C39: a caller that stops waiting does not take the lookup from the others. In every
  reachable state the count of a pending lookup is the number of callers inside it; a lookup
  task is canceled only when the last of its callers has left, so that no caller ever waits
  for a canceled one; and a lookup that runs is the one its key finds, so concurrent requests
  for a key share one task.\<close>

theorem lookups_are_shared_safely:
  assumes "reachable (\<lambda>s. s = lookups_init) lookup_step s"
  shows "(dget (lk_pending s) k = Some (t, n) \<longrightarrow> n = count_list (lk_waiting s) (k, t) \<and> 0 < n)
    \<and> (lk_task s t = LookupCanceled \<longrightarrow> (k, t) \<notin> set (lk_waiting s))
    \<and> (t < lk_next s \<and> t' < lk_next s \<and> lk_key s t = lk_key s t' \<and> lk_task s t = LookupRunning
         \<and> lk_task s t' = LookupRunning \<longrightarrow> t = t')"
proof -
  note ok = shared_lookups.reachable_inv [OF assms]
  have "t = t'" if "t < lk_next s" "t' < lk_next s" "lk_key s t = lk_key s t'" "lk_task s t = LookupRunning"
      "lk_task s t' = LookupRunning"
  proof -
    note h = that
    obtain a b where "dget (lk_pending s) (lk_key s t) = Some (t, a)" "dget (lk_pending s) (lk_key s t') = Some (t', b)"
      using lookups_okD(3) [OF ok h(1,4)] lookups_okD(3) [OF ok h(2,5)] by blast
    then show ?thesis unfolding h(3) by simp
  qed
  then have one: "t < lk_next s \<and> t' < lk_next s \<and> lk_key s t = lk_key s t' \<and> lk_task s t = LookupRunning
      \<and> lk_task s t' = LookupRunning \<longrightarrow> t = t'" by blast
  have "dget (lk_pending s) k = Some (t, n) \<longrightarrow> n = count_list (lk_waiting s) (k, t) \<and> 0 < n"
    using lookups_okD(1) [OF ok, of k t n] by blast
  moreover have "lk_task s t = LookupCanceled \<longrightarrow> (k, t) \<notin> set (lk_waiting s)"
    using lookups_okD(2) [OF ok, of k t] by blast
  ultimately show ?thesis using one by (intro conjI)
qed

definition two_callers :: lookups where
  "two_callers = leave_lookup (0, pad_sha [], False) 0
     (ask_lookup [(0::nat, [right_store])] (0, pad_sha [], False)
       (ask_lookup [(0::nat, [right_store])] (0, pad_sha [], False) lookups_init))"

theorem lookups_are_shared_safely_witness:
  "dget (lk_pending two_callers) (0, pad_sha [], False) = Some (0, 1) \<and> lk_task two_callers 0 = LookupRunning
    \<and> count_list (lk_waiting two_callers) ((0, pad_sha [], False), 0) = 1"
proof -
  let ?k = "(0::nat, pad_sha [], False)" and ?r = "[(0::nat, [right_store])]"
  have "reachable (\<lambda>s. s = lookups_init) lookup_step (ask_lookup ?r ?k (ask_lookup ?r ?k lookups_init))"
    by (rule reach_step, rule reach_step, rule reach_start, rule refl, rule ask_step, rule ask_step)
  moreover have "(?k, 0) \<in> set (lk_waiting (ask_lookup ?r ?k (ask_lookup ?r ?k lookups_init)))"
    by (simp add: ask_lookup_def lookups_init_def Let_def)
  ultimately have "reachable (\<lambda>s. s = lookups_init) lookup_step two_callers"
    unfolding two_callers_def by - (erule reach_step, erule leave_step)
  moreover have "dget (lk_pending two_callers) ?k = Some (0, 1)" "lk_task two_callers 0 = LookupRunning"
    by (simp_all add: two_callers_def leave_lookup_def ask_lookup_def lookups_init_def Let_def)
  ultimately show ?thesis using lookups_are_shared_safely [of two_callers ?k 0 1] by simp
qed

end
