(* ===== verification/Lru.thy ===== *)
theory Lru
  imports Checksums
begin

text \<open>
  \<open>seamless/util/pylru.py\<close> (\<open>lrucache\<close>) and \<open>lrucache2\<close> of \<open>seamless/util\<close>:
  the bounded dictionaries before \<open>serialize\<close>, \<open>parse_buffer\<close> and the digest. A hash
  table points into a circular doubly linked list of nodes; here nodes have addresses and
  every pointer assignment is a step. \<open>spec_call\<close> says what the class promises: a
  dictionary in order of use that forgets its tail. The callback is the list of its calls.
  The managers and decorators of the same file are used nowhere.
\<close>

section \<open>Nodes\<close>

record ('k, 'v) dlnode =
  nd_empty :: bool
  nd_next :: nat
  nd_prev :: nat
  nd_key :: "'k option"
  nd_value :: "'v option"

record ('k, 'v) lru =
  lc_node :: "nat \<Rightarrow> ('k, 'v) dlnode"
  lc_fresh :: nat
  lc_table :: "('k, nat) dict"
  lc_head :: nat
  lc_size :: nat
  lc_callback :: bool
  lc_ejected :: "('k \<times> 'v option) list"
  lc_disabled :: bool

text \<open>\<open>None\<close> is Python's \<open>None\<close>, and the attributes a new node does not have yet.\<close>

definition on_node :: "nat \<Rightarrow> (('k, 'v) dlnode \<Rightarrow> ('k, 'v) dlnode) \<Rightarrow> ('k, 'v) lru \<Rightarrow> ('k, 'v) lru" where
  "on_node n f s = s\<lparr>lc_node := (lc_node s)(n := f (lc_node s n))\<rparr>"

abbreviation next_of :: "('k, 'v) lru \<Rightarrow> nat \<Rightarrow> nat" where
  "next_of s n \<equiv> nd_next (lc_node s n)"

abbreviation prev_of :: "('k, 'v) lru \<Rightarrow> nat \<Rightarrow> nat" where
  "prev_of s n \<equiv> nd_prev (lc_node s n)"

definition set_next :: "nat \<Rightarrow> nat \<Rightarrow> ('k, 'v) lru \<Rightarrow> ('k, 'v) lru" where
  "set_next n m = on_node n (\<lambda>x. x\<lparr>nd_next := m\<rparr>)"

definition set_prev :: "nat \<Rightarrow> nat \<Rightarrow> ('k, 'v) lru \<Rightarrow> ('k, 'v) lru" where
  "set_prev n m = on_node n (\<lambda>x. x\<lparr>nd_prev := m\<rparr>)"

text \<open>\<open>mtf\<close>: its six assignments, each reading the links the previous one left.\<close>

definition mtf :: "nat \<Rightarrow> ('k, 'v) lru \<Rightarrow> ('k, 'v) lru" where
  "mtf n s0 =
     (let s1 = set_next (prev_of s0 n) (next_of s0 n) s0;
          s2 = set_prev (next_of s1 n) (prev_of s1 n) s1;
          s3 = set_prev n (prev_of s2 (lc_head s2)) s2;
          s4 = set_next n (next_of s3 (prev_of s3 (lc_head s3))) s3;
          s5 = set_prev (next_of s4 n) n s4
      in set_next (prev_of s5 n) n s5)"

text \<open>\<open>dli\<close>: as many nodes as the table has keys, from the head.\<close>

fun walk :: "('k, 'v) lru \<Rightarrow> nat \<Rightarrow> nat \<Rightarrow> nat list" where
  "walk s 0 n = []"
| "walk s (Suc k) n = n # walk s k (next_of s n)"

definition dli :: "('k, 'v) lru \<Rightarrow> nat list" where
  "dli s = walk s (length (lc_table s)) (lc_head s)"

definition node_item :: "('k, 'v) lru \<Rightarrow> nat \<Rightarrow> 'k option \<times> 'v option" where
  "node_item s n = (nd_key (lc_node s n), nd_value (lc_node s n))"

definition cache_items :: "('k, 'v) lru \<Rightarrow> ('k option \<times> 'v option) list" where
  "cache_items s = map (node_item s) (dli s)"

section \<open>Operations\<close>

text \<open>The callback and the table, when a node that holds an item is reused or removed.\<close>

definition eject :: "nat \<Rightarrow> ('k, 'v) lru \<Rightarrow> ('k, 'v) lru" where
  "eject n s =
     (if nd_empty (lc_node s n) then s
      else case nd_key (lc_node s n) of
        None \<Rightarrow> s
      | Some k \<Rightarrow> s\<lparr>lc_table := ddel k (lc_table s),
          lc_ejected := lc_ejected s @ (if lc_callback s then [(k, nd_value (lc_node s n))] else [])\<rparr>)"

definition clear_node :: "nat \<Rightarrow> ('k, 'v) lru \<Rightarrow> ('k, 'v) lru" where
  "clear_node n = on_node n (\<lambda>x. x\<lparr>nd_empty := True, nd_key := None, nd_value := None\<rparr>)"

definition clear_cache :: "('k, 'v) lru \<Rightarrow> ('k, 'v) lru" where
  "clear_cache s = (fold clear_node (dli s) s)\<lparr>lc_table := []\<rparr>"

definition to_front :: "nat \<Rightarrow> ('k, 'v) lru \<Rightarrow> ('k, 'v) lru" where
  "to_front n s = (mtf n s)\<lparr>lc_head := n\<rparr>"

definition peek :: "'k \<Rightarrow> (('k, 'v) lru, exc, 'v option) op" where
  "peek k s = (case dget (lc_table s) k of
     None \<Rightarrow> (Inl KeyError, s) | Some n \<Rightarrow> (Inr (nd_value (lc_node s n)), s))"

definition get_item :: "'k \<Rightarrow> (('k, 'v) lru, exc, 'v option) op" where
  "get_item k s = (case dget (lc_table s) k of
     None \<Rightarrow> (Inl KeyError, s) | Some n \<Rightarrow> (Inr (nd_value (lc_node s n)), to_front n s))"

definition get_or :: "'k \<Rightarrow> 'v option \<Rightarrow> (('k, 'v) lru, exc, 'v option) op" where
  "get_or k d s = (if dget (lc_table s) k = None then (Inr d, s) else get_item k s)"

definition set_key :: "'k \<Rightarrow> 'v \<Rightarrow> ('k, 'v) lru \<Rightarrow> ('k, 'v) lru" where
  "set_key k v s =
     (if lc_disabled s then s
      else case dget (lc_table s) k of
        Some n \<Rightarrow> to_front n (on_node n (\<lambda>x. x\<lparr>nd_value := Some v\<rparr>) s)
      | None \<Rightarrow>
          let n = prev_of s (lc_head s);
              s1 = on_node n (\<lambda>x. x\<lparr>nd_empty := False, nd_key := Some k, nd_value := Some v\<rparr>) (eject n s)
          in s1\<lparr>lc_table := dset k n (lc_table s1), lc_head := n\<rparr>)"

definition del_item :: "'k \<Rightarrow> (('k, 'v) lru, exc, unit) op" where
  "del_item k s =
     (case dget (lc_table s) k of
        None \<Rightarrow> (Inl KeyError, s)
      | Some n \<Rightarrow>
          let s1 = mtf n (clear_node n (s\<lparr>lc_table := ddel k (lc_table s)\<rparr>))
          in (Inr (), s1\<lparr>lc_head := next_of s1 n\<rparr>))"

text \<open>\<open>update\<close> of a sequence of pairs; the default of \<open>pop\<close> is \<open>Option.None\<close> when absent.\<close>

definition update_items :: "('k \<times> 'v) list \<Rightarrow> ('k, 'v) lru \<Rightarrow> ('k, 'v) lru" where
  "update_items kvs s = fold (\<lambda>(k, v). set_key k v) kvs s"

definition pop_key :: "'k \<Rightarrow> 'v option option \<Rightarrow> (('k, 'v) lru, exc, 'v option) op" where
  "pop_key k d s =
     (if dget (lc_table s) k = None then (case d of None \<Rightarrow> (Inl KeyError, s) | Some x \<Rightarrow> (Inr x, s))
      else obind (peek k) (\<lambda>v. obind (del_item k) (\<lambda>_. oret v)) s)"

definition pop_item :: "(('k, 'v) lru, exc, 'k option \<times> 'v option) op" where
  "pop_item s =
     (if length (lc_table s) < 1 then (Inl KeyError, s)
      else
        let item = node_item s (lc_head s)
        in (case fst item of
              None \<Rightarrow> (Inl KeyError, s)
            | Some k \<Rightarrow> obind (del_item k) (\<lambda>_. oret item) s))"

definition set_default :: "'k \<Rightarrow> 'v \<Rightarrow> (('k, 'v) lru, exc, 'v option) op" where
  "set_default k d s = (if dget (lc_table s) k = None then (Inr (Some d), set_key k d s) else get_item k s)"

text \<open>The loops of \<open>addTailNode\<close> and \<open>removeTailNode\<close>. A removed node is reached by no
  pointer any more; the code also clears its own four attributes.\<close>

definition add_tail :: "('k, 'v) lru \<Rightarrow> ('k, 'v) lru" where
  "add_tail s =
     (let n = lc_fresh s; h = lc_head s;
          s1 = s\<lparr>lc_fresh := Suc n, lc_node := (lc_node s)(n := \<lparr>nd_empty = True, nd_next = h,
            nd_prev = prev_of s h, nd_key = None, nd_value = None\<rparr>)\<rparr>;
          s2 = set_next (prev_of s1 h) n s1
      in set_prev h n s2)"

definition remove_tail :: "('k, 'v) lru \<Rightarrow> ('k, 'v) lru" where
  "remove_tail s =
     (let n = prev_of s (lc_head s);
          s1 = eject n s;
          s2 = set_prev (lc_head s1) (prev_of s1 n) s1
      in set_next (prev_of s2 n) (lc_head s2) s2)"

definition resize :: "nat \<Rightarrow> (('k, 'v) lru, exc, nat) op" where
  "resize m s =
     (if m = 0 then (Inl AssertionError, s)
      else
        let s1 = (if m > lc_size s then (add_tail ^^ (m - lc_size s)) s
                  else if m < lc_size s then (remove_tail ^^ (lc_size s - m)) s else s)
        in (Inr m, s1\<lparr>lc_size := m\<rparr>))"

definition first_node :: "bool \<Rightarrow> ('k, 'v) lru" where
  "first_node cb = \<lparr>lc_node = (\<lambda>_. \<lparr>nd_empty = True, nd_next = 0, nd_prev = 0, nd_key = None, nd_value = None\<rparr>),
     lc_fresh = 1, lc_table = [], lc_head = 0, lc_size = 1, lc_callback = cb, lc_ejected = [], lc_disabled = False\<rparr>"

definition new_lru :: "nat \<Rightarrow> bool \<Rightarrow> ('k, 'v) lru result" where
  "new_lru m cb = (case resize m (first_node cb) of (Inl e, s) \<Rightarrow> Inl e | (Inr _, s) \<Rightarrow> Inr s)"

definition disable :: "('k, 'v) lru \<Rightarrow> ('k, 'v) lru" where
  "disable s = s\<lparr>lc_disabled := True\<rparr>"

text \<open>\<open>del self._disabled\<close> raises when the instance has no such attribute.\<close>

definition enable :: "(('k, 'v) lru, exc, unit) op" where
  "enable s = (if lc_disabled s then (Inr (), s\<lparr>lc_disabled := False\<rparr>) else (Inl AttributeError, s))"

datatype ('k, 'v) lru_call =
    Contains 'k | Peek 'k | GetItem 'k | GetOr 'k "'v option" | SetItem 'k 'v | DelItem 'k
  | Update "('k \<times> 'v) list" | PopKey 'k "'v option option" | PopItem | SetDefault 'k 'v
  | Listing | Count | Resize nat | Clear | Disable | Enable

datatype ('k, 'v) lru_answer =
    AUnit | ATruth bool | AValue "'v option" | APair "'k option \<times> 'v option"
  | AItems "('k option \<times> 'v option) list" | ANumber nat

definition answering :: "('a \<Rightarrow> 'b) \<Rightarrow> ('s, 'e, 'a) op \<Rightarrow> ('s, 'e, 'b) op" where
  "answering f m = obind m (\<lambda>x. oret (f x))"

fun cache_call :: "('k, 'v) lru_call \<Rightarrow> (('k, 'v) lru, exc, ('k, 'v) lru_answer) op" where
  "cache_call (Contains k) s = (Inr (ATruth (dget (lc_table s) k \<noteq> None)), s)"
| "cache_call (Peek k) s = answering AValue (peek k) s"
| "cache_call (GetItem k) s = answering AValue (get_item k) s"
| "cache_call (GetOr k d) s = answering AValue (get_or k d) s"
| "cache_call (SetItem k v) s = (Inr AUnit, set_key k v s)"
| "cache_call (DelItem k) s = answering (\<lambda>_. AUnit) (del_item k) s"
| "cache_call (Update kvs) s = (Inr AUnit, update_items kvs s)"
| "cache_call (PopKey k d) s = answering AValue (pop_key k d) s"
| "cache_call PopItem s = answering APair pop_item s"
| "cache_call (SetDefault k d) s = answering AValue (set_default k d) s"
| "cache_call Listing s = (Inr (AItems (cache_items s)), s)"
| "cache_call Count s = (Inr (ANumber (length (lc_table s))), s)"
| "cache_call (Resize m) s = answering ANumber (resize m) s"
| "cache_call Clear s = (Inr AUnit, clear_cache s)"
| "cache_call Disable s = (Inr AUnit, disable s)"
| "cache_call Enable s = answering (\<lambda>_. AUnit) enable s"

section \<open>What the class promises\<close>

text \<open>A dictionary whose order is the order of use, the latest first, and which keeps its
  first \<open>lp_size\<close> items.\<close>

record ('k, 'v) lru_spec =
  lp_items :: "('k, 'v) dict"
  lp_size :: nat
  lp_callback :: bool
  lp_ejected :: "('k \<times> 'v option) list"
  lp_disabled :: bool

definition told :: "('k, 'v) lru_spec \<Rightarrow> ('k \<times> 'v) list \<Rightarrow> ('k \<times> 'v option) list" where
  "told p kvs = (if lp_callback p then map (\<lambda>(k, v). (k, Some v)) kvs else [])"

definition spec_put :: "'k \<Rightarrow> 'v \<Rightarrow> ('k, 'v) lru_spec \<Rightarrow> ('k, 'v) lru_spec" where
  "spec_put k v p =
     (let l = (k, v) # ddel k (lp_items p)
      in p\<lparr>lp_items := take (lp_size p) l, lp_ejected := lp_ejected p @ told p (drop (lp_size p) l)\<rparr>)"

definition spec_set :: "'k \<Rightarrow> 'v \<Rightarrow> ('k, 'v) lru_spec \<Rightarrow> ('k, 'v) lru_spec" where
  "spec_set k v p = (if lp_disabled p then p else spec_put k v p)"

definition spec_size :: "nat \<Rightarrow> ('k, 'v) lru_spec \<Rightarrow> ('k, 'v) lru_spec" where
  "spec_size m p = p\<lparr>lp_size := m, lp_items := take m (lp_items p),
     lp_ejected := lp_ejected p @ told p (rev (drop m (lp_items p)))\<rparr>"

abbreviation shown :: "('k \<times> 'v) \<Rightarrow> 'k option \<times> 'v option" where
  "shown \<equiv> (\<lambda>(k, v). (Some k, Some v))"

definition spec_get :: "'k \<Rightarrow> exc + ('k, 'v) lru_answer \<Rightarrow> ('k, 'v) lru_spec
    \<Rightarrow> (exc + ('k, 'v) lru_answer) \<times> ('k, 'v) lru_spec" where
  "spec_get k missing p = (case dget (lp_items p) k of
     None \<Rightarrow> (missing, p) | Some v \<Rightarrow> (Inr (AValue (Some v)), spec_put k v p))"

fun spec_call :: "('k, 'v) lru_call \<Rightarrow> (('k, 'v) lru_spec, exc, ('k, 'v) lru_answer) op" where
  "spec_call (Contains k) p = (Inr (ATruth (dget (lp_items p) k \<noteq> None)), p)"
| "spec_call (Peek k) p = (case dget (lp_items p) k of None \<Rightarrow> Inl KeyError | Some v \<Rightarrow> Inr (AValue (Some v)), p)"
| "spec_call (GetItem k) p = spec_get k (Inl KeyError) p"
| "spec_call (GetOr k d) p = spec_get k (Inr (AValue d)) p"
| "spec_call (SetItem k v) p = (Inr AUnit, spec_set k v p)"
| "spec_call (DelItem k) p =
     (if dget (lp_items p) k = None then (Inl KeyError, p)
      else (Inr AUnit, p\<lparr>lp_items := ddel k (lp_items p)\<rparr>))"
| "spec_call (Update kvs) p = (Inr AUnit, fold (\<lambda>(k, v). spec_set k v) kvs p)"
| "spec_call (PopKey k d) p =
     (case dget (lp_items p) k of
        None \<Rightarrow> (case d of None \<Rightarrow> Inl KeyError | Some x \<Rightarrow> Inr (AValue x), p)
      | Some v \<Rightarrow> (Inr (AValue (Some v)), p\<lparr>lp_items := ddel k (lp_items p)\<rparr>))"
| "spec_call PopItem p =
     (case lp_items p of [] \<Rightarrow> (Inl KeyError, p) | x # xs \<Rightarrow> (Inr (APair (shown x)), p\<lparr>lp_items := xs\<rparr>))"
| "spec_call (SetDefault k d) p =
     (if dget (lp_items p) k = None then (Inr (AValue (Some d)), spec_set k d p) else spec_get k (Inl KeyError) p)"
| "spec_call Listing p = (Inr (AItems (map shown (lp_items p))), p)"
| "spec_call Count p = (Inr (ANumber (length (lp_items p))), p)"
| "spec_call (Resize m) p = (if m = 0 then (Inl AssertionError, p) else (Inr (ANumber m), spec_size m p))"
| "spec_call Clear p = (Inr AUnit, p\<lparr>lp_items := []\<rparr>)"
| "spec_call Disable p = (Inr AUnit, p\<lparr>lp_disabled := True\<rparr>)"
| "spec_call Enable p = (if lp_disabled p then (Inr AUnit, p\<lparr>lp_disabled := False\<rparr>) else (Inl AttributeError, p))"

definition new_spec :: "nat \<Rightarrow> bool \<Rightarrow> ('k, 'v) lru_spec" where
  "new_spec m cb = \<lparr>lp_items = [], lp_size = m, lp_callback = cb, lp_ejected = [], lp_disabled = False\<rparr>"

text \<open>A sequence of calls, an exception of one caught before the next.\<close>

fun run_calls :: "('c \<Rightarrow> 's \<Rightarrow> 'r \<times> 's) \<Rightarrow> 'c list \<Rightarrow> 's \<Rightarrow> 'r list \<times> 's" where
  "run_calls f [] s = ([], s)"
| "run_calls f (c # cs) s = (let (r, s1) = f c s; (rs, s2) = run_calls f cs s1 in (r # rs, s2))"

section \<open>Rings\<close>

fun chain :: "('k, 'v) lru \<Rightarrow> nat list \<Rightarrow> bool" where
  "chain s (x # y # zs) \<longleftrightarrow> next_of s x = y \<and> prev_of s y = x \<and> chain s (y # zs)"
| "chain s xs \<longleftrightarrow> True"

definition ring :: "('k, 'v) lru \<Rightarrow> nat list \<Rightarrow> bool" where
  "ring s xs \<longleftrightarrow> xs \<noteq> [] \<and> distinct xs \<and> chain s xs
     \<and> next_of s (last xs) = hd xs \<and> prev_of s (hd xs) = last xs"

lemma chain_append:
  "chain s (xs @ ys) \<longleftrightarrow> chain s xs \<and> chain s ys
     \<and> (xs \<noteq> [] \<and> ys \<noteq> [] \<longrightarrow> next_of s (last xs) = hd ys \<and> prev_of s (hd ys) = last xs)"
proof (induction xs rule: induct_list012)
  case (2 x)
  then show ?case by (cases ys) auto
qed auto

text \<open>Links that agree inside a chain make it a chain.\<close>

lemma chain_cong:
  assumes "\<And>x. x \<in> set (butlast xs) \<Longrightarrow> next_of t x = next_of s x"
    and "\<And>x. x \<in> set (tl xs) \<Longrightarrow> prev_of t x = prev_of s x"
  shows "chain t xs = chain s xs"
  using assms
proof (induction xs rule: induct_list012)
  case (3 x y zs)
  have "chain t (y # zs) = chain s (y # zs)"
    by (rule 3(2)) (use 3(3,4) in \<open>auto split: if_splits intro: list.set_sel(2)\<close>)
  then show ?case using 3(3) [of x] 3(4) [of y] by auto
qed simp_all

lemma ring_rotate: "ring s (xs @ ys) \<longleftrightarrow> ring s (ys @ xs)"
  by (cases "xs = []"; cases "ys = []") (auto simp: ring_def chain_append)

lemma link_simps [simp]:
  "next_of (set_next a b s) n = (if n = a then b else next_of s n)" "prev_of (set_next a b s) n = prev_of s n"
  "prev_of (set_prev a b s) n = (if n = a then b else prev_of s n)" "next_of (set_prev a b s) n = next_of s n"
  "nd_empty (lc_node (set_next a b s) n) = nd_empty (lc_node s n)"
  "nd_key (lc_node (set_next a b s) n) = nd_key (lc_node s n)"
  "nd_value (lc_node (set_next a b s) n) = nd_value (lc_node s n)"
  "nd_empty (lc_node (set_prev a b s) n) = nd_empty (lc_node s n)"
  "nd_key (lc_node (set_prev a b s) n) = nd_key (lc_node s n)"
  "nd_value (lc_node (set_prev a b s) n) = nd_value (lc_node s n)"
  "lc_head (set_next a b s) = lc_head s" "lc_head (set_prev a b s) = lc_head s"
  "lc_table (set_next a b s) = lc_table s" "lc_table (set_prev a b s) = lc_table s"
  "lc_size (set_next a b s) = lc_size s" "lc_size (set_prev a b s) = lc_size s"
  "lc_fresh (set_next a b s) = lc_fresh s" "lc_fresh (set_prev a b s) = lc_fresh s"
  "lc_callback (set_next a b s) = lc_callback s" "lc_callback (set_prev a b s) = lc_callback s"
  "lc_ejected (set_next a b s) = lc_ejected s" "lc_ejected (set_prev a b s) = lc_ejected s"
  "lc_disabled (set_next a b s) = lc_disabled s" "lc_disabled (set_prev a b s) = lc_disabled s"
  by (simp_all add: set_next_def set_prev_def on_node_def)

text \<open>Everything but the links and the head.\<close>

definition same_content :: "('k, 'v) lru \<Rightarrow> ('k, 'v) lru \<Rightarrow> bool" where
  "same_content s t \<longleftrightarrow>
     (\<forall>n. nd_empty (lc_node t n) = nd_empty (lc_node s n) \<and> nd_key (lc_node t n) = nd_key (lc_node s n)
        \<and> nd_value (lc_node t n) = nd_value (lc_node s n))
     \<and> lc_table t = lc_table s \<and> lc_size t = lc_size s \<and> lc_fresh t = lc_fresh s
     \<and> lc_callback t = lc_callback s \<and> lc_ejected t = lc_ejected s \<and> lc_disabled t = lc_disabled s"

lemma mtf_content: "same_content s (mtf n s)" "lc_head (mtf n s) = lc_head s"
  by (simp_all add: same_content_def mtf_def Let_def)

lemma ring_links:
  assumes "ring s (as @ n # bs)"
  shows "as \<noteq> [] \<Longrightarrow> prev_of s n = last as \<and> next_of s (last as) = n"
    and "bs \<noteq> [] \<Longrightarrow> next_of s n = hd bs \<and> prev_of s (hd bs) = n"
    and "as = [] \<Longrightarrow> prev_of s n = last (n # bs) \<and> next_of s (last (n # bs)) = n"
    and "bs = [] \<Longrightarrow> next_of s n = hd (as @ [n]) \<and> prev_of s (hd (as @ [n])) = n"
  using assms by (cases bs; auto simp: ring_def chain_append)+

lemma ring_cong:
  assumes "\<And>x. next_of t x = next_of s x" "\<And>x. prev_of t x = prev_of s x"
  shows "ring t xs = ring s xs"
  using assms chain_cong [of xs t s] by (simp add: ring_def)

lemma mtf_in_place:
  assumes "ring s (as @ n # bs)" and "lc_head s = hd (as @ [n])" and "as = [] \<or> bs = []"
  shows "next_of (mtf n s) x = next_of s x" and "prev_of (mtf n s) x = prev_of s x"
  using ring_links [OF assms(1)] assms(2,3) unfolding mtf_def Let_def
  by (cases "as = []"; cases "bs = []"; auto)+

lemma ring_ends:
  assumes "ring s (as @ n # bs)" and ne: "as \<noteq> []" "bs \<noteq> []"
  shows "last as \<noteq> n" "last bs \<noteq> n" "hd as \<noteq> n" "hd bs \<noteq> n" "last as \<noteq> last bs" "hd as \<noteq> hd bs"
    "hd as \<noteq> last bs" "last as \<noteq> hd bs"
  using assms hd_in_set [of as] hd_in_set [of bs] last_in_set [of as] last_in_set [of bs]
  unfolding ring_def by fastforce+

lemma mtf_moves:
  assumes r: "ring s (as @ n # bs)" and h: "lc_head s = hd (as @ [n])" and ne: "as \<noteq> []" "bs \<noteq> []"
  shows "next_of (mtf n s) x = (if x = last bs then n else if x = n then hd as
           else if x = last as then hd bs else next_of s x)"
    and "prev_of (mtf n s) x = (if x = hd as then n else if x = n then last bs
           else if x = hd bs then last as else prev_of s x)"
proof -
  note d = ring_ends [OF r ne]
  note l = ring_links(1,2) [OF r]
  have t: "prev_of s (hd as) = last bs" "next_of s (last bs) = hd as"
    using r ne by (auto simp: ring_def)
  have h': "lc_head s = hd as" using h ne by simp
  show "next_of (mtf n s) x = (if x = last bs then n else if x = n then hd as
      else if x = last as then hd bs else next_of s x)"
    using l ne by (simp add: mtf_def Let_def h' t d d [symmetric])
  show "prev_of (mtf n s) x = (if x = hd as then n else if x = n then last bs
      else if x = hd bs then last as else prev_of s x)"
    using l ne by (simp add: mtf_def Let_def h' t d d [symmetric])
qed

lemma chain_tl: "chain s (x # xs) \<Longrightarrow> chain s xs"
  by (cases xs) auto

lemma in_ends:
  "distinct xs \<Longrightarrow> x \<in> set (butlast xs) \<Longrightarrow> x \<in> set xs \<and> x \<noteq> last xs"
  "distinct xs \<Longrightarrow> x \<in> set (tl xs) \<Longrightarrow> x \<in> set xs \<and> x \<noteq> hd xs"
  by (cases xs rule: rev_cases; auto) (cases xs; auto)

lemma ring_mtf:
  assumes r: "ring s (as @ n # bs)" and h: "lc_head s = hd (as @ [n])"
  shows "ring (mtf n s) (as @ bs @ [n])"
proof (cases "as = [] \<or> bs = []")
  case True
  then have "ring s (as @ bs @ [n])"
  proof
    assume "as = []"
    with r ring_rotate [of s "[n]" bs] show ?thesis by simp
  qed (use r in simp)
  with mtf_in_place [OF r h True] show ?thesis using ring_cong [of "mtf n s" s] by simp
next
  case False
  then have ne: "as \<noteq> []" "bs \<noteq> []" by auto
  note m = mtf_moves [OF r h ne]
  have d: "distinct as" "distinct bs" "n \<notin> set as" "n \<notin> set bs" "set as \<inter> set bs = {}"
    and c: "chain s as" "chain s bs"
    using r by (auto simp: ring_def chain_append dest: chain_tl)
  have in_as: "x \<in> set as \<Longrightarrow> x \<noteq> n \<and> x \<noteq> hd bs \<and> x \<noteq> last bs"
    and in_bs: "x \<in> set bs \<Longrightarrow> x \<noteq> n \<and> x \<noteq> hd as \<and> x \<noteq> last as" for x
    using d ne by (auto simp: disjoint_iff)
  have "chain (mtf n s) as = chain s as" "chain (mtf n s) bs = chain s bs"
    by (intro chain_cong; use in_as in_bs in_ends [OF d(1)] in_ends [OF d(2)] in \<open>simp add: m\<close>)+
  with c ne d m show ?thesis
    using ring_ends [OF r ne] by (simp add: ring_def chain_append)
qed

section \<open>The ring holds the dictionary\<close>

definition holds_item :: "('k, 'v) lru \<Rightarrow> nat \<Rightarrow> 'k \<times> 'v \<Rightarrow> bool" where
  "holds_item s n kv \<longleftrightarrow> \<not> nd_empty (lc_node s n) \<and> nd_key (lc_node s n) = Some (fst kv)
     \<and> nd_value (lc_node s n) = Some (snd kv)"

text \<open>The used nodes \<open>us\<close> hold the items \<open>l\<close>; the empty ones \<open>es\<close> follow them.\<close>

definition represents :: "('k, 'v) lru \<Rightarrow> nat list \<Rightarrow> nat list \<Rightarrow> ('k, 'v) dict \<Rightarrow> bool" where
  "represents s us es l \<longleftrightarrow>
     ring s (us @ es) \<and> lc_head s = hd (us @ es) \<and> length (us @ es) = lc_size s
     \<and> (\<forall>n \<in> set (us @ es). n < lc_fresh s)
     \<and> list_all2 (holds_item s) us l \<and> (\<forall>n \<in> set es. nd_empty (lc_node s n))
     \<and> distinct (map fst l) \<and> dict_wf (lc_table s)
     \<and> (\<forall>k n. dget (lc_table s) k = Some n \<longleftrightarrow> (k, n) \<in> set (zip (map fst l) us))"

definition simulates :: "('k, 'v) lru \<Rightarrow> ('k, 'v) lru_spec \<Rightarrow> bool" where
  "simulates s p \<longleftrightarrow> (\<exists>us es. represents s us es (lp_items p)) \<and> lc_size s = lp_size p
     \<and> lc_callback s = lp_callback p \<and> lc_ejected s = lp_ejected p \<and> lc_disabled s = lp_disabled p"

lemma representsD:
  assumes "represents s us es l"
  shows "ring s (us @ es)" "lc_head s = hd (us @ es)" "length us + length es = lc_size s"
    "list_all2 (holds_item s) us l" "length us = length l" "distinct (map fst l)" "distinct us"
    "\<And>n. n \<in> set us \<union> set es \<Longrightarrow> n < lc_fresh s" "\<And>n. n \<in> set es \<Longrightarrow> nd_empty (lc_node s n)"
    "dict_wf (lc_table s)" "dget (lc_table s) k = Some n \<longleftrightarrow> (k, n) \<in> set (zip (map fst l) us)"
  using assms by (auto simp: represents_def ring_def dest: list_all2_lengthD)

lemma represents_dget:
  assumes "represents s us es l"
  shows "dget (lc_table s) k = None \<longleftrightarrow> dget l k = None"
proof -
  have "dget (lc_table s) k = None \<longleftrightarrow> (\<forall>n. (k, n) \<notin> set (zip (map fst l) us))"
    using representsD(11) [OF assms, of k] by (metis not_Some_eq)
  also have "\<dots> \<longleftrightarrow> k \<notin> set (map fst l)"
    using representsD(5) [OF assms] by (metis in_set_impl_in_set_zip1 length_map set_zip_leftD)
  finally show ?thesis unfolding dget_None_iff .
qed

lemma represents_split:
  assumes "represents s us es l" and "dget (lc_table s) k = Some n"
  obtains as bs l1 v l2 where "us = as @ n # bs" "l = l1 @ (k, v) # l2" "length as = length l1"
    "length bs = length l2" "holds_item s n (k, v)"
proof -
  have "(k, n) \<in> set (zip (map fst l) us)" using assms representsD(11) by metis
  then obtain i where i: "i < length l" "i < length us" "map fst l ! i = k" "us ! i = n"
    by (auto simp: in_set_zip)
  then have "us = take i us @ n # drop (Suc i) us" "l = take i l @ (k, snd (l ! i)) # drop (Suc i) l"
    using id_take_nth_drop [of i us] id_take_nth_drop [of i l] by (auto simp: prod_eq_iff)
  moreover have "holds_item s n (k, snd (l ! i))"
    using list_all2_nthD [OF representsD(4) [OF assms(1)] i(2)] i by (auto simp: holds_item_def)
  ultimately show ?thesis using that i(1,2) representsD(5) [OF assms(1)] by (auto simp: min_def)
qed

lemma ddel_middle: "distinct (map fst (l1 @ (k, v) # l2)) \<Longrightarrow> ddel k (l1 @ (k, v) # l2) = l1 @ l2"
  by (force simp: AList.delete_eq intro!: arg_cong2 [where f = append] filter_True)

lemma walk_chain: "chain s (us @ es) \<Longrightarrow> us = [] \<or> n = hd us \<Longrightarrow> walk s (length us) n = us"
proof (induction us arbitrary: n)
  case (Cons x us)
  then show ?case by (cases us) (auto dest: chain_tl)
qed simp

lemma represents_table:
  assumes "represents s us es l"
  shows "length (lc_table s) = length l"
proof -
  have "set (dkeys (lc_table s)) = set (map fst l)"
    using represents_dget [OF assms] unfolding dget_None_iff by blast
  moreover have "distinct (dkeys (lc_table s))"
    using representsD(10) [OF assms] by (simp add: dict_wf_def)
  ultimately show ?thesis
    using distinct_card [of "dkeys (lc_table s)"] distinct_card [OF representsD(6) [OF assms]] by simp
qed

lemma represents_dli:
  assumes "represents s us es l"
  shows "dli s = us"
proof -
  have "chain s (us @ es)" "us = [] \<or> lc_head s = hd us"
    using representsD(1,2) [OF assms] by (auto simp: ring_def)
  then show ?thesis
    using walk_chain [of s us es "lc_head s"] represents_table [OF assms] representsD(5) [OF assms]
    by (simp add: dli_def)
qed

lemma represents_items:
  assumes "represents s us es l"
  shows "cache_items s = map shown l"
proof -
  have "list_all2 (\<lambda>n kv. node_item s n = shown kv) us l"
    using representsD(4) [OF assms] by (rule list_all2_mono) (auto simp: holds_item_def node_item_def)
  then have "map (node_item s) us = map shown l" by (induction) auto
  then show ?thesis by (simp add: cache_items_def represents_dli [OF assms])
qed

section \<open>Every operation keeps its promise\<close>

lemma holds_item_cong:
  assumes "same_content s t" shows "holds_item t n kv = holds_item s n kv"
  using assms by (simp add: same_content_def holds_item_def)

text \<open>The used nodes in another order, together with their items.\<close>

lemma represents_reorder:
  assumes r: "represents s us es l" and c: "same_content s t"
    and ring: "ring t (us' @ es')" "lc_head t = hd (us' @ es')"
    and perm: "set (zip us' l') = set (zip us l)" "length us' = length l'" "length l' = length l"
      "distinct (map fst l')" "set us' = set us" "set es' = set es" "length es' = length es"
  shows "represents t us' es' l'"
proof -
  note d = representsD [OF r]
  have same: "lc_table t = lc_table s" "lc_size t = lc_size s" "lc_fresh t = lc_fresh s"
      "\<And>n. nd_empty (lc_node t n) = nd_empty (lc_node s n)"
    using c by (simp_all add: same_content_def)
  have pairs: "(k, n) \<in> set (zip (map fst l') us') \<longleftrightarrow> (k, n) \<in> set (zip (map fst l) us)" for k n
  proof -
    have "(k, n) \<in> set (zip (map fst m) vs) \<longleftrightarrow> (\<exists>v. (n, (k, v)) \<in> set (zip vs m))" for m :: "('a, 'b) dict" and vs
      by (auto simp: in_set_zip; metis prod.exhaust_sel nth_map fst_conv)
    then show ?thesis using perm(1) by simp
  qed
  have "list_all2 (holds_item t) us' l'"
    using d(4) perm(1,2) unfolding list_all2_iff by (auto simp: holds_item_cong [OF c])
  then show ?thesis
    using d(3,5,8,9,10,11) ring perm same pairs unfolding represents_def by auto
qed

lemma represents_front:
  assumes r: "represents s (as @ n # bs) es (l1 @ (k, v) # l2)" and len: "length as = length l1"
  shows "represents (to_front n s) (n # as @ bs) es ((k, v) # l1 @ l2)"
proof -
  note d = representsD [OF r]
  have "ring (mtf n s) (as @ (bs @ es) @ [n])"
    using ring_mtf [of s as n "bs @ es"] d(1,2) by (cases as) simp_all
  then have "ring (mtf n s) ((n # as @ bs) @ es)"
    using ring_rotate [of "mtf n s" "as @ bs @ es" "[n]"] by simp
  moreover have "same_content s (to_front n s)"
    using mtf_content(1) [of s n] by (simp add: to_front_def same_content_def)
  moreover have "ring (to_front n s) xs = ring (mtf n s) xs" for xs
    by (rule ring_cong) (simp_all add: to_front_def)
  ultimately show ?thesis
    using len d(5,6) by (intro represents_reorder [OF r]) (auto simp: to_front_def)
qed

lemma list_holds_cong:
  "(\<And>m. m \<in> set us \<Longrightarrow> nd_empty (lc_node t m) = nd_empty (lc_node s m) \<and> nd_key (lc_node t m) = nd_key (lc_node s m)
     \<and> nd_value (lc_node t m) = nd_value (lc_node s m)) \<Longrightarrow> list_all2 (holds_item t) us l = list_all2 (holds_item s) us l"
  by (induction us l rule: list_induct2') (auto simp: holds_item_def)

lemma list_holds_on_node:
  "n \<notin> set us \<Longrightarrow> list_all2 (holds_item (on_node n f s)) us l = list_all2 (holds_item s) us l"
  by (induction us l rule: list_induct2') (auto simp: holds_item_def on_node_def)

text \<open>A read of a key, and a write of a present one.\<close>

lemma take_full: "length xs \<le> n \<Longrightarrow> take n xs = xs \<and> drop n xs = []"
  by simp

lemma simulates_touch:
  assumes s: "simulates s p" and k: "dget (lc_table s) k = Some n"
  shows "simulates (to_front n (on_node n (\<lambda>x. x\<lparr>nd_value := Some v\<rparr>) s)) (spec_put k v p)"
    and "\<exists>v'. dget (lp_items p) k = Some v' \<and> nd_value (lc_node s n) = Some v'"
proof -
  obtain us es where r: "represents s us es (lp_items p)" using s by (auto simp: simulates_def)
  obtain as bs l1 v' l2 where sp: "us = as @ n # bs" "lp_items p = l1 @ (k, v') # l2"
      "length as = length l1" "length bs = length l2" "holds_item s n (k, v')"
    using represents_split [OF r k] .
  note d = representsD [OF r]
  let ?s = "on_node n (\<lambda>x. x\<lparr>nd_value := Some v\<rparr>) s"
  have "represents ?s (as @ n # bs) es (l1 @ (k, v) # l2)"
  proof -
    have "ring ?s xs = ring s xs" for xs by (rule ring_cong) (simp_all add: on_node_def)
    moreover have "list_all2 (holds_item ?s) (as @ n # bs) (l1 @ (k, v) # l2)"
    proof -
      have "n \<notin> set as" "n \<notin> set bs" using d(7) sp(1) by auto
      then have "list_all2 (holds_item ?s) as l1 = list_all2 (holds_item s) as l1"
          "list_all2 (holds_item ?s) bs l2 = list_all2 (holds_item s) bs l2"
        by (simp_all add: list_holds_on_node)
      then show ?thesis
        using d(4) sp by (simp add: list_all2_append holds_item_def on_node_def)
    qed
    ultimately show ?thesis using r sp unfolding represents_def by (auto simp: on_node_def)
  qed
  from represents_front [OF this sp(3)]
  have "represents (to_front n ?s) (n # as @ bs) es ((k, v) # l1 @ l2)" .
  moreover have "ddel k (lp_items p) = l1 @ l2" using d(6) sp(2) ddel_middle by metis
  moreover have "length (l1 @ (k, v) # l2) \<le> lp_size p"
    using d(3,5) s sp(2) by (simp add: simulates_def)
  ultimately show "simulates (to_front n ?s) (spec_put k v p)"
    using s mtf_content(1) [of ?s n] unfolding simulates_def spec_put_def Let_def
    by (auto simp: to_front_def same_content_def on_node_def told_def)
  show "\<exists>v'. dget (lp_items p) k = Some v' \<and> nd_value (lc_node s n) = Some v'"
    using sp(2,5) d(6) by (force simp: holds_item_def map_add_def split: option.split dest: map_of_SomeD)
qed

text \<open>A new key takes the tail node, whose item is ejected if it holds one.\<close>

lemma on_node_simps [simp]:
  "lc_head (on_node n f s) = lc_head s" "lc_table (on_node n f s) = lc_table s"
  "lc_size (on_node n f s) = lc_size s" "lc_fresh (on_node n f s) = lc_fresh s"
  "lc_callback (on_node n f s) = lc_callback s" "lc_ejected (on_node n f s) = lc_ejected s"
  "lc_disabled (on_node n f s) = lc_disabled s"
  "lc_node (on_node n f s) m = (if m = n then f (lc_node s n) else lc_node s m)"
  by (simp_all add: on_node_def)

lemma eject_simps [simp]:
  "lc_head (eject n s) = lc_head s" "lc_node (eject n s) = lc_node s" "lc_size (eject n s) = lc_size s"
  "lc_fresh (eject n s) = lc_fresh s" "lc_callback (eject n s) = lc_callback s"
  "lc_disabled (eject n s) = lc_disabled s"
  by (simp_all add: eject_def split: option.split)

definition fill_tail :: "'k \<Rightarrow> 'v \<Rightarrow> ('k, 'v) lru \<Rightarrow> ('k, 'v) lru" where
  "fill_tail k v s =
     (let n = prev_of s (lc_head s);
          s1 = on_node n (\<lambda>x. x\<lparr>nd_empty := False, nd_key := Some k, nd_value := Some v\<rparr>) (eject n s)
      in s1\<lparr>lc_table := dset k n (lc_table s1), lc_head := n\<rparr>)"

lemma represents_tail:
  assumes "represents s us es l"
  shows "prev_of s (lc_head s) = last (us @ es)"
  using representsD(1,2) [OF assms] by (simp add: ring_def)

lemma represents_fill:
  assumes r: "represents s us (es @ [n]) l" and k: "dget l k = None"
  shows "represents (fill_tail k v s) (n # us) es ((k, v) # l)" and "lc_ejected (fill_tail k v s) = lc_ejected s"
proof -
  note d = representsD [OF r]
  have n: "prev_of s (lc_head s) = n" using represents_tail [OF r] by simp
  have e: "eject n s = s" using d(9) by (simp add: eject_def)
  let ?s = "on_node n (\<lambda>x. x\<lparr>nd_empty := False, nd_key := Some k, nd_value := Some v\<rparr>) s"
  have t: "fill_tail k v s = ?s\<lparr>lc_table := dset k n (lc_table s), lc_head := n\<rparr>"
    by (simp add: fill_tail_def n e)
  show "lc_ejected (fill_tail k v s) = lc_ejected s" by (simp add: t)
  have fresh: "n \<notin> set us" "n \<notin> set es" using d(1) by (auto simp: ring_def)
  have "ring s (n # us @ es)"
    using d(1) ring_rotate [of s "us @ es" "[n]"] by simp
  moreover have "ring (fill_tail k v s) xs = ring s xs" for xs
    by (rule ring_cong) (simp_all add: t)
  moreover have "list_all2 (holds_item (fill_tail k v s)) us l"
    using d(4) list_holds_on_node [OF fresh(1), of _ s l] unfolding t holds_item_def by simp
  moreover have "dget (lc_table (fill_tail k v s)) j = Some m \<longleftrightarrow> (j, m) \<in> set (zip (map fst ((k, v) # l)) (n # us))" for j m
    using d(11) k [unfolded dget_None_iff] by (auto simp: t dest: set_zip_leftD)
  ultimately show "represents (fill_tail k v s) (n # us) es ((k, v) # l)"
    using d(3,5,6,8,9,10) k [unfolded dget_None_iff] fresh unfolding represents_def
    by (auto simp: t holds_item_def)
qed

lemma holds_item_eject: "holds_item (eject n s) = holds_item s"
  by (rule ext)+ (simp add: holds_item_def)

lemma represents_eject:
  assumes r: "represents s (us @ [n]) [] (l @ [kv])"
  shows "represents (clear_node n (eject n s)) us [n] l"
    and "lc_ejected (eject n s) = lc_ejected s @ (if lc_callback s then [(fst kv, Some (snd kv))] else [])"
proof -
  note d = representsD [OF r]
  have kv: "holds_item s n kv" "length us = length l" "list_all2 (holds_item s) us l"
    using d(4,5) by (simp_all add: list_all2_append)
  then show "lc_ejected (eject n s) = lc_ejected s @ (if lc_callback s then [(fst kv, Some (snd kv))] else [])"
    by (simp add: eject_def holds_item_def)
  have t: "lc_table (eject n s) = ddel (fst kv) (lc_table s)"
    using kv(1) by (simp add: eject_def holds_item_def)
  have fresh: "n \<notin> set us" using d(7) by simp
  have "ring (clear_node n (eject n s)) xs = ring s xs" for xs
    by (rule ring_cong) (simp_all add: clear_node_def)
  moreover have "list_all2 (holds_item (clear_node n (eject n s))) us l"
    using kv(3) by (simp add: clear_node_def list_holds_on_node [OF fresh] holds_item_eject)
  moreover have "dget (lc_table (clear_node n (eject n s))) j = Some m \<longleftrightarrow> (j, m) \<in> set (zip (map fst l) us)" for j m
    using d(6,11) fresh kv(2) by (auto simp: clear_node_def t dest: set_zip_leftD set_zip_rightD)
  ultimately show "represents (clear_node n (eject n s)) us [n] l"
    using d kv fresh unfolding represents_def by (auto simp: clear_node_def t)
qed

lemma eject_empty: "nd_empty (lc_node s n) \<Longrightarrow> eject n s = s"
  by (simp add: eject_def)

lemma fill_ejected:
  assumes "n = prev_of s (lc_head s)"
  shows "fill_tail k v (clear_node n (eject n s)) = fill_tail k v s"
proof -
  have "eject n (clear_node n (eject n s)) = clear_node n (eject n s)"
    by (rule eject_empty) (simp add: clear_node_def)
  moreover have "on_node n f (clear_node n s') = on_node n f s'"
    if "\<And>x. f (x\<lparr>nd_empty := True, nd_key := None, nd_value := None\<rparr>) = f x" for f and s' :: "('a, 'b) lru"
    by (simp add: on_node_def clear_node_def that)
  moreover have "lc_head (clear_node n (eject n s)) = lc_head s"
      "prev_of (clear_node n (eject n s)) (lc_head s) = prev_of s (lc_head s)"
    by (simp_all add: clear_node_def)
  ultimately show ?thesis unfolding fill_tail_def Let_def assms [symmetric] by (simp add: assms [symmetric])
qed

text \<open>Where nothing was forgotten.\<close>

lemma simulatesI:
  "simulates s p \<Longrightarrow> represents t us es l \<Longrightarrow> lc_size t = lc_size s \<Longrightarrow> lc_callback t = lc_callback s \<Longrightarrow>
     lc_disabled t = lc_disabled s \<Longrightarrow> lc_ejected t = lc_ejected s @ x \<Longrightarrow>
     lp_items q = l \<Longrightarrow> lp_size q = lp_size p \<Longrightarrow> lp_callback q = lp_callback p \<Longrightarrow>
     lp_disabled q = lp_disabled p \<Longrightarrow> lp_ejected q = lp_ejected p @ x \<Longrightarrow> simulates t q"
  unfolding simulates_def by auto

lemma simulates_set:
  assumes s: "simulates s p"
  shows "simulates (set_key k v s) (spec_set k v p)"
proof (cases "lc_disabled s")
  case True
  then show ?thesis using s by (simp add: set_key_def spec_set_def simulates_def)
next
  case False
  then have "spec_set k v p = spec_put k v p" using s by (simp add: spec_set_def simulates_def)
  moreover have "simulates (set_key k v s) (spec_put k v p)"
  proof (cases "dget (lc_table s) k")
    case (Some n)
    then show ?thesis using simulates_touch(1) [OF s Some] False by (simp add: set_key_def)
  next
    case None
    obtain us es where r: "represents s us es (lp_items p)" using s by (auto simp: simulates_def)
    note d = representsD [OF r]
    have k: "dget (lp_items p) k = None" using represents_dget [OF r] None by blast
    then have del: "ddel k (lp_items p) = lp_items p" by (simp add: delete_idem dget_None_iff)
    have set: "set_key k v s = fill_tail k v s" using False None by (simp add: set_key_def fill_tail_def)
    have frame: "lc_size (fill_tail k v s) = lc_size s" "lc_callback (fill_tail k v s) = lc_callback s"
        "lc_disabled (fill_tail k v s) = lc_disabled s"
      by (simp_all add: fill_tail_def Let_def)
    show ?thesis
    proof (cases es rule: rev_cases)
      case (snoc es' n)
      then have "length (lp_items p) < lp_size p" using d(3,5) s by (simp add: simulates_def)
      then have "spec_put k v p = p\<lparr>lp_items := (k, v) # lp_items p\<rparr>"
        by (simp add: spec_put_def del told_def Let_def)
      moreover note f = represents_fill [OF r [unfolded snoc] k, of v]
      ultimately show ?thesis
        unfolding set using frame by (intro simulatesI [OF s f(1), where x = "[]"]) (simp_all add: f(2))
    next
      case Nil
      obtain us' n where us: "us = us' @ [n]" using d(1) Nil by (cases us rule: rev_cases) (auto simp: ring_def)
      obtain l kv where l: "lp_items p = l @ [kv]"
        using d(5) us by (cases "lp_items p" rule: rev_cases) auto
      note e = represents_eject [OF r [unfolded Nil us l]]
      have n: "n = prev_of s (lc_head s)" using represents_tail [OF r] Nil us by simp
      have "represents (clear_node n (eject n s)) us' ([] @ [n]) l" using e(1) by simp
      moreover have "dget l k = None" using k l unfolding dget_None_iff by simp
      ultimately have "represents (fill_tail k v (clear_node n (eject n s))) (n # us') [] ((k, v) # l)"
        "lc_ejected (fill_tail k v (clear_node n (eject n s))) = lc_ejected (clear_node n (eject n s))"
        by (rule represents_fill)+
      then
      have f: "represents (fill_tail k v s) (n # us') [] ((k, v) # l)"
        "lc_ejected (fill_tail k v s) = lc_ejected (eject n s)"
        using fill_ejected [OF n, of k v] by (simp_all add: clear_node_def)
      have "lp_size p = Suc (length l)" "lp_callback p = lc_callback s"
        using d(3,5) s Nil l by (simp_all add: simulates_def)
      then show ?thesis
        unfolding set using frame e(2) l
        by (intro simulatesI [OF s f(1), where x = "if lc_callback s then [(fst kv, Some (snd kv))] else []"])
          (simp_all add: f(2) spec_put_def del del [unfolded l] told_def Let_def split: prod.split)
    qed
  qed
  ultimately show ?thesis by simp
qed

lemma holds_item_table: "holds_item (s\<lparr>lc_table := t\<rparr>) = holds_item s"
  by (rule ext)+ (simp add: holds_item_def)

lemma represents_delete:
  assumes r: "represents s (as @ n # bs) es (l1 @ (k, v) # l2)" and len: "length as = length l1"
  shows "represents (snd (del_item k s)) (as @ bs) (es @ [n]) (l1 @ l2)" and "fst (del_item k s) = Inr ()"
proof -
  note d = representsD [OF r]
  have len2: "length bs = length l2" using d(5) len by simp
  have k: "dget (lc_table s) k = Some n" using d(11) len by simp
  let ?s = "clear_node n (s\<lparr>lc_table := ddel k (lc_table s)\<rparr>)"
  let ?t = "mtf n ?s"
  show "fst (del_item k s) = Inr ()" by (simp add: del_item_def k Let_def)
  have t: "snd (del_item k s) = ?t\<lparr>lc_head := next_of ?t n\<rparr>" by (simp add: del_item_def k Let_def)
  have "ring ?s xs = ring s xs" for xs by (rule ring_cong) (simp_all add: clear_node_def)
  then have "ring ?t (as @ (bs @ es) @ [n])"
    using ring_mtf [of ?s as n "bs @ es"] d(1,2) by (cases as) (simp_all add: clear_node_def)
  moreover have "ring (snd (del_item k s)) xs = ring ?t xs" for xs
    by (rule ring_cong) (simp_all add: t)
  ultimately have "ring (snd (del_item k s)) ((as @ bs) @ (es @ [n]))" by simp
  moreover have "lc_head (snd (del_item k s)) = hd ((as @ bs) @ (es @ [n]))"
    using \<open>ring ?t (as @ (bs @ es) @ [n])\<close> by (simp add: t ring_def)
  moreover have fresh: "n \<notin> set as" "n \<notin> set bs" "n \<notin> set es" using d(1) by (auto simp: ring_def)
  moreover have c: "same_content ?s ?t" by (rule mtf_content)
  moreover have "list_all2 (holds_item (snd (del_item k s))) (as @ bs) (l1 @ l2)"
  proof -
    have "list_all2 (holds_item ?s) (as @ bs) (l1 @ l2)"
      using d(4) len fresh holds_item_table [where s = s]
      by (simp add: clear_node_def list_all2_append list_holds_on_node)
    moreover have "holds_item (snd (del_item k s)) = holds_item ?s"
      using c by (intro ext) (simp add: t holds_item_def same_content_def)
    ultimately show ?thesis by simp
  qed
  moreover have "lc_table (snd (del_item k s)) = ddel k (lc_table s)" "lc_size (snd (del_item k s)) = lc_size s"
      "lc_fresh (snd (del_item k s)) = lc_fresh s"
      "\<And>m. nd_empty (lc_node (snd (del_item k s)) m) = (m = n \<or> nd_empty (lc_node s m))"
    using c by (simp_all add: t same_content_def clear_node_def)
  moreover have "dget (ddel k (lc_table s)) j = Some m \<longleftrightarrow> (j, m) \<in> set (zip (map fst (l1 @ l2)) (as @ bs))" for j m
    using d(6,11) len len2 fresh by (auto dest: set_zip_leftD set_zip_rightD)
  ultimately show "represents (snd (del_item k s)) (as @ bs) (es @ [n]) (l1 @ l2)"
    using d(3,5,6,8,9,10) unfolding represents_def by auto
qed

lemma simulates_delete:
  assumes s: "simulates s p" and k: "dget (lc_table s) k = Some n"
  shows "simulates (snd (del_item k s)) (p\<lparr>lp_items := ddel k (lp_items p)\<rparr>)"
    and "fst (del_item k s) = Inr ()"
proof -
  obtain us es where r: "represents s us es (lp_items p)" using s by (auto simp: simulates_def)
  obtain as bs l1 v l2 where sp: "us = as @ n # bs" "lp_items p = l1 @ (k, v) # l2" "length as = length l1"
    using represents_split [OF r k] by metis
  note d = represents_delete [OF r [unfolded sp(1,2)] sp(3)]
  show "fst (del_item k s) = Inr ()" by (rule d(2))
  have "ddel k (lp_items p) = l1 @ l2" using representsD(6) [OF r] sp(2) ddel_middle by metis
  moreover have "lc_size (snd (del_item k s)) = lc_size s" "lc_callback (snd (del_item k s)) = lc_callback s"
      "lc_ejected (snd (del_item k s)) = lc_ejected s" "lc_disabled (snd (del_item k s)) = lc_disabled s"
    using mtf_content(1) [of "clear_node n (s\<lparr>lc_table := ddel k (lc_table s)\<rparr>)" n]
    by (simp_all add: del_item_def k Let_def same_content_def clear_node_def)
  ultimately show "simulates (snd (del_item k s)) (p\<lparr>lp_items := ddel k (lp_items p)\<rparr>)"
    by (intro simulatesI [OF s d(1), where x = "[]"]) simp_all
qed

text \<open>Growing and shrinking by one node; the recorded size changes at the end.\<close>

lemma represents_add:
  assumes r: "represents s us es l"
  shows "represents (add_tail s\<lparr>lc_size := Suc (lc_size s)\<rparr>) us (es @ [lc_fresh s]) l"
proof -
  note d = representsD [OF r]
  let ?n = "lc_fresh s" and ?t = "add_tail s"
  define xs where "xs = us @ es"
  have xs: "ring s xs" "lc_head s = hd xs" "xs \<noteq> []" "\<And>m. m \<in> set xs \<Longrightarrow> m < ?n"
    using d by (auto simp: xs_def ring_def)
  then have new: "?n \<notin> set xs" "hd xs \<noteq> ?n" "last xs \<noteq> ?n"
    using hd_in_set [of xs] last_in_set [of xs] by force+
  have links: "next_of ?t m = (if m = last xs then ?n else if m = ?n then hd xs else next_of s m)"
      "prev_of ?t m = (if m = hd xs then ?n else if m = ?n then last xs else prev_of s m)" for m
    using xs new by (auto simp: add_tail_def Let_def ring_def)
  have "chain ?t xs = chain s xs"
    using new xs in_ends [of xs] by (intro chain_cong) (auto simp: links ring_def)
  then have "ring ?t (xs @ [?n])"
    using xs new by (simp add: ring_def chain_append links)
  moreover have "ring (?t\<lparr>lc_size := m\<rparr>) ys = ring ?t ys" for ys m by (rule ring_cong) simp_all
  moreover have frame: "lc_table ?t = lc_table s" "lc_head ?t = lc_head s" "lc_fresh ?t = Suc ?n"
      "\<And>m. m \<noteq> ?n \<Longrightarrow> nd_empty (lc_node ?t m) = nd_empty (lc_node s m)" "nd_empty (lc_node ?t ?n)"
      "\<And>m. m \<noteq> ?n \<Longrightarrow> nd_key (lc_node ?t m) = nd_key (lc_node s m) \<and> nd_value (lc_node ?t m) = nd_value (lc_node s m)"
    by (simp_all add: add_tail_def Let_def)
  moreover have "list_all2 (holds_item (?t\<lparr>lc_size := m\<rparr>)) us l" for m
  proof -
    have "?n \<notin> set us" using new(1) by (simp add: xs_def)
    then show ?thesis using d(4) frame(4,6) by (subst list_holds_cong [of us _ s]) (simp, metis)
  qed
  moreover have "nd_empty (lc_node ?t m)" if "m \<in> set (es @ [?n])" for m
    using that d(9) frame(4,5) by (cases "m = ?n") auto
  moreover have "hd (xs @ [?n]) = hd xs" using xs(3) by simp
  ultimately show ?thesis
    using d(3,5,6,8,10,11) xs(2) unfolding represents_def xs_def by (auto simp: less_SucI)
qed

definition unlink :: "nat \<Rightarrow> ('k, 'v) lru \<Rightarrow> ('k, 'v) lru" where
  "unlink n s = (set_next (prev_of s n) (lc_head s) (set_prev (lc_head s) (prev_of s n) s))
     \<lparr>lc_size := lc_size s - 1\<rparr>"

lemma represents_unlink:
  assumes r: "represents (clear_node n s) us (es @ [n]) l" and two: "us @ es \<noteq> []"
  shows "represents (unlink n s) us es l"
proof -
  note d = representsD [OF r]
  define xs where "xs = us @ es"
  let ?t = "set_next (prev_of s n) (lc_head s) (set_prev (lc_head s) (prev_of s n) s)"
  have "ring (clear_node n s) ys = ring s ys" for ys by (rule ring_cong) (simp_all add: clear_node_def)
  then have xs: "ring s (xs @ [n])" "lc_head s = hd xs" "xs \<noteq> []"
    using d(1,2) two by (simp_all add: xs_def clear_node_def) (simp add: hd_append)
  have p: "prev_of s n = last xs" using xs(1,3) by (simp add: ring_def chain_append)
  have ends: "hd xs \<in> set xs" "last xs \<in> set xs" using xs(3) by auto
  have "chain ?t xs = chain s xs"
    using xs(1) in_ends [of xs] by (intro chain_cong) (auto simp: p xs(2) ring_def)
  then have "ring ?t xs"
    using xs by (simp add: p ring_def chain_append)
  moreover have "ring (unlink n s) ys = ring ?t ys" for ys by (rule ring_cong) (simp_all add: unlink_def)
  moreover have fresh: "n \<notin> set us" "n \<notin> set es" using d(1) by (auto simp: ring_def)
  moreover have "list_all2 (holds_item (unlink n s)) us l"
    using d(4) fresh by (subst list_holds_cong [of us _ "clear_node n s"]) (auto simp: unlink_def clear_node_def)
  moreover have "nd_empty (lc_node (unlink n s) m)" if "m \<in> set es" for m
    using d(9) [of m] that fresh by (auto simp: unlink_def clear_node_def split: if_splits)
  ultimately show ?thesis
    using d(3,5,6,8,10,11) xs(2) unfolding represents_def xs_def
    by (auto simp: unlink_def clear_node_def)
qed

lemma represents_clear_empty:
  assumes r: "represents s us (es @ [n]) l"
  shows "represents (clear_node n s) us (es @ [n]) l"
proof -
  note d = representsD [OF r]
  have "ring (clear_node n s) ys = ring s ys" for ys by (rule ring_cong) (simp_all add: clear_node_def)
  moreover have "n \<notin> set us" using d(1) by (auto simp: ring_def)
  ultimately show ?thesis
    using r unfolding represents_def by (auto simp: clear_node_def list_holds_on_node)
qed

lemma remove_tail_unlink:
  "remove_tail s\<lparr>lc_size := lc_size s - 1\<rparr> = unlink (prev_of s (lc_head s)) (eject (prev_of s (lc_head s)) s)"
  by (simp add: remove_tail_def unlink_def Let_def set_next_def set_prev_def on_node_def)

lemma told_append: "told p (xs @ ys) = told p xs @ told p ys"
  by (simp add: told_def)

lemma simulates_shrink:
  assumes s: "simulates s p" and two: "1 < lp_size p"
  shows "simulates (remove_tail s\<lparr>lc_size := lc_size s - 1\<rparr>) (spec_size (lp_size p - 1) p)"
proof -
  obtain us es where r: "represents s us es (lp_items p)" using s by (auto simp: simulates_def)
  note d = representsD [OF r]
  let ?n = "prev_of s (lc_head s)"
  have size: "lc_size s = lp_size p" "lc_callback s = lp_callback p" using s by (simp_all add: simulates_def)
  have frame: "lc_size (unlink ?n (eject ?n s)) = lc_size s - 1" "lc_callback (unlink ?n (eject ?n s)) = lc_callback s"
      "lc_disabled (unlink ?n (eject ?n s)) = lc_disabled s"
      "lc_ejected (unlink ?n (eject ?n s)) = lc_ejected (eject ?n s)"
    by (simp_all add: unlink_def)
  show ?thesis
  proof (cases es rule: rev_cases)
    case (snoc es' n)
    have n: "?n = n" using represents_tail [OF r] snoc by simp
    have e: "eject n s = s" using d(9) snoc by (simp add: eject_def)
    have "us @ es' \<noteq> []" "length (lp_items p) \<le> lp_size p - 1" using d(3,5) two size snoc by auto
    then show ?thesis
      using represents_unlink [OF represents_clear_empty [OF r [unfolded snoc]]] s frame
      unfolding remove_tail_unlink n e by (auto simp: simulates_def spec_size_def told_def)
  next
    case Nil
    obtain us' n where us: "us = us' @ [n]" using d(1) Nil by (cases us rule: rev_cases) (auto simp: ring_def)
    obtain l kv where l: "lp_items p = l @ [kv]"
      using d(5) us by (cases "lp_items p" rule: rev_cases) auto
    have n: "?n = n" using represents_tail [OF r] Nil us by simp
    note e = represents_eject [OF r [unfolded Nil us l]]
    have len: "us' \<noteq> []" "length l = lp_size p - 1" using d(3,5) two size Nil us l by auto
    from e(1) have "represents (clear_node n (eject n s)) us' ([] @ [n]) l" by simp
    from represents_unlink [OF this] len have "represents (unlink n (eject n s)) us' [] l" by simp
    then show ?thesis
      using s frame e(2) len l size
      unfolding remove_tail_unlink n by (auto simp: simulates_def spec_size_def told_def split: prod.split)
  qed
qed

text \<open>The recorded size plays no part in the loops.\<close>

lemma size_frame:
  "set_next a b (s\<lparr>lc_size := m\<rparr>) = set_next a b s\<lparr>lc_size := m\<rparr>"
  "set_prev a b (s\<lparr>lc_size := m\<rparr>) = set_prev a b s\<lparr>lc_size := m\<rparr>"
  "eject n (s\<lparr>lc_size := m\<rparr>) = eject n s\<lparr>lc_size := m\<rparr>"
  by (simp_all add: set_next_def set_prev_def on_node_def eject_def split: option.split)

lemma resize_frame:
  "add_tail (s\<lparr>lc_size := m\<rparr>) = add_tail s\<lparr>lc_size := m\<rparr>"
  "remove_tail (s\<lparr>lc_size := m\<rparr>) = remove_tail s\<lparr>lc_size := m\<rparr>"
  "lc_size (add_tail s) = lc_size s" "lc_size (remove_tail s) = lc_size s"
  subgoal by (simp add: add_tail_def Let_def set_next_def set_prev_def on_node_def)
  subgoal by (simp add: remove_tail_def Let_def size_frame)
  by (simp_all add: add_tail_def remove_tail_def Let_def)

lemma simulates_grow: "simulates s p \<Longrightarrow> simulates ((add_tail ^^ k) s\<lparr>lc_size := lc_size s + k\<rparr>) (p\<lparr>lp_size := lp_size p + k\<rparr>)"
proof (induction k)
  case (Suc k)
  let ?s = "(add_tail ^^ k) s\<lparr>lc_size := lc_size s + k\<rparr>"
  obtain us es where r: "represents ?s us es (lp_items p)" using Suc by (auto simp: simulates_def)
  have "lc_callback (add_tail t) = lc_callback t" "lc_ejected (add_tail t) = lc_ejected t"
      "lc_disabled (add_tail t) = lc_disabled t" for t :: "('a, 'b) lru"
    by (simp_all add: add_tail_def Let_def)
  then show ?case
    using represents_add [OF r] Suc by (auto simp: simulates_def resize_frame)
qed simp

lemma spec_size_twice: "m \<le> k \<Longrightarrow> spec_size m (spec_size k p) = spec_size m p"
proof -
  assume "m \<le> k"
  have "drop m (lp_items p) = drop m (take k (lp_items p) @ drop k (lp_items p))" by simp
  also have "\<dots> = drop m (take k (lp_items p)) @ drop k (lp_items p)"
    unfolding drop_append using \<open>m \<le> k\<close> by (cases "k \<le> length (lp_items p)") (simp_all add: min_def)
  finally have "drop m (lp_items p) = drop m (take k (lp_items p)) @ drop k (lp_items p)" .
  with \<open>m \<le> k\<close> show ?thesis by (simp add: spec_size_def told_def min_def)
qed

lemma simulates_shrinks:
  "simulates s p \<Longrightarrow> k < lp_size p \<Longrightarrow>
     simulates ((remove_tail ^^ k) s\<lparr>lc_size := lc_size s - k\<rparr>) (spec_size (lp_size p - k) p)"
proof (induction k)
  case 0
  then obtain us es where "represents s us es (lp_items p)" "lc_size s = lp_size p" by (auto simp: simulates_def)
  then have "length (lp_items p) \<le> lp_size p" using representsD(3,5) by (metis le_add1)
  with 0 show ?case by (simp add: spec_size_def told_def)
next
  case (Suc k)
  let ?s = "(remove_tail ^^ k) s\<lparr>lc_size := lc_size s - k\<rparr>"
  have "simulates (remove_tail ?s\<lparr>lc_size := lc_size ?s - 1\<rparr>)
      (spec_size (lp_size (spec_size (lp_size p - k) p) - 1) (spec_size (lp_size p - k) p))"
    by (rule simulates_shrink) (use Suc in \<open>simp_all add: spec_size_def\<close>)
  moreover have "remove_tail ?s\<lparr>lc_size := lc_size ?s - 1\<rparr> = (remove_tail ^^ Suc k) s\<lparr>lc_size := lc_size s - Suc k\<rparr>"
    by (simp add: resize_frame)
  moreover have "spec_size (lp_size (spec_size (lp_size p - k) p) - 1) (spec_size (lp_size p - k) p)
      = spec_size (lp_size p - Suc k) p"
    by (subst spec_size_twice) (simp_all add: spec_size_def)
  ultimately show ?case by simp
qed

lemma simulates_resize:
  assumes s: "simulates s p"
  shows "fst (resize m s) = (if m = 0 then Inl AssertionError else Inr m)"
    and "m \<noteq> 0 \<Longrightarrow> simulates (snd (resize m s)) (spec_size m p)"
proof -
  show "fst (resize m s) = (if m = 0 then Inl AssertionError else Inr m)" by (simp add: resize_def)
  assume m: "m \<noteq> 0"
  obtain us es where r: "represents s us es (lp_items p)" using s by (auto simp: simulates_def)
  have size: "lc_size s = lp_size p" "length (lp_items p) \<le> lp_size p"
    using s representsD(3,5) [OF r] by (auto simp: simulates_def)
  consider "m > lc_size s" | "m < lc_size s" | "m = lc_size s" by linarith
  then show "simulates (snd (resize m s)) (spec_size m p)"
  proof cases
    case 1
    then have "spec_size m p = p\<lparr>lp_size := lp_size p + (m - lp_size p)\<rparr>"
      using size by (simp add: spec_size_def told_def)
    with 1 m simulates_grow [OF s, of "m - lc_size s"] size show ?thesis by (simp add: resize_def)
  next
    case 2
    with m simulates_shrinks [OF s, of "lc_size s - m"] size show ?thesis by (simp add: resize_def)
  next
    case 3
    then have "spec_size m p = p" using size by (simp add: spec_size_def told_def)
    with 3 m s show ?thesis by (simp add: resize_def)
  qed
qed

lemma clear_nodes:
  "lc_node (fold clear_node ns s) m = (if m \<in> set ns then (lc_node s m)\<lparr>nd_empty := True, nd_key := None, nd_value := None\<rparr>
     else lc_node s m)"
  "lc_head (fold clear_node ns s) = lc_head s" "lc_size (fold clear_node ns s) = lc_size s"
  "lc_fresh (fold clear_node ns s) = lc_fresh s" "lc_callback (fold clear_node ns s) = lc_callback s"
  "lc_ejected (fold clear_node ns s) = lc_ejected s" "lc_disabled (fold clear_node ns s) = lc_disabled s"
  by (induction ns arbitrary: s) (auto simp: clear_node_def)

lemma simulates_clear:
  assumes s: "simulates s p"
  shows "simulates (clear_cache s) (p\<lparr>lp_items := []\<rparr>)"
proof -
  obtain us es where r: "represents s us es (lp_items p)" using s by (auto simp: simulates_def)
  note d = representsD [OF r]
  have "ring (clear_cache s) ys = ring s ys" for ys
    by (rule ring_cong) (simp_all add: clear_cache_def clear_nodes)
  then have "represents (clear_cache s) [] (us @ es) []"
    using d(1,2,3,8,9) represents_dli [OF r] unfolding represents_def
    by (auto simp: clear_cache_def clear_nodes)
  then show ?thesis using s by (auto simp: simulates_def clear_cache_def clear_nodes)
qed

section \<open>The class refines its promise\<close>

lemma simulates_get:
  assumes s: "simulates s p" and k: "dget (lc_table s) k = Some n"
  obtains v where "dget (lp_items p) k = Some v" "nd_value (lc_node s n) = Some v"
    "simulates (to_front n s) (spec_put k v p)"
proof -
  obtain v where v: "dget (lp_items p) k = Some v" "nd_value (lc_node s n) = Some v"
    using simulates_touch(2) [OF s k] by blast
  have "on_node n (\<lambda>x. x\<lparr>nd_value := Some v\<rparr>) s = s"
    using v(2) by (simp add: on_node_def fun_upd_idem_iff)
  with simulates_touch(1) [OF s k, of v] v that show ?thesis by simp
qed

lemma simulates_dget: "simulates s p \<Longrightarrow> dget (lc_table s) k = None \<longleftrightarrow> dget (lp_items p) k = None"
  using represents_dget by (fastforce simp: simulates_def)

text \<open>What is asked of a call: the same answer or exception, and states that still correspond.\<close>

definition answers_alike ::
  "(exc + 'a) \<times> ('k, 'v) lru \<Rightarrow> (exc + 'a) \<times> ('k, 'v) lru_spec \<Rightarrow> bool" where
  "answers_alike r q \<longleftrightarrow> fst r = fst q \<and> simulates (snd r) (snd q)"

lemma answers_get:
  assumes s: "simulates s p"
  shows "answers_alike (answering AValue (get_item k) s) (spec_get k (Inl KeyError) p)"
    and "answers_alike (answering AValue (get_or k d) s) (spec_get k (Inr (AValue d)) p)"
proof -
  have "answers_alike (answering AValue (get_item k) s) (spec_get k (Inl KeyError) p)
    \<and> answers_alike (answering AValue (get_or k d) s) (spec_get k (Inr (AValue d)) p)"
  proof (cases "dget (lc_table s) k")
    case None
    then show ?thesis
      using s simulates_dget [OF s, of k]
      by (simp add: answers_alike_def answering_def obind_def get_item_def get_or_def spec_get_def)
  next
    case (Some n)
    then obtain v where "dget (lp_items p) k = Some v" "nd_value (lc_node s n) = Some v"
      "simulates (to_front n s) (spec_put k v p)"
      using simulates_get [OF s] by metis
    with Some show ?thesis
      by (simp add: answers_alike_def answering_def obind_def get_item_def get_or_def spec_get_def)
  qed
  then show "answers_alike (answering AValue (get_item k) s) (spec_get k (Inl KeyError) p)"
    and "answers_alike (answering AValue (get_or k d) s) (spec_get k (Inr (AValue d)) p)" by auto
qed

lemma answers_delete:
  assumes s: "simulates s p"
  shows "answers_alike (obind (del_item k) (\<lambda>_. oret x) s)
     (if dget (lp_items p) k = None then (Inl KeyError, p) else (Inr x, p\<lparr>lp_items := ddel k (lp_items p)\<rparr>))"
proof (cases "dget (lc_table s) k")
  case None
  then show ?thesis
    using s simulates_dget [OF s, of k] by (simp add: answers_alike_def obind_def del_item_def)
next
  case (Some n)
  then show ?thesis
    using simulates_delete [OF s Some] simulates_dget [OF s, of k]
    by (cases "del_item k s") (simp add: answers_alike_def obind_def)
qed

lemma answers_peek:
  assumes s: "simulates s p"
  shows "answers_alike (answering AValue (peek k) s) (spec_call (Peek k) p)"
proof (cases "dget (lc_table s) k")
  case None
  then show ?thesis
    using s simulates_dget [OF s, of k] by (simp add: answers_alike_def answering_def obind_def peek_def)
next
  case (Some n)
  then obtain v where "dget (lp_items p) k = Some v" "nd_value (lc_node s n) = Some v"
    using simulates_get [OF s] by metis
  with Some s show ?thesis by (simp add: answers_alike_def answering_def obind_def peek_def)
qed

lemma answers_pop:
  fixes s :: "('k, 'v) lru"
  assumes s: "simulates s p"
  shows "answers_alike (answering AValue (pop_key k d) s) (spec_call (PopKey k d) p)"
proof (cases "dget (lc_table s) k")
  case None
  then show ?thesis
    using s simulates_dget [OF s, of k]
    by (simp add: answers_alike_def answering_def obind_def pop_key_def split: option.split)
next
  case (Some n)
  then obtain v where v: "dget (lp_items p) k = Some v" "nd_value (lc_node s n) = Some v"
    using simulates_get [OF s] by metis
  have "answering f (pop_key k d) s = obind (del_item k) (\<lambda>_. oret (f (Some v))) s"
    for f :: "'v option \<Rightarrow> ('k, 'v) lru_answer"
    using Some v by (simp add: answering_def obind_def pop_key_def peek_def split: prod.split sum.split)
  with answers_delete [OF s, of k "AValue (Some v) :: ('k, 'v) lru_answer"] v show ?thesis by simp
qed

lemma answers_pop_item:
  assumes s: "simulates s p"
  shows "answers_alike (answering APair pop_item s) (spec_call PopItem p)"
proof -
  obtain us es where r: "represents s us es (lp_items p)" using s by (auto simp: simulates_def)
  note d = representsD [OF r]
  show ?thesis
  proof (cases "lp_items p")
    case Nil
    then show ?thesis
      using represents_table [OF r] s by (simp add: answers_alike_def answering_def obind_def pop_item_def)
  next
    case (Cons kv xs)
    then obtain n us' where us: "us = n # us'" "holds_item s n kv"
      using d(4) by (auto simp: list_all2_Cons2)
    have head: "node_item s (lc_head s) = shown kv"
      using d(2) us by (auto simp: node_item_def holds_item_def split: prod.split)
    have "answering APair pop_item s = obind (del_item (fst kv)) (\<lambda>_. oret (APair (shown kv))) s"
      using represents_table [OF r] Cons head
      by (simp add: answering_def obind_def pop_item_def split: prod.split sum.split)
    moreover have "ddel (fst kv) (lp_items p) = xs"
      using ddel_middle [of "[]" "fst kv" "snd kv" xs] d(6) Cons by simp
    ultimately show ?thesis
      using answers_delete [OF s, of "fst kv" "APair (shown kv)"] Cons by (simp split: prod.split)
  qed
qed

lemma simulates_update: "simulates s p \<Longrightarrow> simulates (update_items kvs s) (fold (\<lambda>(k, v). spec_set k v) kvs p)"
  by (induction kvs arbitrary: s p) (auto simp: update_items_def intro: simulates_set)

lemma represents_disabled: "represents (s\<lparr>lc_disabled := b\<rparr>) us es l = represents s us es l"
proof -
  have "ring (s\<lparr>lc_disabled := b\<rparr>) xs = ring s xs" for xs by (rule ring_cong) simp_all
  moreover have "holds_item (s\<lparr>lc_disabled := b\<rparr>) = holds_item s" by (rule ext)+ (simp add: holds_item_def)
  ultimately show ?thesis by (simp add: represents_def)
qed

lemma answers_call:
  assumes s: "simulates s p"
  shows "answers_alike (cache_call c s) (spec_call c p)"
proof (cases c)
  case (SetDefault k d)
  then show ?thesis
    using answers_get(1) [OF s, of k] simulates_set [OF s, of k d] simulates_dget [OF s, of k]
    by (simp add: answers_alike_def answering_def obind_def set_default_def)
next
  case (Resize m)
  then show ?thesis
    using simulates_resize [OF s, of m] s
    by (cases "resize m s"; cases "m = 0") (simp_all add: answers_alike_def answering_def obind_def resize_def [of 0])
next
  case Listing
  then show ?thesis using s represents_items by (fastforce simp: answers_alike_def simulates_def)
next
  case Count
  then show ?thesis using s represents_table by (fastforce simp: answers_alike_def simulates_def)
next
  case (DelItem k)
  then show ?thesis using answers_delete [OF s, of k AUnit] by (simp add: answering_def)
next
  case Enable
  then show ?thesis
    using s by (simp add: answers_alike_def answering_def obind_def enable_def simulates_def represents_disabled)
next
  case Disable
  then show ?thesis using s by (simp add: answers_alike_def disable_def simulates_def represents_disabled)
qed (use s simulates_dget [OF s] answers_get [OF s] answers_peek [OF s] answers_pop [OF s]
    answers_pop_item [OF s] simulates_set [OF s] simulates_update [OF s] simulates_clear [OF s]
    in \<open>simp_all add: answers_alike_def\<close>)

lemma simulates_first: "simulates (first_node cb) (new_spec 1 cb)"
proof -
  have "represents (first_node cb) [] [0] []"
    by (auto simp: represents_def ring_def first_node_def)
  then show ?thesis by (auto simp: simulates_def first_node_def new_spec_def)
qed

lemma simulates_new:
  fixes s :: "('k, 'v) lru"
  assumes "new_lru m cb = Inr s"
  shows "simulates s (new_spec m cb)"
proof -
  obtain r t where rt: "resize m (first_node cb :: ('k, 'v) lru) = (r, t)" by fastforce
  note first = simulates_first [of cb, where ?'a = 'k and ?'b = 'v]
  from rt assms simulates_resize(1) [OF first, of m] have "m \<noteq> 0" "s = t"
    by (auto simp: new_lru_def split: sum.splits if_splits)
  with rt simulates_resize(2) [OF first, of m] show ?thesis
    by (cases cb) (simp_all add: spec_size_def new_spec_def told_def)
qed

lemma run_calls_alike:
  "simulates s p \<Longrightarrow> fst (run_calls cache_call cs s) = fst (run_calls spec_call cs p)
     \<and> simulates (snd (run_calls cache_call cs s)) (snd (run_calls spec_call cs p))"
proof (induction cs arbitrary: s p)
  case (Cons c cs)
  from answers_call [OF Cons.prems, of c] Cons.IH show ?case
    by (auto simp: answers_alike_def Let_def split: prod.split) (metis prod.sel)+
qed simp

text \<open>C18: the linked ring is an LRU dictionary. Whatever sequence of calls is made on a new
  cache, exceptions included, each answers as on the bounded dictionary in order of use of the
  specification, the callback is called with the same items in the same order, the listing is
  that dictionary, and never longer than the size set last.\<close>

theorem lru_refines_dictionary:
  assumes "new_lru m cb = Inr s"
  shows "fst (run_calls cache_call cs s) = fst (run_calls spec_call cs (new_spec m cb))
    \<and> (let t = snd (run_calls cache_call cs s); p = snd (run_calls spec_call cs (new_spec m cb))
       in cache_items t = map shown (lp_items p) \<and> lc_ejected t = lp_ejected p
          \<and> lc_size t = lp_size p \<and> length (cache_items t) \<le> lc_size t \<and> distinct (map fst (lp_items p)))"
proof -
  from run_calls_alike [OF simulates_new [OF assms], of cs]
  obtain us es where "fst (run_calls cache_call cs s) = fst (run_calls spec_call cs (new_spec m cb))"
      "simulates (snd (run_calls cache_call cs s)) (snd (run_calls spec_call cs (new_spec m cb)))"
      "represents (snd (run_calls cache_call cs s)) us es (lp_items (snd (run_calls spec_call cs (new_spec m cb))))"
    by (auto simp: simulates_def)
  with representsD(3,5,6) [OF this(3)] show ?thesis
    by (simp add: represents_items Let_def simulates_def)
qed

definition small_cache :: "(nat, nat) lru" where
  "small_cache = snd (resize 2 (first_node True))"

theorem lru_refines_dictionary_witness:
  "fst (run_calls cache_call [SetItem 1 10, SetItem 2 20, GetItem 1, SetItem 3 30, GetItem 2] small_cache)
     = fst (run_calls spec_call [SetItem 1 10, SetItem 2 20, GetItem 1, SetItem 3 30, GetItem 2] (new_spec 2 True))
   \<and> fst (run_calls spec_call [SetItem 1 10, SetItem 2 20, GetItem 1, SetItem 3 30, GetItem 2] (new_spec 2 True))
     = [Inr AUnit, Inr AUnit, Inr (AValue (Some 10)), Inr AUnit, Inl KeyError :: exc + (nat, nat) lru_answer]"
proof -
  have "new_lru 2 True = Inr small_cache"
    by (simp add: new_lru_def small_cache_def resize_def Let_def)
  from lru_refines_dictionary [OF this, THEN conjunct1] show ?thesis
    by (rule conjI) code_simp
qed

end
