(* ===== verification/Evaluation.thy ===== *)
theory Evaluation
  imports Convert SharedEvaluation BufferSource Lru
begin

text \<open>
  The evaluation of an expression, \<open>seamless/checksum/expression.py\<close>: finding the input
  buffer in the process, applying the path, converting, and recording the result; and
  \<open>resolve\<close> of \<open>checksum_class.py\<close>. Sharing an evaluation among callers is the
  theory \<open>SharedEvaluation\<close>. numpy's indexing and \<open>frombuffer\<close>, the clock, the
  registered stores and the hashserver are the fields of \<open>world\<close>. A Buffer that a store
  returns has its HashType registered by the constructor; that is not repeated here.
\<close>

section \<open>State\<close>

record 'nd world =
  w_env :: "'nd env"
  w_unicode :: unicode
  w_leval :: "ustr \<Rightarrow> lit result"
  w_getitem :: "'nd \<Rightarrow> path_step \<Rightarrow> 'nd pyval result"
  w_fields :: "'nd \<Rightarrow> bool"
  w_frombuffer :: "bytes \<Rightarrow> 'nd result"
  w_sources :: "source list"
  w_server :: "(checksum \<Rightarrow> buffer option result) option"
  w_remote_get :: "checksum \<Rightarrow> buffer option result"
  w_now :: real
  w_database :: bool

abbreviation w_sha :: "'nd world \<Rightarrow> bytes \<Rightarrow> checksum" where
  "w_sha W \<equiv> e_sha (w_env W)"

abbreviation w_codec :: "'nd world \<Rightarrow> 'nd codec" where
  "w_codec W \<equiv> e_codec (w_env W)"

text \<open>\<open>w_server\<close> is \<open>get_server_buffer\<close> of \<open>seamless_remote\<close>, if that is installed,
  and \<open>w_remote_get\<close> its \<open>get_buffer\<close>; \<open>w_database\<close> says whether expression results are recorded in a database.\<close>

record eval_state =
  es_values :: vstate
  es_cache :: "(cache_key, checksum) dict"
  es_results :: "(checksum, buffer) dict"
  es_raw :: "(checksum, bytes) lru_spec"
  es_store :: buffer_cache
  es_records :: "(cache_key \<times> checksum) list"

text \<open>\<open>es_results\<close> is the weak dictionary of result buffers, \<open>es_raw\<close> the
  \<open>checksum_cache\<close> of the digest function, an \<open>lrucache\<close>.\<close>

type_synonym 'a eop = "(eval_state, exc, 'a) op"

definition on_values :: "'a vop \<Rightarrow> 'a eop" where
  "on_values m s = (let (r, v) = m (es_values s) in (r, s\<lparr>es_values := v\<rparr>))"

definition on_store :: "(buffer_cache \<Rightarrow> 'a \<times> buffer_cache) \<Rightarrow> 'a eop" where
  "on_store f s = (let (x, bc) = f (es_store s) in (Inr x, s\<lparr>es_store := bc\<rparr>))"

definition on_claims :: "(buffer_cache \<Rightarrow> 'a result \<times> buffer_cache) \<Rightarrow> 'a eop" where
  "on_claims f s = (let (r, bc) = f (es_store s) in (r, s\<lparr>es_store := bc\<rparr>))"

definition register_type :: "'nd world \<Rightarrow> checksum \<Rightarrow> bytes \<Rightarrow> hash_type eop" where
  "register_type W c b s =
     (let (r, h) = register_hash_type_for_buffer (e_lib (w_env W)) c b (vs_ht (es_values s))
      in (r, s\<lparr>es_values := (es_values s)\<lparr>vs_ht := h\<rparr>\<rparr>))"

section \<open>Buffers\<close>

definition TRIVIAL_BUFFERS :: "bytes list" where
  "TRIVIAL_BUFFERS = map ascii [''null'', ''null'' @ nl, ''true'', ''false'', ''true'' @ nl, ''false'' @ nl, [],
     ''{}'', ''{}'' @ nl, ''[]'', ''[]'' @ nl]"

text \<open>\<open>TRIVIAL_CHECKSUMS\<close>: in a comprehension the last of equal keys wins.\<close>

definition trivial_content :: "(bytes \<Rightarrow> checksum) \<Rightarrow> checksum \<Rightarrow> bytes option" where
  "trivial_content sha c = dget (rev (map (\<lambda>b. (sha b, b)) TRIVIAL_BUFFERS)) c"

text \<open>\<open>Buffer(content)\<close> and \<open>Buffer(content, checksum=c)\<close>\<close>

definition plain_buffer :: "bytes \<Rightarrow> buffer" where
  "plain_buffer b = \<lparr>b_content = b, b_checksum = None\<rparr>"

definition buffer_with :: "'nd world \<Rightarrow> bytes \<Rightarrow> checksum \<Rightarrow> buffer eop" where
  "buffer_with W b c =
     obind (on_store (make_buffer b c)) (\<lambda>x. obind (register_type W c b) (\<lambda>_. oret x))"

text \<open>\<open>cached_calculate_checksum_sync\<close> (but for the memo by \<open>id\<close>) and
  \<open>Buffer.get_checksum\<close>: the buffer, its checksum known.\<close>

definition calculate_checksum :: "'nd world \<Rightarrow> bytes \<Rightarrow> checksum eop" where
  "calculate_checksum W b =
     (let c = w_sha W b
      in obind (\<lambda>s. (Inr (), s\<lparr>es_raw := spec_set c b (es_raw s)\<rparr>)) (\<lambda>_.
         obind (register_type W c b) (\<lambda>_. oret c)))"

definition get_checksum :: "'nd world \<Rightarrow> buffer \<Rightarrow> buffer eop" where
  "get_checksum W x =
     (case b_checksum x of
        Some c \<Rightarrow> oret x
      | None \<Rightarrow>
          obind (calculate_checksum W (b_content x)) (\<lambda>c.
          obind (on_store (\<lambda>bc. case buffer_get_checksum (w_sha W) x bc of (c', x', bc') \<Rightarrow> (x', bc'))) oret))"

text \<open>\<open>Buffer.get_value\<close>\<close>

definition get_value :: "'nd world \<Rightarrow> buffer \<Rightarrow> celltype \<Rightarrow> 'nd pyval eop" where
  "get_value W x ct =
     obind (olift (map_celltype ct)) (\<lambda>ct'.
     obind (get_checksum W x) (\<lambda>x'.
     obind (on_values (parse_buffer (w_env W) (b_content x')
       (case b_checksum x' of Some c \<Rightarrow> c | None \<Rightarrow> w_sha W (b_content x')) ct')) (\<lambda>v.
       if ct \<in> set DEEP_CELLTYPES then olift (validate_deep_structure True v) else oret v)))"

section \<open>Finding a buffer\<close>

definition get_raw :: "checksum \<Rightarrow> bytes option eop" where
  "get_raw c s =
     (case dget (lp_items (es_raw s)) c of
        None \<Rightarrow> (Inr None, s)
      | Some b \<Rightarrow> (Inr (Some b), s\<lparr>es_raw := spec_put c b (es_raw s)\<rparr>))"

definition get_local_memory_buffer :: "'nd world \<Rightarrow> checksum \<Rightarrow> buffer eop" where
  "get_local_memory_buffer W c =
     (case trivial_content (w_sha W) c of
        Some b \<Rightarrow> oret (plain_buffer b)
      | None \<Rightarrow>
          obind (on_store (get_buffer c)) (\<lambda>ob.
          case ob of
            Some x \<Rightarrow> oret x
          | None \<Rightarrow> (\<lambda>s.
              case dget (es_results s) c of
                Some x \<Rightarrow> (Inr x, s)
              | None \<Rightarrow>
                  obind (get_raw c) (\<lambda>raw.
                  case raw of
                    Some b \<Rightarrow> buffer_with W b c
                  | None \<Rightarrow> oraise (CacheMissError c None)) s)))"

definition is_cache_miss :: "exc \<Rightarrow> bool" where
  "is_cache_miss e = (case e of CacheMissError _ _ \<Rightarrow> True | _ \<Rightarrow> False)"

definition get_local_buffer :: "'nd world \<Rightarrow> checksum \<Rightarrow> buffer eop" where
  "get_local_buffer W c =
     otry (get_local_memory_buffer W c)
       (\<lambda>e. if \<not> is_cache_miss e then oraise e
            else obind (on_store (get_buffer_from (w_sha W) (w_sources W) c)) (\<lambda>ob.
              case ob of Some x \<Rightarrow> oret x | None \<Rightarrow> oraise (CacheMissError c None)))
       oret"

definition has_local_buffer :: "'nd world \<Rightarrow> checksum \<Rightarrow> bool eop" where
  "has_local_buffer W c =
     otry (get_local_memory_buffer W c)
       (\<lambda>e. if is_cache_miss e then oret (source_has c (w_sources W)) else oraise e)
       (\<lambda>_. oret True)"

text \<open>\<open>Checksum.resolve\<close> without a celltype: the same places but the result buffers and the
  digest cache, then the stores that are only asynchronous, then the hashserver.\<close>

definition async_only :: "source \<Rightarrow> bool" where
  "async_only x \<longleftrightarrow> so_get_buffer x = None \<and> so_get_buffer_async x \<noteq> None"

definition resolve_external :: "'nd world \<Rightarrow> checksum \<Rightarrow> buffer option eop" where
  "resolve_external W c =
     obind (if list_ex async_only (w_sources W) then on_store (get_buffer_uncached (w_sha W) True (w_sources W) c)
            else oret None) (\<lambda>ob.
       case ob of
         Some x \<Rightarrow> oret (Some x)
       | None \<Rightarrow> (case w_server W of None \<Rightarrow> oret None | Some ask \<Rightarrow> olift (ask c)))"

definition resolve :: "'nd world \<Rightarrow> checksum \<Rightarrow> buffer eop" where
  "resolve W c =
     obind
       (case trivial_content (w_sha W) c of
          Some b \<Rightarrow> oret (Some (plain_buffer b))
        | None \<Rightarrow> on_store (get_buffer c)) (\<lambda>o1.
     obind (case o1 of Some x \<Rightarrow> oret (Some x) | None \<Rightarrow> on_store (get_buffer_from (w_sha W) (w_sources W) c)) (\<lambda>o2.
     obind (case o2 of Some x \<Rightarrow> oret (Some x) | None \<Rightarrow> resolve_external W c) (\<lambda>o3.
       case o3 of Some x \<Rightarrow> oret x | None \<Rightarrow> oraise (CacheMissError c None))))"

definition resolution :: "'nd world \<Rightarrow> checksum \<Rightarrow> buffer eop" where
  "resolution W c =
     obind
       (case trivial_content (w_sha W) c of
          Some b \<Rightarrow> oret (Some (plain_buffer b))
        | None \<Rightarrow> on_store (get_buffer c)) (\<lambda>o1.
     obind
       (case o1 of
          Some x \<Rightarrow> oret (Some x)
        | None \<Rightarrow>
            if w_server W = None then on_store (get_buffer_uncached (w_sha W) False (w_sources W) c)
            else olift (w_remote_get W c)) (\<lambda>o2.
       case o2 of Some x \<Rightarrow> oret x | None \<Rightarrow> oraise (CacheMissError c None)))"

definition resolve_value_of :: "'nd world \<Rightarrow> checksum \<Rightarrow> celltype \<Rightarrow> 'nd pyval eop" where
  "resolve_value_of W c ct =
     (case virtual (w_sha W) c ct of
        Inl e \<Rightarrow> oraise e
      | Inr (Some v) \<Rightarrow> oret v
      | Inr None \<Rightarrow> obind (resolve W c) (\<lambda>x. get_value W x ct))"

section \<open>Path steps\<close>

text \<open>\<open>slice.indices\<close>: a bound is missing, \<open>None\<close>, or has an index.\<close>

fun lit_index :: "lit \<Rightarrow> int option" where
  "lit_index (LInt i) = Some i"
| "lit_index (LBool b) = Some (if b then 1 else 0)"
| "lit_index _ = None"

definition slice_bound :: "lit option \<Rightarrow> int option result" where
  "slice_bound x = (case x of None \<Rightarrow> Inr None | Some LNone \<Rightarrow> Inr None
     | Some l \<Rightarrow> (case lit_index l of Some i \<Rightarrow> Inr (Some i) | None \<Rightarrow> Inl TypeError))"

definition adjust_bound :: "int \<Rightarrow> int \<Rightarrow> int \<Rightarrow> int \<Rightarrow> int option \<Rightarrow> int" where
  "adjust_bound n lower upper missing b =
     (case b of None \<Rightarrow> missing | Some i \<Rightarrow> if i < 0 then max (i + n) lower else min i upper)"

definition py_range :: "int \<Rightarrow> int \<Rightarrow> int \<Rightarrow> int list" where
  "py_range start stop step =
     (if step > 0 then map (\<lambda>i. start + step * int i) [0..<nat ((stop - start + step - 1) div step)]
      else map (\<lambda>i. start + step * int i) [0..<nat ((start - stop - step - 1) div - step)])"

definition slice_indices :: "nat \<Rightarrow> int option \<Rightarrow> int option \<Rightarrow> int option \<Rightarrow> nat list result" where
  "slice_indices len a b c =
     (let step = (case c of None \<Rightarrow> 1 | Some i \<Rightarrow> i); n = int len;
          lower = (if step < 0 then - 1 else 0); upper = (if step < 0 then n - 1 else n)
      in if step = 0 then Inl ValueError
         else Inr (map nat (py_range
           (adjust_bound n lower upper (if step < 0 then upper else lower) a)
           (adjust_bound n lower upper (if step < 0 then lower else upper) b) step)))"

definition take_slice :: "'a list \<Rightarrow> lit option \<Rightarrow> lit option \<Rightarrow> lit option \<Rightarrow> 'a list result" where
  "take_slice xs a b c =
     rbind (slice_bound c) (\<lambda>c'. rbind (slice_bound a) (\<lambda>a'. rbind (slice_bound b) (\<lambda>b'.
       rbind (slice_indices (length xs) a' b' c') (\<lambda>is. Inr (map (\<lambda>i. xs ! i) is)))))"

definition take_item :: "'a list \<Rightarrow> lit \<Rightarrow> 'a result" where
  "take_item xs l =
     (case lit_index l of
        None \<Rightarrow> Inl TypeError
      | Some i \<Rightarrow>
          let j = (if i < 0 then i + int (length xs) else i)
          in if 0 \<le> j \<and> j < int (length xs) then Inr (xs ! nat j) else Inl IndexError)"

text \<open>\<open>value[payload]\<close>\<close>

fun subscript :: "'nd world \<Rightarrow> 'nd pyval \<Rightarrow> path_step \<Rightarrow> 'nd pyval result" where
  "subscript W (VArray a) st = w_getitem W a st"
| "subscript W (VList vs) (Slice a b c) = rbind (take_slice vs a b c) (\<lambda>r. Inr (VList r))"
| "subscript W (VList vs) (Item l) = take_item vs l"
| "subscript W (VStr t) (Slice a b c) = rbind (take_slice t a b c) (\<lambda>r. Inr (VStr r))"
| "subscript W (VStr t) (Item l) = rbind (take_item t l) (\<lambda>ch. Inr (VStr [ch]))"
| "subscript W (VBytes x) (Slice a b c) = rbind (take_slice x a b c) (\<lambda>r. Inr (VBytes r))"
| "subscript W (VBytes x) (Item l) = rbind (take_item x l) (\<lambda>y. Inr (VInt (uint y)))"
| "subscript W (VDict kvs) (Item (LStr k)) = (case dget kvs k of None \<Rightarrow> Inl KeyError | Some v \<Rightarrow> Inr v)"
| "subscript W (VDict kvs) st = Inl KeyError"
| "subscript W v st = Inl TypeError"

text \<open>\<open>_apply_step\<close>: a string key addresses a dictionary or an array with fields only.\<close>

definition string_keyed :: "'nd world \<Rightarrow> 'nd pyval \<Rightarrow> bool" where
  "string_keyed W v = (case v of VDict _ \<Rightarrow> True | VArray a \<Rightarrow> w_fields W a | _ \<Rightarrow> False)"

definition apply_step :: "'nd world \<Rightarrow> 'nd pyval \<Rightarrow> path_step \<Rightarrow> 'nd pyval result" where
  "apply_step W v st =
     (case (if is_str_key st \<and> \<not> string_keyed W v then Inl TypeError else subscript W v st) of
        Inl e \<Rightarrow> Inl ExpressionEvaluationError
      | Inr x \<Rightarrow> Inr x)"

fun apply_steps :: "'nd world \<Rightarrow> path_step list \<Rightarrow> 'nd pyval \<Rightarrow> 'nd pyval result" where
  "apply_steps W [] v = Inr v"
| "apply_steps W (st # steps) v = rbind (apply_step W v st) (apply_steps W steps)"

text \<open>\<open>_deserialize_for_expression\<close> and \<open>_serialize_expression_result\<close>\<close>

definition deserialize_for_expression :: "'nd world \<Rightarrow> buffer \<Rightarrow> celltype \<Rightarrow> 'nd pyval eop" where
  "deserialize_for_expression W x ct =
     (if ct = CtBytes then oret (VBytes (if b_content x = NULL_BUFFER then [] else b_content x))
      else obind (get_value W x ct) (\<lambda>v.
        if ct \<in> set DEEP_CELLTYPES then olift (validate_deep_structure True v) else oret v))"

definition serialize_expression_result :: "'nd codec \<Rightarrow> 'nd pyval \<Rightarrow> celltype \<Rightarrow> bytes result" where
  "serialize_expression_result K v ct =
     (case (ct, v) of
        (CtBinary, VBytes b) \<Rightarrow> rbind (np_array K v) (\<lambda>n. buffer_of K (VArray n) CtBinary)
      | _ \<Rightarrow>
          (case buffer_of K v ct of
             Inl e \<Rightarrow> Inl ExpressionEvaluationError
           | Inr b \<Rightarrow>
               if ct = CtBinary \<and> \<not> startswith b MAGIC_NUMPY then Inl ExpressionEvaluationError else Inr b))"

section \<open>Recording a result\<close>

record expression_key =
  ek_input :: checksum
  ek_path :: ustr
  ek_source :: celltype
  ek_target :: celltype

definition expression_key :: "(bytes \<Rightarrow> checksum) \<Rightarrow> checksum \<Rightarrow> ustr \<Rightarrow> celltype \<Rightarrow> celltype \<Rightarrow> expression_key" where
  "expression_key sha c path source target =
     \<lparr>ek_input = canonical_checksum sha c source, ek_path = path, ek_source = source, ek_target = target\<rparr>"

definition cache_key_of :: "expression_key \<Rightarrow> cache_key" where
  "cache_key_of k = ExpressionCacheKey (hex (ek_input k)) (ek_path k) (ek_source k) (ek_target k)"

definition insert_expression_result :: "cache_key \<Rightarrow> checksum \<Rightarrow> eval_state \<Rightarrow> bool \<times> eval_state" where
  "insert_expression_result k r s =
     (case dget (es_cache s) k of
        None \<Rightarrow> (True, s\<lparr>es_cache := dset k r (es_cache s)\<rparr>)
      | Some _ \<Rightarrow> (False, s))"

text \<open>\<open>register_expression_result\<close> of the buffer writer raises once Seamless is closed.\<close>

definition register_expression_result :: "'nd world \<Rightarrow> cache_key \<Rightarrow> checksum \<Rightarrow> unit eop" where
  "register_expression_result W k r s =
     (if ht_closed (vs_ht (es_values s)) then (Inl RuntimeError, s)
      else if \<not> w_database W then (Inr (), s)
      else (Inr (), s\<lparr>es_records := es_records s @ [(k, r)]\<rparr>))"

definition record_expression_result :: "'nd world \<Rightarrow> cache_key \<Rightarrow> checksum \<Rightarrow> unit eop" where
  "record_expression_result W k r s =
     (case insert_expression_result k r s of
        (False, s') \<Rightarrow> (Inr (), s')
      | (True, s') \<Rightarrow> register_expression_result W k r s')"

text \<open>\<open>Checksum.tempref\<close> with its default interest and fade.\<close>

definition tempref :: "'nd world \<Rightarrow> checksum \<Rightarrow> buffer option \<Rightarrow> unit eop" where
  "tempref W c x = on_claims (tempref_op (w_sha W) (w_now W) c x 128 2 2)"

definition tempref_expression_result :: "'nd world \<Rightarrow> checksum \<Rightarrow> buffer option \<Rightarrow> bool \<Rightarrow> unit eop" where
  "tempref_expression_result W c x produced =
     obind
       (case x of
          None \<Rightarrow> tempref W c None
        | Some b \<Rightarrow> obind (register_type W c (b_content b)) (\<lambda>_. tempref W c (Some b))) (\<lambda>_.
       if produced then on_store (\<lambda>bc. ((), mark_scratch c bc)) else oret ())"

definition keep_result_buffer :: "checksum \<Rightarrow> buffer \<Rightarrow> unit eop" where
  "keep_result_buffer c x s = (Inr (), s\<lparr>es_results := dset c x (es_results s)\<rparr>)"

section \<open>Evaluation\<close>

text \<open>
  The callback \<open>get_buffer\<close>. \<open>_local_buffer_getter\<close> looks for the input buffer when it
  is first asked, and then remembers it: a run that does not ask is the run that is told so
  (the private exception \<open>NeedsBuffer\<close> is caught nowhere), and a run that asks gets what
  \<open>_get_local_buffer\<close> finds. The asynchronous evaluation passes a buffer it has fetched.
\<close>

datatype getter = LocalGetter | FetchedGetter "buffer option"

definition ask :: "'nd world \<Rightarrow> checksum \<Rightarrow> getter \<Rightarrow> (bytes result \<Rightarrow> 'a vop) \<Rightarrow> 'a eop" where
  "ask W c g m s =
     (case g of
        FetchedGetter None \<Rightarrow> on_values (m (Inl ExpressionEvaluationError)) s
      | FetchedGetter (Some x) \<Rightarrow> on_values (m (Inr (b_content x))) s
      | LocalGetter \<Rightarrow>
          (case on_values (m (Inl NeedsBuffer)) s of
             (r, s') \<Rightarrow>
               if r \<noteq> Inl NeedsBuffer then (r, s')
               else (case get_local_buffer W c s of
                       (Inl e, s'') \<Rightarrow> on_values (m (Inl e)) s''
                     | (Inr x, s'') \<Rightarrow> on_values (m (Inr (b_content x))) s'')))"

text \<open>A folder as a mixed value: an array of bytes for every file.\<close>

definition member_buffer :: "'nd world \<Rightarrow> (checksum, buffer) dict option \<Rightarrow> checksum \<Rightarrow> buffer eop" where
  "member_buffer W members c =
     otry
       (case members of
          Some d \<Rightarrow> (case dget d c of Some x \<Rightarrow> oret x | None \<Rightarrow> oraise KeyError)
        | None \<Rightarrow> get_local_buffer W c)
       (\<lambda>e. if is_cache_miss e then resolve W c else oraise e) oret"

fun folder_children ::
  "'nd world \<Rightarrow> (checksum, buffer) dict option \<Rightarrow> (ustr \<times> 'nd pyval) list \<Rightarrow> (ustr \<times> 'nd pyval) list eop" where
  "folder_children W members [] = oret []"
| "folder_children W members ((name, v) # kvs) =
     (case v of
        VChecksum c \<Rightarrow>
          obind (member_buffer W members c) (\<lambda>x.
          obind (olift (w_frombuffer W (b_content x))) (\<lambda>a.
          obind (folder_children W members kvs) (\<lambda>rest. oret ((name, VArray a) # rest))))
      | _ \<Rightarrow> oraise AttributeError)"

definition folder_index :: "'nd world \<Rightarrow> checksum \<Rightarrow> getter \<Rightarrow> (ustr \<times> 'nd pyval) list eop" where
  "folder_index W c g =
     otry (ask W c g (\<lambda>r. obind (olift r) (\<lambda>b. buffer_get_value (w_env W) b CtFolder)))
       (\<lambda>e. oraise (if is_ValueError e then ExpressionEvaluationError else e))
       (\<lambda>v. case v of VDict kvs \<Rightarrow> oret kvs | _ \<Rightarrow> oraise AttributeError)"

definition new_buffer :: "'nd world \<Rightarrow> bytes \<Rightarrow> buffer eop" where
  "new_buffer W b = get_checksum W (plain_buffer b)"

definition checksum_of :: "'nd world \<Rightarrow> buffer \<Rightarrow> checksum" where
  "checksum_of W x = (case b_checksum x of Some c \<Rightarrow> c | None \<Rightarrow> w_sha W (b_content x))"

definition folder_to_mixed ::
  "'nd world \<Rightarrow> checksum \<Rightarrow> getter \<Rightarrow> (checksum, buffer) dict option \<Rightarrow> (checksum \<times> buffer option) eop" where
  "folder_to_mixed W c g members =
     obind (folder_index W c g) (\<lambda>index.
     obind (folder_children W members index) (\<lambda>children.
     obind (olift (buffer_of (w_codec W) (VDict children) CtMixed)) (\<lambda>b.
     obind (new_buffer W b) (\<lambda>x. oret (checksum_of W x, Some x)))))"

definition convert_input ::
  "'nd world \<Rightarrow> checksum \<Rightarrow> celltype \<Rightarrow> celltype \<Rightarrow> getter \<Rightarrow> (checksum \<times> buffer option) eop" where
  "convert_input W c source target g =
     obind (ask W c g (convert_checksum (w_env W) c source target)) (\<lambda>(r, new).
       case new of
         None \<Rightarrow> oret (r, None)
       | Some b \<Rightarrow> obind (new_buffer W b) (\<lambda>x. oret (r, Some x)))"

text \<open>The three ends of \<open>_evaluate_expression_after_validation\<close>.\<close>

definition finish_result ::
  "'nd world \<Rightarrow> expression_key \<Rightarrow> checksum \<Rightarrow> buffer option \<Rightarrow> bool \<Rightarrow> checksum eop" where
  "finish_result W k r x produced =
     obind (record_expression_result W (cache_key_of k) r) (\<lambda>_.
     obind (tempref_expression_result W r x produced) (\<lambda>_. oret r))"

definition evaluate_conversion ::
  "'nd world \<Rightarrow> expression_key \<Rightarrow> getter \<Rightarrow> (checksum, buffer) dict option \<Rightarrow> checksum eop" where
  "evaluate_conversion W k g members =
     obind
       (if (ek_source k, ek_target k) = (CtFolder, CtMixed) then folder_to_mixed W (ek_input k) g members
        else convert_input W (ek_input k) (ek_source k) (ek_target k) g) (\<lambda>(r, new).
     obind
       (case new of
          None \<Rightarrow> oret ()
        | Some x \<Rightarrow> if checksum_of W x \<noteq> r then oraise ExpressionEvaluationError else keep_result_buffer r x) (\<lambda>_.
     finish_result W k r new True))"

definition validate_deep_child :: "'nd world \<Rightarrow> checksum \<Rightarrow> celltype \<Rightarrow> unit eop" where
  "validate_deep_child W c ct =
     obind (on_values (v_deserializable (w_env W) c ct None)) (\<lambda>_. oret ())"

definition evaluate_path :: "'nd world \<Rightarrow> expression_key \<Rightarrow> buffer \<Rightarrow> path_step list \<Rightarrow> checksum eop" where
  "evaluate_path W k x steps =
     otry (deserialize_for_expression W x (ek_source k))
       (\<lambda>e. oraise (if is_ValueError e then ExpressionEvaluationError else e))
       (\<lambda>v.
         obind
           (if ek_source k \<in> set DEEP_CELLTYPES then olift (rbind (apply_step W v (hd steps)) (\<lambda>w. Inr (Some w)))
            else oret None) (\<lambda>child.
         case (child, ek_target k \<noteq> CtChecksum) of
           (Some w, True) \<Rightarrow>
             (case w of
                VChecksum d \<Rightarrow>
                  obind (validate_deep_child W d (ek_target k)) (\<lambda>_. finish_result W k d None False)
              | _ \<Rightarrow> oraise TypeError)
         | _ \<Rightarrow>
             obind
               (if ek_source k = CtBinary
                   \<and> (case v of VArray a \<Rightarrow> np_dims (w_codec W) a = 0 | _ \<Rightarrow> True)
                   \<and> \<not> ((case v of VArray a \<Rightarrow> w_fields W a | _ \<Rightarrow> False) \<and> list_all is_str_key steps)
                then oraise ExpressionEvaluationError else oret ()) (\<lambda>_.
             obind (olift (apply_steps W steps v)) (\<lambda>w.
             obind (olift (serialize_expression_result (w_codec W) w (ek_target k))) (\<lambda>b.
             obind (new_buffer W b) (\<lambda>y.
             obind (record_expression_result W (cache_key_of k) (checksum_of W y)) (\<lambda>_.
             obind (keep_result_buffer (checksum_of W y) y) (\<lambda>_.
             obind (tempref_expression_result W (checksum_of W y) (Some y) True) (\<lambda>_.
               oret (checksum_of W y))))))))))"

definition evaluate_after_validation ::
  "'nd world \<Rightarrow> expression_key \<Rightarrow> buffer option \<Rightarrow> path_step list \<Rightarrow> getter \<Rightarrow> (checksum, buffer) dict option
     \<Rightarrow> checksum eop"
where
  "evaluate_after_validation W k ib steps g members =
     (if steps = [] \<and> is_null (w_sha W) (ArgChecksum (canonical_checksum (w_sha W) (ek_input k) (ek_target k))) then
        obind (new_buffer W NULL_BUFFER) (\<lambda>x. finish_result W k (checksum_of W x) (Some x) True)
      else if ek_path k = [] \<and> ek_source k = ek_target k then finish_result W k (ek_input k) ib False
      else if steps = [] then evaluate_conversion W k g members
      else case ib of None \<Rightarrow> oraise AssertionError | Some x \<Rightarrow> evaluate_path W k x steps)"

section \<open>The entry points\<close>

definition v_validate_expression ::
  "'nd world \<Rightarrow> expression_key \<Rightarrow> buffer option \<Rightarrow> path_step list \<Rightarrow> unit eop" where
  "v_validate_expression W k ib steps s =
     (let (r, h) = validate_expression (w_sha W) (e_lib (w_env W)) (e_db (w_env W)) (e_in_loop (w_env W))
            (ek_input k) (map_option b_content ib) (ek_source k) steps (ek_target k) (vs_ht (es_values s))
      in (rbind r (\<lambda>_. Inr ()), s\<lparr>es_values := (es_values s)\<lparr>vs_ht := h\<rparr>\<rparr>))"

definition evaluate_unshared :: "'nd world \<Rightarrow> expression_key \<Rightarrow> checksum eop" where
  "evaluate_unshared W k =
     obind (olift (parse_path (w_unicode W) (w_leval W) (ek_path k))) (\<lambda>steps.
     obind (if steps = [] then oret None else obind (get_local_buffer W (ek_input k)) (\<lambda>x. oret (Some x))) (\<lambda>ib.
     obind (v_validate_expression W k ib steps) (\<lambda>_.
     evaluate_after_validation W k ib steps (case ib of None \<Rightarrow> LocalGetter | Some x \<Rightarrow> FetchedGetter ib) None)))"

text \<open>What sharing came to for the caller (\<open>SharedEvaluation\<close>): it evaluates by itself, or
  it joined an evaluation and got its result.\<close>

datatype joined = OnItsOwn | JoinedResult "checksum result"

definition evaluate_joined :: "'nd world \<Rightarrow> joined \<Rightarrow> bool \<Rightarrow> expression_key \<Rightarrow> checksum eop" where
  "evaluate_joined W j materialize k =
     obind
       (if ek_path k = [] then
          on_values (conversion_needs_buffer (w_env W) (ek_input k) (ek_source k) (ek_target k))
        else oret True) (\<lambda>needs.
     case (needs, j) of
       (True, JoinedResult r) \<Rightarrow>
         obind (olift r) (\<lambda>d.
         obind (if materialize then has_local_buffer W d else oret True) (\<lambda>usable.
           if usable then oret d else evaluate_unshared W k))
     | _ \<Rightarrow> evaluate_unshared W k)"

text \<open>A result on record answers, unless its buffer is asked for and is not here.\<close>

definition unless_cached :: "'nd world \<Rightarrow> bool \<Rightarrow> expression_key \<Rightarrow> checksum eop \<Rightarrow> checksum eop" where
  "unless_cached W materialize k m s =
     (case dget (es_cache s) (cache_key_of k) of
        None \<Rightarrow> m s
      | Some r \<Rightarrow>
          obind (if materialize then has_local_buffer W r else oret True) (\<lambda>usable.
            if usable then obind (tempref_expression_result W r None False) (\<lambda>_. oret r) else m) s)"

definition evaluate_expression_local ::
  "'nd world \<Rightarrow> joined \<Rightarrow> bool \<Rightarrow> checksum \<Rightarrow> ustr \<Rightarrow> celltype \<Rightarrow> celltype \<Rightarrow> checksum eop" where
  "evaluate_expression_local W j materialize c path source target =
     (let k = expression_key (w_sha W) c path source target in
      obind (olift (parse_path (w_unicode W) (w_leval W) path)) (\<lambda>_.
      obind (olift (validate_expression_shape (w_unicode W) (w_leval W) path source target)) (\<lambda>_.
      obind (tempref W (ek_input k) None) (\<lambda>_.
        unless_cached W materialize k (evaluate_joined W j materialize k)))))"

text \<open>The asynchronous evaluation fetches first what the conversion will ask for.\<close>

definition ensure_type :: "'nd world \<Rightarrow> checksum \<Rightarrow> hash_type option eop" where
  "ensure_type W c s =
     (let (r, h) = ensure_hash_type_async (e_lib (w_env W)) (e_db (w_env W)) c None (vs_ht (es_values s))
      in (r, s\<lparr>es_values := (es_values s)\<lparr>vs_ht := h\<rparr>\<rparr>))"

definition needs_input :: "'nd world \<Rightarrow> expression_key \<Rightarrow> path_step list \<Rightarrow> bool eop" where
  "needs_input W k steps =
     (if steps \<noteq> [] then oret True
      else if ek_source k \<noteq> ek_target k
        \<and> \<not> is_null (w_sha W) (ArgChecksum (canonical_checksum (w_sha W) (ek_input k) (ek_target k))) then
        obind (ensure_type W (ek_input k)) (\<lambda>_.
          on_values (conversion_needs_buffer (w_env W) (ek_input k) (ek_source k) (ek_target k)))
      else oret False)"

definition fetch_input :: "'nd world \<Rightarrow> checksum \<Rightarrow> buffer eop" where
  "fetch_input W c =
     otry (get_local_memory_buffer W c) (\<lambda>e. if is_cache_miss e then resolution W c else oraise e) oret"

definition v_validate_expression_async ::
  "'nd world \<Rightarrow> expression_key \<Rightarrow> buffer option \<Rightarrow> path_step list \<Rightarrow> unit eop" where
  "v_validate_expression_async W k ib steps s =
     (let (r, h) = validate_expression_async (w_sha W) (e_lib (w_env W)) (e_db (w_env W))
            (ek_input k) (map_option b_content ib) (ek_source k) steps (ek_target k) (vs_ht (es_values s))
      in (rbind r (\<lambda>_. Inr ()), s\<lparr>es_values := (es_values s)\<lparr>vs_ht := h\<rparr>\<rparr>))"

fun fetch_members ::
  "'nd world \<Rightarrow> (ustr \<times> 'nd pyval) list \<Rightarrow> (checksum, buffer) dict \<Rightarrow> (checksum, buffer) dict eop" where
  "fetch_members W [] d = oret d"
| "fetch_members W ((name, v) # kvs) d =
     (case v of
        VChecksum c \<Rightarrow> obind (resolution W c) (\<lambda>x. fetch_members W kvs (dset c x d))
      | _ \<Rightarrow> oraise AttributeError)"

definition fetch_folder :: "'nd world \<Rightarrow> expression_key \<Rightarrow> buffer option \<Rightarrow> path_step list \<Rightarrow> (checksum, buffer) dict option eop" where
  "fetch_folder W k ib steps =
     (if steps = [] \<and> (ek_source k, ek_target k) = (CtFolder, CtMixed)
        \<and> \<not> is_null (w_sha W) (ArgChecksum (ek_input k)) then
        obind (folder_index W (ek_input k) (FetchedGetter ib)) (\<lambda>index.
        obind (fetch_members W index []) (\<lambda>d. oret (Some d)))
      else oret None)"

definition evaluate_expression_async ::
  "'nd world \<Rightarrow> bool \<Rightarrow> checksum \<Rightarrow> ustr \<Rightarrow> celltype \<Rightarrow> celltype \<Rightarrow> checksum eop" where
  "evaluate_expression_async W materialize c path source target =
     (let k = expression_key (w_sha W) c path source target in
      obind (tempref W (ek_input k) None) (\<lambda>_.
      unless_cached W materialize k (
        obind (olift (parse_path (w_unicode W) (w_leval W) path)) (\<lambda>steps.
        obind (needs_input W k steps) (\<lambda>needs.
        obind (if needs then obind (fetch_input W (ek_input k)) (\<lambda>x. oret (Some x)) else oret None) (\<lambda>ib.
        obind (v_validate_expression_async W k ib steps) (\<lambda>_.
        obind (fetch_folder W k ib steps) (\<lambda>members.
        evaluate_after_validation W k ib steps (FetchedGetter ib) members))))))))"

datatype location = Local | Remote

definition choose_expression_evaluation_location ::
  "'nd world \<Rightarrow> checksum \<Rightarrow> ustr \<Rightarrow> celltype \<Rightarrow> celltype \<Rightarrow> location eop" where
  "choose_expression_evaluation_location W c path source target =
     (let k = expression_key (w_sha W) c path source target in
      obind
        (if path = [] then on_values (conversion_needs_buffer (w_env W) (ek_input k) source target)
         else oret True) (\<lambda>needs.
        if \<not> needs then oret Local
        else obind (has_local_buffer W (ek_input k)) (\<lambda>here. oret (if here then Local else Remote))))"

definition resolve_expression_value :: "'nd world \<Rightarrow> checksum \<Rightarrow> celltype \<Rightarrow> 'nd pyval eop" where
  "resolve_expression_value W c ct =
     otry (get_local_buffer W c) (\<lambda>e. if is_cache_miss e then obind (resolve W c) (\<lambda>x. deserialize_for_expression W x ct)
         else oraise e)
       (\<lambda>x. deserialize_for_expression W x ct)"

end
