(* ===== verification/EvalTriples.thy ===== *)
theory EvalTriples
  imports Evaluation "HOL-Library.Sublist"
begin

text \<open>
  What holds of every evaluation, synchronous or asynchronous, whatever it reads and whether it
  fails: the process files bytes under their own digest only, and a result once recorded is
  neither changed nor recorded again. The lemmas are Hoare triples over the operations of
  \<open>Evaluation\<close>.
\<close>

section \<open>Buffers under their own digest\<close>

definition fits :: "(bytes \<Rightarrow> checksum) \<Rightarrow> checksum \<Rightarrow> buffer \<Rightarrow> bool" where
  "fits sha c x \<longleftrightarrow> sha (b_content x) = c \<and> (b_checksum x = None \<or> b_checksum x = Some c)"

definition filed :: "(bytes \<Rightarrow> checksum) \<Rightarrow> checksum \<Rightarrow> buffer \<Rightarrow> bool" where
  "filed sha c x \<longleftrightarrow> sha (b_content x) = c \<and> b_checksum x = Some c"

definition store_ok :: "(bytes \<Rightarrow> checksum) \<Rightarrow> buffer_cache \<Rightarrow> bool" where
  "store_ok sha bc \<longleftrightarrow> bc_inv bc
     \<and> (\<forall>c x. dget (bc_weak bc) c = Some x \<longrightarrow> filed sha c x)
     \<and> (\<forall>c e x. dget (bc_strong bc) c = Some e \<longrightarrow> se_buffer e = Some x \<longrightarrow> filed sha c x)"

lemma filed_fits [simp]: "filed sha c x \<Longrightarrow> fits sha c x"
  by (simp add: filed_def fits_def)

lemma store_ok_claims: "store_ok sha bc \<Longrightarrow> claims_ok bc"
  unfolding store_ok_def claims_ok_def buffers_ok_def filed_def by blast

lemma store_ok_cong:
  "bc_inv a = bc_inv b \<Longrightarrow> bc_weak a = bc_weak b \<Longrightarrow> bc_strong a = bc_strong b \<Longrightarrow> store_ok sha a = store_ok sha b"
  by (simp add: store_ok_def)

lemma store_register: "store_ok sha bc \<Longrightarrow> filed sha c x \<Longrightarrow> store_ok sha (register_buffer c x n bc)"
  using inv_register [of bc c x n]
  by (auto simp: store_ok_def register_buffer_def Let_def split: option.splits if_splits)

lemma store_get:
  assumes "store_ok sha bc"
  shows "store_ok sha (snd (get_buffer c bc))" and "fst (get_buffer c bc) = Some x \<Longrightarrow> filed sha c x"
  using assms inv_get_buffer [of bc c]
  by (auto simp: store_ok_def get_buffer_def split: option.splits if_splits)

lemma store_make: "store_ok sha bc \<Longrightarrow> sha b = c \<Longrightarrow> store_ok sha (snd (make_buffer b c bc)) \<and> filed sha c (fst (make_buffer b c bc))"
  using store_register [of sha bc c] by (simp add: make_buffer_def Let_def filed_def)

lemma store_ask:
  assumes "store_ok sha bc" and "keeps_its_word sha s"
    and "get \<in> set_option (so_get_buffer s) \<union> set_option (so_get_buffer_async s)"
  shows "store_ok sha (snd (ask_source sha get (so_returns_verified_buffer s) c bc))"
    and "fst (ask_source sha get (so_returns_verified_buffer s) c bc) = Some x \<Longrightarrow> filed sha c x"
proof -
  have "store_ok sha (snd (check_content sha b c bc))" for b
    using store_make [OF assms(1), of b c] assms(1) by (simp add: check_content_def split_beta)
  then show "store_ok sha (snd (ask_source sha get (so_returns_verified_buffer s) c bc))"
    using assms(1) by (simp add: ask_source_def to_buffer_def split: sum.split fetched.split)
  show "fst (ask_source sha get (so_returns_verified_buffer s) c bc) = Some x \<Longrightarrow> filed sha c x"
    using ask_source_spec(1,2) [OF assms(2,3), of c bc]
    by (auto simp: filed_def split: option.splits if_splits)
qed

lemma store_sources:
  "list_all (keeps_its_word sha) ss \<Longrightarrow> store_ok sha bc \<Longrightarrow>
     store_ok sha (snd (get_buffer_from sha ss c bc))
     \<and> (\<forall>x. fst (get_buffer_from sha ss c bc) = Some x \<longrightarrow> filed sha c x)"
proof (induction ss arbitrary: bc)
  case (Cons s ss)
  show ?case
  proof (cases "so_get_buffer s")
    case None
    with Cons show ?thesis by simp
  next
    case (Some get)
    obtain r bc' where ask: "ask_source sha get (so_returns_verified_buffer s) c bc = (r, bc')" by fastforce
    have "keeps_its_word sha s" "get \<in> set_option (so_get_buffer s) \<union> set_option (so_get_buffer_async s)"
      using Cons.prems Some by simp_all
    note one = store_ask [OF Cons.prems(2) this, of c]
    show ?thesis using Some ask one Cons by (cases r) simp_all
  qed
qed simp

lemma store_async_sources:
  assumes "list_all (keeps_its_word sha) ss" and "store_ok sha bc"
  shows "store_ok sha (snd (get_buffer_uncached sha a ss c bc))
    \<and> (\<forall>x. fst (get_buffer_uncached sha a ss c bc) = Some x \<longrightarrow> filed sha c x)"
  unfolding uncached_as_sync
  by (rule store_sources) (use assms in \<open>auto simp: list_all_iff as_sync_keeps\<close>)

lemma store_checksum:
  assumes "store_ok sha bc" and "fits sha c x"
  shows "\<exists>x' bc'. buffer_get_checksum sha x bc = (c, x', bc') \<and> store_ok sha bc' \<and> filed sha c x'
    \<and> b_content x' = b_content x"
  using assms store_register [of sha bc c "x\<lparr>b_checksum := Some c\<rparr>"]
  by (auto simp: buffer_get_checksum_def fits_def filed_def Let_def)

lemma store_tempref:
  assumes ok: "store_ok sha bc" and x: "x = None \<or> (\<exists>y. x = Some y \<and> fits sha c y)"
  shows "store_ok sha (snd (tempref_op sha now c x i f v bc))" and "fst (tempref_op sha now c x i f v bc) = Inr ()"
proof -
  obtain r b1 where k: "checked_buffer sha c x bc = (Inr r, b1)" "store_ok sha b1"
      "r = None \<or> (\<exists>y. r = Some y \<and> filed sha c y)"
  proof -
    have "\<exists>r b1. checked_buffer sha c x bc = (Inr r, b1) \<and> store_ok sha b1 \<and> (r = None \<or> (\<exists>y. r = Some y \<and> filed sha c y))"
    proof (cases "case x of None \<Rightarrow> dget (bc_weak bc) c | Some b \<Rightarrow> Some b")
      case None
      with ok show ?thesis by (simp add: checked_buffer_def)
    next
      case (Some y)
      have "fits sha c y" using Some x ok by (auto simp: store_ok_def split: option.splits)
      from store_checksum [OF ok this] Some show ?thesis by (auto simp: checked_buffer_def)
    qed
    with that show ?thesis by blast
  qed
  obtain w b2 where st: "settle_entry c r False b1 = (w, b2)" by fastforce
  have run: "ensure_entry sha c x True bc = (Inr w, b2)" using k st by (simp add: ensure_entry_def)
  then show "fst (tempref_op sha now c x i f v bc) = Inr ()" by (simp add: tempref_op_def)
  have "bc_inv (snd (tempref_op sha now c x i f v bc))" using ok by (simp add: store_ok_def inv_tempref)
  moreover have "store_ok sha b2"
  proof -
    have "bc_inv b2" using inv_settle(1) [of b1] k(2) st by (simp add: store_ok_def)
    then show ?thesis
      using k(2,3) st by (auto simp: settle_entry_def new_entry_def Let_def store_ok_def split: option.splits if_splits)
  qed
  ultimately show "store_ok sha (snd (tempref_op sha now c x i f v bc))"
    using run by (auto simp: tempref_op_def store_ok_def on_entry_def update_tempref_def Let_def split: option.splits if_splits)
qed

section \<open>Triples\<close>

text \<open>From a state with \<open>P\<close> the operation leaves a state with \<open>P\<close>, its exceptions
  included, and what it returns satisfies \<open>Q\<close>.\<close>

definition triple :: "('s \<Rightarrow> bool) \<Rightarrow> ('s, 'e, 'a) op \<Rightarrow> ('a \<Rightarrow> bool) \<Rightarrow> bool" where
  "triple P m Q \<longleftrightarrow> (\<forall>s. P s \<longrightarrow> P (snd (m s)) \<and> (\<forall>x. fst (m s) = Inr x \<longrightarrow> Q x))"

lemma triple_bind:
  assumes m: "triple P m Q" and f: "\<And>x. Q x \<Longrightarrow> triple P (f x) R"
  shows "triple P (obind m f) R"
  unfolding triple_def
proof (intro allI impI)
  fix s assume s: "P s"
  show "P (snd (obind m f s)) \<and> (\<forall>y. fst (obind m f s) = Inr y \<longrightarrow> R y)"
  proof (cases "m s")
    case (Pair r s1)
    then show ?thesis
      using m s f unfolding triple_def by (cases r) (force simp: obind_def)+
  qed
qed

lemma triple_try:
  assumes m: "triple P m Q" and h: "\<And>e. triple P (h e) R" and f: "\<And>x. Q x \<Longrightarrow> triple P (f x) R"
  shows "triple P (otry m h f) R"
  unfolding triple_def
proof (intro allI impI)
  fix s assume s: "P s"
  show "P (snd (otry m h f s)) \<and> (\<forall>y. fst (otry m h f s) = Inr y \<longrightarrow> R y)"
  proof (cases "m s")
    case (Pair r s1)
    then show ?thesis
      using m s f h unfolding triple_def by (cases r) (force simp: otry_def)+
  qed
qed

lemma triple_ret: "Q x \<Longrightarrow> triple P (oret x) Q"
  and triple_raise: "triple P (oraise e) Q"
  and triple_lift: "(\<And>x. r = Inr x \<Longrightarrow> Q x) \<Longrightarrow> triple P (olift r) Q"
  by (simp_all add: triple_def)

lemma triple_if: "(b \<Longrightarrow> triple P m Q) \<Longrightarrow> (\<not> b \<Longrightarrow> triple P n Q) \<Longrightarrow> triple P (if b then m else n) Q"
  by simp

lemma triple_option:
  "(r = None \<Longrightarrow> triple P m Q) \<Longrightarrow> (\<And>x. r = Some x \<Longrightarrow> triple P (f x) Q) \<Longrightarrow> triple P (case_option m f r) Q"
  by (cases r) simp_all

lemma triple_weaken: "triple P m R \<Longrightarrow> (\<And>x. R x \<Longrightarrow> Q x) \<Longrightarrow> triple P m Q"
  unfolding triple_def by blast

text \<open>Where nothing is asked of the results.\<close>

abbreviation preserves :: "('s \<Rightarrow> bool) \<Rightarrow> ('s, 'e, 'a) op \<Rightarrow> bool" where
  "preserves P m \<equiv> triple P m (\<lambda>_. True)"

section \<open>The invariant\<close>

definition truthful :: "(bytes \<Rightarrow> checksum) \<Rightarrow> 'nd world \<Rightarrow> bool" where
  "truthful sha W \<longleftrightarrow> w_sha W = sha \<and> list_all (keeps_its_word sha) (w_sources W)
     \<and> (\<forall>ask c x. w_server W = Some ask \<longrightarrow> ask c = Inr (Some x) \<longrightarrow> filed sha c x)
     \<and> (\<forall>c x. w_remote_get W c = Inr (Some x) \<longrightarrow> filed sha c x)"

definition raw_ok :: "(bytes \<Rightarrow> checksum) \<Rightarrow> (checksum, bytes) lru_spec \<Rightarrow> bool" where
  "raw_ok sha p \<longleftrightarrow> (\<forall>(c, b) \<in> set (lp_items p). sha b = c)"

lemma raw_put:
  assumes "raw_ok sha p" and "sha b = c"
  shows "raw_ok sha (spec_put c b p)" and "raw_ok sha (spec_set c b p)"
proof -
  have "set (lp_items (spec_put c b p)) \<subseteq> insert (c, b) (set (lp_items p))"
    by (auto simp: spec_put_def Let_def AList.delete_eq dest!: in_set_takeD)
  with assms show "raw_ok sha (spec_put c b p)" unfolding raw_ok_def by fast
  with assms show "raw_ok sha (spec_set c b p)" by (simp add: spec_set_def)
qed

text \<open>\<open>z\<close> is an earlier state, and whether nothing was recorded since.\<close>

definition eval_ok :: "(bytes \<Rightarrow> checksum) \<Rightarrow> eval_state \<times> bool \<Rightarrow> eval_state \<Rightarrow> bool" where
  "eval_ok sha z s \<longleftrightarrow> store_ok sha (es_store s)
     \<and> (\<forall>c x. dget (es_results s) c = Some x \<longrightarrow> filed sha c x)
     \<and> raw_ok sha (es_raw s)
     \<and> dict_wf (es_cache s) \<and> prefix (es_cache (fst z)) (es_cache s)
     \<and> subseq (es_records s) (es_cache s) \<and> prefix (es_records (fst z)) (es_records s)
     \<and> (snd z \<longrightarrow> es_cache s = es_cache (fst z))"

lemma eval_ok_values [simp]: "eval_ok sha z (s\<lparr>es_values := v\<rparr>) = eval_ok sha z s"
  by (simp add: eval_ok_def)

lemma values_triple: "preserves (eval_ok sha z) (on_values m)"
  by (simp add: triple_def on_values_def split_beta)

lemma type_triple: "preserves (eval_ok sha z) (register_type W c b)"
  by (simp add: triple_def register_type_def split_beta)

lemma store_triple:
  assumes "\<And>bc. store_ok sha bc \<Longrightarrow> store_ok sha (snd (f bc)) \<and> Q (fst (f bc))"
  shows "triple (eval_ok sha z) (on_store f) Q"
  using assms by (simp add: triple_def on_store_def eval_ok_def split_beta)

lemma checksum_triple:
  assumes "w_sha W = sha"
  shows "triple (eval_ok sha z) (calculate_checksum W b) (\<lambda>c. c = sha b)"
proof -
  have "preserves (eval_ok sha z) (\<lambda>s. (Inr (), s\<lparr>es_raw := spec_set (sha b) b (es_raw s)\<rparr>))"
    by (simp add: triple_def eval_ok_def raw_put)
  then show ?thesis
    unfolding calculate_checksum_def Let_def assms
    by (intro triple_bind [OF _ triple_bind [OF type_triple triple_ret]]) simp_all
qed

lemma get_checksum_triple:
  assumes "w_sha W = sha" and "fits sha c x"
  shows "triple (eval_ok sha z) (get_checksum W x) (\<lambda>y. filed sha c y \<and> b_content y = b_content x)"
proof (cases "b_checksum x")
  case None
  show ?thesis
    unfolding get_checksum_def None option.case assms(1)
  proof (rule triple_bind [OF checksum_triple [OF assms(1)]], rule triple_bind [OF _ triple_ret])
    show "triple (eval_ok sha z)
       (on_store (\<lambda>bc. case buffer_get_checksum sha x bc of (c', x', bc') \<Rightarrow> (x', bc')))
       (\<lambda>y. filed sha c y \<and> b_content y = b_content x)"
      by (rule store_triple) (use store_checksum [OF _ assms(2)] in fastforce)
  qed simp
next
  case (Some d)
  with assms show ?thesis
    by (auto simp: get_checksum_def fits_def filed_def intro!: triple_ret)
qed

lemma get_value_triple:
  assumes "w_sha W = sha" and "fits sha c x"
  shows "preserves (eval_ok sha z) (get_value W x ct)"
  unfolding get_value_def
  by (intro triple_bind [OF triple_lift triple_bind [OF get_checksum_triple [OF assms] triple_bind [OF values_triple]]]
      triple_if triple_lift triple_ret) simp_all

lemma buffer_with_triple: "sha b = c \<Longrightarrow> triple (eval_ok sha z) (buffer_with W b c) (filed sha c)"
  unfolding buffer_with_def
  by (intro triple_bind [OF store_triple triple_bind [OF type_triple triple_ret]]) (auto simp: store_make)

lemma trivial_fits: "trivial_content sha c = Some b \<Longrightarrow> fits sha c (plain_buffer b)"
  by (auto simp: trivial_content_def plain_buffer_def fits_def dest!: map_of_SomeD)

lemma get_raw_triple: "triple (eval_ok sha z) (get_raw c) (\<lambda>r. \<forall>b. r = Some b \<longrightarrow> sha b = c)"
proof -
  have "sha b = c" if "raw_ok sha (es_raw s)" "dget (lp_items (es_raw s)) c = Some b" for b s
    using that by (auto simp: raw_ok_def dest!: map_of_SomeD)
  then show ?thesis
    by (auto simp: triple_def get_raw_def eval_ok_def raw_put split: option.split)
qed

lemma store_get_triple: "triple (eval_ok sha z) (on_store (get_buffer c)) (\<lambda>r. \<forall>x. r = Some x \<longrightarrow> filed sha c x)"
  by (rule store_triple) (use store_get in blast)

lemma memory_triple:
  assumes "w_sha W = sha"
  shows "triple (eval_ok sha z) (get_local_memory_buffer W c) (fits sha c)"
proof -
  have raw: "triple (eval_ok sha z)
      (obind (get_raw c) (\<lambda>raw. case raw of Some b \<Rightarrow> buffer_with W b c | None \<Rightarrow> oraise (CacheMissError c None)))
      (fits sha c)"
    by (rule triple_bind [OF get_raw_triple])
      (auto intro: triple_raise triple_weaken [OF buffer_with_triple] split: option.split)
  have found: "triple (eval_ok sha z) (\<lambda>s. case dget (es_results s) c of Some x \<Rightarrow> (Inr x, s)
      | None \<Rightarrow> obind (get_raw c) (\<lambda>raw. case raw of Some b \<Rightarrow> buffer_with W b c | None \<Rightarrow> oraise (CacheMissError c None)) s)
      (fits sha c)"
    using raw unfolding triple_def by (auto simp: eval_ok_def split: option.split)
  show ?thesis
    unfolding get_local_memory_buffer_def assms
    by (intro triple_option triple_bind [OF store_get_triple] found) (auto intro!: triple_ret trivial_fits)
qed

lemma sources_triple:
  assumes "list_all (keeps_its_word sha) ss"
  shows "triple (eval_ok sha z) (on_store (get_buffer_from sha ss c)) (\<lambda>r. \<forall>x. r = Some x \<longrightarrow> filed sha c x)"
    and "triple (eval_ok sha z) (on_store (get_buffer_uncached sha a ss c)) (\<lambda>r. \<forall>x. r = Some x \<longrightarrow> filed sha c x)"
  by (rule store_triple, use store_sources [OF assms] store_async_sources [OF assms] in blast)+

lemma truthfulD:
  assumes "truthful sha W"
  shows "w_sha W = sha" "list_all (keeps_its_word sha) (w_sources W)"
    "w_server W = Some ask' \<Longrightarrow> ask' c = Inr (Some x) \<Longrightarrow> filed sha c x"
    "w_remote_get W c = Inr (Some x) \<Longrightarrow> filed sha c x"
  using assms unfolding truthful_def by blast+

lemma local_triple:
  assumes "truthful sha W"
  shows "triple (eval_ok sha z) (get_local_buffer W c) (fits sha c)"
proof -
  note t = truthfulD [OF assms]
  show ?thesis
    unfolding get_local_buffer_def t(1)
    by (rule triple_try [OF memory_triple [OF t(1)]])
      (auto intro!: triple_if triple_raise triple_ret triple_bind [OF sources_triple(1) [OF t(2)]] triple_option)
qed

lemma has_local_triple:
  "w_sha W = sha \<Longrightarrow> preserves (eval_ok sha z) (has_local_buffer W c)"
  unfolding has_local_buffer_def
  by (rule triple_try [OF memory_triple]) (auto intro!: triple_if triple_raise triple_ret)

lemma resolve_triple:
  assumes "truthful sha W"
  shows "triple (eval_ok sha z) (resolve W c) (fits sha c)"
proof -
  note t = truthfulD [OF assms]
  have ext: "triple (eval_ok sha z) (resolve_external W c) (\<lambda>r. \<forall>x. r = Some x \<longrightarrow> filed sha c x)"
    unfolding resolve_external_def t(1)
    by (rule triple_bind [where Q = "\<lambda>r. \<forall>x. r = Some x \<longrightarrow> filed sha c x"])
      (auto intro!: triple_if sources_triple(2) [OF t(2)] triple_option triple_ret triple_lift dest: t(3))
  show ?thesis
    unfolding resolve_def t(1)
    by (intro triple_bind [where Q = "\<lambda>r. \<forall>x. r = Some x \<longrightarrow> fits sha c x"] triple_option triple_ret triple_raise
        triple_weaken [OF ext] triple_weaken [OF store_get_triple] triple_weaken [OF sources_triple(1) [OF t(2)]])
      (auto simp: trivial_fits)
qed

lemma resolution_triple:
  assumes "truthful sha W"
  shows "triple (eval_ok sha z) (resolution W c) (fits sha c)"
proof -
  note t = truthfulD [OF assms]
  have remote: "triple (eval_ok sha z) (olift (w_remote_get W c)) (\<lambda>r. \<forall>x. r = Some x \<longrightarrow> fits sha c x)"
    by (rule triple_lift) (auto dest: t(4))
  show ?thesis
    unfolding resolution_def t(1)
    by (intro triple_bind [where Q = "\<lambda>r. \<forall>x. r = Some x \<longrightarrow> fits sha c x"] triple_option triple_ret triple_raise
        triple_if remote triple_weaken [OF store_get_triple] triple_weaken [OF sources_triple(2) [OF t(2)]])
      (auto simp: trivial_fits)
qed

lemma dset_new: "dget d k = None \<Longrightarrow> dset k v d = d @ [(k, v)]"
  by (induction d) (auto split: if_splits)

lemma recorded_ok:
  assumes ok: "eval_ok sha (s0, False) s" and new: "dget (es_cache s) k = None"
  shows "eval_ok sha (s0, False) (s\<lparr>es_cache := es_cache s @ [(k, r)]\<rparr>)"
    and "eval_ok sha (s0, False) (s\<lparr>es_cache := es_cache s @ [(k, r)], es_records := es_records s @ [(k, r)]\<rparr>)"
proof -
  have "dict_wf (es_cache s @ [(k, r)])"
    using ok dict_wf_dset [of "es_cache s" k r] dset_new [OF new] by (simp add: eval_ok_def)
  with ok show "eval_ok sha (s0, False) (s\<lparr>es_cache := es_cache s @ [(k, r)]\<rparr>)"
    "eval_ok sha (s0, False) (s\<lparr>es_cache := es_cache s @ [(k, r)], es_records := es_records s @ [(k, r)]\<rparr>)"
    by (simp_all add: eval_ok_def list_emb_append_mono list_emb_prefix)
qed

lemma record_triple: "preserves (eval_ok sha (s0, False)) (record_expression_result W k r)"
  using recorded_ok
  by (auto simp: triple_def record_expression_result_def insert_expression_result_def
      register_expression_result_def dset_new split: option.split prod.split bool.split)

lemma tempref_triple:
  assumes "w_sha W = sha" and "x = None \<or> (\<exists>y. x = Some y \<and> fits sha c y)"
  shows "preserves (eval_ok sha z) (tempref W c x)"
  using store_tempref(1) [OF _ assms(2)] assms(1)
  by (simp add: triple_def tempref_def on_claims_def eval_ok_def split_beta)

lemma scratch_store:
  "bc_inv (mark_scratch c bc) = bc_inv bc" "bc_weak (mark_scratch c bc) = bc_weak bc"
  "bc_strong (mark_scratch c bc) = bc_strong bc"
  by (simp add: mark_scratch_def, simp_all add: mark_scratch_def set_scratch_def)

lemma tempref_result_triple:
  assumes "w_sha W = sha" and "x = None \<or> (\<exists>y. x = Some y \<and> fits sha c y)"
  shows "preserves (eval_ok sha z) (tempref_expression_result W c x p)"
proof -
  have "preserves (eval_ok sha z) (on_store (\<lambda>bc. ((), mark_scratch c bc)))"
  proof (rule store_triple)
    fix bc
    assume "store_ok sha bc"
    then show "store_ok sha (snd ((), mark_scratch c bc)) \<and> True"
      using store_ok_cong [of "mark_scratch c bc" bc sha] scratch_store by simp
  qed
  then show ?thesis
    unfolding tempref_expression_result_def
    by (intro triple_bind [where Q = "\<lambda>_. True"] triple_if triple_ret triple_option type_triple
        tempref_triple [OF assms(1)]) (use assms(2) in auto)
qed

lemma keep_result_triple: "filed sha c x \<Longrightarrow> preserves (eval_ok sha z) (keep_result_buffer c x)"
  by (simp add: triple_def keep_result_buffer_def eval_ok_def)

lemma new_buffer_triple:
  "w_sha W = sha \<Longrightarrow> triple (eval_ok sha z) (new_buffer W b) (\<lambda>x. filed sha (sha b) x \<and> b_content x = b)"
  unfolding new_buffer_def
  by (rule triple_weaken, rule get_checksum_triple [of W sha "sha b"]) (auto simp: fits_def plain_buffer_def)

lemma checksum_of_filed [simp]: "filed sha c x \<Longrightarrow> checksum_of W x = c"
  by (simp add: checksum_of_def filed_def)

lemma finish_triple:
  assumes "w_sha W = sha" and "x = None \<or> (\<exists>y. x = Some y \<and> fits sha r y)"
  shows "preserves (eval_ok sha (s0, False)) (finish_result W k r x p)"
  unfolding finish_result_def
  by (intro triple_bind [OF record_triple triple_bind [OF tempref_result_triple [OF assms]]] triple_ret) simp

lemma ask_triple:
  fixes m :: "bytes result \<Rightarrow> 'a vop"
  assumes "truthful sha W"
  shows "preserves (eval_ok sha z) (ask W c g m)"
proof -
  have v: "eval_ok sha z s \<Longrightarrow> eval_ok sha z (snd (on_values f s))" for s and f :: "'a vop"
    using values_triple [of sha z f] by (simp add: triple_def)
  have l: "eval_ok sha z s \<Longrightarrow> eval_ok sha z (snd (get_local_buffer W c s))" for s
    using local_triple [OF assms, of z c] by (simp add: triple_def)
  have "eval_ok sha z (snd (ask W c g m s))" if "eval_ok sha z s" for s
    using v [OF that] v [OF l [OF that]]
    by (auto simp: ask_def split_beta split: getter.split option.split sum.split)
  then show ?thesis by (simp add: triple_def)
qed

lemma folder_index_triple: "truthful sha W \<Longrightarrow> preserves (eval_ok sha z) (folder_index W c g)"
  unfolding folder_index_def
  by (rule triple_try [OF ask_triple]) (auto intro: triple_raise triple_ret split: pyval.split)

lemma member_triple:
  assumes "truthful sha W" and "\<And>d x. members = Some d \<Longrightarrow> dget d c = Some x \<Longrightarrow> fits sha c x"
  shows "triple (eval_ok sha z) (member_buffer W members c) (fits sha c)"
  unfolding member_buffer_def
  by (intro triple_try [where Q = "fits sha c"] triple_option triple_ret triple_raise triple_if
      resolve_triple local_triple) (use assms in auto)

definition members_ok :: "(bytes \<Rightarrow> checksum) \<Rightarrow> (checksum, buffer) dict \<Rightarrow> bool" where
  "members_ok sha d \<longleftrightarrow> (\<forall>c x. dget d c = Some x \<longrightarrow> fits sha c x)"

lemma children_triple:
  assumes "truthful sha W" and "\<And>d. members = Some d \<Longrightarrow> members_ok sha d"
  shows "preserves (eval_ok sha z) (folder_children W members kvs)"
proof (induction kvs)
  case Nil
  show ?case unfolding folder_children.simps by (rule triple_ret) simp
next
  case (Cons kv kvs)
  obtain name v where kv: "kv = (name, v)" by fastforce
  have "preserves (eval_ok sha z) (obind (member_buffer W members c) (\<lambda>x.
      obind (olift (w_frombuffer W (b_content x))) (\<lambda>a.
      obind (folder_children W members kvs) (\<lambda>rest. oret ((name, VArray a) # rest)))))" for c
    by (intro triple_bind [OF member_triple [OF assms(1)]] triple_bind [OF triple_lift [where Q = "\<lambda>_. True"]]
        triple_bind [OF Cons] triple_ret) (use assms(2) in \<open>auto simp: members_ok_def\<close>)
  then show ?case by (auto simp: kv triple_raise split: pyval.split)
qed

text \<open>New content is filed under its digest.\<close>

lemma convert_triple:
  assumes "truthful sha W"
  shows "triple (eval_ok sha z) (convert_input W c source target g)
    (\<lambda>(r, new). \<forall>x. new = Some x \<longrightarrow> filed sha (checksum_of W x) x)"
proof -
  have "triple (eval_ok sha z) (obind (new_buffer W b) (\<lambda>x. oret (r, Some x)))
      (\<lambda>(r, new). \<forall>x. new = Some x \<longrightarrow> filed sha (checksum_of W x) x)" for b r
    by (rule triple_bind [OF new_buffer_triple [OF truthfulD(1) [OF assms]]]) (auto intro: triple_ret)
  then show ?thesis
    unfolding convert_input_def
    by (intro triple_bind [OF ask_triple [OF assms]]) (auto intro!: triple_ret split: prod.split option.split)
qed

lemma mixed_triple:
  assumes "truthful sha W" and "\<And>d. members = Some d \<Longrightarrow> members_ok sha d"
  shows "triple (eval_ok sha z) (folder_to_mixed W c g members)
    (\<lambda>(r, new). \<forall>x. new = Some x \<longrightarrow> filed sha (checksum_of W x) x)"
  unfolding folder_to_mixed_def
  by (intro triple_bind [OF folder_index_triple [OF assms(1)]] triple_bind [OF children_triple [OF assms]]
      triple_bind [OF triple_lift [where Q = "\<lambda>_. True"]] triple_bind [OF new_buffer_triple [OF truthfulD(1) [OF assms(1)]]])
    (auto intro: triple_ret)

lemma conversion_triple:
  assumes "truthful sha W" and "\<And>d. members = Some d \<Longrightarrow> members_ok sha d"
  shows "preserves (eval_ok sha (s0, False)) (evaluate_conversion W k g members)"
proof -
  have "preserves (eval_ok sha (s0, False)) (obind
       (case new of None \<Rightarrow> oret ()
        | Some x \<Rightarrow> if checksum_of W x \<noteq> r then oraise ExpressionEvaluationError else keep_result_buffer r x)
       (\<lambda>_. finish_result W k r new True))"
    if "\<forall>x. new = Some x \<longrightarrow> filed sha (checksum_of W x) x" for r new
  proof (cases "\<forall>x. new = Some x \<longrightarrow> checksum_of W x = r")
    case True
    with that show ?thesis
      by (intro triple_bind [where Q = "\<lambda>_. True"] finish_triple truthfulD(1) [OF assms(1)] triple_option)
        (auto intro!: triple_ret keep_result_triple)
  next
    case False
    then show ?thesis
      by (intro triple_bind [where Q = "\<lambda>_. False"]) (auto intro: triple_raise)
  qed
  then show ?thesis
    unfolding evaluate_conversion_def
    by (intro triple_bind [OF triple_if [OF mixed_triple [OF assms] convert_triple [OF assms(1)]]])
      (auto split: prod.split)
qed

lemma deserialize_triple:
  assumes "w_sha W = sha" and "fits sha c x"
  shows "preserves (eval_ok sha z) (deserialize_for_expression W x ct)"
  unfolding deserialize_for_expression_def
  by (intro triple_if triple_ret triple_bind [OF get_value_triple [OF assms]] triple_lift) simp_all

lemma path_triple:
  assumes "w_sha W = sha" and "fits sha c x"
  shows "preserves (eval_ok sha (s0, False)) (evaluate_path W k x steps)"
proof -
  have child: "preserves (eval_ok sha (s0, False))
      (case w of VChecksum d \<Rightarrow> obind (validate_deep_child W d (ek_target k)) (\<lambda>_. finish_result W k d None False)
       | _ \<Rightarrow> oraise TypeError)" for w
  proof -
    have "preserves (eval_ok sha (s0, False)) (obind (validate_deep_child W d (ek_target k)) (\<lambda>_. finish_result W k d None False))" for d
      unfolding validate_deep_child_def
      by (intro triple_bind [where Q = "\<lambda>_. True"] values_triple triple_ret finish_triple assms(1)) simp_all
    then show ?thesis by (auto intro: triple_raise split: pyval.split)
  qed
  have rest: "preserves (eval_ok sha (s0, False)) (obind m (\<lambda>_.
      obind (olift r) (\<lambda>w.
      obind (olift (serialize_expression_result (w_codec W) w ct)) (\<lambda>b.
      obind (new_buffer W b) (\<lambda>y.
      obind (record_expression_result W (cache_key_of k) (checksum_of W y)) (\<lambda>_.
      obind (keep_result_buffer (checksum_of W y) y) (\<lambda>_.
      obind (tempref_expression_result W (checksum_of W y) (Some y) True) (\<lambda>_.
        oret (checksum_of W y)))))))))"
    if "preserves (eval_ok sha (s0, False)) m" for m r ct
    by (rule triple_bind [OF that], rule triple_bind [OF triple_lift [where Q = "\<lambda>_. True"]], simp,
        rule triple_bind [OF triple_lift [where Q = "\<lambda>_. True"]], simp,
        rule triple_bind [OF new_buffer_triple [OF assms(1)]], rule triple_bind [OF record_triple],
        rule triple_bind [OF keep_result_triple], simp, rule triple_bind [OF tempref_result_triple [OF assms(1)]], simp)
      (rule triple_ret, simp)
  show ?thesis
    unfolding evaluate_path_def
    by (rule triple_try [OF deserialize_triple [OF assms]], rule triple_raise,
        rule triple_bind [where Q = "\<lambda>_. True"])
      (auto intro!: triple_if triple_lift triple_ret triple_raise child rest split: option.split prod.split bool.split)
qed

lemma after_validation_triple:
  assumes "truthful sha W" and "\<And>d. members = Some d \<Longrightarrow> members_ok sha d"
    and "\<And>x. ib = Some x \<Longrightarrow> fits sha (ek_input k) x"
  shows "preserves (eval_ok sha (s0, False)) (evaluate_after_validation W k ib steps g members)"
proof -
  note t = truthfulD(1) [OF assms(1)]
  show ?thesis
    unfolding evaluate_after_validation_def
    by (intro triple_if triple_bind [OF new_buffer_triple [OF t]] finish_triple [OF t]
        conversion_triple [OF assms(1,2)] triple_option triple_raise path_triple [OF t])
      (use assms(3) in \<open>auto dest: filed_fits\<close>)
qed

lemma validate_triple: "preserves (eval_ok sha z) (v_validate_expression W k ib steps)"
    and validate_async_triple: "preserves (eval_ok sha z) (v_validate_expression_async W k ib steps)"
  by (simp_all add: triple_def v_validate_expression_def v_validate_expression_async_def split_beta)

lemma unshared_triple:
  assumes "truthful sha W"
  shows "preserves (eval_ok sha (s0, False)) (evaluate_unshared W k)"
  unfolding evaluate_unshared_def
  by (intro triple_bind [OF triple_lift [where Q = "\<lambda>_. True"]]
      triple_bind [where Q = "\<lambda>ib. \<forall>x. ib = Some x \<longrightarrow> fits sha (ek_input k) x"] triple_if triple_ret
      triple_bind [OF local_triple [OF assms]] triple_bind [OF validate_triple] after_validation_triple [OF assms]) auto

lemma joined_triple:
  assumes "truthful sha W"
  shows "preserves (eval_ok sha (s0, False)) (evaluate_joined W j materialize k)"
proof -
  have "preserves (eval_ok sha (s0, False)) (obind (olift r) (\<lambda>d.
         obind (if materialize then has_local_buffer W d else oret True) (\<lambda>usable.
           if usable then oret d else evaluate_unshared W k)))" for r
    by (intro triple_bind [OF triple_lift [where Q = "\<lambda>_. True"]] triple_bind [where Q = "\<lambda>_. True"] triple_if
        triple_ret unshared_triple [OF assms] has_local_triple truthfulD(1) [OF assms]) simp_all
  then show ?thesis
    unfolding evaluate_joined_def
    by (intro triple_bind [where Q = "\<lambda>_. True"] triple_if values_triple)
      (auto intro: triple_ret unshared_triple [OF assms] split: bool.split joined.split)
qed

lemma unless_cached_triple:
  assumes "truthful sha W" and "preserves (eval_ok sha (s0, False)) m"
  shows "preserves (eval_ok sha (s0, False)) (unless_cached W materialize k m)"
proof -
  have "preserves (eval_ok sha (s0, False)) (obind (if materialize then has_local_buffer W r else oret True) (\<lambda>usable.
      if usable then obind (tempref_expression_result W r None False) (\<lambda>_. oret r) else m))" for r
    by (intro triple_bind [where Q = "\<lambda>_. True"] triple_if triple_ret assms(2) has_local_triple
        tempref_result_triple truthfulD(1) [OF assms(1)]) simp_all
  then show ?thesis
    using assms(2) unfolding triple_def unless_cached_def by (auto split: option.split)
qed

lemma local_evaluation_triple:
  assumes "truthful sha W"
  shows "preserves (eval_ok sha (s0, False)) (evaluate_expression_local W j materialize c path source target)"
  unfolding evaluate_expression_local_def Let_def
  by (intro triple_bind [OF triple_lift [where Q = "\<lambda>_. True"]] triple_bind [where Q = "\<lambda>_. True"]
      tempref_triple unless_cached_triple joined_triple assms truthfulD(1)) simp_all

lemma fetch_members_triple:
  assumes "truthful sha W"
  shows "members_ok sha d \<Longrightarrow> triple (eval_ok sha z) (fetch_members W kvs d) (members_ok sha)"
proof (induction kvs arbitrary: d)
  case (Cons kv kvs)
  obtain name v where kv: "kv = (name, v)" by fastforce
  have "triple (eval_ok sha z) (obind (resolution W c) (\<lambda>x. fetch_members W kvs (dset c x d))) (members_ok sha)" for c
    by (rule triple_bind [OF resolution_triple [OF assms]], rule Cons.IH)
      (use Cons.prems in \<open>auto simp: members_ok_def\<close>)
  then show ?case by (auto simp: kv triple_raise split: pyval.split)
qed (simp only: fetch_members.simps, rule triple_ret)

lemma ensure_triple: "preserves (eval_ok sha z) (ensure_type W c)"
  by (simp add: triple_def ensure_type_def split_beta)

lemma needs_triple: "preserves (eval_ok sha z) (needs_input W k steps)"
  unfolding needs_input_def
  by (intro triple_if triple_ret triple_bind [OF ensure_triple] values_triple) simp_all

lemma fetch_input_triple:
  assumes "truthful sha W"
  shows "triple (eval_ok sha z) (if needs then obind (fetch_input W c) (\<lambda>x. oret (Some x)) else oret None)
    (\<lambda>ib. \<forall>x. ib = Some x \<longrightarrow> fits sha c x)"
proof -
  have "triple (eval_ok sha z) (fetch_input W c) (fits sha c)"
    unfolding fetch_input_def
    by (rule triple_try [OF memory_triple [OF truthfulD(1) [OF assms]]])
      (auto intro!: triple_if triple_raise triple_ret resolution_triple assms)
  then show ?thesis by (intro triple_if triple_bind [where Q = "fits sha c"] triple_ret) simp_all
qed

lemma fetch_folder_triple:
  assumes "truthful sha W"
  shows "triple (eval_ok sha z) (fetch_folder W k ib steps) (\<lambda>m. \<forall>d. m = Some d \<longrightarrow> members_ok sha d)"
  unfolding fetch_folder_def
  by (intro triple_if triple_bind [OF folder_index_triple [OF assms]] triple_bind [OF fetch_members_triple [OF assms]]
      triple_ret) (auto simp: members_ok_def)

lemma async_evaluation_triple:
  assumes "truthful sha W"
  shows "preserves (eval_ok sha (s0, False)) (evaluate_expression_async W materialize c path source target)"
  unfolding evaluate_expression_async_def Let_def
  by (intro triple_bind [where Q = "\<lambda>_. True"] tempref_triple truthfulD(1) [OF assms] unless_cached_triple [OF assms]
      triple_bind [OF triple_lift [where Q = "\<lambda>_. True"]] triple_bind [OF needs_triple]
      triple_bind [OF fetch_input_triple [OF assms]] triple_bind [OF validate_async_triple]
      triple_bind [OF fetch_folder_triple [OF assms]] after_validation_triple [OF assms]) auto

section \<open>The first state\<close>

definition eval_init :: "nat \<Rightarrow> vstate \<Rightarrow> eval_state" where
  "eval_init soft v = \<lparr>es_values = v, es_cache = [], es_results = [], es_raw = new_spec 10 False,
     es_store = cache_init soft, es_records = []\<rparr>"

lemma eval_ok_init: "eval_ok sha (eval_init soft v, False) (eval_init soft v)"
  by (simp add: eval_ok_def eval_init_def store_ok_def raw_ok_def new_spec_def inv_init, simp add: cache_init_def)

text \<open>A process with one store, for the witnesses.\<close>

definition tiny_world :: "unit world" where
  "tiny_world = \<lparr>w_env = tiny_env, w_unicode = ascii_unicode, w_leval = digit_leval, w_getitem = (\<lambda>_ _. Inl TypeError),
     w_fields = (\<lambda>_. False), w_frombuffer = (\<lambda>_. Inl ValueError), w_sources = [right_store], w_server = None,
     w_remote_get = (\<lambda>_. Inr None), w_now = 0, w_database = True\<rparr>"

abbreviation tiny_start :: eval_state where
  "tiny_start \<equiv> eval_init 2 tiny_state"

end
