(* ===== verification/Placement.thy ===== *)
theory Placement
  imports Evaluation CellJoin
begin

text \<open>
  Where an evaluation runs: \<open>evaluate_expression_placed\<close> and what it calls in
  \<open>seamless/checksum/expression.py\<close>, and the evaluation of celljoins, local or placed, in
  \<open>seamless/checksum/celljoin.py\<close>. The services of \<open>seamless_remote\<close> are the record
  \<open>remote\<close>, with the answers they give during the request; what sharing came to
  (\<open>SharedEvaluation\<close>) is an argument, as in \<open>Evaluation\<close>. Tasks that are gathered run
  one after the other.
\<close>

section \<open>The services\<close>

datatype length_answer = LengthBool bool | LengthInt int | LengthNone

record remote =
  r_lengths :: "checksum \<Rightarrow> length_answer list result"
  r_has_buffers :: "checksum list \<Rightarrow> bool list result"
  r_write_buffer :: "bytes \<Rightarrow> bool result"
  r_definition_store :: bool
  r_expression_result :: "expression_key \<Rightarrow> checksum option result"
  r_celljoin_result :: "checksum \<Rightarrow> celltype \<Rightarrow> checksum option result"
  r_jobserver :: bool
  r_daskserver :: bool
  r_job_expression :: "expression_key \<Rightarrow> bool \<Rightarrow> checksum result"
  r_dask_expression :: "expression_key \<Rightarrow> bool \<Rightarrow> checksum result"
  r_job_celljoin :: "checksum \<Rightarrow> celltype \<Rightarrow> bool \<Rightarrow> checksum result"
  r_dask_celljoin :: "checksum \<Rightarrow> celltype \<Rightarrow> bool \<Rightarrow> checksum result"

text \<open>\<open>g_remote\<close> is \<open>None\<close> where \<open>seamless_remote\<close> is not installed;
  \<open>g_np_set\<close> is numpy's assignment to a field.\<close>

record 'nd grid =
  g_world :: "'nd world"
  g_np_set :: "'nd \<Rightarrow> ustr \<Rightarrow> 'nd pyval \<Rightarrow> 'nd result"
  g_remote :: "remote option"

definition reads_as_there :: "length_answer list result \<Rightarrow> bool" where
  "reads_as_there r =
     (case r of
        Inl e \<Rightarrow> False
      | Inr [] \<Rightarrow> False
      | Inr (LengthBool b # _) \<Rightarrow> b
      | Inr (LengthInt n # _) \<Rightarrow> 0 \<le> n
      | Inr (LengthNone # _) \<Rightarrow> False)"

definition result_reachable :: "'nd grid \<Rightarrow> checksum \<Rightarrow> bool eop" where
  "result_reachable G c =
     obind (has_local_buffer (g_world G) c) (\<lambda>here.
       oret (here \<or> (case g_remote G of None \<Rightarrow> False | Some r \<Rightarrow> reads_as_there (r_lengths r c))))"

definition local_input_buffer_async :: "'nd world \<Rightarrow> checksum \<Rightarrow> buffer option eop" where
  "local_input_buffer_async W c =
     obind
       (otry (get_local_memory_buffer W c)
         (\<lambda>e. if is_cache_miss e then on_store (get_buffer_uncached (w_sha W) False (w_sources W) c) else oraise e)
         (\<lambda>x. oret (Some x))) (\<lambda>ob.
       case ob of
         None \<Rightarrow> oret None
       | Some x \<Rightarrow> obind (tempref_expression_result W c (Some x) False) (\<lambda>_. oret (Some x)))"

section \<open>One shared local evaluation\<close>

definition cached_result :: "cache_key \<Rightarrow> checksum option eop" where
  "cached_result k s = (Inr (dget (es_cache s) k), s)"

definition usable_here :: "'nd world \<Rightarrow> bool \<Rightarrow> checksum \<Rightarrow> bool eop" where
  "usable_here W materialize r = (if materialize then has_local_buffer W r else oret True)"

definition needs_input_shared :: "'nd world \<Rightarrow> expression_key \<Rightarrow> bool eop" where
  "needs_input_shared W k =
     obind
       (if ek_source k \<noteq> ek_target k
          \<and> \<not> is_null (w_sha W) (ArgChecksum (canonical_checksum (w_sha W) (ek_input k) (ek_target k)))
        then obind (ensure_type W (ek_input k)) (\<lambda>_. oret ()) else oret ()) (\<lambda>_.
       on_values (conversion_needs_buffer (w_env W) (ek_input k) (ek_source k) (ek_target k)))"

text \<open>An evaluation that was joined may have been dispatched, so that its buffer is elsewhere.\<close>

definition evaluate_expression_local_async ::
  "'nd world \<Rightarrow> joined \<Rightarrow> bool \<Rightarrow> checksum \<Rightarrow> ustr \<Rightarrow> celltype \<Rightarrow> celltype \<Rightarrow> checksum eop" where
  "evaluate_expression_local_async W j materialize c path source target =
     (let k = expression_key (w_sha W) c path source target;
          run = evaluate_expression_async W materialize c path source target in
      obind (olift (validate_expression_shape (w_unicode W) (w_leval W) path source target)) (\<lambda>_.
      obind (cached_result (cache_key_of k)) (\<lambda>cached.
      obind (case cached of None \<Rightarrow> oret False | Some r \<Rightarrow> usable_here W materialize r) (\<lambda>known.
      obind (if \<not> known \<and> path = [] then needs_input_shared W k else oret True) (\<lambda>needs.
        if known \<or> (path = [] \<and> \<not> needs) then run
        else
          obind (case j of OnItsOwn \<Rightarrow> run | JoinedResult r \<Rightarrow> olift r) (\<lambda>r.
          obind (usable_here W materialize r) (\<lambda>usable.
            if usable then oret r else run)))))))"

section \<open>Dispatch\<close>

text \<open>The caller starts the dispatch, with the scratch flag its members left when it was sent,
  or it joined one (or a local evaluation, which has no such flag) and got its result.\<close>

datatype dispatched = OwnDispatch bool | JoinedDispatch "checksum result" "bool option"

definition dispatch_remote_expression :: "'nd grid \<Rightarrow> expression_key \<Rightarrow> bool \<Rightarrow> checksum result" where
  "dispatch_remote_expression G k scratch =
     (case g_remote G of
        None \<Rightarrow> Inl ExpressionEvaluationError
      | Some r \<Rightarrow>
          if \<not> r_jobserver r \<and> r_daskserver r then r_dask_expression r k scratch
          else r_job_expression r k scratch)"

definition run_active_remote_expression ::
  "'nd grid \<Rightarrow> dispatched \<Rightarrow> expression_key \<Rightarrow> (checksum \<times> bool option) eop" where
  "run_active_remote_expression G d k =
     (case d of
        OwnDispatch b \<Rightarrow>
          obind (olift (dispatch_remote_expression G k b)) (\<lambda>r.
          obind (record_expression_result (g_world G) (cache_key_of k) r) (\<lambda>_.
          obind (tempref_expression_result (g_world G) r None False) (\<lambda>_. oret (r, Some b))))
      | JoinedDispatch res b \<Rightarrow> obind (olift res) (\<lambda>r. oret (r, b)))"

section \<open>Placed evaluation of an expression\<close>

datatype execution = AutoPlace | AtLocal | AtRemote | ElsePlace

text \<open>The answer of the caches and the database, or what they know of the result.\<close>

datatype known = Answered checksum | Known "checksum option"

definition usable_anywhere :: "'nd grid \<Rightarrow> bool \<Rightarrow> checksum \<Rightarrow> bool eop" where
  "usable_anywhere G materialize r = (if materialize then result_reachable G r else oret True)"

definition answer_with :: "'nd grid \<Rightarrow> bool \<Rightarrow> checksum \<Rightarrow> known eop" where
  "answer_with G materialize r =
     obind (usable_anywhere G materialize r) (\<lambda>usable.
       if usable then obind (tempref_expression_result (g_world G) r None False) (\<lambda>_. oret (Answered r))
       else oret (Known (Some r)))"

definition insert_result :: "cache_key \<Rightarrow> checksum \<Rightarrow> bool eop" where
  "insert_result k r s = (let (new, s') = insert_expression_result k r s in (Inr new, s'))"

definition known_result :: "'nd grid \<Rightarrow> bool \<Rightarrow> expression_key \<Rightarrow> known eop" where
  "known_result G materialize k =
     obind (cached_result (cache_key_of k)) (\<lambda>cached.
     case (cached, g_remote G) of
       (Some r, _) \<Rightarrow> answer_with G materialize r
     | (None, None) \<Rightarrow> oret (Known None)
     | (None, Some rem) \<Rightarrow>
         obind (olift (r_expression_result rem k)) (\<lambda>found.
         case found of
           None \<Rightarrow> oret (Known None)
         | Some r \<Rightarrow> obind (insert_result (cache_key_of k) r) (\<lambda>_. answer_with G materialize r)))"

definition needs_input_placed :: "'nd world \<Rightarrow> expression_key \<Rightarrow> bool eop" where
  "needs_input_placed W k =
     obind (if ek_path k = [] then needs_input_shared W k else oret True) (\<lambda>needs.
       oret (needs \<and> \<not> (ek_path k = [] \<and> is_null (w_sha W) (ArgChecksum (ek_input k)))))"

text \<open>The choice of a place: local if the input is found here, remote if somebody runs it there.\<close>

definition choose_place ::
  "'nd grid \<Rightarrow> expression_key \<Rightarrow> checksum option \<Rightarrow> bool \<Rightarrow> execution \<Rightarrow> execution eop" where
  "choose_place G k known needs place =
     (let W = g_world G in
      if place \<noteq> AutoPlace then oret place
      else
        obind (choose_expression_evaluation_location W (ek_input k) (ek_path k) (ek_source k) (ek_target k)) (\<lambda>l.
        if l = Local then oret AtLocal
        else
          obind (local_input_buffer_async W (ek_input k)) (\<lambda>ob.
          case (ob, g_remote G) of
            (Some x, _) \<Rightarrow> oret AtLocal
          | (None, None) \<Rightarrow> oret AtLocal
          | (None, Some r) \<Rightarrow>
              if r_jobserver r \<or> r_daskserver r then oret AtRemote
              else
                obind (if needs then result_reachable G (ek_input k) else oret True) (\<lambda>there.
                if there then oret AtLocal
                else oraise (CacheMissError (case known of Some c \<Rightarrow> c | None \<Rightarrow> ek_input k) None)))))"

definition evaluate_at_local ::
  "'nd grid \<Rightarrow> joined \<Rightarrow> bool \<Rightarrow> expression_key \<Rightarrow> checksum option \<Rightarrow> bool \<Rightarrow> bool \<Rightarrow> checksum eop" where
  "evaluate_at_local G j materialize k known needs can_materialize =
     (let W = g_world G in
      obind
        (case known of
           Some r \<Rightarrow>
             if needs \<and> \<not> can_materialize then
               obind (result_reachable G (ek_input k)) (\<lambda>there.
                 if there then oret () else oraise (CacheMissError r None))
             else oret ()
         | None \<Rightarrow> oret ()) (\<lambda>_.
      obind (evaluate_expression_local_async W j materialize (ek_input k) (ek_path k) (ek_source k) (ek_target k)) (\<lambda>r.
      obind (insert_result (cache_key_of k) r) (\<lambda>_.
      obind (tempref_expression_result W r None False) (\<lambda>_. oret r)))))"

definition evaluate_at_remote :: "'nd grid \<Rightarrow> dispatched \<Rightarrow> bool \<Rightarrow> expression_key \<Rightarrow> checksum eop" where
  "evaluate_at_remote G d materialize k =
     obind (run_active_remote_expression G d k) (\<lambda>(r, scratched).
     obind (if materialize \<and> scratched = Some True then result_reachable G r else oret True) (\<lambda>there.
       if there then oret r
       else
         obind (olift (dispatch_remote_expression G k False)) (\<lambda>r'.
         obind (record_expression_result (g_world G) (cache_key_of k) r') (\<lambda>_.
         obind (tempref_expression_result (g_world G) r' None False) (\<lambda>_. oret r')))))"

definition evaluate_in_place ::
  "'nd grid \<Rightarrow> joined \<Rightarrow> dispatched \<Rightarrow> bool \<Rightarrow> expression_key \<Rightarrow> checksum option \<Rightarrow> bool \<Rightarrow> bool \<Rightarrow> execution \<Rightarrow> checksum eop" where
  "evaluate_in_place G j d materialize k known needs can_materialize place =
     obind (choose_place G k known needs place) (\<lambda>place'.
       case place' of
         AtLocal \<Rightarrow> evaluate_at_local G j materialize k known needs can_materialize
       | AtRemote \<Rightarrow> evaluate_at_remote G d materialize k
       | _ \<Rightarrow> oraise ValueError)"

text \<open>What precedes the choice of a place. \<open>materialize_input\<close> makes the input here once
  more; when that gives another checksum the evaluation starts again with it, locally and
  without \<open>materialize_input\<close>.\<close>

definition unless_known ::
  "'nd grid \<Rightarrow> bool \<Rightarrow> expression_key \<Rightarrow> (checksum option \<Rightarrow> bool \<Rightarrow> checksum eop) \<Rightarrow> checksum eop" where
  "unless_known G materialize k run =
     obind (tempref (g_world G) (ek_input k) None) (\<lambda>_.
     obind (known_result G materialize k) (\<lambda>known.
     case known of
       Answered r \<Rightarrow> oret r
     | Known ok \<Rightarrow> obind (needs_input_placed (g_world G) k) (run ok)))"

definition wants_bytes :: "bool option \<Rightarrow> bool \<Rightarrow> bool" where
  "wants_bytes m scratch = (case m of Some b \<Rightarrow> b | None \<Rightarrow> \<not> scratch)"

definition first_place :: "bool \<Rightarrow> bool \<Rightarrow> execution \<Rightarrow> execution" where
  "first_place scratch materialize place = (if scratch \<and> materialize then AtLocal else place)"

function (sequential) evaluate_expression_placed ::
  "'nd grid \<Rightarrow> joined \<Rightarrow> dispatched \<Rightarrow> execution \<Rightarrow> bool \<Rightarrow> bool option \<Rightarrow> checksum eop option
     \<Rightarrow> checksum \<Rightarrow> ustr \<Rightarrow> celltype \<Rightarrow> celltype \<Rightarrow> checksum eop"
where
  "evaluate_expression_placed G j d place scratch m None c path source target =
     (let materialize = wants_bytes m scratch;
          k = expression_key (w_sha (g_world G)) c path source target in
      unless_known G materialize k (\<lambda>ok needs.
        evaluate_in_place G j d materialize k ok needs False (first_place scratch materialize place)))"
| "evaluate_expression_placed G j d place scratch m (Some again) c path source target =
     (let materialize = wants_bytes m scratch;
          k = expression_key (w_sha (g_world G)) c path source target in
      unless_known G materialize k (\<lambda>ok needs.
        obind (if needs then result_reachable G (ek_input k) else oret True) (\<lambda>there.
        if there then
          evaluate_in_place G j d materialize k ok needs True (first_place scratch materialize place)
        else
          obind again (\<lambda>made.
          if made \<noteq> ek_input k then
            evaluate_expression_placed G j d AtLocal scratch (Some materialize) None made path source target
          else evaluate_in_place G j d materialize k ok needs True AtLocal))))"
  by pat_completeness auto

termination
  by (relation "measure (\<lambda>(G, j, d, place, scratch, m, again, _). case again of None \<Rightarrow> 0 | Some _ \<Rightarrow> 1)") simp_all

declare evaluate_expression_placed.simps [simp del]

section \<open>Celljoins\<close>

definition celljoin_cache_key :: "checksum \<Rightarrow> celltype \<Rightarrow> cache_key" where
  "celljoin_cache_key c ct = CellJoinCacheKey (hex c) ct"

fun gather_celljoin_buffers ::
  "'nd world \<Rightarrow> (checksum, buffer) dict \<Rightarrow> checksum list \<Rightarrow> (checksum, buffer) dict eop" where
  "gather_celljoin_buffers W preloaded [] = oret []"
| "gather_celljoin_buffers W preloaded (c # cs) =
     obind
       (case dget preloaded c of
          Some x \<Rightarrow> oret x
        | None \<Rightarrow>
            obind (local_input_buffer_async W c) (\<lambda>ob.
            case ob of Some x \<Rightarrow> oret x | None \<Rightarrow> resolution W c)) (\<lambda>x.
     obind (gather_celljoin_buffers W preloaded cs) (\<lambda>rest. oret ((c, x) # rest)))"

definition register_celljoin_result :: "'nd world \<Rightarrow> celljoin_spec \<Rightarrow> checksum \<Rightarrow> unit eop" where
  "register_celljoin_result W spec r s =
     (if ht_closed (vs_ht (es_values s)) then (Inl RuntimeError, s)
      else if \<not> w_database W then (Inr (), s)
      else (Inr (), s\<lparr>es_records := es_records s @ [(celljoin_cache_key (js_checksum spec) (js_celltype spec), r)]\<rparr>))"

definition record_celljoin_result :: "'nd world \<Rightarrow> celljoin_spec \<Rightarrow> checksum \<Rightarrow> buffer option \<Rightarrow> bool eop" where
  "record_celljoin_result W spec r ob =
     obind (insert_result (celljoin_cache_key (js_checksum spec) (js_celltype spec)) r) (\<lambda>new.
     obind (case ob of Some x \<Rightarrow> keep_result_buffer r x | None \<Rightarrow> oret ()) (\<lambda>_.
     obind (tempref_expression_result W r ob (ob \<noteq> None)) (\<lambda>_.
     obind (if new then register_celljoin_result W spec r else oret ()) (\<lambda>_. oret new))))"

definition evaluate_celljoin_with_buffers ::
  "'nd grid \<Rightarrow> celljoin_spec \<Rightarrow> (checksum, buffer) dict \<Rightarrow> checksum eop" where
  "evaluate_celljoin_with_buffers G spec buffers =
     (let W = g_world G in
      obind (on_values (evaluate_celljoin (w_env W) (g_np_set G) spec
        (\<lambda>c. case dget buffers c of Some x \<Rightarrow> Inr (b_content x) | None \<Rightarrow> Inl KeyError))) (\<lambda>b.
      obind (new_buffer W b) (\<lambda>x.
      obind (record_celljoin_result W spec (checksum_of W x) (Some x)) (\<lambda>_. oret (checksum_of W x)))))"

definition evaluate_celljoin_local_async ::
  "'nd grid \<Rightarrow> joined \<Rightarrow> bool \<Rightarrow> (checksum, buffer) dict \<Rightarrow> celljoin_spec \<Rightarrow> checksum eop" where
  "evaluate_celljoin_local_async G j materialize buffers spec =
     (let W = g_world G; required = required_buffers spec;
          run = obind (gather_celljoin_buffers W buffers required) (evaluate_celljoin_with_buffers G spec) in
      obind (cached_result (celljoin_cache_key (js_checksum spec) (js_celltype spec))) (\<lambda>cached.
      obind (case cached of None \<Rightarrow> oret False | Some r \<Rightarrow> usable_here W materialize r) (\<lambda>known.
      case (known, cached) of
        (True, Some r) \<Rightarrow> obind (tempref_expression_result W r None False) (\<lambda>_. oret r)
      | _ \<Rightarrow>
          if required = [] then run
          else
            obind (case j of OnItsOwn \<Rightarrow> run | JoinedResult r \<Rightarrow> olift r) (\<lambda>r.
            obind (usable_here W materialize r) (\<lambda>usable. if usable then oret r else run)))))"

section \<open>Placed evaluation of a celljoin\<close>

definition dispatch_remote_celljoin :: "'nd grid \<Rightarrow> celljoin_spec \<Rightarrow> bool \<Rightarrow> checksum result" where
  "dispatch_remote_celljoin G spec scratch =
     (case g_remote G of
        None \<Rightarrow> Inl ExpressionEvaluationError
      | Some r \<Rightarrow>
          rbind (r_write_buffer r (js_buffer spec)) (\<lambda>written.
          if \<not> written then Inl ExpressionEvaluationError
          else if r_jobserver r then r_job_celljoin r (js_checksum spec) (js_celltype spec) scratch
          else if r_daskserver r then r_dask_celljoin r (js_checksum spec) (js_celltype spec) scratch
          else Inl RuntimeError))"

definition dispatch_celljoin_remotely :: "'nd grid \<Rightarrow> dispatched \<Rightarrow> celljoin_spec \<Rightarrow> checksum eop" where
  "dispatch_celljoin_remotely G d spec =
     (case d of
        OwnDispatch b \<Rightarrow>
          obind (olift (dispatch_remote_celljoin G spec b)) (\<lambda>r.
          obind (record_celljoin_result (g_world G) spec r None) (\<lambda>_. oret r))
      | JoinedDispatch res _ \<Rightarrow> olift res)"

fun local_missing :: "'nd world \<Rightarrow> checksum list \<Rightarrow> checksum list eop" where
  "local_missing W [] = oret []"
| "local_missing W (c # cs) =
     obind (local_input_buffer_async W c) (\<lambda>ob.
     obind (local_missing W cs) (\<lambda>rest. oret (if ob = None then c # rest else rest)))"

definition buffers_present :: "'nd grid \<Rightarrow> checksum list \<Rightarrow> bool list result" where
  "buffers_present G cs = (case g_remote G of None \<Rightarrow> Inr (map (\<lambda>_. False) cs) | Some r \<Rightarrow> r_has_buffers r cs)"

definition absent :: "checksum list \<Rightarrow> bool list \<Rightarrow> checksum list" where
  "absent cs present = map fst (filter (\<lambda>(c, p). \<not> p) (zip cs present))"

definition definition_store_available :: "'nd grid \<Rightarrow> bool" where
  "definition_store_available G = (case g_remote G of None \<Rightarrow> False | Some r \<Rightarrow> r_definition_store r)"

definition backend_available :: "'nd grid \<Rightarrow> bool" where
  "backend_available G = (case g_remote G of None \<Rightarrow> False | Some r \<Rightarrow> r_jobserver r \<or> r_daskserver r)"

text \<open>A forced remote evaluation, and the automatic choice.\<close>

definition celljoin_at_remote :: "'nd grid \<Rightarrow> dispatched \<Rightarrow> celljoin_spec \<Rightarrow> checksum eop" where
  "celljoin_at_remote G d spec =
     (if \<not> definition_store_available G then oraise RuntimeError
      else
        obind (olift (buffers_present G (required_buffers spec))) (\<lambda>present.
        case absent (required_buffers spec) present of
          c # _ \<Rightarrow> oraise (CacheMissError c None)
        | [] \<Rightarrow> dispatch_celljoin_remotely G d spec))"

definition celljoin_anywhere :: "'nd grid \<Rightarrow> joined \<Rightarrow> dispatched \<Rightarrow> celljoin_spec \<Rightarrow> checksum eop" where
  "celljoin_anywhere G j d spec =
     (let required = required_buffers spec in
      obind (local_missing (g_world G) required) (\<lambda>missing.
      if missing = [] then evaluate_celljoin_local_async G j False [] spec
      else
        obind (olift (buffers_present G required)) (\<lambda>present.
        if list_all id present \<and> backend_available G \<and> definition_store_available G
        then dispatch_celljoin_remotely G d spec
        else
          case filter (\<lambda>c. c \<in> set missing) (absent required present) of
            c # _ \<Rightarrow> oraise (CacheMissError c None)
          | [] \<Rightarrow> evaluate_celljoin_local_async G j False [] spec)))"

definition known_celljoin :: "'nd grid \<Rightarrow> celljoin_spec \<Rightarrow> checksum option eop" where
  "known_celljoin G spec =
     (let k = celljoin_cache_key (js_checksum spec) (js_celltype spec);
          answer = (\<lambda>r. obind (tempref_expression_result (g_world G) r None False) (\<lambda>_. oret (Some r))) in
      obind (cached_result k) (\<lambda>cached.
      case (cached, g_remote G) of
        (Some r, _) \<Rightarrow> answer r
      | (None, None) \<Rightarrow> oret None
      | (None, Some rem) \<Rightarrow>
          obind (olift (r_celljoin_result rem (js_checksum spec) (js_celltype spec))) (\<lambda>found.
          case found of
            None \<Rightarrow> oret None
          | Some r \<Rightarrow>
              obind (insert_result k r) (\<lambda>_.
              obind (cached_result k) (\<lambda>now. answer (case now of Some r' \<Rightarrow> r' | None \<Rightarrow> r))))))"

definition evaluate_celljoin_placed ::
  "'nd grid \<Rightarrow> joined \<Rightarrow> dispatched \<Rightarrow> execution \<Rightarrow> celljoin_spec \<Rightarrow> checksum eop" where
  "evaluate_celljoin_placed G j d place spec =
     obind (known_celljoin G spec) (\<lambda>known.
     case known of
       Some r \<Rightarrow> oret r
     | None \<Rightarrow>
         if place = ElsePlace then oraise ValueError
         else if js_celltype spec \<in> set JOIN_DEEP_CELLTYPES \<or> place = AtLocal
         then evaluate_celljoin_local_async G j False [] spec
         else if place = AtRemote then celljoin_at_remote G d spec
         else celljoin_anywhere G j d spec)"

end
