(* ===== verification/PlacementTriples.thy ===== *)
theory PlacementTriples
  imports EvalTriples Placement
begin

text \<open>
  The invariant of \<open>EvalTriples\<close> for the operations of \<open>Placement\<close>: nothing that is
  dispatched, joined or gathered files bytes under another digest or rewrites a record.
\<close>

section \<open>Expressions\<close>

lemma reachable_triple: "w_sha (g_world G) = sha \<Longrightarrow> preserves (eval_ok sha z) (result_reachable G c)"
  unfolding result_reachable_def by (rule triple_bind [OF has_local_triple], assumption, rule triple_ret, rule TrueI)

lemma local_input_triple:
  assumes "truthful sha W"
  shows "triple (eval_ok sha z) (local_input_buffer_async W c) (\<lambda>ob. \<forall>x. ob = Some x \<longrightarrow> fits sha c x)"
proof -
  note t = truthfulD [OF assms]
  have "triple (eval_ok sha z) (otry (get_local_memory_buffer W c)
         (\<lambda>e. if is_cache_miss e then on_store (get_buffer_uncached (w_sha W) False (w_sources W) c) else oraise e)
         (\<lambda>x. oret (Some x))) (\<lambda>ob. \<forall>x. ob = Some x \<longrightarrow> fits sha c x)"
    unfolding t(1)
    by (rule triple_try [OF memory_triple [OF t(1)]])
      (auto intro!: triple_if triple_raise triple_ret triple_weaken [OF sources_triple(2) [OF t(2)]])
  then show ?thesis
    unfolding local_input_buffer_async_def
    by (rule triple_bind) (auto intro!: triple_option triple_ret triple_bind [OF tempref_result_triple [OF t(1)]])
qed

lemma cached_triple: "preserves (eval_ok sha z) (cached_result k)"
  by (simp add: triple_def cached_result_def)

lemma usable_triple: "w_sha W = sha \<Longrightarrow> preserves (eval_ok sha z) (usable_here W m r)"
  unfolding usable_here_def by (intro triple_if has_local_triple triple_ret TrueI)

lemma needs_shared_triple: "preserves (eval_ok sha z) (needs_input_shared W k)"
  unfolding needs_input_shared_def
  by (intro triple_bind [where Q = "\<lambda>_. True"] triple_if triple_bind [OF ensure_triple] triple_ret values_triple) simp_all

lemma insert_triple: "preserves (eval_ok sha (s0, False)) (insert_result k r)"
  using recorded_ok
  by (auto simp: triple_def insert_result_def insert_expression_result_def dset_new split: option.split prod.split)

lemma shared_triple:
  assumes "truthful sha W"
  shows "preserves (eval_ok sha (s0, False)) (evaluate_expression_local_async W j m c path source target)"
proof -
  let ?run = "evaluate_expression_async W m c path source target"
  note run = async_evaluation_triple [OF assms, of s0 m c path source target]
  have "preserves (eval_ok sha (s0, False)) (case j of OnItsOwn \<Rightarrow> ?run | JoinedResult r \<Rightarrow> olift r)"
    by (cases j) (simp_all add: run triple_lift)
  then show ?thesis
    unfolding evaluate_expression_local_async_def Let_def
    by (intro triple_bind [where Q = "\<lambda>_. True"] triple_lift cached_triple triple_option triple_if triple_ret run
        usable_triple [OF truthfulD(1) [OF assms]] needs_shared_triple TrueI)
qed

lemma result_hold_triple: "w_sha W = sha \<Longrightarrow> preserves (eval_ok sha z) (tempref_expression_result W r None False)"
  by (rule tempref_result_triple) simp_all

lemma run_remote_triple:
  assumes "w_sha (g_world G) = sha"
  shows "preserves (eval_ok sha (s0, False)) (run_active_remote_expression G d k)"
  unfolding run_active_remote_expression_def
  by (cases d) (auto intro!: triple_bind [where Q = "\<lambda>_. True"] triple_lift record_triple
      result_hold_triple [OF assms] triple_ret)

lemma usable_anywhere_triple: "w_sha (g_world G) = sha \<Longrightarrow> preserves (eval_ok sha z) (usable_anywhere G m r)"
  unfolding usable_anywhere_def by (intro triple_if reachable_triple triple_ret TrueI)

lemma answer_triple: "w_sha (g_world G) = sha \<Longrightarrow> preserves (eval_ok sha z) (answer_with G m r)"
  unfolding answer_with_def
  by (intro triple_bind [OF usable_anywhere_triple] triple_if triple_bind [OF result_hold_triple] triple_ret TrueI)

lemma known_triple:
  assumes "w_sha (g_world G) = sha"
  shows "preserves (eval_ok sha (s0, False)) (known_result G m k)"
  unfolding known_result_def
  by (rule triple_bind [OF cached_triple])
    (auto intro!: answer_triple [OF assms] triple_ret triple_bind [OF triple_lift] triple_bind [OF insert_triple]
      split: option.split)

lemma placed_needs_triple: "preserves (eval_ok sha z) (needs_input_placed W k)"
  unfolding needs_input_placed_def
  by (intro triple_bind [where Q = "\<lambda>_. True"] triple_if needs_shared_triple triple_ret TrueI)

lemma location_triple: "w_sha W = sha \<Longrightarrow> preserves (eval_ok sha z) (choose_expression_evaluation_location W c path source target)"
  unfolding choose_expression_evaluation_location_def Let_def
  by (intro triple_bind [where Q = "\<lambda>_. True"] triple_if values_triple triple_ret has_local_triple TrueI)

lemma place_triple:
  assumes "truthful sha (g_world G)"
  shows "preserves (eval_ok sha z) (choose_place G k known needs place)"
proof -
  note t = truthfulD(1) [OF assms]
  have "preserves (eval_ok sha z) (case (ob, g_remote G) of
            (Some x, _) \<Rightarrow> oret AtLocal
          | (None, None) \<Rightarrow> oret AtLocal
          | (None, Some r) \<Rightarrow>
              if r_jobserver r \<or> r_daskserver r then oret AtRemote
              else
                obind (if needs then result_reachable G (ek_input k) else oret True) (\<lambda>there.
                if there then oret AtLocal
                else oraise (CacheMissError (case known of Some c \<Rightarrow> c | None \<Rightarrow> ek_input k) None)))" for ob :: "buffer option"
    by (cases ob; cases "g_remote G")
      (auto intro!: triple_ret triple_if triple_bind [where Q = "\<lambda>_. True"] reachable_triple [OF t] triple_raise)
  then show ?thesis
    unfolding choose_place_def Let_def
    by (intro triple_if triple_ret triple_bind [OF location_triple [OF t]] triple_bind [OF local_input_triple [OF assms]])
      simp_all
qed

lemma at_local_triple:
  assumes "truthful sha (g_world G)"
  shows "preserves (eval_ok sha (s0, False)) (evaluate_at_local G j m k known needs can)"
  unfolding evaluate_at_local_def Let_def
  by (intro triple_bind [where Q = "\<lambda>_. True"] triple_option triple_if triple_ret triple_raise
      reachable_triple [OF truthfulD(1) [OF assms]] shared_triple [OF assms] insert_triple
      result_hold_triple [OF truthfulD(1) [OF assms]] TrueI)

lemma at_remote_triple:
  assumes "w_sha (g_world G) = sha"
  shows "preserves (eval_ok sha (s0, False)) (evaluate_at_remote G d m k)"
  unfolding evaluate_at_remote_def
  by (rule triple_bind [OF run_remote_triple [OF assms]], unfold split_beta)
    (intro triple_bind [where Q = "\<lambda>_. True"] triple_if triple_ret triple_lift
      reachable_triple [OF assms] record_triple result_hold_triple [OF assms] TrueI)

lemma in_place_triple:
  assumes "truthful sha (g_world G)"
  shows "preserves (eval_ok sha (s0, False)) (evaluate_in_place G j d m k known needs can place)"
  unfolding evaluate_in_place_def
  by (rule triple_bind [OF place_triple [OF assms]])
    (auto intro!: at_local_triple [OF assms] at_remote_triple [OF truthfulD(1) [OF assms]] triple_raise
      split: execution.split)

lemma unless_known_triple:
  assumes "w_sha (g_world G) = sha" and "\<And>ok needs. preserves (eval_ok sha (s0, False)) (run ok needs)"
  shows "preserves (eval_ok sha (s0, False)) (unless_known G m k run)"
  unfolding unless_known_def
  by (intro triple_bind [OF tempref_triple [OF assms(1)]] triple_bind [OF known_triple [OF assms(1)]])
    (auto intro!: triple_ret triple_bind [OF placed_needs_triple] assms(2) split: known.split)

lemma placed_triple:
  "truthful sha (g_world G) \<Longrightarrow> (\<And>m. again = Some m \<Longrightarrow> preserves (eval_ok sha (s0, False)) m) \<Longrightarrow>
     preserves (eval_ok sha (s0, False)) (evaluate_expression_placed G j d place scratch m again c path source target)"
proof (induction G j d place scratch m again c path source target rule: evaluate_expression_placed.induct)
  case (1 G j d place scratch m c path source target)
  then show ?case
    unfolding evaluate_expression_placed.simps Let_def
    by (intro unless_known_triple in_place_triple truthfulD(1)) simp_all
next
  case (2 G j d place scratch m again c path source target)
  note t = truthfulD(1) [OF 2(2)]
  have "preserves (eval_ok sha (s0, False)) again" by (rule 2(3)) simp
  then show ?case
    unfolding evaluate_expression_placed.simps Let_def
    by (intro unless_known_triple [OF t] triple_bind [where Q = "\<lambda>_. True"] triple_if reachable_triple [OF t]
        in_place_triple [OF 2(2)] triple_ret 2(1) [OF refl refl _ _ 2(2)]) auto
qed

section \<open>Celljoins\<close>

lemma gather_triple:
  assumes "truthful sha W" and "members_ok sha pre"
  shows "triple (eval_ok sha z) (gather_celljoin_buffers W pre cs) (members_ok sha)"
proof (induction cs)
  case Nil
  then show ?case by (simp only: gather_celljoin_buffers.simps, intro triple_ret, simp add: members_ok_def)
next
  case (Cons c cs)
  have "triple (eval_ok sha z) (case dget pre c of Some x \<Rightarrow> oret x
        | None \<Rightarrow> obind (local_input_buffer_async W c) (\<lambda>ob. case ob of Some x \<Rightarrow> oret x | None \<Rightarrow> resolution W c)) (fits sha c)"
    using assms(2)
    by (auto intro!: triple_option triple_ret triple_bind [OF local_input_triple [OF assms(1)]]
        resolution_triple [OF assms(1)] simp: members_ok_def split: option.split)
  then show ?case
    unfolding gather_celljoin_buffers.simps
    by (rule triple_bind, intro triple_bind [OF Cons.IH] triple_ret) (auto simp: members_ok_def)
qed

text \<open>The record of a celljoin is inserted first and queued last; what happens in between leaves
  the records alone.\<close>

lemma hold_keeps_records:
  "es_cache (snd (tempref_expression_result W c x p s)) = es_cache s
   \<and> es_records (snd (tempref_expression_result W c x p s)) = es_records s"
  by (auto simp: tempref_expression_result_def obind_def tempref_def on_claims_def on_store_def register_type_def
      oret_def split: option.split sum.split prod.split)

lemma record_celljoin_triple:
  assumes "w_sha W = sha" and "ob = None \<or> (\<exists>x. ob = Some x \<and> filed sha r x)"
  shows "preserves (eval_ok sha (s0, False)) (record_celljoin_result W spec r ob)"
proof -
  let ?k = "celljoin_cache_key (js_checksum spec) (js_celltype spec)"
  let ?keep = "case ob of Some x \<Rightarrow> keep_result_buffer r x | None \<Rightarrow> oret ()"
  let ?hold = "tempref_expression_result W r ob (ob \<noteq> None)"
  have ob: "ob = None \<or> (\<exists>x. ob = Some x \<and> fits sha r x)" using assms(2) by auto
  have "eval_ok sha (s0, False) (snd (record_celljoin_result W spec r ob s))" if s: "eval_ok sha (s0, False) s" for s
  proof -
    obtain new s1 where ins: "insert_expression_result ?k r s = (new, s1)" by fastforce
    have s1: "eval_ok sha (s0, False) s1" "new \<longrightarrow> dget (es_cache s) ?k = None \<and> es_cache s1 = es_cache s @ [(?k, r)]"
        "es_records s1 = es_records s"
      using ins s recorded_ok(1) [OF s] by (auto simp: insert_expression_result_def dset_new split: option.splits)
    obtain s2 where keep: "?keep s1 = (Inr (), s2)" "es_cache s2 = es_cache s1" "es_records s2 = es_records s1"
      by (cases ob) (auto simp: keep_result_buffer_def oret_def)
    have "preserves (eval_ok sha (s0, False)) ?keep"
      using assms(2) by (auto intro!: keep_result_triple triple_ret)
    with s1(1) keep(1) have s2: "eval_ok sha (s0, False) s2" unfolding triple_def by force
    obtain q s3 where hold: "?hold s2 = (q, s3)" by fastforce
    have s3: "eval_ok sha (s0, False) s3" "es_cache s3 = es_cache s1" "es_records s3 = es_records s"
      using tempref_result_triple [OF assms(1) ob, of "(s0, False)" "ob \<noteq> None"] s2 hold
        hold_keeps_records [of W r ob "ob \<noteq> None" s2] keep(2,3) s1(3)
      unfolding triple_def by force+
    have "eval_ok sha (s0, False) (s3\<lparr>es_records := es_records s3 @ [(?k, r)]\<rparr>)" if new
      using s3 s1(2) that s recorded_ok(2) [OF s, of ?k r] by (auto simp: eval_ok_def)
    then show ?thesis
      using ins keep(1) hold s3(1)
      by (auto simp: record_celljoin_result_def insert_result_def register_celljoin_result_def obind_def oret_def
          split: sum.split)
  qed
  then show ?thesis by (simp add: triple_def)
qed

lemma with_buffers_triple:
  assumes "w_sha (g_world G) = sha"
  shows "preserves (eval_ok sha (s0, False)) (evaluate_celljoin_with_buffers G spec buffers)"
  unfolding evaluate_celljoin_with_buffers_def Let_def
  by (intro triple_bind [OF values_triple] triple_bind [OF new_buffer_triple [OF assms]]
      triple_bind [OF record_celljoin_triple [OF assms]] triple_ret) auto

lemma share_or_run_triple:
  assumes "w_sha W = sha" and run: "preserves (eval_ok sha (s0, False)) run"
  shows "preserves (eval_ok sha (s0, False)) (case (known, cached) of
        (True, Some r) \<Rightarrow> obind (tempref_expression_result W r None False) (\<lambda>_. oret r)
      | _ \<Rightarrow>
          if simple then run
          else
            obind (case j of OnItsOwn \<Rightarrow> run | JoinedResult r \<Rightarrow> olift r) (\<lambda>r.
            obind (usable_here W m r) (\<lambda>usable. if usable then oret r else run)))"
proof -
  have "preserves (eval_ok sha (s0, False)) (case j of OnItsOwn \<Rightarrow> run | JoinedResult r \<Rightarrow> olift r)"
    by (cases j) (simp_all add: run triple_lift)
  then have "preserves (eval_ok sha (s0, False))
      (obind (case j of OnItsOwn \<Rightarrow> run | JoinedResult r \<Rightarrow> olift r) (\<lambda>r.
       obind (usable_here W m r) (\<lambda>usable. if usable then oret r else run)))"
    by (rule triple_bind) (intro triple_bind [OF usable_triple [OF assms(1)]] triple_if triple_ret run TrueI)
  then show ?thesis
    by (auto intro!: triple_if run triple_ret triple_bind [OF result_hold_triple [OF assms(1)]]
        split: option.split bool.split)
qed

lemma celljoin_triple:
  assumes "truthful sha (g_world G)" and "members_ok sha buffers"
  shows "preserves (eval_ok sha (s0, False)) (evaluate_celljoin_local_async G j m buffers spec)"
proof -
  note t = truthfulD(1) [OF assms(1)]
  have "preserves (eval_ok sha (s0, False))
      (obind (gather_celljoin_buffers (g_world G) buffers (required_buffers spec)) (evaluate_celljoin_with_buffers G spec))"
    by (rule triple_bind [OF gather_triple [OF assms]], rule with_buffers_triple [OF t])
  note more = share_or_run_triple [OF t this]
  show ?thesis
    unfolding evaluate_celljoin_local_async_def Let_def
    by (intro triple_bind [where Q = "\<lambda>_. True"] cached_triple triple_option triple_ret usable_triple [OF t] more TrueI)
qed

lemma dispatch_celljoin_triple:
  assumes "w_sha (g_world G) = sha"
  shows "preserves (eval_ok sha (s0, False)) (dispatch_celljoin_remotely G d spec)"
  unfolding dispatch_celljoin_remotely_def
  by (cases d) (auto intro!: triple_bind [where Q = "\<lambda>_. True"] triple_lift record_celljoin_triple [OF assms] triple_ret)

lemma any_input_triple: "truthful sha W \<Longrightarrow> preserves (eval_ok sha z) (local_input_buffer_async W c)"
  by (rule triple_weaken [OF local_input_triple]) simp_all

lemma missing_triple: "truthful sha W \<Longrightarrow> preserves (eval_ok sha z) (local_missing W cs)"
proof (induction cs)
  case Nil
  show ?case by (simp only: local_missing.simps) (intro triple_ret TrueI)
next
  case (Cons c cs)
  from Cons.IH [OF Cons.prems] show ?case
    unfolding local_missing.simps
    by (intro triple_bind [OF any_input_triple [OF Cons.prems]] triple_bind [where Q = "\<lambda>_. True"] triple_ret TrueI)
qed

lemma celljoin_at_remote_triple:
  assumes "w_sha (g_world G) = sha"
  shows "preserves (eval_ok sha (s0, False)) (celljoin_at_remote G d spec)"
  unfolding celljoin_at_remote_def
  by (intro triple_if triple_raise triple_bind [where Q = "\<lambda>_. True"] triple_lift)
    (auto intro: triple_raise dispatch_celljoin_triple [OF assms] split: list.split)

lemma celljoin_anywhere_triple:
  assumes "truthful sha (g_world G)"
  shows "preserves (eval_ok sha (s0, False)) (celljoin_anywhere G j d spec)"
proof -
  have none: "members_ok sha []" by (simp add: members_ok_def)
  note here = celljoin_triple [OF assms none, of s0 j False spec]
  have "preserves (eval_ok sha (s0, False)) (case xs of c # _ \<Rightarrow> oraise (CacheMissError c None)
      | [] \<Rightarrow> evaluate_celljoin_local_async G j False [] spec)" for xs
    by (cases xs) (simp_all add: here triple_raise)
  then show ?thesis
    unfolding celljoin_anywhere_def Let_def
    by (intro triple_bind [OF missing_triple [OF assms]] triple_if here triple_bind [OF triple_lift [where Q = "\<lambda>_. True"]]
        dispatch_celljoin_triple [OF truthfulD(1) [OF assms]] TrueI)
qed

lemma known_celljoin_triple:
  assumes "w_sha (g_world G) = sha"
  shows "preserves (eval_ok sha (s0, False)) (known_celljoin G spec)"
  unfolding known_celljoin_def Let_def
  by (rule triple_bind [OF cached_triple])
    (auto intro!: triple_ret triple_bind [OF triple_lift] triple_bind [OF insert_triple] triple_bind [OF cached_triple]
      triple_bind [OF result_hold_triple [OF assms]] split: option.split)

lemma placed_celljoin_triple:
  assumes "truthful sha (g_world G)"
  shows "preserves (eval_ok sha (s0, False)) (evaluate_celljoin_placed G j d place spec)"
proof -
  have none: "members_ok sha []" by (simp add: members_ok_def)
  note t = truthfulD(1) [OF assms]
  show ?thesis
    unfolding evaluate_celljoin_placed_def
    by (intro triple_bind [OF known_celljoin_triple [OF t]] triple_option triple_if triple_ret triple_raise
        celljoin_triple [OF assms none] celljoin_at_remote_triple [OF t] celljoin_anywhere_triple [OF assms] TrueI)
qed

end
