(* ===== verification/Fingertip.thy ===== *)
theory Fingertip
  imports PlacementTriples
begin

text \<open>
  \<open>Checksum.fingertip\<close> (\<open>seamless/checksum_class.py\<close>): a buffer is resolved, or else
  recovered by evaluating again an expression, a celljoin or a transformation that gave its
  checksum. An input of an expression or a celljoin is fingertipped in turn; \<open>fingertip R n\<close>
  has \<open>n\<close> levels of recovery left before Python's recursion limit. The cache of
  \<open>seamless_transformer\<close> and the database are fields of \<open>recovery\<close>.
\<close>

section \<open>What recovery consults\<close>

type_synonym expression_candidate = "ustr \<times> ustr \<times> celltype \<times> celltype"
type_synonym celljoin_candidate = "ustr \<times> celltype"

record reverse_database =
  rd_transformations :: "checksum \<Rightarrow> checksum list result"
  rd_expressions :: "checksum \<Rightarrow> (checksum \<times> ustr \<times> celltype \<times> celltype) list result"
  rd_celljoins :: "checksum \<Rightarrow> (checksum \<times> celltype) list result"

record recovery =
  f_transformations :: "(checksum \<Rightarrow> checksum list) option"
  f_recompute :: "checksum \<Rightarrow> checksum option eop"
  f_database :: "reverse_database option"
  f_joined :: "cache_key \<Rightarrow> joined"
  f_worker :: bool
  f_dask :: bool

text \<open>Exceptions that end the recovery: cancellation and infrastructure errors.\<close>

definition propagates :: "exc \<Rightarrow> bool" where
  "propagates e \<longleftrightarrow> e \<in> {CancelledError, OtherError ''ExecutionCanceledError'', OtherError ''ClientError'',
     OtherError ''TimeoutError''}"

definition RecursionError :: exc where
  "RecursionError = OtherError ''RecursionError''"

definition expression_candidates :: "(cache_key, checksum) dict \<Rightarrow> checksum \<Rightarrow> expression_candidate list" where
  "expression_candidates d c =
     concat (map (\<lambda>(k, r). case k of
       ExpressionCacheKey h path source target \<Rightarrow> if r = c then [(h, path, source, target)] else []
     | CellJoinCacheKey _ _ \<Rightarrow> []) d)"

definition celljoin_candidates :: "(cache_key, checksum) dict \<Rightarrow> checksum \<Rightarrow> celljoin_candidate list" where
  "celljoin_candidates d c =
     concat (map (\<lambda>(k, r). case k of
       CellJoinCacheKey h ct \<Rightarrow> if r = c then [(h, ct)] else []
     | ExpressionCacheKey _ _ _ _ \<Rightarrow> []) d)"

text \<open>What the database reports is a candidate, and is inserted.\<close>

fun insert_results :: "cache_key list \<Rightarrow> checksum \<Rightarrow> unit eop" where
  "insert_results [] c = oret ()"
| "insert_results (k # ks) c = obind (insert_result k c) (\<lambda>_. insert_results ks c)"

definition database_candidates ::
  "reverse_database \<Rightarrow> checksum \<Rightarrow> checksum list \<Rightarrow> expression_candidate list \<Rightarrow> celljoin_candidate list
     \<Rightarrow> (checksum list \<times> expression_candidate list \<times> celljoin_candidate list) eop"
where
  "database_candidates db c ts es js =
     obind (olift (rd_transformations db c)) (\<lambda>ts'.
     obind (olift (rd_expressions db c)) (\<lambda>rows.
     (let es' = map (\<lambda>(i, path, source, target). (hex i, path, source, target)) rows in
     obind (insert_results (map (\<lambda>(h, path, source, target). ExpressionCacheKey h path source target) es') c) (\<lambda>_.
     obind (olift (rd_celljoins db c)) (\<lambda>rows'.
     (let js' = map (\<lambda>(d, ct). (hex d, ct)) rows' in
     obind (insert_results (map (\<lambda>(h, ct). CellJoinCacheKey h ct) js') c) (\<lambda>_.
       oret (fold add_distinct ts' ts, fold add_distinct es' es, fold add_distinct js' js))))))))"

definition candidates ::
  "recovery \<Rightarrow> checksum \<Rightarrow> (checksum list \<times> expression_candidate list \<times> celljoin_candidate list) eop" where
  "candidates R c s =
     (let ts = (case f_transformations R of None \<Rightarrow> [] | Some f \<Rightarrow> f c);
          es = expression_candidates (es_cache s) c;
          js = celljoin_candidates (es_cache s) c in
      case f_database R of
        None \<Rightarrow> (Inr (ts, es, js), s)
      | Some db \<Rightarrow> database_candidates db c ts es js s)"

section \<open>One attempt\<close>

text \<open>Found what was asked for, or not, with the highest failure so far.\<close>

datatype 'a found = Found 'a | Missing fingertip_category

definition miss_category :: "fingertip_category option \<Rightarrow> fingertip_category" where
  "miss_category oc = (case oc of None \<Rightarrow> MATERIALIZATION | Some k \<Rightarrow> k)"

definition or_miss :: "'a eop \<Rightarrow> fingertip_category \<Rightarrow> ('a \<Rightarrow> 'b found eop) \<Rightarrow> 'b found eop" where
  "or_miss m cat f =
     otry m
       (\<lambda>e. case e of CacheMissError _ oc \<Rightarrow> oret (Missing (max cat (miss_category oc))) | _ \<Rightarrow> oraise e) f"

definition finally_resolve :: "'a eop \<Rightarrow> fingertip_category \<Rightarrow> 'a found eop" where
  "finally_resolve final cat = or_miss final cat (\<lambda>x. oret (Found x))"

definition try_expression ::
  "'nd grid \<Rightarrow> recovery \<Rightarrow> (checksum \<Rightarrow> buffer eop) \<Rightarrow> 'a eop \<Rightarrow> checksum \<Rightarrow> expression_candidate
     \<Rightarrow> fingertip_category \<Rightarrow> 'a found eop"
where
  "try_expression G R again final c k cat =
     (case k of (h, path, source, target) \<Rightarrow>
        obind (olift (checksum_init (ArgStr h))) (\<lambda>i.
        or_miss (again i) cat (\<lambda>_.
          otry (evaluate_expression_local_async (g_world G) (f_joined R (ExpressionCacheKey h path source target)) True
                  i path source target)
            (\<lambda>e. if propagates e then oraise e else oret (Missing IRREPRODUCIBLE_EXPRESSION))
            (\<lambda>r. if r \<noteq> c then oret (Missing IRREPRODUCIBLE_EXPRESSION) else finally_resolve final cat))))"

text \<open>The inputs of a celljoin: all are tried, then the first failure that is no cache miss is
  raised.\<close>

fun gather_inputs :: "(checksum \<Rightarrow> buffer eop) \<Rightarrow> checksum list \<Rightarrow> (checksum \<times> buffer result) list eop" where
  "gather_inputs again [] = oret []"
| "gather_inputs again (c # cs) =
     (\<lambda>s. case again c s of
        (r, s') \<Rightarrow> obind (gather_inputs again cs) (\<lambda>rest. oret ((c, r) # rest)) s')"

fun settle_inputs ::
  "(checksum \<times> buffer result) list \<Rightarrow> (checksum, buffer) dict \<Rightarrow> fingertip_category \<Rightarrow> bool
     \<Rightarrow> ((checksum, buffer) dict \<times> fingertip_category \<times> bool) result"
where
  "settle_inputs [] got cat failed = Inr (got, cat, failed)"
| "settle_inputs ((c, Inl e) # rs) got cat failed =
     (case e of
        CacheMissError _ oc \<Rightarrow> settle_inputs rs got (max cat (miss_category oc)) True
      | _ \<Rightarrow> Inl e)"
| "settle_inputs ((c, Inr x) # rs) got cat failed = settle_inputs rs (dset c x got) cat failed"

definition join_again ::
  "'nd grid \<Rightarrow> recovery \<Rightarrow> (checksum \<Rightarrow> buffer eop) \<Rightarrow> 'a eop \<Rightarrow> checksum \<Rightarrow> celljoin_spec
     \<Rightarrow> fingertip_category \<Rightarrow> 'a found eop"
where
  "join_again G R again final c spec cat =
     obind (gather_inputs again (required_buffers spec)) (\<lambda>results.
     obind (olift (settle_inputs results [] cat False)) (\<lambda>(got, cat', failed).
       if failed then oret (Missing cat')
       else
         otry (evaluate_celljoin_local_async G
                (f_joined R (celljoin_cache_key (js_checksum spec) (js_celltype spec))) True got spec)
           (\<lambda>e. if propagates e then oraise e
                else oret (Missing (max cat' (case e of CacheMissError _ oc \<Rightarrow> miss_category oc
                                                | _ \<Rightarrow> IRREPRODUCIBLE_EXPRESSION))))
           (\<lambda>r. if r \<noteq> c then oret (Missing (max cat' IRREPRODUCIBLE_EXPRESSION)) else finally_resolve final cat')))"

definition try_celljoin ::
  "'nd grid \<Rightarrow> recovery \<Rightarrow> (checksum \<Rightarrow> buffer eop) \<Rightarrow> 'a eop \<Rightarrow> checksum \<Rightarrow> celljoin_candidate
     \<Rightarrow> fingertip_category \<Rightarrow> 'a found eop"
where
  "try_celljoin G R again final c k cat =
     (case k of (h, ct) \<Rightarrow>
        obind (olift (checksum_init (ArgStr h))) (\<lambda>d.
        otry (resolution (g_world G) d) (\<lambda>e. if is_cache_miss e then oret (Missing cat) else oraise e) (\<lambda>definition_buffer.
        otry (on_values (parse_celljoin (w_env (g_world G)) (DefBuffer (b_content definition_buffer)) ct))
          (\<lambda>e. if e = CancelledError then oraise e else oret (Missing cat)) (\<lambda>spec.
          if hex (js_checksum spec) \<noteq> h then oret (Missing cat) else join_again G R again final c spec cat))))"

definition try_transformation ::
  "recovery \<Rightarrow> 'a eop \<Rightarrow> checksum \<Rightarrow> checksum \<Rightarrow> fingertip_category \<Rightarrow> 'a found eop" where
  "try_transformation R final c t cat =
     otry (f_recompute R t)
       (\<lambda>e. if propagates e then oraise e
            else oret (Missing (max cat (case e of CacheMissError _ oc \<Rightarrow> miss_category oc
                                           | _ \<Rightarrow> FAILED_TRANSFORMATION))))
       (\<lambda>o1. case o1 of
          None \<Rightarrow> oret (Missing cat)
        | Some r \<Rightarrow> if r \<noteq> c then oret (Missing (max cat IRREPRODUCIBLE_TRANSFORMATION)) else finally_resolve final cat)"

section \<open>The recovery\<close>

text \<open>The attempts in their order, until one succeeds.\<close>

fun try_each :: "('k \<Rightarrow> fingertip_category \<Rightarrow> 'a found eop) \<Rightarrow> 'k list \<Rightarrow> fingertip_category \<Rightarrow> 'a found eop" where
  "try_each attempt [] cat = oret (Missing cat)"
| "try_each attempt (k # ks) cat =
     obind (attempt k cat) (\<lambda>o1.
     case o1 of Found x \<Rightarrow> oret (Found x) | Missing cat' \<Rightarrow> try_each attempt ks cat')"

definition or_else :: "'a found eop \<Rightarrow> (fingertip_category \<Rightarrow> 'a found eop) \<Rightarrow> 'a found eop" where
  "or_else m f = obind m (\<lambda>o1. case o1 of Found x \<Rightarrow> oret (Found x) | Missing cat \<Rightarrow> f cat)"

definition recover ::
  "'nd grid \<Rightarrow> recovery \<Rightarrow> (checksum \<Rightarrow> buffer eop) \<Rightarrow> 'a eop \<Rightarrow> checksum \<Rightarrow> 'a eop" where
  "recover G R again final c =
     obind (candidates R c) (\<lambda>(ts, es, js).
     obind
       (or_else (try_each (try_expression G R again final c) es MATERIALIZATION) (\<lambda>cat.
        or_else (try_each (try_celljoin G R again final c) js cat) (\<lambda>cat.
          try_each (try_transformation R final c) (if f_transformations R = None then [] else ts) cat))) (\<lambda>o1.
     case o1 of
       Found x \<Rightarrow> oret x
     | Missing cat \<Rightarrow>
         if f_worker R \<and> \<not> f_dask R then oraise NotImplementedError
         else oraise (CacheMissError c (Some cat))))"

definition resolve_or_recover ::
  "'nd grid \<Rightarrow> recovery \<Rightarrow> (checksum \<Rightarrow> buffer eop) \<Rightarrow> 'a eop \<Rightarrow> checksum \<Rightarrow> 'a eop" where
  "resolve_or_recover G R again final c =
     otry final (\<lambda>e. if is_cache_miss e then recover G R again final c else oraise e) oret"

primrec fingertip :: "'nd grid \<Rightarrow> recovery \<Rightarrow> nat \<Rightarrow> checksum \<Rightarrow> buffer eop" where
  "fingertip G R 0 c = oraise RecursionError"
| "fingertip G R (Suc n) c = resolve_or_recover G R (fingertip G R n) (resolution (g_world G) c) c"

text \<open>\<open>resolution\<close> and \<open>fingertip\<close> with a celltype: the value.\<close>

definition resolution_value_of :: "'nd world \<Rightarrow> checksum \<Rightarrow> celltype \<Rightarrow> 'nd pyval eop" where
  "resolution_value_of W c ct =
     (case virtual (w_sha W) c ct of
        Inl e \<Rightarrow> oraise e
      | Inr (Some v) \<Rightarrow> oret v
      | Inr None \<Rightarrow> obind (resolution W c) (\<lambda>x. get_value W x ct))"

definition fingertip_value :: "'nd grid \<Rightarrow> recovery \<Rightarrow> nat \<Rightarrow> checksum \<Rightarrow> celltype \<Rightarrow> 'nd pyval eop" where
  "fingertip_value G R n c ct =
     (case n of
        0 \<Rightarrow> oraise RecursionError
      | Suc m \<Rightarrow> resolve_or_recover G R (fingertip G R m) (resolution_value_of (g_world G) c ct) c)"

section \<open>What is recovered is right\<close>

definition found_ok :: "('a \<Rightarrow> bool) \<Rightarrow> 'a found \<Rightarrow> bool" where
  "found_ok Q r \<longleftrightarrow> (\<forall>x. r = Found x \<longrightarrow> Q x)"

lemma found_ok_simps [simp]: "found_ok Q (Found x) = Q x" "found_ok Q (Missing cat)"
  by (simp_all add: found_ok_def)

definition recovery_ok :: "(bytes \<Rightarrow> checksum) \<Rightarrow> recovery \<Rightarrow> bool" where
  "recovery_ok sha R \<longleftrightarrow> (\<forall>t s0. preserves (eval_ok sha (s0, False)) (f_recompute R t))"

lemma or_miss_triple:
  assumes "triple P m Q" and "\<And>x. Q x \<Longrightarrow> triple P (f x) (found_ok T)"
  shows "triple P (or_miss m cat f) (found_ok T)"
  unfolding or_miss_def
  by (rule triple_try [OF assms(1)]) (auto intro: triple_ret triple_raise assms(2) split: exc.split)

lemma finally_triple: "triple P final Q \<Longrightarrow> triple P (finally_resolve final cat) (found_ok Q)"
  unfolding finally_resolve_def by (rule or_miss_triple, assumption, rule triple_ret) simp

lemma candidates_triple: "preserves (eval_ok sha (s0, False)) (candidates R c)"
proof -
  have "preserves (eval_ok sha (s0, False)) (insert_results ks d)" for ks d
  proof (induction ks)
    case Nil
    show ?case by (simp only: insert_results.simps) (intro triple_ret TrueI)
  next
    case (Cons k ks)
    then show ?case unfolding insert_results.simps by (intro triple_bind [OF insert_triple])
  qed
  then have "preserves (eval_ok sha (s0, False)) (database_candidates db c ts es js)" for db ts es js
    unfolding database_candidates_def Let_def
    by (intro triple_bind [where Q = "\<lambda>_. True"] triple_lift triple_ret TrueI)
  then show ?thesis
    unfolding triple_def candidates_def by (simp add: Let_def split: option.split)
qed

lemma try_expression_triple:
  assumes W: "truthful sha (g_world G)" and again: "\<And>i. triple (eval_ok sha (s0, False)) (again i) (fits sha i)"
    and final: "triple (eval_ok sha (s0, False)) final Q"
  shows "triple (eval_ok sha (s0, False)) (try_expression G R again final c k cat) (found_ok Q)"
proof (cases k)
  case (fields h path source target)
  have "triple (eval_ok sha (s0, False)) (otry (evaluate_expression_local_async (g_world G) j True i path source target)
      (\<lambda>e. if propagates e then oraise e else oret (Missing IRREPRODUCIBLE_EXPRESSION))
      (\<lambda>r. if r \<noteq> c then oret (Missing IRREPRODUCIBLE_EXPRESSION) else finally_resolve final cat)) (found_ok Q)" for j i
    by (rule triple_try [OF shared_triple [OF W]]) (auto intro!: triple_if triple_raise triple_ret finally_triple final)
  then show ?thesis
    unfolding try_expression_def fields prod.case
    by (intro triple_bind [OF triple_lift [where Q = "\<lambda>_. True"]] or_miss_triple [OF again]) simp_all
qed

lemma gather_inputs_triple:
  assumes again: "\<And>i. triple P (again i) (fits sha i)"
  shows "triple P (gather_inputs again cs) (list_all (\<lambda>(i, r). \<forall>x. r = Inr x \<longrightarrow> fits sha i x))"
proof (induction cs)
  case Nil
  show ?case by (simp only: gather_inputs.simps, rule triple_ret) simp
next
  case (Cons c cs)
  let ?ok = "list_all (\<lambda>(i, r). \<forall>x. r = Inr x \<longrightarrow> fits sha i x)"
  have rest: "triple P (obind (gather_inputs again cs) (\<lambda>rest. oret ((c, r) # rest))) ?ok"
    if "\<forall>x. r = Inr x \<longrightarrow> fits sha c x" for r
    using that by (intro triple_bind [OF Cons.IH] triple_ret) simp
  have "P (snd (gather_inputs again (c # cs) s)) \<and> (\<forall>x. fst (gather_inputs again (c # cs) s) = Inr x \<longrightarrow> ?ok x)"
    if s: "P s" for s
  proof -
    obtain r s' where run: "again c s = (r, s')" by fastforce
    with again [of c] s have "P s'" "\<forall>x. r = Inr x \<longrightarrow> fits sha c x" unfolding triple_def by force+
    with rest [of r] run show ?thesis unfolding triple_def by simp
  qed
  then show ?case unfolding triple_def by blast
qed

lemma settle_miss:
  "settle_inputs ((c, Inl e) # rs) got cat failed = Inr r \<Longrightarrow>
     \<exists>d oc. e = CacheMissError d oc \<and> settle_inputs rs got (max cat (miss_category oc)) True = Inr r"
  by (cases e) simp_all

lemma settle_inputs_ok:
  "settle_inputs rs got cat failed = Inr (got', cat', failed') \<Longrightarrow>
     list_all (\<lambda>(i, r). \<forall>x. r = Inr x \<longrightarrow> fits sha i x) rs \<Longrightarrow> members_ok sha got \<Longrightarrow> members_ok sha got'"
proof (induction rs arbitrary: got cat failed)
  case (Cons k rs)
  obtain c r where k: "k = (c, r)" by fastforce
  show ?case
  proof (cases r)
    case (Inl e)
    with settle_miss Cons.prems(1) k Cons.IH [OF _ _ Cons.prems(3)] Cons.prems(2) show ?thesis by fastforce
  next
    case (Inr x)
    with Cons.prems k have "settle_inputs rs (dset c x got) cat failed = Inr (got', cat', failed')"
      "list_all (\<lambda>(i, r). \<forall>x. r = Inr x \<longrightarrow> fits sha i x) rs" "members_ok sha (dset c x got)"
      by (auto simp: members_ok_def)
    then show ?thesis by (rule Cons.IH)
  qed
qed simp

lemma join_again_triple:
  assumes W: "truthful sha (g_world G)" and again: "\<And>i. triple (eval_ok sha (s0, False)) (again i) (fits sha i)"
    and final: "triple (eval_ok sha (s0, False)) final Q"
  shows "triple (eval_ok sha (s0, False)) (join_again G R again final c spec cat) (found_ok Q)"
proof -
  have join: "triple (eval_ok sha (s0, False)) (otry (evaluate_celljoin_local_async G j True got spec)
      (\<lambda>e. if propagates e then oraise e
           else oret (Missing (max cat' (case e of CacheMissError _ oc \<Rightarrow> miss_category oc | _ \<Rightarrow> IRREPRODUCIBLE_EXPRESSION))))
      (\<lambda>r. if r \<noteq> c then oret (Missing (max cat' IRREPRODUCIBLE_EXPRESSION)) else finally_resolve final cat')) (found_ok Q)"
    if "members_ok sha got" for j got cat'
    by (rule triple_try [OF celljoin_triple [OF W that]])
      (auto intro!: triple_if triple_raise triple_ret finally_triple final)
  show ?thesis
    unfolding join_again_def
  proof (rule triple_bind [OF gather_inputs_triple [OF again]])
    fix rs :: "(checksum \<times> buffer result) list"
    assume rs: "list_all (\<lambda>(i, r). \<forall>x. r = Inr x \<longrightarrow> fits sha i x) rs"
    have none: "members_ok sha []" by (simp add: members_ok_def)
    show "triple (eval_ok sha (s0, False)) (obind (olift (settle_inputs rs [] cat False)) (\<lambda>(got, cat', failed).
       if failed then oret (Missing cat') else otry (evaluate_celljoin_local_async G
                (f_joined R (celljoin_cache_key (js_checksum spec) (js_celltype spec))) True got spec)
           (\<lambda>e. if propagates e then oraise e
                else oret (Missing (max cat' (case e of CacheMissError _ oc \<Rightarrow> miss_category oc
                                                | _ \<Rightarrow> IRREPRODUCIBLE_EXPRESSION))))
           (\<lambda>r. if r \<noteq> c then oret (Missing (max cat' IRREPRODUCIBLE_EXPRESSION)) else finally_resolve final cat'))) (found_ok Q)"
      by (rule triple_bind [OF triple_lift [where Q = "\<lambda>(got, cat', failed). members_ok sha got"]])
        (auto intro!: triple_ret join dest: settle_inputs_ok [OF _ rs none])
  qed
qed

lemma try_celljoin_triple:
  assumes W: "truthful sha (g_world G)" and again: "\<And>i. triple (eval_ok sha (s0, False)) (again i) (fits sha i)"
    and final: "triple (eval_ok sha (s0, False)) final Q"
  shows "triple (eval_ok sha (s0, False)) (try_celljoin G R again final c k cat) (found_ok Q)"
proof (cases k)
  case (Pair h ct)
  have "triple (eval_ok sha (s0, False))
      (otry (on_values (parse_celljoin (w_env (g_world G)) (DefBuffer b) ct))
          (\<lambda>e. if e = CancelledError then oraise e else oret (Missing cat)) (\<lambda>spec.
          if hex (js_checksum spec) \<noteq> h then oret (Missing cat) else join_again G R again final c spec cat)) (found_ok Q)" for b
    by (rule triple_try [OF values_triple]) (auto intro!: triple_if triple_raise triple_ret join_again_triple [OF assms])
  then show ?thesis
    unfolding try_celljoin_def Pair prod.case
    by (intro triple_bind [OF triple_lift [where Q = "\<lambda>_. True"]] triple_try [OF resolution_triple [OF W]])
      (auto intro!: triple_if triple_raise triple_ret)
qed

lemma try_transformation_triple:
  assumes "recovery_ok sha R" and final: "triple (eval_ok sha (s0, False)) final Q"
  shows "triple (eval_ok sha (s0, False)) (try_transformation R final c t cat) (found_ok Q)"
proof -
  have "preserves (eval_ok sha (s0, False)) (f_recompute R t)" using assms(1) by (simp add: recovery_ok_def)
  then show ?thesis
    unfolding try_transformation_def
    by (rule triple_try) (auto intro!: triple_if triple_raise triple_ret finally_triple final split: option.split)
qed

lemma try_each_triple:
  assumes "\<And>k cat. triple P (attempt k cat) (found_ok Q)"
  shows "triple P (try_each attempt ks cat) (found_ok Q)"
proof (induction ks arbitrary: cat)
  case Nil
  show ?case by (simp only: try_each.simps, rule triple_ret) simp
next
  case (Cons k ks)
  then show ?case
    unfolding try_each.simps
    by (intro triple_bind [OF assms]) (auto intro: triple_ret split: found.split)
qed

lemma or_else_triple:
  assumes "triple P m (found_ok Q)" and "\<And>cat. triple P (f cat) (found_ok Q)"
  shows "triple P (or_else m f) (found_ok Q)"
  unfolding or_else_def by (rule triple_bind [OF assms(1)]) (auto intro: triple_ret assms(2) split: found.split)

lemma recover_triple:
  assumes W: "truthful sha (g_world G)" "recovery_ok sha R"
    and again: "\<And>i. triple (eval_ok sha (s0, False)) (again i) (fits sha i)"
    and final: "triple (eval_ok sha (s0, False)) final Q"
  shows "triple (eval_ok sha (s0, False)) (resolve_or_recover G R again final c) Q"
proof -
  have "triple (eval_ok sha (s0, False)) (recover G R again final c) Q"
    unfolding recover_def
    by (rule triple_bind [OF candidates_triple])
      (auto intro!: triple_bind [OF or_else_triple [OF try_each_triple [OF try_expression_triple [OF W(1) again final]]
              or_else_triple [OF try_each_triple [OF try_celljoin_triple [OF W(1) again final]]
                try_each_triple [OF try_transformation_triple [OF W(2) final]]]]]
          triple_ret triple_raise split: found.split)
  then show ?thesis
    unfolding resolve_or_recover_def
    by (intro triple_try [OF final]) (auto intro: triple_if triple_raise triple_ret)
qed

lemma fingertip_triple:
  assumes "truthful sha (g_world G)" "recovery_ok sha R"
  shows "triple (eval_ok sha (s0, False)) (fingertip G R n c) (fits sha c)"
proof (induction n arbitrary: c)
  case 0
  show ?case by (simp only: fingertip.simps) (rule triple_raise)
next
  case (Suc n)
  show ?case
    unfolding fingertip.simps by (rule recover_triple [OF assms Suc.IH resolution_triple [OF assms(1)]])
qed

section \<open>Records that lead in circles\<close>

text \<open>No buffer for \<open>c\<close> in the process, and none to be had.\<close>

definition nowhere :: "'nd world \<Rightarrow> checksum \<Rightarrow> eval_state \<Rightarrow> bool" where
  "nowhere W c s \<longleftrightarrow> trivial_content (w_sha W) c = None \<and> fst (get_buffer c (es_store s)) = None
     \<and> (if w_server W = None then w_sources W = [] else w_remote_get W c = Inr None)"

lemma get_buffer_missing: "fst (get_buffer c bc) = None \<Longrightarrow> get_buffer c bc = (None, bc)"
  by (auto simp: get_buffer_def split: option.splits)

lemma resolution_nowhere: "nowhere W c s \<Longrightarrow> resolution W c s = (Inl (CacheMissError c None), s)"
  by (auto simp: nowhere_def resolution_def obind_def oret_def oraise_def olift_def on_store_def get_buffer_missing
      split: option.split)

lemma recover_first_input:
  assumes "f_database R = None" and "expression_candidates (es_cache s) c = (hex i, path, source, target) # rest"
    and "checksum_wf i" and "again i s = (Inl RecursionError, s)" and "final s = (Inl (CacheMissError c None), s)"
  shows "resolve_or_recover G R again final c s = (Inl RecursionError, s)"
proof -
  have "try_expression G R again final c (hex i, path, source, target) MATERIALIZATION s = (Inl RecursionError, s)"
    using checksum_init_hex [OF assms(3)] assms(4)
    by (simp add: try_expression_def or_miss_def otry_def obind_def olift_def oraise_def RecursionError_def del: checksum_init.simps)
  then show ?thesis
    using assms(1,2,5)
    by (simp add: resolve_or_recover_def recover_def candidates_def or_else_def otry_def obind_def is_cache_miss_def Let_def)
qed

text \<open>C17: records that lead in circles make fingertip recurse until Python stops it. Let every
  checksum of \<open>C\<close> be nowhere, and be on record first of all as the result of an expression
  on a checksum of \<open>C\<close>: as it is for the result of an identity or of any conversion that
  reads no buffer, whose input is its result. Then fingertip raises \<open>RecursionError\<close> at
  whatever limit, where it promises a \<open>CacheMissError\<close> with the highest failure.\<close>

theorem circular_records_recurse:
  assumes "f_database R = None" and "c \<in> C"
    and "\<forall>d\<in>C. nowhere (g_world G) d s
      \<and> (\<exists>i\<in>C. checksum_wf i \<and> (\<exists>path source target rest.
           expression_candidates (es_cache s) d = (hex i, path, source, target) # rest))"
  shows "fingertip G R n c s = (Inl RecursionError, s)"
  using assms(2)
proof (induction n arbitrary: c)
  case 0
  show ?case by (simp add: oraise_def)
next
  case (Suc n)
  from assms(3) Suc.prems obtain i path source target rest where
    "nowhere (g_world G) c s" "i \<in> C" "checksum_wf i"
    "expression_candidates (es_cache s) c = (hex i, path, source, target) # rest" by blast
  then show ?case
    unfolding fingertip.simps by (intro recover_first_input [OF assms(1)] Suc.IH resolution_nowhere)
qed

text \<open>Such a record is left by the evaluation of an identity without its buffer.\<close>

definition lone_world :: "unit world" where
  "lone_world = tiny_world\<lparr>w_sources := []\<rparr>"

definition lone_grid :: "unit grid" where
  "lone_grid = \<lparr>g_world = lone_world, g_np_set = no_fields, g_remote = None\<rparr>"

definition lone_recovery :: recovery where
  "lone_recovery = \<lparr>f_transformations = None, f_recompute = (\<lambda>_. oret None), f_database = None,
     f_joined = (\<lambda>_. OnItsOwn), f_worker = False, f_dask = False\<rparr>"

abbreviation identity_recorded :: eval_state where
  "identity_recorded \<equiv> snd (evaluate_expression_async lone_world False sevens [] CtPlain CtPlain tiny_start)"

lemma identity_candidates:
  "expression_candidates (es_cache identity_recorded) sevens = [(hex sevens, [], CtPlain, CtPlain)]"
  by code_simp

lemma identity_nowhere: "nowhere lone_world sevens identity_recorded"
proof -
  have "trivial_content pad_sha sevens = None" "fst (get_buffer sevens (es_store identity_recorded)) = None"
    by code_simp+
  then show ?thesis by (simp add: nowhere_def lone_world_def tiny_world_def tiny_env_def)
qed

theorem circular_records_recurse_witness:
  "fingertip lone_grid lone_recovery 1000 sevens identity_recorded = (Inl RecursionError, identity_recorded)"
proof (rule circular_records_recurse)
  show "f_database lone_recovery = None" by (simp add: lone_recovery_def)
  show "sevens \<in> {sevens}" by simp
  have "checksum_wf sevens" by code_simp
  then show "\<forall>d\<in>{sevens}. nowhere (g_world lone_grid) d identity_recorded
      \<and> (\<exists>i\<in>{sevens}. checksum_wf i \<and> (\<exists>path source target rest.
           expression_candidates (es_cache identity_recorded) d = (hex i, path, source, target) # rest))"
    using identity_nowhere identity_candidates by (auto simp: lone_grid_def)
qed

end
