(* ===== verification/Holders.thy ===== *)
theory Holders
  imports Convert ReferenceLifecycle
begin

text \<open>
  The objects a user holds: \<open>Expression\<close> (\<open>expression_class.py\<close>), its subclass
  \<open>CellJoin\<close> (\<open>celljoin_class.py\<close>) and the standalone \<open>Cell\<close>
  (\<open>cell_class.py\<close>), as owners of claims on the buffer cache. An operation works on one
  object and the cache. What an evaluation came to is an argument. Cells that belong to a
  workflow delegate everything to it and are not modelled.
\<close>

section \<open>An object and the cache\<close>

type_synonym ('h, 'a) hop = "('h \<times> buffer_cache, exc, 'a) op"

definition look :: "('h, 'h) hop" where
  "look s = (Inr (fst s), s)"

definition change :: "('h \<Rightarrow> 'h) \<Rightarrow> ('h, unit) hop" where
  "change f s = (Inr (), (f (fst s), snd s))"

text \<open>The digest function, the clock, and what the path language needs.\<close>

record surroundings =
  k_sha :: "bytes \<Rightarrow> checksum"
  k_now :: real
  k_unicode :: unicode
  k_leval :: "ustr \<Rightarrow> lit result"
  k_repr :: "lit \<Rightarrow> ustr"

text \<open>\<open>Checksum.incref_refholder\<close>, \<open>decref_refholder\<close> and \<open>tempref\<close>.\<close>

definition take_hold :: "surroundings \<Rightarrow> checksum \<Rightarrow> bool option \<Rightarrow> ('h, unit) hop" where
  "take_hold K c scratch s =
     (let (r, bc) = incref_refholder (k_sha K) c None scratch (snd s) in (r, (fst s, bc)))"

definition give_hold :: "surroundings \<Rightarrow> checksum \<Rightarrow> ('h, unit) hop" where
  "give_hold K c s = (Inr (), (fst s, snd (decref_refholder (k_now K) c (snd s))))"

definition touch :: "surroundings \<Rightarrow> checksum \<Rightarrow> ('h, unit) hop" where
  "touch K c s = (let (r, bc) = tempref_op (k_sha K) (k_now K) c None 128 2 2 (snd s) in (r, (fst s, bc)))"

definition when_some :: "'b option \<Rightarrow> ('b \<Rightarrow> ('h, unit) hop) \<Rightarrow> ('h, unit) hop" where
  "when_some x f = (case x of None \<Rightarrow> oret () | Some y \<Rightarrow> f y)"

section \<open>Expressions\<close>

text \<open>The fields of the lifecycle. \<open>_input_refheld\<close> is read but never set.\<close>

record expr =
  x_result :: "checksum option"
  x_holding :: bool
  x_refheld :: bool
  x_input_refheld :: "checksum option"
  x_released :: bool

text \<open>The end of \<open>__post_init__\<close>: of the input there is a tempref, not a claim.\<close>

definition fresh_expr :: expr where
  "fresh_expr = \<lparr>x_result = None, x_holding = False, x_refheld = False, x_input_refheld = None, x_released = False\<rparr>"

definition new_expr :: "surroundings \<Rightarrow> checksum option \<Rightarrow> (expr, unit) hop" where
  "new_expr K input = when_some input (touch K)"

definition enable_result_holding :: "surroundings \<Rightarrow> (expr, unit) hop" where
  "enable_result_holding K =
     obind look (\<lambda>x.
     if x_released x then oret ()
     else
       obind (if \<not> x_holding x then change (x_holding_update (\<lambda>_. True)) else oret ()) (\<lambda>_.
       case x_result x of
         Some c \<Rightarrow>
           if \<not> x_refheld x then
             obind (take_hold K c None) (\<lambda>_. change (x_refheld_update (\<lambda>_. True)))
           else oret ()
       | None \<Rightarrow> oret ()))"

definition hold_result :: "surroundings \<Rightarrow> checksum option \<Rightarrow> (expr, checksum option) hop" where
  "hold_result K r =
     (case r of
        None \<Rightarrow> oret None
      | Some c \<Rightarrow>
          obind (touch K c) (\<lambda>_.
          obind look (\<lambda>x.
          if x_result x = Some c then
            obind
              (if x_holding x \<and> \<not> x_refheld x then
                 obind (take_hold K c None) (\<lambda>_. change (x_refheld_update (\<lambda>_. True)))
               else oret ()) (\<lambda>_. oret (Some c))
          else
            (let new = x_holding x \<and> \<not> x_released x in
             obind (if new then take_hold K c None else oret ()) (\<lambda>_.
             obind (change (\<lambda>y. y\<lparr>x_result := Some c, x_refheld := new\<rparr>)) (\<lambda>_.
             obind (when_some (x_result x) (\<lambda>old. if x_refheld x then give_hold K old else oret ())) (\<lambda>_.
               oret (Some c))))))))"

definition expr_claims :: "expr \<Rightarrow> (checksum \<times> string) list" where
  "expr_claims x =
     (if x_released x then []
      else
        (case x_input_refheld x of Some c \<Rightarrow> [(c, ''input'')] | None \<Rightarrow> []) @
        (case x_result x of Some c \<Rightarrow> if x_holding x then [(c, ''result'')] else [] | None \<Rightarrow> []))"

definition release_expr :: "surroundings \<Rightarrow> (expr, unit) hop" where
  "release_expr K =
     obind look (\<lambda>x.
     if x_released x then oret ()
     else
       obind (change (x_released_update (\<lambda>_. True))) (\<lambda>_.
       obind (when_some (x_input_refheld x) (\<lambda>c. obind (give_hold K c) (\<lambda>_. change (x_input_refheld_update (\<lambda>_. None))))) (\<lambda>_.
         case (x_refheld x, x_result x) of
           (True, Some c) \<Rightarrow> obind (give_hold K c) (\<lambda>_. change (x_refheld_update (\<lambda>_. False)))
         | _ \<Rightarrow> oret ())))"

text \<open>\<open>__copy__\<close>, of a new object built from the same definition.\<close>

definition copy_expr :: "surroundings \<Rightarrow> expr \<Rightarrow> (expr, unit) hop" where
  "copy_expr K x =
     obind (when_some (x_result x) (\<lambda>c. obind (touch K c) (\<lambda>_. change (x_result_update (\<lambda>_. Some c))))) (\<lambda>_.
     obind (change (x_holding_update (\<lambda>_. x_holding x))) (\<lambda>_.
     obind
       (case x_result x of
          Some c \<Rightarrow>
            if x_holding x \<and> \<not> x_released x then
              obind (take_hold K c None) (\<lambda>_. change (x_refheld_update (\<lambda>_. True)))
            else oret ()
        | None \<Rightarrow> oret ()) (\<lambda>_.
       if x_released x then release_expr K else oret ())))"

text \<open>\<open>with_result\<close>, of a new object likewise.\<close>

definition with_result :: "checksum option \<Rightarrow> (expr, unit) hop" where
  "with_result r = (case r of Some c \<Rightarrow> change (x_result_update (\<lambda>_. Some c)) | None \<Rightarrow> oret ())"

text \<open>The entry points: \<open>result\<close> (and \<open>checksum\<close>), \<open>compute\<close>, which ends in
  \<open>_hold_result\<close> unless the evaluation raises, and a dependency's evaluation.\<close>

datatype expr_call = ReadResult | Compute "checksum option result" | EvaluateInternal "checksum option result"

definition expr_op :: "surroundings \<Rightarrow> expr_call \<Rightarrow> (expr, checksum option) hop" where
  "expr_op K call =
     (case call of
        ReadResult \<Rightarrow> obind (enable_result_holding K) (\<lambda>_. obind look (\<lambda>x. oret (x_result x)))
      | Compute outcome \<Rightarrow>
          obind (enable_result_holding K) (\<lambda>_. obind (olift outcome) (hold_result K))
      | EvaluateInternal outcome \<Rightarrow> obind (olift outcome) (hold_result K))"

section \<open>Cells\<close>

text \<open>What a cell may have for its input. The path and the celltype of an Expression never
  change; those of a cell do, and are read from the dictionary of cells. \<open>RefOther\<close> is a
  workflow source or a transformation.\<close>

datatype ref = RefNone | RefChecksum checksum | RefExpression nat celltype ustr | RefCell nat | RefOther nat celltype

text \<open>\<open>_cell_recipe_key\<close>\<close>

datatype recipe = Recipe recipe_source celltype "celltype option" ustr "nat option" "ustr option"
  and recipe_source = FromChecksum ustr | FromObject ref | FromCell recipe

text \<open>The validator, any object, is its identity. \<open>c_component\<close> is the key or slice of a
  projection, \<open>c_expression\<close> the object last built.\<close>

record cell =
  c_ref :: ref
  c_input_celltype :: "celltype option"
  c_celltype :: celltype
  c_path :: ustr
  c_component :: "path_step option"
  c_conversion :: bool
  c_validator :: "nat option"
  c_language :: "ustr option"
  c_scratch :: bool
  c_exception :: "exc option"
  c_result :: "checksum option"
  c_recipe :: "recipe option"
  c_expression :: "nat option"
  c_released :: bool

type_synonym cells = "(nat, cell) dict"

definition typed_input_celltype :: "cells \<Rightarrow> ref \<Rightarrow> celltype option" where
  "typed_input_celltype D r =
     (case r of
        RefCell i \<Rightarrow> map_option c_celltype (dget D i)
      | RefExpression _ ct _ \<Rightarrow> Some ct
      | RefOther _ ct \<Rightarrow> Some ct
      | _ \<Rightarrow> None)"

definition or_option :: "'a option \<Rightarrow> 'a option \<Rightarrow> 'a option" where
  "or_option a b = (case a of Some x \<Rightarrow> Some x | None \<Rightarrow> b)"

definition input_celltype :: "cells \<Rightarrow> cell \<Rightarrow> celltype option" where
  "input_celltype D c = or_option (typed_input_celltype D (c_ref c)) (c_input_celltype c)"

text \<open>\<open>_check_projected_source\<close>: whoever reads a projection reads it as it is.\<close>

definition check_projected_source :: "surroundings \<Rightarrow> cells \<Rightarrow> ref \<Rightarrow> celltype \<Rightarrow> unit result" where
  "check_projected_source K D r ct =
     (case (case r of
              RefCell i \<Rightarrow> map_option (\<lambda>p. (c_path p, c_celltype p)) (dget D i)
            | RefExpression _ t path \<Rightarrow> Some (path, t)
            | _ \<Rightarrow> None) of
        Some (path, t) \<Rightarrow>
          if path \<noteq> [] \<and> t \<noteq> ct then rbind (parse_path (k_unicode K) (k_leval K) path) (\<lambda>_. Inl TypeError)
          else Inr ()
      | None \<Rightarrow> Inr ())"

definition projection_converts :: "cells \<Rightarrow> cell \<Rightarrow> celltype \<Rightarrow> bool" where
  "projection_converts D c ct \<longleftrightarrow>
     c_path c \<noteq> [] \<and> (case input_celltype D c of Some t \<Rightarrow> t \<notin> set DEEP_CELLTYPES \<and> t \<noteq> ct | None \<Rightarrow> True)"

text \<open>\<open>_miswired\<close> and \<open>_cell_recipe_key\<close> follow the input cells upwards; a chain has
  no more links than there are cells.\<close>

fun miswired_upto :: "nat \<Rightarrow> cells \<Rightarrow> cell \<Rightarrow> bool" where
  "miswired_upto n D c =
     ((case (n, c_ref c) of
         (Suc m, RefCell i) \<Rightarrow> (case dget D i of Some p \<Rightarrow> miswired_upto m D p | None \<Rightarrow> False)
       | _ \<Rightarrow> False)
      \<or> projection_converts D c (c_celltype c))"

definition miswired :: "cells \<Rightarrow> cell \<Rightarrow> bool" where
  "miswired D c = miswired_upto (length D) D c"

fun recipe_upto :: "nat \<Rightarrow> cells \<Rightarrow> cell \<Rightarrow> recipe" where
  "recipe_upto n D c =
     Recipe
       (case (n, c_ref c) of
          (Suc m, RefCell i) \<Rightarrow> (case dget D i of Some p \<Rightarrow> FromCell (recipe_upto m D p) | None \<Rightarrow> FromObject (c_ref c))
        | (_, RefChecksum d) \<Rightarrow> FromChecksum (hex d)
        | _ \<Rightarrow> FromObject (c_ref c))
       (c_celltype c) (input_celltype D c) (c_path c) (c_validator c) (c_language c)"

definition recipe_key :: "cells \<Rightarrow> cell \<Rightarrow> recipe" where
  "recipe_key D c = recipe_upto (length D) D c"

section \<open>The result and the input of a cell\<close>

definition set_result_checksum :: "surroundings \<Rightarrow> checksum option \<Rightarrow> (cell, unit) hop" where
  "set_result_checksum K r =
     obind look (\<lambda>c.
     obind (when_some r (\<lambda>d. take_hold K d (Some (c_scratch c)))) (\<lambda>_.
     obind (change (c_result_update (\<lambda>_. r))) (\<lambda>_.
     obind (if r = None then change (c_expression_update (\<lambda>_. None)) else oret ()) (\<lambda>_.
       when_some (c_result c) (give_hold K)))))"

definition ref_checksum :: "ref \<Rightarrow> checksum option" where
  "ref_checksum r = (case r of RefChecksum d \<Rightarrow> Some d | _ \<Rightarrow> None)"

definition source_of :: "ref \<Rightarrow> ref" where
  "source_of r = (case r of RefChecksum _ \<Rightarrow> RefNone | _ \<Rightarrow> r)"

definition replace_input_ref :: "surroundings \<Rightarrow> cells \<Rightarrow> ref \<Rightarrow> celltype option \<Rightarrow> (cell, unit) hop" where
  "replace_input_ref K D r ict =
     (let typed = typed_input_celltype D r in
      if typed \<noteq> None \<and> ict \<noteq> None \<and> typed \<noteq> ict then oraise ValueError
      else
        obind look (\<lambda>c.
        obind (when_some (ref_checksum r) (\<lambda>d. take_hold K d (Some False))) (\<lambda>_.
        obind (change (\<lambda>c. c\<lparr>c_ref := r,
                 c_input_celltype := (if r = RefNone then None else or_option typed (or_option ict (Some (c_celltype c)))),
                 c_exception := None\<rparr>)) (\<lambda>_.
        obind (set_result_checksum K None) (\<lambda>_.
          when_some (ref_checksum (c_ref c)) (give_hold K))))))"

definition check_write_authority :: "cell \<Rightarrow> bool \<Rightarrow> unit result" where
  "check_write_authority c detach =
     (if c_path c \<noteq> [] then Inl TypeError
      else if \<not> detach \<and> source_of (c_ref c) \<noteq> RefNone then Inl (OtherError ''AuthorityError'')
      else Inr ())"

text \<open>\<open>_write_checksum\<close> and \<open>_write_value\<close> of a cell that is no projection;
  \<open>serialized\<close> is the outcome of \<open>_serialize_value\<close>.\<close>

definition write_checksum :: "surroundings \<Rightarrow> cells \<Rightarrow> checksum option \<Rightarrow> celltype option \<Rightarrow> bool \<Rightarrow> (cell, unit) hop" where
  "write_checksum K D d ict detach =
     obind look (\<lambda>c.
     obind (olift (check_write_authority c detach)) (\<lambda>_.
       replace_input_ref K D (case d of None \<Rightarrow> RefNone | Some e \<Rightarrow> RefChecksum e) ict))"

definition write_value :: "surroundings \<Rightarrow> cells \<Rightarrow> checksum result \<Rightarrow> bool \<Rightarrow> (cell, unit) hop" where
  "write_value K D serialized detach =
     obind look (\<lambda>c.
     obind (olift (check_write_authority c detach)) (\<lambda>_.
     obind (olift serialized) (\<lambda>d. replace_input_ref K D (RefChecksum d) (Some (c_celltype c)))))"

text \<open>The setters: a change of the configuration forgets the result.\<close>

definition forget_result :: "surroundings \<Rightarrow> (cell, unit) hop" where
  "forget_result K = obind (change (c_exception_update (\<lambda>_. None))) (\<lambda>_. set_result_checksum K None)"

definition set_celltype :: "surroundings \<Rightarrow> cells \<Rightarrow> celltype \<Rightarrow> (cell, unit) hop" where
  "set_celltype K D ct =
     obind (olift (map_celltype ct)) (\<lambda>_.
     obind look (\<lambda>c.
     obind (olift (check_projected_source K D (source_of (c_ref c)) ct)) (\<lambda>_.
       if projection_converts D c ct then oraise TypeError
       else obind (change (c_celltype_update (\<lambda>_. ct))) (\<lambda>_. forget_result K))))"

definition set_validator :: "surroundings \<Rightarrow> nat option \<Rightarrow> (cell, unit) hop" where
  "set_validator K v = obind (change (c_validator_update (\<lambda>_. v))) (\<lambda>_. forget_result K)"

definition set_validator_language :: "surroundings \<Rightarrow> ustr option \<Rightarrow> (cell, unit) hop" where
  "set_validator_language K l = obind (change (c_language_update (\<lambda>_. l))) (\<lambda>_. forget_result K)"

definition set_cell_scratch :: "surroundings \<Rightarrow> bool \<Rightarrow> (cell, unit) hop" where
  "set_cell_scratch K b =
     obind (change (c_scratch_update (\<lambda>_. b))) (\<lambda>_. obind look (\<lambda>c. set_result_checksum K (c_result c)))"

section \<open>Reading and computing\<close>

definition sync_recipe :: "surroundings \<Rightarrow> cells \<Rightarrow> (cell, unit) hop" where
  "sync_recipe K D =
     obind look (\<lambda>c.
     if Some (recipe_key D c) = c_recipe c then oret ()
     else
       obind (change (c_recipe_update (\<lambda>_. Some (recipe_key D c)))) (\<lambda>_.
       obind (forget_result K) (\<lambda>_. change (c_expression_update (\<lambda>_. None)))))"

text \<open>A checksum that the cell shows as it is.\<close>

definition literal :: "cells \<Rightarrow> cell \<Rightarrow> checksum option" where
  "literal D c =
     (if c_path c = [] \<and> input_celltype D c = Some (c_celltype c) \<and> c_validator c = None then ref_checksum (c_ref c)
      else None)"

definition RunningLoopRefusal :: exc where
  "RunningLoopRefusal = OtherError ''RunningLoopRefusal''"

text \<open>The property \<open>checksum\<close>; \<open>outcome\<close> is what the expression built for it, the
  object \<open>x\<close>, has to show.\<close>

definition read_checksum ::
  "surroundings \<Rightarrow> cells \<Rightarrow> nat \<Rightarrow> checksum option result \<Rightarrow> (cell, checksum option) hop" where
  "read_checksum K D x outcome =
     obind (sync_recipe K D) (\<lambda>_.
     obind look (\<lambda>c.
     if c_ref c = RefNone \<or> miswired D c \<or> c_exception c \<noteq> None then oret None
     else
       case (c_result c, literal D c) of
         (Some r, _) \<Rightarrow> oret (Some r)
       | (None, Some d) \<Rightarrow> oret (Some (canonical_checksum (k_sha K) d (c_celltype c)))
       | (None, None) \<Rightarrow>
           obind (change (c_expression_update (\<lambda>_. Some x))) (\<lambda>_.
           case outcome of
             Inl e \<Rightarrow>
               if e = RunningLoopRefusal then oret None
               else obind (change (c_exception_update (\<lambda>_. Some e))) (\<lambda>_. oret None)
           | Inr r \<Rightarrow> obind (set_result_checksum K r) (\<lambda>_. oret r))))"

datatype cell_state = Miswired | Unwired | Failed | Complete | Waiting

definition read_state :: "surroundings \<Rightarrow> cells \<Rightarrow> (cell, cell_state) hop" where
  "read_state K D =
     obind (sync_recipe K D) (\<lambda>_.
     obind look (\<lambda>c. oret
       (if miswired D c then Miswired
        else if c_ref c = RefNone then Unwired
        else if c_exception c \<noteq> None then Failed
        else if c_result c \<noteq> None \<or> literal D c \<noteq> None then Complete
        else Waiting)))"

text \<open>\<open>compute\<close>, without an input of its own; the end is that of \<open>compute_async\<close> too.\<close>

definition finish_compute :: "surroundings \<Rightarrow> nat \<Rightarrow> checksum option result \<Rightarrow> (cell, checksum option) hop" where
  "finish_compute K x outcome =
     obind (change (c_expression_update (\<lambda>_. Some x))) (\<lambda>_.
     case outcome of
       Inl e \<Rightarrow>
         obind (change (c_exception_update (\<lambda>_. Some e))) (\<lambda>_.
         obind (set_result_checksum K None) (\<lambda>_. oret None))
     | Inr r \<Rightarrow>
         obind (change (c_exception_update (\<lambda>_. None))) (\<lambda>_.
         obind (set_result_checksum K r) (\<lambda>_. oret r)))"

definition compute_cell ::
  "surroundings \<Rightarrow> cells \<Rightarrow> nat \<Rightarrow> checksum option result \<Rightarrow> (cell, checksum option) hop" where
  "compute_cell K D x outcome =
     obind (sync_recipe K D) (\<lambda>_.
     obind look (\<lambda>c.
     if miswired D c then oret None
     else
       obind (if literal D c \<noteq> None then read_checksum K D x outcome else oret None) (\<lambda>shown.
       case shown of Some r \<Rightarrow> oret (Some r) | None \<Rightarrow> finish_compute K x outcome)))"

definition compute_cell_async ::
  "surroundings \<Rightarrow> cells \<Rightarrow> nat \<Rightarrow> checksum option result \<Rightarrow> (cell, checksum option) hop" where
  "compute_cell_async K D x outcome =
     obind (sync_recipe K D) (\<lambda>_.
     obind look (\<lambda>c. if miswired D c then oret None else finish_compute K x outcome))"

section \<open>Ownership of a cell\<close>

definition cell_claims :: "cell \<Rightarrow> (checksum \<times> string) list" where
  "cell_claims c =
     (if c_released c then []
      else
        (case ref_checksum (c_ref c) of Some d \<Rightarrow> [(d, ''input'')] | None \<Rightarrow> []) @
        (case c_result c of Some r \<Rightarrow> [(r, ''result'')] | None \<Rightarrow> []))"

definition release_cell :: "surroundings \<Rightarrow> (cell, unit) hop" where
  "release_cell K =
     obind look (\<lambda>c.
     if c_released c then oret ()
     else
       obind (change (c_released_update (\<lambda>_. True))) (\<lambda>_.
       obind (when_some (ref_checksum (c_ref c)) (give_hold K)) (\<lambda>_.
       obind (set_result_checksum K None) (\<lambda>_. change (c_expression_update (\<lambda>_. None))))))"

text \<open>\<open>__copy__\<close>: the new object starts with the fields of \<open>c\<close>.\<close>

definition copy_cell :: "surroundings \<Rightarrow> cell \<Rightarrow> (cell, unit) hop" where
  "copy_cell K c =
     obind (change (\<lambda>_. c\<lparr>c_result := None, c_released := False\<rparr>)) (\<lambda>_.
     obind (when_some (ref_checksum (c_ref c)) (\<lambda>d. if c_released c then oret () else take_hold K d (Some False))) (\<lambda>_.
       if c_result c \<noteq> None \<and> \<not> c_released c then set_result_checksum K (c_result c)
       else change (c_released_update (\<lambda>_. c_released c))))"

text \<open>The constructor: \<open>checksum=\<close> or \<open>source=\<close>, or neither.\<close>

datatype cell_input = NoInput | ChecksumInput ck_arg | SourceInput ref

definition input_ref_of :: "cell_input \<Rightarrow> ref result" where
  "input_ref_of a =
     (case a of
        NoInput \<Rightarrow> Inr RefNone
      | ChecksumInput ArgNone \<Rightarrow> Inr RefNone
      | ChecksumInput d \<Rightarrow> rbind (checksum_init d) (\<lambda>c. Inr (RefChecksum c))
      | SourceInput (RefChecksum _) \<Rightarrow> Inl TypeError
      | SourceInput r \<Rightarrow> Inr r)"

definition cell_fields ::
  "surroundings \<Rightarrow> cells \<Rightarrow> celltype option \<Rightarrow> cell_input \<Rightarrow> celltype option \<Rightarrow> nat option \<Rightarrow> ustr option \<Rightarrow> cell result"
where
  "cell_fields K D ct a ict v l =
     rbind (input_ref_of a) (\<lambda>r.
     (let declared = typed_input_celltype D r in
      if declared \<noteq> None \<and> ict \<noteq> None \<and> ict \<noteq> declared then Inl ValueError
      else
        (let t = (case or_option ct declared of Some t \<Rightarrow> t | None \<Rightarrow> CtMixed) in
         rbind (map_celltype t) (\<lambda>_.
         rbind (check_projected_source K D r t) (\<lambda>_.
           Inr \<lparr>c_ref = r, c_input_celltype = (if r = RefNone then None else or_option declared (or_option ict (Some t))),
             c_celltype = t, c_path = [], c_component = None, c_conversion = False, c_validator = v, c_language = l,
             c_scratch = False, c_exception = None, c_result = None, c_recipe = None, c_expression = None,
             c_released = False\<rparr>)))))"

definition new_cell :: "surroundings \<Rightarrow> (cell, unit) hop" where
  "new_cell K = obind look (\<lambda>c. when_some (ref_checksum (c_ref c)) (\<lambda>d. take_hold K d (Some False)))"

text \<open>Navigation: a projection of the cell \<open>i\<close>, or its conversion.\<close>

definition item_fields :: "surroundings \<Rightarrow> cells \<Rightarrow> nat \<Rightarrow> lit \<Rightarrow> cell result" where
  "item_fields K D i key =
     rbind (cell_fields K D None (SourceInput (RefCell i)) None None None) (\<lambda>child.
       Inr (child\<lparr>c_path := append_item_path (k_unicode K) (k_repr K) [] key, c_component := Some (Item key),
         c_celltype := (case dget D i of
            Some p \<Rightarrow> if c_celltype p \<in> set DEEP_CELLTYPES then (if c_celltype p = CtDeepcell then CtMixed else CtBytes)
                      else c_celltype child
          | None \<Rightarrow> c_celltype child)\<rparr>))"

definition slice_fields ::
  "surroundings \<Rightarrow> cells \<Rightarrow> nat \<Rightarrow> lit option \<Rightarrow> lit option \<Rightarrow> lit option \<Rightarrow> cell result" where
  "slice_fields K D i start stop step =
     rbind (cell_fields K D None (SourceInput (RefCell i)) None None None) (\<lambda>child.
       Inr (child\<lparr>c_path := append_slice_path (k_repr K) [] start stop step, c_component := Some (Slice start stop step)\<rparr>))"

definition conversion_fields :: "surroundings \<Rightarrow> cells \<Rightarrow> nat \<Rightarrow> celltype \<Rightarrow> cell result" where
  "conversion_fields K D i ct =
     rbind (cell_fields K D None (SourceInput (RefCell i)) None None None) (\<lambda>child.
     rbind (map_celltype ct) (\<lambda>_. Inr (child\<lparr>c_celltype := ct, c_conversion := True\<rparr>)))"

end
