(* ===== verification/ExpressionTree.thy ===== *)
theory ExpressionTree
  imports Evaluation Holders
begin

text \<open>
  An \<open>Expression\<close> as a definition (\<open>expression_class.py\<close>): what its constructor makes of a
  source that is itself an expression or a cell, its navigation, copies and keys; and
  \<open>Cell.build\<close> (\<open>cell_class.py\<close>). Claims and temprefs are the theory \<open>Holders\<close>.
\<close>

section \<open>Definitions and their sources\<close>

text \<open>\<open>Nested\<close> is an expression with its identity, \<open>Opaque\<close> a transformation or a workflow
  source with its celltype.\<close>

datatype 'x xsource = NoSource | Concrete checksum | Opaque nat celltype | Nested nat 'x

datatype xdef = XDef (xd_source: "xdef xsource") (xd_path: ustr) (xd_input: celltype) (xd_celltype: celltype)
  (xd_validator: "checksum option") (xd_language: "ustr option")

text \<open>The recorded results of the expressions there are.\<close>

type_synonym recorded = "nat \<Rightarrow> checksum option"

definition input_sum :: "recorded \<Rightarrow> xdef xsource \<Rightarrow> checksum option" where
  "input_sum rs s = (case s of Nested i _ \<Rightarrow> rs i | Concrete c \<Rightarrow> Some c | _ \<Rightarrow> None)"

definition source_celltype :: "xdef xsource \<Rightarrow> celltype option" where
  "source_celltype s = (case s of Nested _ x \<Rightarrow> Some (xd_celltype x) | Opaque _ t \<Rightarrow> Some t | _ \<Rightarrow> None)"

section \<open>The constructor\<close>

text \<open>An expression that only stands for its input is passed over once the input is known.\<close>

definition drop_dummy :: "recorded \<Rightarrow> xdef xsource \<Rightarrow> xdef xsource" where
  "drop_dummy rs s =
     (case s of
        Nested i x \<Rightarrow>
          if input_sum rs (xd_source x) \<noteq> None \<and> xd_path x = [] \<and> xd_input x = xd_celltype x
            \<and> xd_validator x = None \<and> xd_language x = None
          then xd_source x else s
      | _ \<Rightarrow> s)"

text \<open>An expression on a projection is one projection, and a projection of a conversion that
  keeps the buffer reads the buffer itself: the source, the path and the input celltype.\<close>

definition fuse_source :: "xdef xsource \<Rightarrow> ustr \<Rightarrow> celltype \<Rightarrow> xdef xsource \<times> ustr \<times> celltype" where
  "fuse_source s path t =
     (case s of
        Nested i x \<Rightarrow>
          if xd_validator x = None \<and> xd_language x = None \<and> xd_input x \<notin> set DEEP_CELLTYPES then
            if xd_input x = xd_celltype x \<and> (xd_path x \<noteq> [] \<or> path \<noteq> []) then
              (xd_source x, fuse_paths (xd_path x) path, xd_input x)
            else if path \<noteq> [] \<and> xd_path x = []
              \<and> (xd_input x, xd_celltype x) \<in> set (conversion_trivial @ conversion_reinterpret) then
              (xd_source x, path, t)
            else (s, path, t)
          else (s, path, t)
      | _ \<Rightarrow> (s, path, t))"

definition canonical_source :: "surroundings \<Rightarrow> xdef xsource \<Rightarrow> celltype \<Rightarrow> xdef xsource" where
  "canonical_source K s t = (case s of Concrete c \<Rightarrow> Concrete (canonical_checksum (k_sha K) c t) | _ \<Rightarrow> s)"

definition validator_of :: "ck_arg \<Rightarrow> checksum option result" where
  "validator_of v = (if v = ArgNone then Inr None else rbind (checksum_init v) (\<lambda>c. Inr (Some c)))"

text \<open>\<open>typed\<close> is the celltype of the source as it was given.\<close>

definition construct ::
  "surroundings \<Rightarrow> recorded \<Rightarrow> celltype option \<Rightarrow> xdef xsource \<Rightarrow> ustr option \<Rightarrow> celltype option \<Rightarrow> celltype option \<Rightarrow>
     ck_arg \<Rightarrow> ustr option \<Rightarrow> xdef result" where
  "construct K rs typed s path ict ct v l =
     (if typed \<noteq> None \<and> ict \<noteq> None \<and> ict \<noteq> typed then Inl ValueError
      else
        let t = (case or_option ict (or_option typed ct) of Some t \<Rightarrow> t | None \<Rightarrow> CtMixed);
            p = (case path of Some p \<Rightarrow> p | None \<Rightarrow> []);
            target = (case ct of None \<Rightarrow> t | Some t' \<Rightarrow> t')
        in rbind (validate_expression_shape (k_unicode K) (k_leval K) p t target) (\<lambda>_.
           case fuse_source (drop_dummy rs s) p t of
             (s1, p1, t1) \<Rightarrow>
               rbind (validator_of v) (\<lambda>vc. Inr (XDef (canonical_source K s1 t1) p1 t1 target vc l))))"

text \<open>\<open>Expression(source, ...)\<close>, and \<open>dataclasses.replace\<close>, which constructs anew from the
  fields: \<open>__copy__\<close>, \<open>with_result\<close>, \<open>item\<close>, \<open>slice\<close>, \<open>as_celltype\<close>.\<close>

definition new_expression ::
  "surroundings \<Rightarrow> recorded \<Rightarrow> xdef xsource \<Rightarrow> ustr option \<Rightarrow> celltype option \<Rightarrow> celltype option \<Rightarrow> ck_arg \<Rightarrow> ustr option \<Rightarrow>
     xdef result" where
  "new_expression K rs s = construct K rs (source_celltype s) s"

definition rebuild :: "surroundings \<Rightarrow> recorded \<Rightarrow> xdef \<Rightarrow> xdef result" where
  "rebuild K rs x =
     new_expression K rs (xd_source x) (Some (xd_path x)) (Some (xd_input x)) (Some (xd_celltype x))
       (case xd_validator x of None \<Rightarrow> ArgNone | Some c \<Rightarrow> ArgChecksum c) (xd_language x)"

definition with_path :: "ustr \<Rightarrow> xdef \<Rightarrow> xdef" where
  "with_path p x = XDef (xd_source x) p (xd_input x) (xd_celltype x) (xd_validator x) (xd_language x)"

definition with_celltype :: "celltype \<Rightarrow> xdef \<Rightarrow> xdef" where
  "with_celltype t x = XDef (xd_source x) (xd_path x) (xd_input x) t (xd_validator x) (xd_language x)"

definition expr_item :: "surroundings \<Rightarrow> recorded \<Rightarrow> xdef \<Rightarrow> lit \<Rightarrow> xdef result" where
  "expr_item K rs x key = rebuild K rs (with_path (append_item_path (k_unicode K) (k_repr K) (xd_path x) key) x)"

definition expr_slice :: "surroundings \<Rightarrow> recorded \<Rightarrow> xdef \<Rightarrow> lit option \<Rightarrow> lit option \<Rightarrow> lit option \<Rightarrow> xdef result" where
  "expr_slice K rs x a b c = rebuild K rs (with_path (append_slice_path (k_repr K) (xd_path x) a b c) x)"

definition expr_as_celltype :: "surroundings \<Rightarrow> recorded \<Rightarrow> xdef \<Rightarrow> celltype \<Rightarrow> xdef result" where
  "expr_as_celltype K rs x t = rebuild K rs (with_celltype t x)"

definition expr_getitem :: "surroundings \<Rightarrow> recorded \<Rightarrow> xdef \<Rightarrow> path_step \<Rightarrow> xdef result" where
  "expr_getitem K rs x st = (case st of Item key \<Rightarrow> expr_item K rs x key | Slice a b c \<Rightarrow> expr_slice K rs x a b c)"

section \<open>Keys\<close>

text \<open>\<open>identity_key\<close>, by which expressions compare and hash; \<open>i\<close> is the identity of the
  expression.\<close>


datatype 'k ref_key = KeyChecksum ustr | KeyObject nat | KeyExpression 'k

datatype ident = Ident "ident ref_key" ustr celltype celltype

fun identity_key :: "nat \<Rightarrow> xdef \<Rightarrow> ident" where
  "identity_key i (XDef NoSource p t t' v l) = Ident (KeyObject i) p t t'"
| "identity_key i (XDef (Concrete c) p t t' v l) = Ident (KeyChecksum (hex c)) p t t'"
| "identity_key i (XDef (Opaque j _) p t t' v l) = Ident (KeyObject j) p t t'"
| "identity_key i (XDef (Nested j x) p t t' v l) = Ident (KeyExpression (identity_key j x)) p t t'"

definition database_key :: "recorded \<Rightarrow> xdef \<Rightarrow> (ustr \<times> ustr \<times> celltype \<times> celltype) result" where
  "database_key rs x =
     (case input_sum rs (xd_source x) of
        None \<Rightarrow> Inl ValueError
      | Some c \<Rightarrow> Inr (hex c, xd_path x, xd_input x, xd_celltype x))"

section \<open>Building a cell\<close>

text \<open>\<open>Cell.build\<close> makes an expression on the cell's input, and the constructor builds a cell
  that is its source in turn. \<open>X\<close> are the expressions there are, \<open>base\<close> the first free
  identity, \<open>vs\<close> what the validators are as checksums.\<close>

definition ref_source :: "(nat, xdef) dict \<Rightarrow> ref \<Rightarrow> xdef xsource" where
  "ref_source X r =
     (case r of
        RefChecksum c \<Rightarrow> Concrete c
      | RefExpression i _ _ \<Rightarrow> (case dget X i of Some x \<Rightarrow> Nested i x | None \<Rightarrow> Opaque i CtMixed)
      | RefOther i t \<Rightarrow> Opaque i t
      | _ \<Rightarrow> NoSource)"

fun build_upto ::
  "nat \<Rightarrow> surroundings \<Rightarrow> recorded \<Rightarrow> (nat \<Rightarrow> ck_arg) \<Rightarrow> cells \<Rightarrow> (nat, xdef) dict \<Rightarrow> nat \<Rightarrow> cell \<Rightarrow> xdef result" where
  "build_upto n K rs vs D X base c =
     (let typed = typed_input_celltype D (c_ref c); ict = input_celltype D c;
          v = (case c_validator c of None \<Rightarrow> ArgNone | Some i \<Rightarrow> vs i);
          finish = (\<lambda>s. construct K rs typed s (Some (c_path c)) ict (Some (c_celltype c)) v (c_language c))
      in case (n, c_ref c) of
           (Suc m, RefCell i) \<Rightarrow>
             (case dget D i of
                Some p \<Rightarrow> rbind (build_upto m K rs vs D X base p) (\<lambda>x. finish (Nested (base + m) x))
              | None \<Rightarrow> finish NoSource)
         | _ \<Rightarrow> finish (ref_source X (c_ref c)))"

definition build :: "surroundings \<Rightarrow> recorded \<Rightarrow> (nat \<Rightarrow> ck_arg) \<Rightarrow> cells \<Rightarrow> (nat, xdef) dict \<Rightarrow> nat \<Rightarrow> cell \<Rightarrow> xdef result" where
  "build K rs vs D X base c = build_upto (length D) K rs vs D X base c"

end
