(* ===== verification/NestedEvaluation.thy ===== *)
theory NestedEvaluation
  imports ExpressionTree PlacementTriples
begin

text \<open>
  The evaluation of an expression whose source is an expression or a transformation
  (\<open>_evaluate_internal\<close> and its asynchronous counterpart in \<open>expression_class.py\<close>), and of
  a \<open>CellJoin\<close> object (\<open>celljoin_class.py\<close>). The claim that \<open>_hold_result\<close> takes for an
  expression somebody holds is \<open>hold_result\<close> of \<open>Holders\<close>; the tempref it always sets is
  set here.
\<close>

section \<open>Sources that compute\<close>

text \<open>A source with \<open>_compute_dependency\<close>: its scratch flag, its result before, and what it
  came to when it was told to compute (with the scratch policy it was given) or to produce its
  value. What else a source may be has no result.\<close>

record dependency =
  dp_scratch :: bool
  dp_recorded :: "checksum option"
  dp_compute :: "bool option \<Rightarrow> checksum option result"
  dp_value :: "checksum option result"

type_synonym dependencies = "nat \<Rightarrow> dependency option"

definition scratch_override :: "bool \<Rightarrow> ustr \<Rightarrow> celltype \<Rightarrow> celltype \<Rightarrow> bool option" where
  "scratch_override scratch p t t' =
     (if \<not> scratch \<and> p = [] \<and> (t = t' \<or> (t, t') \<in> set (conversion_trivial @ conversion_reinterpret)) then Some False
      else None)"

definition dependency_input :: "dependencies \<Rightarrow> bool option \<Rightarrow> bool \<Rightarrow> nat \<Rightarrow> checksum option eop" where
  "dependency_input T override run_source i =
     (case T i of
        None \<Rightarrow> oret None
      | Some dp \<Rightarrow> if run_source then olift (dp_compute dp override) else oret (dp_recorded dp))"

text \<open>How the input's buffer is made here, if it can be: of a transformation that threw it away.\<close>

definition dependency_value :: "dependencies \<Rightarrow> bool option \<Rightarrow> bool \<Rightarrow> nat \<Rightarrow> checksum option eop option" where
  "dependency_value T override run_source i =
     (case T i of
        Some dp \<Rightarrow> if run_source \<and> dp_scratch dp \<and> override = None then Some (olift (dp_value dp)) else None
      | None \<Rightarrow> None)"

text \<open>The asynchronous evaluation, and only it, refuses with a cache miss when the source may not
  run.\<close>

definition dependency_value_async ::
  "dependencies \<Rightarrow> bool option \<Rightarrow> bool \<Rightarrow> nat \<Rightarrow> checksum option \<Rightarrow> checksum option eop option" where
  "dependency_value_async T override run_source i input =
     (case T i of
        Some dp \<Rightarrow>
          if \<not> run_source \<and> dp_scratch dp then
            Some (case input of Some c \<Rightarrow> oraise (CacheMissError c None) | None \<Rightarrow> oraise TypeError)
          else dependency_value T override run_source i
      | None \<Rightarrow> None)"

section \<open>One expression, its input at hand\<close>

definition hold :: "'nd world \<Rightarrow> checksum \<Rightarrow> checksum option eop" where
  "hold W r = obind (tempref W r None) (\<lambda>_. oret (Some r))"

definition validated :: "xdef \<Rightarrow> bool" where
  "validated x \<longleftrightarrow> xd_validator x \<noteq> None \<or> xd_language x \<noteq> None"

text \<open>A result on record answers an expression without a validator, unless its bytes are
  wanted here and are not.\<close>

definition answer_on_record :: "'nd world \<Rightarrow> execution \<Rightarrow> bool \<Rightarrow> xdef \<Rightarrow> checksum \<Rightarrow> checksum option eop" where
  "answer_on_record W place materialize x c =
     obind (cached_result (ExpressionCacheKey (hex c) (xd_path x) (xd_input x) (xd_celltype x))) (\<lambda>cached.
       case cached of
         None \<Rightarrow> oret None
       | Some r \<Rightarrow>
           if validated x then oret None
           else if materialize \<and> place = AtLocal then obind (has_local_buffer W r) (\<lambda>here. oret (if here then Some r else None))
           else oret (Some r))"

definition place_here :: "'nd world \<Rightarrow> execution \<Rightarrow> xdef \<Rightarrow> checksum \<Rightarrow> bool eop" where
  "place_here W place x c =
     (if place = AutoPlace then
        obind (choose_expression_evaluation_location W c (xd_path x) (xd_input x) (xd_celltype x)) (\<lambda>l. oret (l = Local))
      else oret (place = AtLocal))"

definition wants_input :: "'nd world \<Rightarrow> xdef \<Rightarrow> checksum \<Rightarrow> bool eop" where
  "wants_input W x c =
     (if xd_path x \<noteq> [] then oret True
      else
        obind (on_values (conversion_needs_buffer (w_env W) c (xd_input x) (xd_celltype x))) (\<lambda>needs.
          oret (needs \<and> \<not> is_null (w_sha W) (ArgChecksum c))))"

text \<open>The rest of \<open>_evaluate_internal\<close>, within a running loop: it can evaluate here only.\<close>

definition evaluate_here ::
  "'nd world \<Rightarrow> joined \<Rightarrow> bool \<Rightarrow> xdef \<Rightarrow> checksum \<Rightarrow> checksum option eop option \<Rightarrow> checksum option eop" where
  "evaluate_here W j materialize x c remake =
     obind (wants_input W x c) (\<lambda>needs.
     obind (if needs then has_local_buffer W c else oret True) (\<lambda>here.
     obind (case remake of Some again \<Rightarrow> if here then oret (Some c) else again | None \<Rightarrow> oret (Some c)) (\<lambda>input.
       if validated x then oraise NotImplementedError
       else
         case input of
           None \<Rightarrow> oraise TypeError
         | Some d \<Rightarrow>
             obind (evaluate_expression_local W j materialize d (xd_path x) (xd_input x) (xd_celltype x)) (hold W))))"

definition evaluate_node ::
  "'nd world \<Rightarrow> joined \<Rightarrow> execution \<Rightarrow> bool \<Rightarrow> bool \<Rightarrow> xdef \<Rightarrow> checksum option \<Rightarrow> checksum option eop option \<Rightarrow>
     checksum option eop" where
  "evaluate_node W j place materialize run_source x input remake =
     (case input of
        None \<Rightarrow> if run_source then oraise ValueError else oret None
      | Some c \<Rightarrow>
          obind (answer_on_record W place materialize x c) (\<lambda>answer.
          case answer of
            Some r \<Rightarrow> hold W r
          | None \<Rightarrow>
              obind (place_here W place x c) (\<lambda>here.
                if here then evaluate_here W j materialize x c remake else oraise RunningLoopRefusal)))"

definition evaluate_node_async ::
  "'nd grid \<Rightarrow> joined \<Rightarrow> dispatched \<Rightarrow> execution \<Rightarrow> bool \<Rightarrow> bool option \<Rightarrow> bool \<Rightarrow> xdef \<Rightarrow> checksum option \<Rightarrow>
     checksum option eop option \<Rightarrow> checksum option eop" where
  "evaluate_node_async G j d place scratch m run_source x input again =
     (case input of
        None \<Rightarrow> if run_source then oraise ValueError else oret None
      | Some c \<Rightarrow>
          if validated x then oraise NotImplementedError
          else
            obind
              (evaluate_expression_placed G j d place scratch m
                (map_option (\<lambda>f. obind f (\<lambda>r. case r of Some e \<Rightarrow> oret e | None \<Rightarrow> oraise TypeError)) again)
                c (xd_path x) (xd_input x) (xd_celltype x))
              (hold (g_world G)))"

section \<open>Nested expressions\<close>

text \<open>\<open>J\<close> and \<open>D\<close> are what sharing and dispatch came to for each expression.\<close>

fun evaluate_internal ::
  "'nd world \<Rightarrow> dependencies \<Rightarrow> (xdef \<Rightarrow> joined) \<Rightarrow> execution \<Rightarrow> bool \<Rightarrow> bool option \<Rightarrow> bool \<Rightarrow> xdef \<Rightarrow> checksum option eop"
where
  "evaluate_internal W T J place scratch m run_source (XDef (Nested i y) p t t' v l) =
     (let x = XDef (Nested i y) p t t' v l in
      obind (evaluate_internal W T J place True (Some False) run_source y) (\<lambda>input.
        evaluate_node W (J x) place (wants_bytes m scratch) run_source x input
          (Some (evaluate_internal W T J AtLocal True (Some True) run_source y))))"
| "evaluate_internal W T J place scratch m run_source (XDef (Opaque i k) p t t' v l) =
     (let x = XDef (Opaque i k) p t t' v l; override = scratch_override scratch p t t' in
      obind (dependency_input T override run_source i) (\<lambda>input.
        evaluate_node W (J x) place (wants_bytes m scratch) run_source x input (dependency_value T override run_source i)))"
| "evaluate_internal W T J place scratch m run_source (XDef (Concrete c) p t t' v l) =
     (let x = XDef (Concrete c) p t t' v l in
      evaluate_node W (J x) place (wants_bytes m scratch) run_source x (Some c) None)"
| "evaluate_internal W T J place scratch m run_source (XDef NoSource p t t' v l) =
     (let x = XDef NoSource p t t' v l in
      evaluate_node W (J x) place (wants_bytes m scratch) run_source x None None)"

fun evaluate_internal_async ::
  "'nd grid \<Rightarrow> dependencies \<Rightarrow> (xdef \<Rightarrow> joined) \<Rightarrow> (xdef \<Rightarrow> dispatched) \<Rightarrow> execution \<Rightarrow> bool \<Rightarrow> bool option \<Rightarrow> bool \<Rightarrow> xdef \<Rightarrow>
     checksum option eop"
where
  "evaluate_internal_async G T J D place scratch m run_source (XDef (Nested i y) p t t' v l) =
     (let x = XDef (Nested i y) p t t' v l in
      obind (evaluate_internal_async G T J D place True (Some False) run_source y) (\<lambda>input.
        evaluate_node_async G (J x) (D x) place scratch m run_source x input
          (Some (evaluate_internal_async G T J D AtLocal True (Some True) run_source y))))"
| "evaluate_internal_async G T J D place scratch m run_source (XDef (Opaque i k) p t t' v l) =
     (let x = XDef (Opaque i k) p t t' v l; override = scratch_override scratch p t t' in
      obind (dependency_input T override run_source i) (\<lambda>input.
        evaluate_node_async G (J x) (D x) place scratch m run_source x input
          (dependency_value_async T override run_source i input)))"
| "evaluate_internal_async G T J D place scratch m run_source (XDef (Concrete c) p t t' v l) =
     (let x = XDef (Concrete c) p t t' v l in
      evaluate_node_async G (J x) (D x) place scratch m run_source x (Some c) None)"
| "evaluate_internal_async G T J D place scratch m run_source (XDef NoSource p t t' v l) =
     (let x = XDef NoSource p t t' v l in
      evaluate_node_async G (J x) (D x) place scratch m run_source x None None)"

section \<open>Cell joins as objects\<close>

text \<open>\<open>CellJoin.from_inputs\<close>: the definition is parsed back from its own buffer, published
  where there is a store for it (\<open>publish_celljoin_definition\<close>), and kept by a tempref.\<close>

definition publish_celljoin_definition :: "'nd grid \<Rightarrow> celljoin_spec \<Rightarrow> unit eop" where
  "publish_celljoin_definition G spec =
     (if definition_store_available G then
        on_claims (transfer_write (w_sha (g_world G)) (js_checksum spec)
          (Some \<lparr>b_content = js_buffer spec, b_checksum = Some (js_checksum spec)\<rparr>))
      else oret ())"

definition from_inputs ::
  "'nd grid \<Rightarrow> celltype \<Rightarrow> join_value option \<Rightarrow> (join_key \<times> join_value) list \<Rightarrow> celljoin_spec eop" where
  "from_inputs G ct rt members =
     obind (olift (build_celljoin rt members)) (\<lambda>d.
     obind (olift (celljoin_buffer (w_codec (g_world G)) (join_pyval d))) (\<lambda>b.
     obind (on_values (parse_celljoin (w_env (g_world G)) (DefBuffer b) ct)) (\<lambda>spec.
     obind (publish_celljoin_definition G spec) (\<lambda>_.
     obind (tempref (g_world G) (js_checksum spec)
       (Some \<lparr>b_content = js_buffer spec, b_checksum = Some (js_checksum spec)\<rparr>)) (\<lambda>_. oret spec)))))"

text \<open>\<open>input_checksums\<close>, \<open>identity_key\<close> and \<open>database_key\<close>; a join is not projected and
  not converted.\<close>

definition join_input_checksums :: "celljoin_spec \<Rightarrow> checksum list" where
  "join_input_checksums spec =
     (if js_celltype spec \<in> set JOIN_DEEP_CELLTYPES
      then fold (\<lambda>(t, c). add_distinct c) (js_members spec) (required_buffers spec)
      else required_buffers spec)"

definition join_identity_key :: "celljoin_spec \<Rightarrow> cache_key" where
  "join_identity_key spec = celljoin_cache_key (js_checksum spec) (js_celltype spec)"

definition join_database_key :: "celljoin_spec \<Rightarrow> ustr \<times> celltype" where
  "join_database_key spec = (hex (js_checksum spec), js_celltype spec)"

definition join_project :: "path_step \<Rightarrow> celljoin_spec result" where
  "join_project st = Inl TypeError"

definition join_as_celltype :: "celltype \<Rightarrow> celljoin_spec result" where
  "join_as_celltype t = Inl TypeError"

text \<open>\<open>_evaluate_internal\<close> in a running loop only looks: at the result \<open>own\<close> of the object
  and at the cache. \<open>_evaluate_internal_async\<close> evaluates.\<close>

definition join_evaluate_internal ::
  "'nd world \<Rightarrow> bool \<Rightarrow> bool option \<Rightarrow> checksum option \<Rightarrow> celljoin_spec \<Rightarrow> checksum option eop" where
  "join_evaluate_internal W scratch m own spec =
     obind (case own of Some r \<Rightarrow> oret (Some r) | None \<Rightarrow> cached_result (join_identity_key spec)) (\<lambda>found.
     case found of
       None \<Rightarrow> oraise RunningLoopRefusal
     | Some r \<Rightarrow>
         obind (if wants_bytes m scratch then has_local_buffer W r else oret True) (\<lambda>usable.
           if usable then hold W r else oraise RunningLoopRefusal))"

definition join_evaluate_internal_async ::
  "'nd grid \<Rightarrow> joined \<Rightarrow> dispatched \<Rightarrow> execution \<Rightarrow> celljoin_spec \<Rightarrow> checksum option eop" where
  "join_evaluate_internal_async G j d place spec =
     obind (evaluate_celljoin_placed G j d place spec) (hold (g_world G))"

section \<open>What they keep\<close>

lemma hold_triple: "w_sha W = sha \<Longrightarrow> preserves (eval_ok sha z) (hold W r)"
  unfolding hold_def by (intro triple_bind [OF tempref_triple] triple_ret TrueI) simp_all

lemma record_answer_triple:
  "truthful sha W \<Longrightarrow> preserves (eval_ok sha z) (answer_on_record W place m x c)"
  unfolding answer_on_record_def
  by (intro triple_bind [OF cached_triple] triple_option triple_if triple_ret triple_bind [OF has_local_triple] TrueI)
    (simp_all add: truthfulD)

lemma place_here_triple: "w_sha W = sha \<Longrightarrow> preserves (eval_ok sha z) (place_here W place x c)"
  unfolding place_here_def by (intro triple_if triple_bind [OF location_triple] triple_ret TrueI) simp_all

lemma wants_input_triple: "preserves (eval_ok sha z) (wants_input W x c)"
  unfolding wants_input_def by (intro triple_if triple_bind [OF values_triple] triple_ret TrueI)

lemma evaluate_here_triple:
  assumes "truthful sha W" and "\<And>f. remake = Some f \<Longrightarrow> preserves (eval_ok sha (s0, False)) f"
  shows "preserves (eval_ok sha (s0, False)) (evaluate_here W j m x c remake)"
  unfolding evaluate_here_def
  by (intro triple_bind [OF wants_input_triple] triple_bind [where Q = "\<lambda>_. True"] triple_if triple_option
      triple_ret triple_raise has_local_triple local_evaluation_triple hold_triple truthfulD(1) [OF assms(1)] assms TrueI)

lemma node_triple:
  assumes "truthful sha W" and "\<And>f. remake = Some f \<Longrightarrow> preserves (eval_ok sha (s0, False)) f"
  shows "preserves (eval_ok sha (s0, False)) (evaluate_node W j place m run_source x input remake)"
  unfolding evaluate_node_def
  by (intro triple_option triple_if triple_raise triple_ret triple_bind [OF record_answer_triple [OF assms(1)]]
      triple_bind [OF place_here_triple] hold_triple evaluate_here_triple assms truthfulD(1) [OF assms(1)] TrueI)

lemma node_async_triple:
  assumes "truthful sha (g_world G)" and "\<And>f. again = Some f \<Longrightarrow> preserves (eval_ok sha (s0, False)) f"
  shows "preserves (eval_ok sha (s0, False)) (evaluate_node_async G j d place scratch m run_source x input again)"
proof -
  have "preserves (eval_ok sha (s0, False)) g"
    if "map_option (\<lambda>f. obind f (\<lambda>r. case r of Some e \<Rightarrow> oret e | None \<Rightarrow> oraise TypeError)) again = Some g" for g
  proof -
    from that obtain f where f: "again = Some f" "g = obind f (\<lambda>r. case r of Some e \<Rightarrow> oret e | None \<Rightarrow> oraise TypeError)"
      by auto
    show ?thesis unfolding f(2)
      by (rule triple_bind [OF assms(2) [OF f(1)]]) (auto intro: triple_ret triple_raise split: option.split)
  qed
  then show ?thesis
    unfolding evaluate_node_async_def
    by (intro triple_option triple_if triple_raise triple_ret triple_bind [OF placed_triple] hold_triple assms
        truthfulD(1) [OF assms(1)] TrueI)
qed

lemma dependency_triples:
  "preserves (eval_ok sha z) (dependency_input T override run_source i)"
  "dependency_value T override run_source i = Some f \<Longrightarrow> preserves (eval_ok sha z) f"
  "dependency_value_async T override run_source i input = Some f \<Longrightarrow> preserves (eval_ok sha z) f"
  by (auto simp: dependency_input_def dependency_value_def dependency_value_async_def
      intro!: triple_lift triple_ret triple_raise split: option.splits if_splits)

lemma internal_triple:
  "truthful sha W \<Longrightarrow> preserves (eval_ok sha (s0, False)) (evaluate_internal W T J place scratch m run_source x)"
proof (induction W T J place scratch m run_source x rule: evaluate_internal.induct)
  case (1 W T J place scratch m run_source i y p t t' v l)
  show ?case unfolding evaluate_internal.simps Let_def
    by (rule triple_bind [OF "1.IH"(1) [OF refl "1.prems"]], rule node_triple [OF "1.prems"])
      (use "1.IH"(2) [OF refl "1.prems"] in auto)
qed (auto simp: Let_def intro!: node_triple triple_bind [OF dependency_triples(1)] dest: dependency_triples(2))

lemma internal_async_triple:
  "truthful sha (g_world G) \<Longrightarrow>
     preserves (eval_ok sha (s0, False)) (evaluate_internal_async G T J D place scratch m run_source x)"
proof (induction G T J D place scratch m run_source x rule: evaluate_internal_async.induct)
  case (1 G T J D place scratch m run_source i y p t t' v l)
  show ?case unfolding evaluate_internal_async.simps Let_def
    by (rule triple_bind [OF "1.IH"(1) [OF refl "1.prems"]], rule node_async_triple [OF "1.prems"])
      (use "1.IH"(2) [OF refl "1.prems"] in auto)
qed (auto simp: Let_def intro!: node_async_triple triple_bind [OF dependency_triples(1)] dest: dependency_triples(3))

lemma join_internal_triple:
  "truthful sha W \<Longrightarrow> preserves (eval_ok sha z) (join_evaluate_internal W scratch m own spec)"
  unfolding join_evaluate_internal_def
  by (intro triple_bind [where Q = "\<lambda>_. True"] triple_option triple_if triple_ret triple_raise cached_triple
      has_local_triple hold_triple truthfulD(1) TrueI)

lemma join_internal_async_triple:
  "truthful sha (g_world G) \<Longrightarrow> preserves (eval_ok sha (s0, False)) (join_evaluate_internal_async G j d place spec)"
  unfolding join_evaluate_internal_async_def
  by (intro triple_bind [OF placed_celljoin_triple] hold_triple truthfulD(1))

end
