(* ===== verification/ResultRecords.thy ===== *)
theory ResultRecords
  imports Fingertip NestedEvaluation
begin

text \<open>
  What every sequence of evaluations leaves: buffers under their own digest, a record for every
  result, and the same answer again.
\<close>

section \<open>A result is recorded\<close>

text \<open>An operation that returns a result for a key without a record leaves that record.\<close>

definition answered :: "(bytes \<Rightarrow> checksum) \<Rightarrow> cache_key \<Rightarrow> checksum eop \<Rightarrow> bool" where
  "answered sha k m \<longleftrightarrow> (\<forall>s. eval_ok sha (s, False) s \<longrightarrow> dget (es_cache s) k = None \<longrightarrow>
     (\<forall>r. fst (m s) = Inr r \<longrightarrow> dget (es_cache (snd (m s))) k = Some r))"

lemma eval_ok_now: "eval_ok sha z s \<Longrightarrow> eval_ok sha (s, b) s"
  by (simp add: eval_ok_def)

lemma recorded_stays: "eval_ok sha (s, b) t \<Longrightarrow> dget (es_cache s) k = Some r \<Longrightarrow> dget (es_cache t) k = Some r"
  by (auto simp: eval_ok_def prefix_def map_add_def)

text \<open>First something that records nothing.\<close>

lemma answered_bind:
  assumes m: "\<And>s1. triple (eval_ok sha (s1, True)) m Q" and f: "\<And>x. Q x \<Longrightarrow> answered sha k (f x)"
  shows "answered sha k (obind m f)"
  unfolding answered_def
proof (intro allI impI)
  fix s r
  assume s: "eval_ok sha (s, False) s" "dget (es_cache s) k = None" "fst (obind m f s) = Inr r"
  obtain x s1 where run: "m s = (Inr x, s1)" "obind m f s = f x s1"
    using s(3) by (cases "m s" rule: prod.exhaust) (simp add: obind_def split: sum.splits)
  from m [of s] eval_ok_now [OF s(1), of True] run(1) have ok: "eval_ok sha (s, True) s1" "Q x"
    unfolding triple_def by force+
  then have "dget (es_cache s1) k = None" using s(2) by (simp add: eval_ok_def)
  with f [OF ok(2)] eval_ok_now [OF ok(1), of False] run(2) s(3)
  show "dget (es_cache (snd (obind m f s))) k = Some r" unfolding answered_def by simp
qed

lemma answered_raise: "answered sha k (oraise e)"
  by (simp add: answered_def)

lemma otry_returned:
  "fst (otry m (\<lambda>e. oraise (h e)) f s) = Inr r \<Longrightarrow> otry m (\<lambda>e. oraise (h e)) f s = obind m f s"
  by (cases "m s" rule: prod.exhaust) (simp add: otry_def obind_def oraise_def split: sum.splits)

lemma answered_try:
  assumes "\<And>s1. triple (eval_ok sha (s1, True)) m Q" and "\<And>x. Q x \<Longrightarrow> answered sha k (f x)"
  shows "answered sha k (otry m (\<lambda>e. oraise (h e)) f)"
proof -
  have "answered sha k (obind m f)" by (rule answered_bind [OF assms(1)]) (rule assms(2))
  then show ?thesis unfolding answered_def using otry_returned [of m h f] by (intro allI impI) force
qed

lemma answered_if: "(b \<Longrightarrow> answered sha k m) \<Longrightarrow> (\<not> b \<Longrightarrow> answered sha k n) \<Longrightarrow> answered sha k (if b then m else n)"
  by simp

text \<open>The record, and whatever follows it.\<close>

lemma answered_record:
  assumes "\<And>s0. preserves (eval_ok sha (s0, False)) m"
  shows "answered sha k (obind (record_expression_result W k r) (\<lambda>_. obind m (\<lambda>_. oret r)))"
  unfolding answered_def
proof (intro allI impI)
  fix s r'
  let ?m = "obind (record_expression_result W k r) (\<lambda>_. obind m (\<lambda>_. oret r))"
  assume s: "eval_ok sha (s, False) s" "dget (es_cache s) k = None" "fst (?m s) = Inr r'"
  obtain s1 where rec: "record_expression_result W k r s = (Inr (), s1)"
    using s(3) by (cases "record_expression_result W k r s"; cases "fst (record_expression_result W k r s)")
      (auto simp: obind_def)
  then have k: "dget (es_cache s1) k = Some r"
    using s(2) by (auto simp: record_expression_result_def insert_expression_result_def
        register_expression_result_def split: if_splits)
  have ok: "eval_ok sha (s, False) s1" using record_triple [of sha s W k r] s(1) rec unfolding triple_def by force
  obtain y s2 where run: "m s1 = (Inr y, s2)"
    using s(3) rec by (cases "m s1"; cases "fst (m s1)") (auto simp: obind_def)
  have "eval_ok sha (s1, False) s2"
    using assms [of s1] eval_ok_now [OF ok, of False] run unfolding triple_def by force
  then have "dget (es_cache s2) k = Some r" using recorded_stays k by blast
  then show "dget (es_cache (snd (?m s))) k = Some r'" using rec run s(3) by (auto simp: obind_def)
qed

lemma answered_finish:
  assumes "w_sha W = sha" and "x = None \<or> (\<exists>y. x = Some y \<and> fits sha r y)"
  shows "answered sha (cache_key_of k) (finish_result W k r x p)"
  unfolding finish_result_def by (rule answered_record) (rule tempref_result_triple [OF assms])

lemma answered_conversion:
  assumes "truthful sha W" and "\<And>d. members = Some d \<Longrightarrow> members_ok sha d"
  shows "answered sha (cache_key_of k) (evaluate_conversion W k g members)"
proof -
  have "answered sha (cache_key_of k) (obind
       (case new of None \<Rightarrow> oret ()
        | Some x \<Rightarrow> if checksum_of W x \<noteq> r then oraise ExpressionEvaluationError else keep_result_buffer r x)
       (\<lambda>_. finish_result W k r new True))"
    if "\<forall>x. new = Some x \<longrightarrow> filed sha (checksum_of W x) x" for r new
  proof (cases "\<forall>x. new = Some x \<longrightarrow> checksum_of W x = r")
    case True
    with that show ?thesis
      by (intro answered_bind [where Q = "\<lambda>_. True"] answered_finish truthfulD(1) [OF assms(1)] triple_option)
        (auto intro!: triple_ret keep_result_triple)
  next
    case False
    then show ?thesis
      by (intro answered_bind [where Q = "\<lambda>_. False"]) (auto intro: triple_raise)
  qed
  then show ?thesis
    unfolding evaluate_conversion_def
    by (intro answered_bind [OF triple_if [OF mixed_triple [OF assms] convert_triple [OF assms(1)]]])
      (auto split: prod.split)
qed

lemma answered_path:
  assumes "w_sha W = sha" and "fits sha c x"
  shows "answered sha (cache_key_of k) (evaluate_path W k x steps)"
proof -
  have child: "answered sha (cache_key_of k)
      (case w of VChecksum d \<Rightarrow> obind (validate_deep_child W d (ek_target k)) (\<lambda>_. finish_result W k d None False)
       | _ \<Rightarrow> oraise TypeError)" for w
  proof -
    have "answered sha (cache_key_of k) (obind (validate_deep_child W d (ek_target k)) (\<lambda>_. finish_result W k d None False))" for d
      unfolding validate_deep_child_def
      by (intro answered_bind [where Q = "\<lambda>_. True"] triple_bind [where Q = "\<lambda>_. True"] values_triple triple_ret
          answered_finish assms(1)) simp_all
    then show ?thesis by (auto intro: answered_raise split: pyval.split)
  qed
  have rest: "answered sha (cache_key_of k) (obind m (\<lambda>_.
      obind (olift r) (\<lambda>w.
      obind (olift (serialize_expression_result (w_codec W) w ct)) (\<lambda>b.
      obind (new_buffer W b) (\<lambda>y.
      obind (record_expression_result W (cache_key_of k) (checksum_of W y)) (\<lambda>_.
      obind (keep_result_buffer (checksum_of W y) y) (\<lambda>_.
      obind (tempref_expression_result W (checksum_of W y) (Some y) True) (\<lambda>_.
        oret (checksum_of W y)))))))))"
    if "\<And>s1. preserves (eval_ok sha (s1, True)) m" for m r ct
    unfolding obind_assoc [symmetric, of "keep_result_buffer c x" for c x]
    by (rule answered_bind [OF that], rule answered_bind [OF triple_lift [where Q = "\<lambda>_. True"]], simp,
        rule answered_bind [OF triple_lift [where Q = "\<lambda>_. True"]], simp,
        rule answered_bind [OF new_buffer_triple [OF assms(1)]], rule answered_record,
        rule triple_bind [OF keep_result_triple], simp, rule tempref_result_triple [OF assms(1)], simp)
  show ?thesis
    unfolding evaluate_path_def
    by (rule answered_try [OF deserialize_triple [OF assms]], rule answered_bind [where Q = "\<lambda>_. True"])
      (auto intro!: triple_if triple_lift triple_ret triple_raise child rest split: option.split prod.split bool.split)
qed

lemma answered_after_validation:
  assumes "truthful sha W" and "\<And>d. members = Some d \<Longrightarrow> members_ok sha d"
    and "\<And>x. ib = Some x \<Longrightarrow> fits sha (ek_input k) x"
  shows "answered sha (cache_key_of k) (evaluate_after_validation W k ib steps g members)"
proof -
  note t = truthfulD(1) [OF assms(1)]
  have "answered sha (cache_key_of k) (case ib of None \<Rightarrow> oraise AssertionError | Some x \<Rightarrow> evaluate_path W k x steps)"
    using assms(3) answered_path [OF t] by (auto simp: answered_raise split: option.split)
  then show ?thesis
    unfolding evaluate_after_validation_def
    by (intro answered_if answered_bind [OF new_buffer_triple [OF t]] answered_finish [OF t]
        answered_conversion [OF assms(1,2)]) (use assms(3) in \<open>auto dest: filed_fits\<close>)
qed

lemma answered_unshared:
  assumes "truthful sha W"
  shows "answered sha (cache_key_of k) (evaluate_unshared W k)"
  unfolding evaluate_unshared_def
  by (intro answered_bind [OF triple_lift [where Q = "\<lambda>_. True"]]
      answered_bind [where Q = "\<lambda>ib. \<forall>x. ib = Some x \<longrightarrow> fits sha (ek_input k) x"] triple_if triple_ret
      triple_bind [OF local_triple [OF assms]] answered_bind [OF validate_triple] answered_after_validation [OF assms]) auto

text \<open>The two entry points, for an evaluation that joins no other and finds no record.\<close>

lemma answered_joined:
  assumes "truthful sha W"
  shows "answered sha (cache_key_of k) (evaluate_joined W OnItsOwn materialize k)"
proof -
  have "answered sha (cache_key_of k) (case (needs, OnItsOwn) of
       (True, JoinedResult r) \<Rightarrow>
         obind (olift r) (\<lambda>d.
         obind (if materialize then has_local_buffer W d else oret True) (\<lambda>usable.
           if usable then oret d else evaluate_unshared W k))
     | _ \<Rightarrow> evaluate_unshared W k)" for needs
    using answered_unshared [OF assms] by (simp split: bool.split)
  then show ?thesis
    unfolding evaluate_joined_def
    by (intro answered_bind [where Q = "\<lambda>_. True"] triple_if values_triple triple_ret) simp_all
qed

lemma answered_unless_cached:
  "answered sha (cache_key_of k) m \<Longrightarrow> answered sha (cache_key_of k) (unless_cached W materialize k m)"
  by (simp add: answered_def unless_cached_def)

lemma answered_local:
  assumes "truthful sha W"
  shows "answered sha (cache_key_of (expression_key sha c path source target))
    (evaluate_expression_local W OnItsOwn materialize c path source target)"
  unfolding evaluate_expression_local_def Let_def truthfulD(1) [OF assms]
  by (intro answered_bind [OF triple_lift [where Q = "\<lambda>_. True"]]
      answered_bind [OF tempref_triple [OF truthfulD(1) [OF assms]]]
      answered_unless_cached answered_joined assms) simp_all

lemma answered_async:
  assumes "truthful sha W"
  shows "answered sha (cache_key_of (expression_key sha c path source target))
    (evaluate_expression_async W materialize c path source target)"
  unfolding evaluate_expression_async_def Let_def truthfulD(1) [OF assms]
  by (intro answered_bind [OF tempref_triple [OF truthfulD(1) [OF assms]]] answered_unless_cached
      answered_bind [OF triple_lift [where Q = "\<lambda>_. True"]] answered_bind [OF needs_triple]
      answered_bind [OF fetch_input_triple [OF assms]] answered_bind [OF validate_async_triple]
      answered_bind [OF fetch_folder_triple [OF assms]] answered_after_validation [OF assms]) auto

section \<open>Requests\<close>

text \<open>What the process is asked: evaluations of expressions and celljoins, local or placed,
  and recoveries, each with the stores, services and clock it meets; and the collection of a
  result buffer by the garbage collector.\<close>

datatype 'nd request =
    LocalRequest "'nd world" joined bool checksum ustr celltype celltype
  | AsyncRequest "'nd world" bool checksum ustr celltype celltype
  | SharedRequest "'nd world" joined bool checksum ustr celltype celltype
  | PlacedRequest "'nd grid" joined dispatched execution bool "bool option" "checksum eop option" checksum ustr celltype celltype
  | JoinRequest "'nd grid" joined dispatched execution celljoin_spec
  | FingertipRequest "'nd grid" recovery nat checksum
  | NestedRequest "'nd world" dependencies "xdef \<Rightarrow> joined" execution bool "bool option" bool xdef
  | NestedAsyncRequest "'nd grid" dependencies "xdef \<Rightarrow> joined" "xdef \<Rightarrow> dispatched" execution bool "bool option" bool xdef
  | JoinLookRequest "'nd world" bool "bool option" "checksum option" celljoin_spec
  | ResultCollected checksum

primrec serve :: "'nd request \<Rightarrow> eval_state \<Rightarrow> eval_state" where
  "serve (LocalRequest W j materialize c path source target) s =
     snd (evaluate_expression_local W j materialize c path source target s)"
| "serve (AsyncRequest W materialize c path source target) s =
     snd (evaluate_expression_async W materialize c path source target s)"
| "serve (SharedRequest W j materialize c path source target) s =
     snd (evaluate_expression_local_async W j materialize c path source target s)"
| "serve (PlacedRequest G j d place scratch m again c path source target) s =
     snd (evaluate_expression_placed G j d place scratch m again c path source target s)"
| "serve (JoinRequest G j d place spec) s = snd (evaluate_celljoin_placed G j d place spec s)"
| "serve (FingertipRequest G R n c) s = snd (fingertip G R n c s)"
| "serve (NestedRequest W T J place scratch m run_source x) s = snd (evaluate_internal W T J place scratch m run_source x s)"
| "serve (NestedAsyncRequest G T J D place scratch m run_source x) s =
     snd (evaluate_internal_async G T J D place scratch m run_source x s)"
| "serve (JoinLookRequest W scratch m own spec) s = snd (join_evaluate_internal W scratch m own spec s)"
| "serve (ResultCollected c) s = s\<lparr>es_results := ddel c (es_results s)\<rparr>"

abbreviation serve_all :: "'nd request list \<Rightarrow> eval_state \<Rightarrow> eval_state" where
  "serve_all rs s \<equiv> fold serve rs s"

text \<open>The stores keep their word; what is called of other packages, and the evaluation that
  makes an input once more, keep the invariant as the evaluations here do.\<close>

primrec request_ok :: "(bytes \<Rightarrow> checksum) \<Rightarrow> 'nd request \<Rightarrow> bool" where
  "request_ok sha (LocalRequest W j materialize c path source target) = truthful sha W"
| "request_ok sha (AsyncRequest W materialize c path source target) = truthful sha W"
| "request_ok sha (SharedRequest W j materialize c path source target) = truthful sha W"
| "request_ok sha (PlacedRequest G j d place scratch m again c path source target) =
     (truthful sha (g_world G) \<and> (\<forall>make s0. again = Some make \<longrightarrow> preserves (eval_ok sha (s0, False)) make))"
| "request_ok sha (JoinRequest G j d place spec) = truthful sha (g_world G)"
| "request_ok sha (FingertipRequest G R n c) = (truthful sha (g_world G) \<and> recovery_ok sha R)"
| "request_ok sha (NestedRequest W T J place scratch m run_source x) = truthful sha W"
| "request_ok sha (NestedAsyncRequest G T J D place scratch m run_source x) = truthful sha (g_world G)"
| "request_ok sha (JoinLookRequest W scratch m own spec) = truthful sha W"
| "request_ok sha (ResultCollected c) = True"

lemma collected_ok: "eval_ok sha (s0, False) s \<Longrightarrow> eval_ok sha (s0, False) (s\<lparr>es_results := ddel c (es_results s)\<rparr>)"
  by (auto simp: eval_ok_def split: if_splits)

lemma preservesD: "triple P m Q \<Longrightarrow> P s \<Longrightarrow> P (snd (m s))"
  by (simp add: triple_def)

lemma serve_ok:
  assumes "request_ok sha r" and s: "eval_ok sha (s0, False) s"
  shows "eval_ok sha (s0, False) (serve r s)"
  using assms
  by (cases r)
    (simp_all add: collected_ok preservesD [OF local_evaluation_triple] preservesD [OF async_evaluation_triple]
      preservesD [OF shared_triple] preservesD [OF placed_triple] preservesD [OF placed_celljoin_triple]
      preservesD [OF fingertip_triple] preservesD [OF internal_triple] preservesD [OF internal_async_triple]
      preservesD [OF join_internal_triple])

lemma serve_all_ok:
  "list_all (request_ok sha) rs \<Longrightarrow> eval_ok sha (s0, False) s \<Longrightarrow> eval_ok sha (s0, False) (serve_all rs s)"
  by (induction rs arbitrary: s) (simp_all add: serve_ok)

lemmas reached_ok = serve_all_ok [OF _ eval_ok_init]

text \<open>An evaluation that makes a buffer: the checksum of a text as the content of a checksum
  cell.\<close>

abbreviation tiny_request :: "unit request" where
  "tiny_request \<equiv> LocalRequest tiny_world OnItsOwn False sevens [] CtStr CtChecksum"

lemma tiny_request_ok: "request_ok pad_sha tiny_request" "truthful pad_sha tiny_world"
  by (simp_all add: truthful_def tiny_world_def tiny_env_def keeps_its_word_def right_store_def)

text \<open>C16: bytes are found under their own digest only. Whatever the process has evaluated
  before, joined, dispatched or recovered, with whichever stores that keep their word, and whether
  or not it failed: a buffer that \<open>_get_local_buffer\<close>, \<open>resolve\<close>,
  \<open>resolution\<close> or \<open>fingertip\<close> returns for a checksum has that checksum as its
  digest.\<close>

theorem buffers_found_are_right:
  assumes "list_all (request_ok sha) rs" and "s = serve_all rs (eval_init soft v)"
    and "truthful sha W" and "W = g_world G" and "recovery_ok sha R"
    and "Inr x \<in> {fst (get_local_buffer W c s), fst (resolve W c s), fst (resolution W c s), fst (fingertip G R n c s)}"
  shows "sha (b_content x) = c"
proof -
  have s: "eval_ok sha (eval_init soft v, False) s" unfolding assms(2) by (rule reached_ok [OF assms(1)])
  have "fits sha c x"
    using assms(6) s local_triple [OF assms(3), of "(eval_init soft v, False)" c] resolve_triple [OF assms(3), of "(eval_init soft v, False)" c]
      resolution_triple [OF assms(3), of "(eval_init soft v, False)" c]
      fingertip_triple [OF assms(3) [unfolded assms(4)] assms(5), of "eval_init soft v" n c]
    unfolding triple_def by (auto dest: filed_fits)
  then show ?thesis by (simp add: fits_def)
qed

definition tiny_grid :: "unit grid" where
  "tiny_grid = \<lparr>g_world = tiny_world, g_np_set = no_fields, g_remote = None\<rparr>"

lemma lone_recovery_ok: "recovery_ok sha lone_recovery"
  by (simp add: recovery_ok_def lone_recovery_def triple_ret)

theorem buffers_found_are_right_witness:
  "pad_sha (b_content \<lparr>b_content = sevens_hex, b_checksum = Some (pad_sha sevens_hex)\<rparr>) = pad_sha sevens_hex"
proof (rule buffers_found_are_right [where rs = "[tiny_request]" and soft = 2 and v = tiny_state
      and G = tiny_grid and R = lone_recovery and n = 1])
  have "fst (fingertip tiny_grid lone_recovery 1 (pad_sha sevens_hex) (serve_all [tiny_request] tiny_start))
      = Inr \<lparr>b_content = sevens_hex, b_checksum = Some (pad_sha sevens_hex)\<rparr>"
    by code_simp
  then show "Inr \<lparr>b_content = sevens_hex, b_checksum = Some (pad_sha sevens_hex)\<rparr>
      \<in> {fst (get_local_buffer tiny_world (pad_sha sevens_hex) (serve_all [tiny_request] tiny_start)),
         fst (resolve tiny_world (pad_sha sevens_hex) (serve_all [tiny_request] tiny_start)),
         fst (resolution tiny_world (pad_sha sevens_hex) (serve_all [tiny_request] tiny_start)),
         fst (fingertip tiny_grid lone_recovery 1 (pad_sha sevens_hex) (serve_all [tiny_request] tiny_start))}"
    by simp
qed (use tiny_request_ok lone_recovery_ok in \<open>simp_all add: tiny_grid_def\<close>)

lemma subseq_distinct: "subseq xs ys \<Longrightarrow> distinct ys \<Longrightarrow> distinct xs"
  by (auto simp: subseq_conv_nths distinct_nthsI)

text \<open>C19: results are written once. A result on record keeps its value through everything that
  is evaluated afterwards; what was queued for the database are results on record, each key at
  most once, in the order in which they came.\<close>

theorem results_written_once:
  assumes "list_all (request_ok sha) rs" and "list_all (request_ok sha) rs'"
    and "s = serve_all rs (eval_init soft v)" and "s' = serve_all rs' s"
  shows "(\<forall>k r. dget (es_cache s) k = Some r \<longrightarrow> dget (es_cache s') k = Some r)
    \<and> distinct (map fst (es_records s')) \<and> subseq (es_records s') (es_cache s')
    \<and> prefix (es_records s) (es_records s')"
proof -
  have "eval_ok sha (eval_init soft v, False) s" unfolding assms(3) by (rule reached_ok [OF assms(1)])
  from serve_all_ok [OF assms(2) eval_ok_now [OF this]] have s': "eval_ok sha (s, False) s'" by (simp add: assms(4))
  moreover from this have "distinct (map fst (es_records s'))"
    using subseq_distinct [OF subseq_map [of "es_records s'" "es_cache s'" fst]]
    by (simp add: eval_ok_def dict_wf_def)
  moreover from s' have "subseq (es_records s') (es_cache s')" "prefix (es_records s) (es_records s')"
    by (simp_all add: eval_ok_def)
  ultimately show ?thesis using recorded_stays by blast
qed

theorem results_written_once_witness:
  "let s = serve_all [tiny_request] tiny_start; s' = serve_all [tiny_request, ResultCollected sevens] s
   in (\<forall>k r. dget (es_cache s) k = Some r \<longrightarrow> dget (es_cache s') k = Some r)
    \<and> distinct (map fst (es_records s')) \<and> subseq (es_records s') (es_cache s')
    \<and> prefix (es_records s) (es_records s')"
  unfolding Let_def
  by (rule results_written_once [where sha = pad_sha and rs = "[tiny_request]"
        and rs' = "[tiny_request, ResultCollected sevens]"]) (use tiny_request_ok in simp_all)

section \<open>The same answer again\<close>

lemma tempref_runs:
  assumes "eval_ok sha z s" and "w_sha W = sha"
  obtains s' where "tempref W c None s = (Inr (), s')" "es_cache s' = es_cache s" "eval_ok sha z s'"
proof -
  obtain r s' where run: "tempref W c None s = (r, s')" by fastforce
  moreover have "r = Inr ()"
    using run store_tempref(2) [of sha "es_store s" None c] assms
    by (auto simp: tempref_def on_claims_def eval_ok_def split_beta)
  moreover have "es_cache s' = es_cache s" using run by (auto simp: tempref_def on_claims_def split_beta)
  moreover have "eval_ok sha z s'"
    using tempref_triple [where sha = sha and W = W and x = None and z = z and c = c] run assms unfolding triple_def by force
  ultimately show ?thesis using that by blast
qed

lemma recorded_answers:
  assumes "eval_ok sha z s" and "w_sha W = sha" and "dget (es_cache s) (cache_key_of k) = Some r"
  shows "fst (obind (tempref W c None) (\<lambda>_. unless_cached W False k m) s) = Inr r"
proof -
  from assms(1,2) obtain s1 where s1: "tempref W c None s = (Inr (), s1)" "es_cache s1 = es_cache s" "eval_ok sha z s1"
    by (rule tempref_runs)
  from s1(3) assms(2) obtain s2 where s2: "tempref W r None s1 = (Inr (), s2)" by (rule tempref_runs)
  show ?thesis
    using s1 s2 assms(3) by (simp add: obind_def unless_cached_def tempref_expression_result_def oret_def)
qed



end
