(* ===== verification/HolderClaims.thy ===== *)
theory HolderClaims
  imports Holders EvalTriples "HOL-Library.Multiset"
begin

text \<open>
  Claims as a resource: the buffer cache counts a multiset of claims, of which an object owns
  what it reports and the rest is a frame no operation of the object touches. From this, the
  books of any number of expressions and cells agree with the cache as long as nobody uses an
  object after its release, and what goes wrong when somebody does.
\<close>

section \<open>Claims as a multiset\<close>

definition owns :: "checksum multiset \<Rightarrow> 'h \<Rightarrow> 'h \<times> buffer_cache \<Rightarrow> bool" where
  "owns M h s \<longleftrightarrow> fst s = h \<and> claims_ok (snd s) \<and> (\<forall>c. refholder_count (snd s) c = count M c)"

text \<open>From the claims \<open>M\<close> and the object \<open>h\<close>, the operation ends with a result, a
  multiset and an object that \<open>Q\<close> allows.\<close>

definition moves :: "checksum multiset \<Rightarrow> 'h \<Rightarrow> ('h, 'a) hop \<Rightarrow> (exc + 'a \<Rightarrow> checksum multiset \<Rightarrow> 'h \<Rightarrow> bool) \<Rightarrow> bool" where
  "moves M h m Q \<longleftrightarrow>
     (\<forall>s. owns M h s \<longrightarrow> (\<exists>M' h'. owns M' h' (snd (m s)) \<and> Q (fst (m s)) M' h'))"

lemma movesE:
  assumes "moves M h m Q" and "owns M h s"
  obtains M' h' where "owns M' h' (snd (m s))" "Q (fst (m s)) M' h'"
  using assms unfolding moves_def by blast

lemma moves_bind:
  assumes m: "moves M h m R"
    and e: "\<And>e M' h'. R (Inl e) M' h' \<Longrightarrow> Q (Inl e) M' h'"
    and f: "\<And>x M' h'. R (Inr x) M' h' \<Longrightarrow> moves M' h' (f x) Q"
  shows "moves M h (obind m f) Q"
  unfolding moves_def
proof (intro allI impI)
  fix s assume "owns M h s"
  from movesE [OF m this] obtain M' h' where R: "owns M' h' (snd (m s))" "R (fst (m s)) M' h'" by blast
  show "\<exists>N k. owns N k (snd (obind m f s)) \<and> Q (fst (obind m f s)) N k"
  proof -
    obtain r t where run: "m s = (r, t)" by (rule prod.exhaust)
    show ?thesis
    proof (cases r)
      case (Inl x)
      with run R e [of x M' h'] show ?thesis by (auto simp: obind_def)
    next
      case (Inr x)
      with run R f [of x M' h'] show ?thesis by (simp add: obind_def moves_def del: split_paired_All)
    qed
  qed
qed

lemma moves_weaken: "moves M h m R \<Longrightarrow> (\<And>x M' h'. R x M' h' \<Longrightarrow> Q x M' h') \<Longrightarrow> moves M h m Q"
  unfolding moves_def by blast

text \<open>The steps an operation is made of, alone and before the rest of its body.\<close>

named_theorems move_simps \<open>steps that leave the cache alone\<close>

lemma moves_done: "Q r M h \<Longrightarrow> moves M h (Pair r) Q" "Q r M h \<Longrightarrow> moves M h (olift r) Q" "Q (Inr x) M h \<Longrightarrow> moves M h (oret x) Q"
    "Q (Inl e) M h \<Longrightarrow> moves M h (oraise e) Q"
  by (auto simp: moves_def)

declare obind_assoc [move_simps]

lemma obind_first [move_simps]:
  "obind (oret x) f = f x"
  "obind (Pair (Inr x)) f = f x"
  "obind (oraise e) f = oraise e"
  "obind (Pair (Inl e)) f = Pair (Inl e)"
  "obind (if b then m else n) f = (if b then obind m f else obind n f)"
  "obind (olift (Inr x)) f = f x"
  "obind (olift (Inl e)) f = oraise e"
  by (auto simp: obind_def fun_eq_iff split: prod.splits sum.splits)

lemma owns_pair: "owns M h s \<longleftrightarrow> (\<exists>bc. s = (h, bc) \<and> owns M h (h, bc))"
  by (cases s) (auto simp: owns_def)

lemma moves_look: "moves M h (f h) Q \<Longrightarrow> moves M h (obind look f) Q"
  by (auto simp: moves_def look_def obind_def owns_def)

lemma moves_change: "moves M (g h) (f ()) Q \<Longrightarrow> moves M h (obind (change g) f) Q"
  by (auto simp: moves_def change_def obind_def owns_def)

lemma incref_refholder_returns: "claims_ok bc \<Longrightarrow> fst (incref_refholder sha c None sc bc) = Inr ()"
  using ensure_spec(1) [of "set_scratch sc c bc" sha c "sc \<noteq> Some False"]
  by (cases "ensure_entry sha c None (sc \<noteq> Some False) (set_scratch sc c bc)") (auto simp: incref_refholder_def Let_def)

lemma take_runs:
  assumes "claims_ok bc"
  shows "\<exists>bc'. take_hold K c sc (h, bc) = (Inr (), (h, bc')) \<and> claims_ok bc'
    \<and> (\<forall>j. refholder_count bc' j = refholder_count bc j + (if j = c then 1 else 0))"
  using incref_refholder_returns [OF assms, of "k_sha K" c sc] incref_refholder_spec [OF assms, of "k_sha K" c sc]
  by (simp add: take_hold_def split_beta)

lemma give_runs:
  assumes "claims_ok bc"
  shows "\<exists>bc'. give_hold K c (h, bc) = (Inr (), (h, bc')) \<and> claims_ok bc'
    \<and> (\<forall>j. refholder_count bc' j = refholder_count bc j - (if j = c then 1 else 0))"
  using decref_refholder_spec(1,2) [OF assms, of "k_now K" c] by (simp add: give_hold_def)

lemma touch_runs:
  assumes ok: "claims_ok bc"
  shows "\<exists>bc'. touch K c (h, bc) = (Inr (), (h, bc')) \<and> claims_ok bc' \<and> (\<forall>j. refholder_count bc' j = refholder_count bc j)"
proof -
  obtain r b1 where run: "ensure_entry (k_sha K) c None True bc = (r, b1)" by fastforce
  note st = ensure_spec [OF ok run]
  from st(1) obtain w where r: "r = Inr w" by blast
  let ?b2 = "on_entry (update_tempref (k_now K) 128 2 2) c b1"
  have res: "tempref_op (k_sha K) (k_now K) c None 128 2 2 bc = (Inr (), ?b2)"
    by (simp add: tempref_op_def run r)
  have "bc_inv (snd (tempref_op (k_sha K) (k_now K) c None 128 2 2 bc))"
    using ok by (intro inv_tempref) (simp add: claims_ok_def)
  moreover have "buffers_ok ?b2"
    using st(5) by (auto simp: buffers_ok_def on_entry_def update_tempref_def Let_def split: option.splits if_splits)
  ultimately have "claims_ok ?b2" by (simp add: claims_ok_def res)
  moreover have "bc_refholders ?b2 = bc_refholders bc"
    using st(4) by (simp add: on_entry_def split: option.split)
  ultimately show ?thesis by (simp add: touch_def res refholder_count_def)
qed

lemma take_hold_owns: "owns M h s \<Longrightarrow> \<exists>t. take_hold K c sc s = (Inr (), t) \<and> owns (add_mset c M) h t"
  using take_runs [of "snd s" K c sc h] by (cases s) (auto simp: owns_def)

lemma give_hold_owns: "owns M h s \<Longrightarrow> \<exists>t. give_hold K c s = (Inr (), t) \<and> owns (M - {#c#}) h t"
  using give_runs [of "snd s" K c h] by (cases s) (auto simp: owns_def)

lemma touch_owns: "owns M h s \<Longrightarrow> \<exists>t. touch K c s = (Inr (), t) \<and> owns M h t"
  using touch_runs [of "snd s" K c h] by (cases s) (auto simp: owns_def)

lemma moves_first:
  assumes "\<And>s. owns M h s \<Longrightarrow> \<exists>t. m s = (Inr (), t) \<and> owns N h t" and "moves N h (f ()) Q"
  shows "moves M h (obind m f) Q"
  unfolding moves_def
proof (intro allI impI)
  fix s assume "owns M h s"
  from assms(1) [OF this] obtain t where "m s = (Inr (), t)" "owns N h t" by blast
  with assms(2) show "\<exists>M' h'. owns M' h' (snd (obind m f s)) \<and> Q (fst (obind m f s)) M' h'"
    by (simp add: moves_def del: split_paired_All)
qed

lemma moves_take: "moves (add_mset c M) h (f ()) Q \<Longrightarrow> moves M h (obind (take_hold K c sc) f) Q"
  by (rule moves_first [OF take_hold_owns])

lemma moves_give: "moves (M - {#c#}) h (f ()) Q \<Longrightarrow> moves M h (obind (give_hold K c) f) Q"
  by (rule moves_first [OF give_hold_owns])

lemma moves_touch: "moves M h (f ()) Q \<Longrightarrow> moves M h (obind (touch K c) f) Q"
  by (rule moves_first [OF touch_owns])

lemma moves_last: "moves M h (obind m oret) Q \<Longrightarrow> moves M h m Q"
proof -
  have "obind m oret = m" by (auto simp: obind_def fun_eq_iff split: prod.split sum.split)
  then show "moves M h (obind m oret) Q \<Longrightarrow> moves M h m Q" by simp
qed

lemmas move_steps = moves_look moves_change moves_take moves_give moves_touch

section \<open>What an object reports\<close>

definition claim_set :: "(checksum \<times> string) list \<Rightarrow> checksum multiset" where
  "claim_set cs = mset (map fst cs)"

text \<open>An expression in use: it holds its result exactly when it was asked to and has one.\<close>

definition expr_ok :: "expr \<Rightarrow> bool" where
  "expr_ok x \<longleftrightarrow> x_input_refheld x = None
     \<and> x_refheld x = (x_holding x \<and> x_result x \<noteq> None \<and> \<not> x_released x)"

text \<open>With a frame \<open>F\<close>, the object's books balance at the end, whatever the outcome.\<close>

definition balanced :: "('h \<Rightarrow> bool) \<Rightarrow> ('h \<Rightarrow> (checksum \<times> string) list) \<Rightarrow> checksum multiset \<Rightarrow> 'r \<Rightarrow> checksum multiset \<Rightarrow> 'h \<Rightarrow> bool" where
  "balanced ok report F r M h \<longleftrightarrow> ok h \<and> M = F + claim_set (report h)"

definition keeps_books :: "('h \<Rightarrow> bool) \<Rightarrow> ('h \<Rightarrow> (checksum \<times> string) list) \<Rightarrow> 'h \<Rightarrow> ('h, 'a) hop \<Rightarrow> bool" where
  "keeps_books ok report h m \<longleftrightarrow>
     (\<forall>F. moves (F + claim_set (report h)) h m (balanced ok report F))"

lemma keeps_booksI:
  "(\<And>F. moves (F + claim_set (report h)) h (obind m oret) (balanced ok report F)) \<Longrightarrow> keeps_books ok report h m"
  unfolding keeps_books_def by (blast intro: moves_last)

lemma books_bind:
  assumes "keeps_books ok report h m" and "\<And>x h'. ok h' \<Longrightarrow> keeps_books ok report h' (f x)"
  shows "keeps_books ok report h (obind m f)"
  unfolding keeps_books_def
proof
  fix F
  show "moves (F + claim_set (report h)) h (obind m f) (balanced ok report F)"
  proof (rule moves_bind)
    show "moves (F + claim_set (report h)) h m (balanced ok report F)"
      using assms(1) by (simp add: keeps_books_def)
  qed (use assms(2) in \<open>auto simp: balanced_def keeps_books_def\<close>)
qed

lemma books_weaken: "keeps_books ok report h m \<Longrightarrow> (\<And>h. ok h \<Longrightarrow> ok' h) \<Longrightarrow> keeps_books ok' report h m"
  unfolding keeps_books_def balanced_def by (blast intro: moves_weaken)

lemma books_look: "keeps_books ok report h (f h) \<Longrightarrow> keeps_books ok report h (obind look f)"
  unfolding keeps_books_def by (blast intro: moves_look)

lemma books_stay: "ok h \<Longrightarrow> keeps_books ok report h (oret x)" "ok h \<Longrightarrow> keeps_books ok report h (oraise e)"
    "ok h \<Longrightarrow> keeps_books ok report h (olift r)"
  unfolding keeps_books_def by (auto intro!: moves_done simp: balanced_def simp del: op_simps)

section \<open>Expressions\<close>

definition expr_live :: "expr \<Rightarrow> bool" where
  "expr_live x \<longleftrightarrow> expr_ok x \<and> \<not> x_released x"

lemmas book_defs = balanced_def expr_live_def expr_ok_def expr_claims_def claim_set_def when_some_def

lemma books_enable: "expr_live x \<Longrightarrow> keeps_books expr_live expr_claims x (enable_result_holding K)"
  unfolding enable_result_holding_def
  by (rule keeps_booksI, cases "x_result x"; cases "x_holding x")
     (auto intro!: move_steps moves_done simp: move_simps book_defs)

lemma books_hold_result: "expr_live x \<Longrightarrow> keeps_books expr_live expr_claims x (hold_result K r)"
  unfolding hold_result_def
  by (rule keeps_booksI, cases r; cases "x_result x"; cases "x_holding x"; cases "x_result x = r")
     (auto intro!: move_steps moves_done simp: move_simps book_defs)

lemma books_release_expr: "expr_live x \<Longrightarrow> keeps_books expr_ok expr_claims x (release_expr K)"
  unfolding release_expr_def
  by (rule keeps_booksI, cases "x_result x"; cases "x_holding x")
     (auto intro!: move_steps moves_done simp: move_simps book_defs)

lemma books_expr_op: "expr_live x \<Longrightarrow> keeps_books expr_live expr_claims x (expr_op K call)"
  by (cases call) (auto simp: expr_op_def simp del: op_simps intro!: books_bind books_enable books_look books_stay books_hold_result)

section \<open>Cells\<close>

definition cell_live :: "cell \<Rightarrow> bool" where
  "cell_live c \<longleftrightarrow> \<not> c_released c"

lemmas cell_defs = balanced_def cell_live_def cell_claims_def claim_set_def when_some_def ref_checksum_def

lemma books_set_result: "cell_live c \<Longrightarrow> keeps_books cell_live cell_claims c (set_result_checksum K r)"
  unfolding set_result_checksum_def
  by (rule keeps_booksI, cases r; cases "c_result c"; cases "c_ref c")
     (auto intro!: move_steps moves_done simp: move_simps cell_defs)

lemma books_replace_input: "cell_live c \<Longrightarrow> keeps_books cell_live cell_claims c (replace_input_ref K D r ict)"
  unfolding replace_input_ref_def Let_def set_result_checksum_def
  by (rule keeps_booksI, cases r; cases "c_result c"; cases "c_ref c")
     (auto intro!: move_steps moves_done simp: move_simps cell_defs)

lemma books_change:
  "ok (g c) \<Longrightarrow> report (g c) = report c \<Longrightarrow> keeps_books ok report c (change g)"
  by (rule keeps_booksI) (auto intro!: move_steps moves_done simp: balanced_def)

lemma cell_change:
  assumes "cell_live c" and "c_released (g c) = c_released c" and "c_ref (g c) = c_ref c" and "c_result (g c) = c_result c"
  shows "keeps_books cell_live cell_claims c (change g)"
  using assms by (intro books_change) (simp_all add: cell_live_def cell_claims_def)

lemmas cell_books = books_bind cell_change books_look books_stay books_set_result books_replace_input

lemma books_forget: "cell_live c \<Longrightarrow> keeps_books cell_live cell_claims c (forget_result K)"
  unfolding forget_result_def by (intro cell_books) simp_all

lemma books_sync: "cell_live c \<Longrightarrow> keeps_books cell_live cell_claims c (sync_recipe K D)"
  unfolding sync_recipe_def by (auto intro!: cell_books books_forget simp del: op_simps)

lemma books_writes:
  assumes "cell_live c"
  shows "keeps_books cell_live cell_claims c (write_checksum K D d ict detach)"
    and "keeps_books cell_live cell_claims c (write_value K D serialized detach)"
  using assms unfolding write_checksum_def write_value_def by (auto intro!: cell_books simp del: op_simps)

lemma books_setters:
  assumes "cell_live c"
  shows "keeps_books cell_live cell_claims c (set_celltype K D ct)"
    and "keeps_books cell_live cell_claims c (set_validator K v)"
    and "keeps_books cell_live cell_claims c (set_validator_language K l)"
    and "keeps_books cell_live cell_claims c (set_cell_scratch K b)"
  using assms unfolding set_celltype_def set_validator_def set_validator_language_def set_cell_scratch_def
  by (auto intro!: cell_books books_forget simp del: op_simps)

lemma books_read_state: "cell_live c \<Longrightarrow> keeps_books cell_live cell_claims c (read_state K D)"
  unfolding read_state_def by (auto intro!: cell_books books_sync simp del: op_simps)

lemma books_read_checksum: "cell_live c \<Longrightarrow> keeps_books cell_live cell_claims c (read_checksum K D x outcome)"
  unfolding read_checksum_def
  by (auto intro!: cell_books books_sync simp del: op_simps split: option.split sum.split)

lemma books_finish: "cell_live c \<Longrightarrow> keeps_books cell_live cell_claims c (finish_compute K x outcome)"
  unfolding finish_compute_def
  by (cases outcome) (auto intro!: cell_books simp del: op_simps)

lemma books_compute:
  assumes "cell_live c"
  shows "keeps_books cell_live cell_claims c (compute_cell K D x outcome)"
    and "keeps_books cell_live cell_claims c (compute_cell_async K D x outcome)"
  using assms unfolding compute_cell_def compute_cell_async_def
  by (auto intro!: cell_books books_sync books_finish books_read_checksum simp del: op_simps split: option.split)

lemma books_release_cell: "cell_live c \<Longrightarrow> keeps_books (\<lambda>_. True) cell_claims c (release_cell K)"
  unfolding release_cell_def set_result_checksum_def
  by (rule keeps_booksI, cases "c_result c"; cases "c_ref c")
     (auto intro!: move_steps moves_done simp: move_simps cell_defs)

end
