(* ===== verification/HolderRuns.thy ===== *)
theory HolderRuns
  imports HolderClaims
begin

text \<open>
  Any number of expressions and cells over one buffer cache: objects are built, called and
  released in any order. Their interface to the books is a locale; the properties say when the
  audit finds nothing, and what a released object does to the books.
\<close>

section \<open>A collection of objects\<close>

datatype ('b, 'o) event = Build nat 'b | Call nat 'o

definition object_step ::
  "((nat, 'h) dict \<Rightarrow> 'b \<Rightarrow> ('h \<times> ('h, unit) hop) result) \<Rightarrow> ((nat, 'h) dict \<Rightarrow> 'o \<Rightarrow> ('h, unit) hop)
     \<Rightarrow> ('b, 'o) event \<Rightarrow> (nat, 'h) dict \<times> buffer_cache \<Rightarrow> (nat, 'h) dict \<times> buffer_cache"
where
  "object_step build run ev = (\<lambda>(D, bc).
     case ev of
       Build i b \<Rightarrow>
         (case (dget D i, build D b) of
            (None, Inr (h, m)) \<Rightarrow>
              (case m (h, bc) of
                 (Inr _, (h', bc')) \<Rightarrow> (dset i h' D, bc')
               | (Inl _, (h', bc')) \<Rightarrow> (D, bc'))
          | _ \<Rightarrow> (D, bc))
     | Call i x \<Rightarrow>
         (case dget D i of
            None \<Rightarrow> (D, bc)
          | Some h \<Rightarrow> (case run D x (h, bc) of (_, (h', bc')) \<Rightarrow> (dset i h' D, bc'))))"

definition all_claims :: "('h \<Rightarrow> (checksum \<times> string) list) \<Rightarrow> (nat, 'h) dict \<Rightarrow> checksum multiset" where
  "all_claims report D = (\<Sum>(i, h)\<leftarrow>D. claim_set (report h))"

text \<open>Nobody calls a released object.\<close>

definition in_use :: "('h \<Rightarrow> bool) \<Rightarrow> ('b, 'o) event \<Rightarrow> (nat, 'h) dict \<Rightarrow> bool" where
  "in_use released ev D = (case ev of Build _ _ \<Rightarrow> True | Call i _ \<Rightarrow> (case dget D i of None \<Rightarrow> True | Some h \<Rightarrow> \<not> released h))"

lemma all_claims_simps [simp]:
  "all_claims report [] = {#}"
  "all_claims report ((i, h) # D) = claim_set (report h) + all_claims report D"
  by (simp_all add: all_claims_def)

lemma all_claims_set: "dget D i = Some h \<Longrightarrow> all_claims report (dset i h' D) + claim_set (report h) = all_claims report D + claim_set (report h')"
  by (induction D) (auto simp: ac_simps split: if_splits)

lemma all_claims_new: "dget D i = None \<Longrightarrow> all_claims report (dset i h' D) = all_claims report D + claim_set (report h')"
  by (induction D) (auto simp: ac_simps split: if_splits)

section \<open>What the books ask of a class\<close>

text \<open>A call keeps the books of the object it is on; a new object opens its own, and the
  constructor's claims cannot fail.\<close>

definition opens_books :: "('h \<Rightarrow> bool) \<Rightarrow> ('h \<Rightarrow> (checksum \<times> string) list) \<Rightarrow> 'h \<Rightarrow> ('h, 'a) hop \<Rightarrow> bool" where
  "opens_books ok report h m \<longleftrightarrow> (\<forall>F. moves F h m (\<lambda>r N h'. balanced ok report F r N h' \<and> (\<exists>x. r = Inr x)))"

locale claim_holder =
  fixes ok :: "'h \<Rightarrow> bool" and released :: "'h \<Rightarrow> bool"
    and report :: "'h \<Rightarrow> (checksum \<times> string) list"
    and build :: "(nat, 'h) dict \<Rightarrow> 'b \<Rightarrow> ('h \<times> ('h, unit) hop) result"
    and run :: "(nat, 'h) dict \<Rightarrow> 'o \<Rightarrow> ('h, unit) hop"
  assumes run_books: "ok h \<Longrightarrow> \<not> released h \<Longrightarrow> keeps_books ok report h (run D x)"
    and build_books: "build D b = Inr (h, m) \<Longrightarrow> opens_books ok report h m"
    and released_reports: "released h \<Longrightarrow> report h = []"
begin

definition settled_books :: "checksum multiset \<Rightarrow> (nat, 'h) dict \<times> buffer_cache \<Rightarrow> bool" where
  "settled_books F s \<longleftrightarrow> (\<forall>i h. dget (fst s) i = Some h \<longrightarrow> ok h)
     \<and> owns (F + all_claims report (fst s)) () ((), snd s)"

lemma settled_step:
  assumes s: "settled_books F (D, bc)" and use: "in_use released ev D"
  shows "settled_books F (object_step build run ev (D, bc))"
proof (cases ev)
  case (Call i x)
  show ?thesis
  proof (cases "dget D i")
    case (Some h)
    obtain R where R: "all_claims report D = R + claim_set (report h)"
    proof -
      have "claim_set (report h) \<subseteq># all_claims report D"
        using Some by (induction D) (auto split: if_splits intro: subset_mset.trans)
      then show ?thesis using that by (metis subset_mset.diff_add)
    qed
    have own: "owns ((F + R) + claim_set (report h)) h (h, bc)"
      using s R by (simp add: settled_books_def owns_def add.assoc)
    have "keeps_books ok report h (run D x)"
      using run_books [of h D x] s use Some Call by (auto simp: settled_books_def in_use_def)
    then have "moves ((F + R) + claim_set (report h)) h (run D x) (balanced ok report (F + R))"
      by (simp add: keeps_books_def)
    from this own obtain N h' where
      run: "owns N h' (snd (run D x (h, bc)))" and N: "ok h'" "N = F + R + claim_set (report h')"
      unfolding balanced_def by (rule movesE) blast
    have "all_claims report (dset i h' D) = R + claim_set (report h')"
      using all_claims_set [OF Some, of report h'] R by (simp add: ac_simps)
    with run N s show ?thesis
      by (auto simp: Call Some object_step_def settled_books_def owns_def add.assoc split: prod.splits)
  qed (use s Call in \<open>simp add: object_step_def\<close>)
next
  case (Build i b)
  show ?thesis
  proof (cases "\<exists>h m. dget D i = None \<and> build D b = Inr (h, m)")
    case True
    then obtain h m where new: "dget D i = None" "build D b = Inr (h, m)" by blast
    have "moves (F + all_claims report D) h m (\<lambda>r N h'. balanced ok report (F + all_claims report D) r N h' \<and> (\<exists>x. r = Inr x))"
      using build_books [OF new(2)] by (simp add: opens_books_def)
    moreover have "owns (F + all_claims report D) h (h, bc)" using s by (simp add: settled_books_def owns_def)
    ultimately obtain N h' x where
      run: "owns N h' (snd (m (h, bc)))" "fst (m (h, bc)) = Inr x" and N: "ok h'" "N = F + all_claims report D + claim_set (report h')"
      unfolding balanced_def by (rule movesE) blast
    with s show ?thesis
      by (auto simp: Build new object_step_def settled_books_def owns_def all_claims_new add.assoc split: prod.splits if_splits)
  qed (use s Build in \<open>auto simp: object_step_def split: option.splits sum.splits\<close>)
qed

lemma all_released:
  "list_all (\<lambda>(i, h). released h) D \<Longrightarrow> all_claims report D = {#}"
  by (induction D) (auto simp: released_reports claim_set_def)

end

section \<open>Expressions and cells\<close>

datatype expr_make = MakeExpr "checksum option" | CopyExprOf nat "checksum option" | ExprWithResult "checksum option" "checksum option"

datatype expr_use = UseExpr expr_call | ReleaseExpr

definition expr_build :: "surroundings \<Rightarrow> (nat, expr) dict \<Rightarrow> expr_make \<Rightarrow> (expr \<times> (expr, unit) hop) result" where
  "expr_build K D b =
     (case b of
        MakeExpr input \<Rightarrow> Inr (fresh_expr, new_expr K input)
      | CopyExprOf j input \<Rightarrow>
          (case dget D j of
             None \<Rightarrow> Inl KeyError
           | Some x \<Rightarrow> Inr (fresh_expr, obind (new_expr K input) (\<lambda>_. copy_expr K x)))
      | ExprWithResult input r \<Rightarrow> Inr (fresh_expr, obind (new_expr K input) (\<lambda>_. with_result r)))"

definition expr_run :: "surroundings \<Rightarrow> (nat, expr) dict \<Rightarrow> expr_use \<Rightarrow> (expr, unit) hop" where
  "expr_run K D x = (case x of UseExpr call \<Rightarrow> obind (expr_op K call) (\<lambda>_. oret ()) | ReleaseExpr \<Rightarrow> release_expr K)"

datatype cell_make =
    MakeCell "celltype option" cell_input "celltype option" "nat option" "ustr option"
  | CopyCellOf nat | ItemOf nat lit | SliceOf nat "lit option" "lit option" "lit option" | ConversionOf nat celltype

datatype cell_use =
    WriteChecksum "checksum option" "celltype option" bool | WriteValue "checksum result" bool
  | ReplaceInput ref "celltype option"
  | SetCelltype celltype | SetValidator "nat option" | SetLanguage "ustr option" | SetScratch bool
  | ReadChecksum nat "checksum option result" | ReadState
  | ComputeCell nat "checksum option result" | ComputeAsync nat "checksum option result" | ReleaseCell

definition cell_build :: "surroundings \<Rightarrow> cells \<Rightarrow> cell_make \<Rightarrow> (cell \<times> (cell, unit) hop) result" where
  "cell_build K D b =
     (let start = (\<lambda>fields. rbind fields (\<lambda>c. Inr (c, new_cell K))) in
      case b of
        MakeCell ct a ict v l \<Rightarrow> start (cell_fields K D ct a ict v l)
      | CopyCellOf j \<Rightarrow> (case dget D j of None \<Rightarrow> Inl KeyError | Some c \<Rightarrow> Inr (c, copy_cell K c))
      | ItemOf j key \<Rightarrow> start (item_fields K D j key)
      | SliceOf j a b c \<Rightarrow> start (slice_fields K D j a b c)
      | ConversionOf j ct \<Rightarrow> start (conversion_fields K D j ct))"

definition discard :: "('h, 'a) hop \<Rightarrow> ('h, unit) hop" where
  "discard m = obind m (\<lambda>_. oret ())"

definition cell_run :: "surroundings \<Rightarrow> cells \<Rightarrow> cell_use \<Rightarrow> (cell, unit) hop" where
  "cell_run K D x =
     (case x of
        WriteChecksum d ict detach \<Rightarrow> write_checksum K D d ict detach
      | WriteValue d detach \<Rightarrow> write_value K D d detach
      | ReplaceInput r ict \<Rightarrow> replace_input_ref K D r ict
      | SetCelltype ct \<Rightarrow> set_celltype K D ct
      | SetValidator v \<Rightarrow> set_validator K v
      | SetLanguage l \<Rightarrow> set_validator_language K l
      | SetScratch b \<Rightarrow> set_cell_scratch K b
      | ReadChecksum e r \<Rightarrow> discard (read_checksum K D e r)
      | ReadState \<Rightarrow> discard (read_state K D)
      | ComputeCell e r \<Rightarrow> discard (compute_cell K D e r)
      | ComputeAsync e r \<Rightarrow> discard (compute_cell_async K D e r)
      | ReleaseCell \<Rightarrow> release_cell K)"

lemma opens_booksI:
  "(\<And>F. moves F h (obind m oret) (\<lambda>r N h'. balanced ok report F r N h' \<and> (\<exists>x. r = Inr x))) \<Longrightarrow> opens_books ok report h m"
  unfolding opens_books_def by (blast intro: moves_last)

lemma opens_expr:
  assumes "expr_build K D b = Inr (x, m)"
  shows "opens_books expr_ok expr_claims x m"
proof (cases b)
  case (MakeExpr input)
  with assms show ?thesis
    by (intro opens_booksI, cases input)
       (auto intro!: move_steps moves_done simp: move_simps book_defs fresh_expr_def expr_build_def new_expr_def)
next
  case (CopyExprOf j input)
  with assms obtain y where y: "dget D j = Some y" and x: "x = fresh_expr"
      and m: "m = obind (new_expr K input) (\<lambda>_. copy_expr K y)"
    by (auto simp: expr_build_def split: option.splits)
  show ?thesis unfolding x m copy_expr_def release_expr_def new_expr_def
    by (rule opens_booksI, cases input; cases "x_result y"; cases "x_holding y"; cases "x_released y")
       (auto intro!: move_steps moves_done simp: move_simps book_defs fresh_expr_def)
next
  case (ExprWithResult input r)
  with assms have x: "x = fresh_expr" and m: "m = obind (new_expr K input) (\<lambda>_. with_result r)"
    by (auto simp: expr_build_def)
  show ?thesis unfolding x m with_result_def new_expr_def
    by (rule opens_booksI, cases input; cases r)
       (auto intro!: move_steps moves_done simp: move_simps book_defs fresh_expr_def)
qed

lemma keeps_expr:
  assumes "expr_ok x" and "\<not> x_released x"
  shows "keeps_books expr_ok expr_claims x (expr_run K D call)"
proof (cases call)
  case (UseExpr c)
  have "expr_live x" using assms by (simp add: expr_live_def)
  then have "keeps_books expr_live expr_claims x (expr_run K D call)"
    by (auto simp: UseExpr expr_run_def simp del: op_simps intro!: books_bind books_expr_op books_stay)
  then show ?thesis by (rule books_weaken) (simp add: expr_live_def)
qed (use assms in \<open>simp add: expr_run_def books_release_expr expr_live_def\<close>)

interpretation exprs: claim_holder expr_ok x_released expr_claims "expr_build K" "expr_run K" for K
  by unfold_locales (simp_all add: opens_expr keeps_expr expr_claims_def)

lemma fresh_cell:
  assumes "cell_fields K D ct a ict v l = Inr c"
  shows "\<not> c_released c" and "c_result c = None"
  using assms by (auto simp: cell_fields_def rbind_Inr_iff Let_def split: if_splits)

lemma opens_new_cell:
  "\<not> c_released c \<Longrightarrow> c_result c = None \<Longrightarrow> opens_books (\<lambda>_. True) cell_claims c (new_cell K)"
  unfolding new_cell_def
  by (rule opens_booksI, cases "c_ref c")
     (auto intro!: move_steps moves_done simp: move_simps cell_defs)

lemma opens_cell:
  assumes "cell_build K D b = Inr (c, m)"
  shows "opens_books (\<lambda>_. True) cell_claims c m"
proof (cases b)
  case (CopyCellOf j)
  with assms obtain y where m: "m = copy_cell K y" by (auto simp: cell_build_def split: option.splits)
  show ?thesis unfolding m copy_cell_def set_result_checksum_def
    by (rule opens_booksI, cases "c_result y"; cases "c_ref y"; cases "c_released y")
       (auto intro!: move_steps moves_done simp: move_simps cell_defs)
qed (use assms in \<open>auto simp: cell_build_def rbind_Inr_iff item_fields_def slice_fields_def conversion_fields_def
       intro!: opens_new_cell dest: fresh_cell\<close>)

lemma keeps_cell:
  assumes "\<not> c_released c"
  shows "keeps_books (\<lambda>_. True) cell_claims c (cell_run K D x)"
proof -
  have live: "cell_live c" using assms by (simp add: cell_live_def)
  show ?thesis
  proof (cases "x = ReleaseCell")
    case False
    then have "keeps_books cell_live cell_claims c (cell_run K D x)" using live
      by (cases x) (auto simp: cell_run_def discard_def simp del: op_simps
          intro!: books_bind books_writes books_replace_input books_setters books_read_checksum books_read_state books_compute books_stay)
    then show ?thesis by (rule books_weaken) simp
  qed (simp add: cell_run_def books_release_cell [OF live])
qed

interpretation cells: claim_holder "\<lambda>_. True" c_released cell_claims "cell_build K" "cell_run K" for K
  by unfold_locales (simp_all add: opens_cell keeps_cell cell_claims_def)

section \<open>A session\<close>

record session =
  ses_exprs :: "(nat, expr) dict"
  ses_cells :: cells
  ses_cache :: buffer_cache

datatype act = OnExprs "(expr_make, expr_use) event" | OnCells "(cell_make, cell_use) event"

definition session_step :: "surroundings \<Rightarrow> act \<Rightarrow> session \<Rightarrow> session" where
  "session_step K a s =
     (case a of
        OnExprs ev \<Rightarrow>
          (case object_step (expr_build K) (expr_run K) ev (ses_exprs s, ses_cache s) of
             (D, bc) \<Rightarrow> s\<lparr>ses_exprs := D, ses_cache := bc\<rparr>)
      | OnCells ev \<Rightarrow>
          (case object_step (cell_build K) (cell_run K) ev (ses_cells s, ses_cache s) of
             (D, bc) \<Rightarrow> s\<lparr>ses_cells := D, ses_cache := bc\<rparr>))"

definition session_run :: "surroundings \<Rightarrow> act list \<Rightarrow> session \<Rightarrow> session" where
  "session_run K acts s = fold (session_step K) acts s"

definition new_session :: "nat \<Rightarrow> session" where
  "new_session limit = \<lparr>ses_exprs = [], ses_cells = [], ses_cache = cache_init limit\<rparr>"

definition act_in_use :: "act \<Rightarrow> session \<Rightarrow> bool" where
  "act_in_use a s = (case a of OnExprs ev \<Rightarrow> in_use x_released ev (ses_exprs s) | OnCells ev \<Rightarrow> in_use c_released ev (ses_cells s))"

fun used_well :: "surroundings \<Rightarrow> act list \<Rightarrow> session \<Rightarrow> bool" where
  "used_well K [] s = True"
| "used_well K (a # acts) s = (act_in_use a s \<and> used_well K acts (session_step K a s))"

text \<open>The objects as the audit sees them.\<close>

definition holder_of :: "string \<Rightarrow> nat \<Rightarrow> (checksum \<times> string) list \<Rightarrow> holder" where
  "holder_of class i cs = \<lparr>hd_id = i, hd_type = u class, hd_entries = Inr (map (\<lambda>(c, role). Claim c (u role)) cs)\<rparr>"

definition session_holders :: "session \<Rightarrow> holder list" where
  "session_holders s =
     map (\<lambda>(i, x). holder_of ''Expression'' (2 * i) (expr_claims x)) (ses_exprs s) @
     map (\<lambda>(i, c). holder_of ''Cell'' (2 * i + 1) (cell_claims c)) (ses_cells s)"

lemma entry_count_holder: "entry_count c (map (\<lambda>(c, role). Claim c (u role)) cs) = count (claim_set cs) c"
  by (induction cs) (auto simp: claim_set_def)

lemma claim_count_holders:
  "claim_count (map (\<lambda>(i, x). holder_of class (f i) (report x)) D) c = count (all_claims report D) c"
  by (induction D) (auto simp: claim_count_def holder_of_def entry_count_holder)

lemma claim_count_append: "claim_count (xs @ ys) c = claim_count xs c + claim_count ys c"
  by (simp add: claim_count_def)

lemma session_claims:
  "claim_count (session_holders s) c = count (all_claims expr_claims (ses_exprs s) + all_claims cell_claims (ses_cells s)) c"
  by (simp add: session_holders_def claim_count_append claim_count_holders)

lemma holders_behave: "list_all well_behaved (session_holders s)"
  by (auto simp: session_holders_def list_all_iff well_behaved_def holder_of_def)

definition session_ok :: "session \<Rightarrow> bool" where
  "session_ok s \<longleftrightarrow> exprs.settled_books (all_claims cell_claims (ses_cells s)) (ses_exprs s, ses_cache s)"

lemma session_ok_cells:
  "session_ok s \<longleftrightarrow> (\<forall>i x. dget (ses_exprs s) i = Some x \<longrightarrow> expr_ok x)
     \<and> cells.settled_books (all_claims expr_claims (ses_exprs s)) (ses_cells s, ses_cache s)"
  by (auto simp: session_ok_def exprs.settled_books_def cells.settled_books_def add.commute)

lemma session_ok_step:
  assumes "session_ok s" and "act_in_use a s"
  shows "session_ok (session_step K a s)"
proof (cases a)
  case (OnExprs ev)
  have "exprs.settled_books (all_claims cell_claims (ses_cells s)) (object_step (expr_build K) (expr_run K) ev (ses_exprs s, ses_cache s))"
    using assms OnExprs by (intro exprs.settled_step) (simp_all add: session_ok_def act_in_use_def)
  then show ?thesis
    by (cases "object_step (expr_build K) (expr_run K) ev (ses_exprs s, ses_cache s)")
       (simp add: OnExprs session_step_def session_ok_def)
next
  case (OnCells ev)
  have "cells.settled_books (all_claims expr_claims (ses_exprs s)) (object_step (cell_build K) (cell_run K) ev (ses_cells s, ses_cache s))"
    using assms OnCells by (intro cells.settled_step) (simp_all add: session_ok_cells act_in_use_def)
  then show ?thesis using assms(1)
    by (cases "object_step (cell_build K) (cell_run K) ev (ses_cells s, ses_cache s)")
       (simp add: OnCells session_step_def session_ok_cells)
qed

lemma session_ok_run: "session_ok s \<Longrightarrow> used_well K acts s \<Longrightarrow> session_ok (session_run K acts s)"
  by (induction acts arbitrary: s) (simp_all add: session_run_def session_ok_step)

lemma session_ok_new: "session_ok (new_session limit)"
  using inv_init [of limit]
  by (simp add: session_ok_def exprs.settled_books_def new_session_def owns_def claims_ok_def buffers_ok_def
      refholder_count_def cache_init_def)

lemma session_books: "session_ok s \<Longrightarrow> claims_ok (ses_cache s) \<and> refholder_count (ses_cache s) = claim_count (session_holders s)"
  by (simp add: session_ok_def exprs.settled_books_def owns_def session_claims fun_eq_iff)

text \<open>C21: whatever expressions and cells are built, copied, written, configured, read, computed
  and released, in any order and with any outcomes of the evaluations, the books balance as
  long as nobody calls an object after its release: the cache counts for every checksum
  exactly the claims the objects report, so that the audit has nothing to say of refholders,
  and once all objects are released no claim is left.\<close>

theorem audit_silent_in_use:
  assumes "used_well K acts (new_session limit)"
  shows "let s = session_run K acts (new_session limit) in
    refholder_count (ses_cache s) = claim_count (session_holders s)
    \<and> fst (audit_reference_accounting False (ses_cache s) (session_holders s) False warned) = []
    \<and> (list_all (\<lambda>(i, x). x_released x) (ses_exprs s) \<longrightarrow> list_all (\<lambda>(i, c). c_released c) (ses_cells s)
         \<longrightarrow> refholder_count (ses_cache s) c = 0)"
proof -
  define s where "s = session_run K acts (new_session limit)"
  have ok: "session_ok s" using session_ok_run [OF session_ok_new assms] by (simp add: s_def)
  note books = session_books [OF this]
  have "bc_inv (ses_cache s)" using books by (simp add: claims_ok_def)
  from audit_silent [OF this holders_behave, of s warned] books
  have "fst (audit_reference_accounting False (ses_cache s) (session_holders s) False warned) = []" by simp
  with books exprs.all_released [of "ses_exprs s"] cells.all_released [of "ses_cells s"] show ?thesis
    by (simp add: Let_def s_def [symmetric] session_claims)
qed

definition tiny_surroundings :: surroundings where
  "tiny_surroundings = \<lparr>k_sha = pad_sha, k_now = 0, k_unicode = ascii_unicode, k_leval = (\<lambda>_. Inl ValueError), k_repr = (\<lambda>_. [])\<rparr>"

definition tiny_acts :: "act list" where
  "tiny_acts =
     [OnCells (Build 0 (MakeCell (Some CtBytes) (ChecksumInput (ArgChecksum small)) None None None)),
      OnCells (Call 0 (SetScratch True)),
      OnExprs (Build 0 (MakeExpr None)),
      OnExprs (Call 0 (UseExpr (Compute (Inr (Some small))))),
      OnCells (Call 0 ReleaseCell)]"

theorem audit_silent_in_use_witness:
  "refholder_count (ses_cache (session_run tiny_surroundings tiny_acts (new_session 2))) =
     claim_count (session_holders (session_run tiny_surroundings tiny_acts (new_session 2)))"
proof -
  have "used_well tiny_surroundings tiny_acts (new_session 2)" by code_simp
  from audit_silent_in_use [OF this] show ?thesis by (simp add: Let_def)
qed

lemma held_once_ok: "claims_ok held_once"
  using incref_refholder_spec(1) [of "cache_init 2"] session_ok_new [of 2]
  by (simp add: held_once_def session_ok_def exprs.settled_books_def owns_def new_session_def)

section \<open>After the release\<close>

text \<open>An expression that holds its result, is released, and is then computed again, to the
  same result, takes back the claim it gave: the cache counts it as before, but the object
  reports no claim, and to release it again does nothing. The claim outlives the object.\<close>

theorem released_expression_takes_a_claim:
  assumes "expr_live x" and "x_result x = Some c" and "x_holding x"
    and "claims_ok bc" and "0 < refholder_count bc c"
  shows "\<exists>x' bc'. obind (release_expr K) (\<lambda>_. expr_op K (Compute (Inr (Some c)))) (x, bc) = (Inr (Some c), (x', bc'))
    \<and> refholder_count bc' c = refholder_count bc c
    \<and> expr_claims x = [(c, ''result'')] \<and> expr_claims x' = []
    \<and> release_expr K (x', bc') = (Inr (), (x', bc'))"
proof -
  have x: "\<not> x_released x" "x_refheld x" "x_input_refheld x = None"
    using assms(1-3) by (auto simp: expr_live_def expr_ok_def)
  let ?x1 = "x\<lparr>x_released := True\<rparr>" and ?x2 = "x\<lparr>x_released := True, x_refheld := False\<rparr>"
  let ?x3 = "x\<lparr>x_released := True, x_refheld := True\<rparr>"
  obtain b1 where g: "give_hold K c (?x1, bc) = (Inr (), (?x1, b1))" "claims_ok b1"
      "\<forall>j. refholder_count b1 j = refholder_count bc j - (if j = c then 1 else 0)"
    using give_runs [OF assms(4), of K c ?x1] by blast
  obtain b2 where t: "touch K c (?x2, b1) = (Inr (), (?x2, b2))" "claims_ok b2" "\<forall>j. refholder_count b2 j = refholder_count b1 j"
    using touch_runs [OF g(2), of K c ?x2] by blast
  obtain b3 where h: "take_hold K c None (?x2, b2) = (Inr (), (?x2, b3))"
      "\<forall>j. refholder_count b3 j = refholder_count b2 j + (if j = c then 1 else 0)"
    using take_runs [OF t(2), of K c None ?x2] by blast
  have "obind (release_expr K) (\<lambda>_. expr_op K (Compute (Inr (Some c)))) (x, bc) = (Inr (Some c), (?x3, b3))"
    using assms(2,3) x g t h
    by (simp add: release_expr_def expr_op_def enable_result_holding_def hold_result_def look_def change_def obind_def when_some_def)
  moreover have "release_expr K (?x3, b3) = (Inr (), (?x3, b3))"
    by (simp add: release_expr_def look_def obind_def)
  moreover have "refholder_count b3 c = refholder_count bc c" using g(3) t(3) h(2) assms(5) by simp
  ultimately show ?thesis using assms(2,3) x by (auto simp: expr_claims_def)
qed

theorem released_expression_takes_a_claim_witness:
  "\<exists>x' bc'. refholder_count bc' small = 1 \<and> expr_claims x' = []
    \<and> release_expr tiny_surroundings (x', bc') = (Inr (), (x', bc'))"
proof -
  let ?x = "\<lparr>x_result = Some small, x_holding = True, x_refheld = True, x_input_refheld = None, x_released = False\<rparr>"
  have "expr_live ?x" by (simp add: expr_live_def expr_ok_def)
  moreover note held_once_ok
  ultimately show ?thesis
    using released_expression_takes_a_claim [of ?x small held_once tiny_surroundings] held_once_count by fastforce
qed

text \<open>A cell that is released keeps its input, and gives the claim on it back a second time
  when the input is replaced. It reported one claim and takes two away from the cache, one
  of them somebody else's.\<close>

theorem released_cell_gives_back_twice:
  assumes "cell_live c" and "c_ref c = RefChecksum d" and "c_result c = None" and "c_path c = []"
    and "claims_ok bc" and "2 \<le> refholder_count bc d"
  shows "\<exists>c' bc'. obind (release_cell K) (\<lambda>_. write_checksum K D None None True) (c, bc) = (Inr (), (c', bc'))
    \<and> refholder_count bc' d + 2 = refholder_count bc d
    \<and> cell_claims c = [(d, ''input'')] \<and> cell_claims c' = []"
proof -
  let ?c1 = "c\<lparr>c_released := True\<rparr>"
  let ?c2 = "c\<lparr>c_released := True, c_result := None, c_expression := None\<rparr>"
  let ?c3 = "c\<lparr>c_released := True, c_ref := RefNone, c_input_celltype := None, c_exception := None, c_result := None, c_expression := None\<rparr>"
  obtain b1 where a: "give_hold K d (?c1, bc) = (Inr (), (?c1, b1))" "claims_ok b1"
      "\<forall>j. refholder_count b1 j = refholder_count bc j - (if j = d then 1 else 0)"
    using give_runs [OF assms(5), of K d ?c1] by blast
  obtain b2 where b: "give_hold K d (?c3, b1) = (Inr (), (?c3, b2))"
      "\<forall>j. refholder_count b2 j = refholder_count b1 j - (if j = d then 1 else 0)"
    using give_runs [OF a(2), of K d ?c3] by blast
  have rel: "release_cell K (c, bc) = (Inr (), (?c2, b1))"
    using assms(1-3) a(1)
    by (simp add: release_cell_def set_result_checksum_def look_def change_def obind_def when_some_def ref_checksum_def cell_live_def)
  have "write_checksum K D None None True (?c2, b1) = (Inr (), (?c3, b2))"
    using assms(2,4) b(1)
    by (simp add: write_checksum_def check_write_authority_def replace_input_ref_def typed_input_celltype_def
        set_result_checksum_def look_def change_def obind_def when_some_def ref_checksum_def)
  then show ?thesis using rel a(3) b(2) assms(1-3,6)
    by (auto simp: obind_def cell_claims_def cell_live_def ref_checksum_def)
qed

theorem released_cell_gives_back_twice_witness:
  "\<exists>c' bc'. refholder_count bc' small = 0 \<and> cell_claims c' = []"
proof -
  let ?c = "\<lparr>c_ref = RefChecksum small, c_input_celltype = Some CtBytes, c_celltype = CtBytes, c_path = [], c_component = None,
    c_conversion = False, c_validator = None, c_language = None, c_scratch = False, c_exception = None, c_result = None,
    c_recipe = None, c_expression = None, c_released = False\<rparr>"
  define bc where "bc = snd (incref_refholder pad_sha small None None held_once)"
  have "claims_ok bc" and two: "refholder_count bc small = 2"
    using incref_refholder_spec [OF held_once_ok] held_once_count by (simp_all add: bc_def)
  then show ?thesis
    using released_cell_gives_back_twice [of ?c small bc tiny_surroundings "[]"] by (fastforce simp: cell_live_def)
qed

end
