(* ===== verification/CellRecipe.thy ===== *)
theory CellRecipe
  imports HolderRuns
begin

text \<open>
  The recipe of a cell, \<open>_cell_recipe_key\<close>, as the guard of what the cell shows: a change
  of the configuration anywhere upstream changes the key, and with it the cell forgets its
  result.
\<close>

section \<open>Stale results\<close>

text \<open>The cells from the input of \<open>c\<close> upwards.\<close>

fun links :: "cells \<Rightarrow> cell \<Rightarrow> nat list \<Rightarrow> bool" where
  "links D c [] = False"
| "links D c [i] = (c_ref c = RefCell i)"
| "links D c (i # j # is) = (c_ref c = RefCell i \<and> (case dget D i of None \<Rightarrow> False | Some q \<Rightarrow> links D q (j # is)))"

definition config :: "cell \<Rightarrow> celltype \<times> ustr \<times> nat option \<times> ustr option \<times> checksum option" where
  "config c = (c_celltype c, c_path c, c_validator c, c_language c, ref_checksum (c_ref c))"

lemma recipe_config: "recipe_upto n D p = recipe_upto m E q \<Longrightarrow> config p = config q"
  by (cases "c_ref p"; cases "c_ref q"; cases n; cases m)
     (auto simp: config_def ref_checksum_def hex_inject split: option.splits)

lemma recipe_differs:
  "links D c is \<Longrightarrow> distinct is \<Longrightarrow> length is \<le> n \<Longrightarrow> dget D (last is) = Some p \<Longrightarrow> config p' \<noteq> config p \<Longrightarrow>
     recipe_upto n (dset (last is) p' D) c \<noteq> recipe_upto n D c"
proof (induction D c "is" arbitrary: n rule: links.induct)
  case (2 D c i)
  then obtain m where "n = Suc m" by (cases n) auto
  with 2 recipe_config [of m "dset i p' D" p' m D p] show ?case by auto
next
  case (3 D c i j "is")
  then obtain m where n: "n = Suc m" by (cases n) auto
  from 3 obtain q where q: "dget D i = Some q" "links D q (j # is)" by (auto split: option.splits)
  with 3 n have "recipe_upto m (dset (last (j # is)) p' D) q \<noteq> recipe_upto m D q" by auto
  moreover have "i \<noteq> last (j # is)" using 3(3) by (metis distinct.simps(2) last_in_set list.discI)
  ultimately show ?case using 3 n q by auto
qed simp

lemma links_in_dict: "links D c is \<Longrightarrow> dget D (last is) = Some p \<Longrightarrow> set is \<subseteq> set (dkeys D)"
  by (induction D c "is" rule: links.induct) (auto split: option.splits dest: map_of_SomeD intro: rev_image_eqI)

lemma recipe_changed:
  assumes "links D c is" and "distinct is" and p: "dget D (last is) = Some p" and "config p' \<noteq> config p" and "dict_wf D"
  shows "recipe_key (dset (last is) p' D) c \<noteq> recipe_key D c"
proof -
  have "card (set is) \<le> card (set (dkeys D))"
    by (rule card_mono) (use links_in_dict [OF assms(1) p] in simp_all)
  moreover have "card (set (dkeys D)) = length D" using assms(5) distinct_card [of "dkeys D"] by (simp add: dict_wf_def)
  ultimately have "length is \<le> length D" using assms(2) by (simp add: distinct_card)
  moreover have "length (dset (last is) p' D) = length D" using p by (induction D) (auto split: if_splits)
  ultimately show ?thesis using recipe_differs [OF assms(1,2) _ p assms(4)] by (simp add: recipe_key_def)
qed

lemma recipe_cong:
  assumes "c_ref d = c_ref c" and "c_celltype d = c_celltype c" and "c_input_celltype d = c_input_celltype c"
    and "c_path d = c_path c" and "c_validator d = c_validator c" and "c_language d = c_language c"
  shows "recipe_upto n D d = recipe_upto n D c"
  using assms by (cases n; cases "c_ref c") (simp_all add: input_celltype_def split: option.split)

lemma links_cell: "links D c is \<Longrightarrow> c_ref c = RefCell (hd is)"
  by (induction D c "is" rule: links.induct) auto

text \<open>C22: a cell does not show a result its inputs have moved away from. When the celltype, the
  path, the validator, its language or the input checksum of a cell changes, however many
  links above it, the next look at the cell's state finds the result gone, the error too, and
  says that the cell waits to be computed, or that the wiring is wrong.\<close>

theorem upstream_change_is_seen:
  assumes "links D c is" and "distinct is" and "dget D (last is) = Some p" and "config p' \<noteq> config p" and "dict_wf D"
    and "c_recipe c = Some (recipe_key D c)" and "claims_ok bc"
  shows "\<exists>st c' bc'. read_state K (dset (last is) p' D) (c, bc) = (Inr st, (c', bc'))
    \<and> c_result c' = None \<and> c_exception c' = None \<and> c_expression c' = None
    \<and> st = (if miswired (dset (last is) p' D) c' then Miswired else cell_state.Waiting)
    \<and> c_recipe c' = Some (recipe_key (dset (last is) p' D) c')"
proof -
  let ?D = "dset (last is) p' D"
  let ?c = "c\<lparr>c_recipe := Some (recipe_key ?D c), c_exception := None, c_result := None, c_expression := None\<rparr>"
  have new: "Some (recipe_key ?D c) \<noteq> c_recipe c" using recipe_changed [OF assms(1-5)] assms(6) by simp
  obtain bc' where sync: "sync_recipe K ?D (c, bc) = (Inr (), (?c, bc'))"
  proof -
    have "\<exists>bc'. when_some (c_result c) (give_hold K) (?c, bc) = (Inr (), (?c, bc'))"
      using give_runs [OF assms(7), of K _ ?c] by (cases "c_result c") (auto simp: when_some_def)
    with new that show ?thesis
      by (auto simp: sync_recipe_def forget_result_def set_result_checksum_def look_def change_def obind_def when_some_def)
  qed
  have "recipe_key ?D ?c = recipe_key ?D c" unfolding recipe_key_def by (rule recipe_cong) simp_all
  then show ?thesis using sync links_cell [OF assms(1)]
    by (simp add: read_state_def obind_def look_def literal_def ref_checksum_def)
qed

definition tiny_cell :: "ref \<Rightarrow> cell" where
  "tiny_cell r = \<lparr>c_ref = r, c_input_celltype = Some CtBytes, c_celltype = CtBytes, c_path = [], c_component = None,
     c_conversion = False, c_validator = None, c_language = None, c_scratch = False, c_exception = None, c_result = Some small,
     c_recipe = None, c_expression = None, c_released = False\<rparr>"

definition tiny_chain :: cells where
  "tiny_chain = [(0, tiny_cell (RefChecksum small)), (1, tiny_cell (RefCell 0)), (2, tiny_cell (RefCell 1))]"

theorem upstream_change_is_seen_witness:
  "\<exists>st c' bc'. read_state tiny_surroundings (dset 0 ((tiny_cell (RefChecksum small))\<lparr>c_celltype := CtPlain\<rparr>) tiny_chain)
       ((tiny_cell (RefCell 1))\<lparr>c_recipe := Some (recipe_key tiny_chain (tiny_cell (RefCell 1)))\<rparr>, held_once) = (Inr st, (c', bc'))
     \<and> c_result c' = None"
proof -
  let ?c = "(tiny_cell (RefCell 1))\<lparr>c_recipe := Some (recipe_key tiny_chain (tiny_cell (RefCell 1)))\<rparr>"
  let ?p = "tiny_cell (RefChecksum small)"
  note held_once_ok
  moreover have "links tiny_chain ?c [1, 0]" by (simp add: tiny_chain_def tiny_cell_def)
  moreover have "config (?p\<lparr>c_celltype := CtPlain\<rparr>) \<noteq> config ?p" by (simp add: config_def tiny_cell_def)
  moreover have "dict_wf tiny_chain" "dget tiny_chain (last [1, 0]) = Some ?p" by (simp_all add: tiny_chain_def dict_wf_def)
  moreover have "c_recipe ?c = Some (recipe_key tiny_chain ?c)" by code_simp
  ultimately show ?thesis
    using upstream_change_is_seen [of tiny_chain ?c "[1, 0]" ?p "?p\<lparr>c_celltype := CtPlain\<rparr>" held_once tiny_surroundings]
    by fastforce
qed

end
