(* ===== verification/Shutdown.thy ===== *)
theory Shutdown
  imports HolderRuns BufferWriter
begin

text \<open>
  \<open>shutdown.py\<close>: \<open>close\<close>, which settles the activity, audits the claims, flushes the
  writer, releases the holders, audits again and clears the accounts. It works on the
  session of \<open>HolderRuns\<close> and the writer of \<open>BufferWriter\<close>. What workers, hooks, clients
  and the resource tracker do is an argument; messages are values.
\<close>

section \<open>Worker processes\<close>

datatype failure =
    ShortFlush exc | LongFlush exc | ResetPid nat exc | RegistryClose exc
  | NotQuiet nat exc | NotReady nat exc | ShutdownWorkers exc | TrackerAlive nat

text \<open>A worker: whether its ready event is set (or the question raises), what waiting for it
  and asking it to be quiet came to, and its process, if it has one.\<close>

record worker_handle =
  wh_name :: nat
  wh_ready :: "bool result"
  wh_wait :: "unit result"
  wh_quiet :: "unit result"
  wh_pid :: "nat option"

record worker_pool =
  wp_handles :: "worker_handle list"
  wp_reset_pid :: "nat \<Rightarrow> unit result"
  wp_registry_close :: "unit result option"

definition failed :: "(exc \<Rightarrow> failure) \<Rightarrow> 'a result \<Rightarrow> failure list" where
  "failed f r = (case r of Inl e \<Rightarrow> [f e] | Inr _ \<Rightarrow> [])"

definition wait_workers_ready :: "worker_pool \<Rightarrow> failure list" where
  "wait_workers_ready P =
     concat (map (\<lambda>h. if wh_ready h = Inr False then failed (NotReady (wh_name h)) (wh_wait h) else []) (wp_handles P))"

definition quiet_workers :: "worker_pool \<Rightarrow> failure list" where
  "quiet_workers P = concat (map (\<lambda>h. failed (NotQuiet (wh_name h)) (wh_quiet h)) (wp_handles P))"

text \<open>The shared memory itself is closed and unlinked without a word.\<close>

definition sweep_worker_shared_memory :: "worker_pool \<Rightarrow> failure list" where
  "sweep_worker_shared_memory P =
     (case wp_registry_close P of
        None \<Rightarrow> []
      | Some r \<Rightarrow>
          concat (map (\<lambda>h. case wh_pid h of
              Some pid \<Rightarrow> if pid \<noteq> 0 then failed (ResetPid pid) (wp_reset_pid P pid) else []
            | None \<Rightarrow> []) (wp_handles P))
          @ failed RegistryClose r)"

section \<open>Flushing\<close>

text \<open>What one \<open>flush\<close> of the writer meets: whether there is a module of remote clients,
  what the worker does while the metadata writes are awaited and until its thread is joined,
  whether any client is known, the exception of a client's malformed URL, and the clients that
  have a URL with the answers they give within a timeout.\<close>

record flush_world =
  fw_remote :: bool
  fw_meanwhile :: "writer \<Rightarrow> writer"
  fw_stopping :: "writer \<Rightarrow> writer"
  fw_known :: bool
  fw_bad_url :: "exc option"
  fw_clients :: "real \<Rightarrow> write_client list"

definition stop_worker :: "flush_world \<Rightarrow> writer \<Rightarrow> writer" where
  "stop_worker W s =
     (if bw_worker s \<in> {Working, Stopped} then unqueue_all (fw_stopping W (request_stop s)) else s)"

definition flush :: "flush_world \<Rightarrow> real \<Rightarrow> (writer, exc, unit) op" where
  "flush W timeout s =
     (if \<not> fw_remote W then (Inr (), s)
      else
        let s1 = fw_meanwhile W s in
        if \<not> fw_known W then (Inr (), stop_worker W s1)
        else
          case fw_bad_url W of
            Some e \<Rightarrow> (Inl e, s1)
          | None \<Rightarrow> (Inr (), stop_worker W (flush_buffers (fw_clients W timeout) s1)))"

definition compute_flush_timeout :: "real \<Rightarrow> writer \<Rightarrow> real" where
  "compute_flush_timeout multiplier s =
     (let total = sum_list (map (\<lambda>(k, i). case qe_buffer (bw_entry s i) of Some b \<Rightarrow> length (b_content b) | None \<Rightarrow> 0) (bw_entries s));
          seconds = real total / 1000000
      in multiplier * max 3 (if seconds > 0 then seconds else 3))"

definition flush_buffers_short_then_long ::
  "bool \<Rightarrow> flush_world \<Rightarrow> flush_world \<Rightarrow> writer \<Rightarrow> write_key list \<times> failure list \<times> writer"
where
  "flush_buffers_short_then_long loaded W1 W2 s =
     (if \<not> loaded \<or> bw_entries s = [] then ([], [], s)
      else
        let (r1, s1) = flush W1 (compute_flush_timeout 1 s) s in
        if bw_entries s1 = [] then ([], failed ShortFlush r1, s1)
        else
          let (r2, s2) = flush W2 (compute_flush_timeout 2 s1) s1 in
          (dkeys (bw_entries s2), failed ShortFlush r1 @ failed LongFlush r2, s2))"

section \<open>Holders\<close>

text \<open>The registry lists the objects in the order they registered.\<close>

datatype holder_ref = ExprRef nat | CellRef nat

definition holder_refs :: "session \<Rightarrow> holder_ref list" where
  "holder_refs s = map ExprRef (dkeys (ses_exprs s)) @ map CellRef (dkeys (ses_cells s))"

definition holder_at :: "session \<Rightarrow> holder_ref \<Rightarrow> holder" where
  "holder_at s h =
     (case h of
        ExprRef i \<Rightarrow> holder_of ''Expression'' (2 * i) (case dget (ses_exprs s) i of Some x \<Rightarrow> expr_claims x | None \<Rightarrow> [])
      | CellRef i \<Rightarrow> holder_of ''Cell'' (2 * i + 1) (case dget (ses_cells s) i of Some c \<Rightarrow> cell_claims c | None \<Rightarrow> []))"

definition holder_number :: "holder_ref \<Rightarrow> nat" where
  "holder_number h = (case h of ExprRef i \<Rightarrow> 2 * i | CellRef i \<Rightarrow> 2 * i + 1)"

definition release_holder :: "surroundings \<Rightarrow> holder_ref \<Rightarrow> (session, exc, unit) op" where
  "release_holder K h s =
     (case h of
        ExprRef i \<Rightarrow>
          (case dget (ses_exprs s) i of
             None \<Rightarrow> (Inr (), s)
           | Some x \<Rightarrow> (case release_expr K (x, ses_cache s) of
               (r, (x', bc)) \<Rightarrow> (r, s\<lparr>ses_exprs := dset i x' (ses_exprs s), ses_cache := bc\<rparr>)))
      | CellRef i \<Rightarrow>
          (case dget (ses_cells s) i of
             None \<Rightarrow> (Inr (), s)
           | Some c \<Rightarrow> (case release_cell K (c, ses_cache s) of
               (r, (c', bc)) \<Rightarrow> (r, s\<lparr>ses_cells := dset i c' (ses_cells s), ses_cache := bc\<rparr>))))"

fun release_all :: "surroundings \<Rightarrow> holder_ref list \<Rightarrow> session \<Rightarrow> session \<times> audit_warning list" where
  "release_all K [] s = (s, [])"
| "release_all K (h # hs) s =
     (case release_holder K h s of
        (r, s1) \<Rightarrow> (case release_all K hs s1 of
          (s2, ws) \<Rightarrow> (s2, (case r of Inl e \<Rightarrow> [ReleaseRaised (holder_number h) e] | Inr _ \<Rightarrow> []) @ ws)))"

section \<open>Closing\<close>

record process =
  pr_session :: session
  pr_writer :: writer
  pr_closing :: bool
  pr_closed :: bool
  pr_module_closed :: bool

datatype workers_end = NoWorkers | WorkersEnded | SaidClosed | WorkersRaised exc

record shutdown_world =
  sw_is_worker :: bool
  sw_main_process :: bool
  sw_require_close :: bool
  sw_hooks :: "(session \<times> writer \<Rightarrow> session \<times> writer) list"
  sw_pool :: "worker_pool option"
  sw_workers_end :: workers_end
  sw_writer_loaded :: bool
  sw_flushes :: "flush_world \<times> flush_world"
  sw_tracker :: "failure list"
  sw_write_clients :: bool
  sw_debug :: bool

datatype summary_part = UnwrittenBuffers "write_key list" | Failure failure | WorkersShutDown

text \<open>The warnings of the audit before, of the releases, and of the audit after them; what is printed at the end.\<close>

record report =
  rp_audit :: "audit_warning list"
  rp_releases :: "audit_warning list"
  rp_audit_after :: "audit_warning list"
  rp_summary :: "summary_part list"

definition silent :: report where
  "silent = \<lparr>rp_audit = [], rp_releases = [], rp_audit_after = [], rp_summary = []\<rparr>"

definition run_close_hooks :: "shutdown_world \<Rightarrow> process \<Rightarrow> process" where
  "run_close_hooks W p =
     (let (s, bw) = fold (\<lambda>hook. hook) (sw_hooks W) (pr_session p, pr_writer p) in p\<lparr>pr_session := s, pr_writer := bw\<rparr>)"

text \<open>The end of activity: workers are waited for, quieted and shut down.\<close>

definition settle_workers :: "shutdown_world \<Rightarrow> failure list" where
  "settle_workers W =
     (case sw_pool W of Some P \<Rightarrow> wait_workers_ready P @ quiet_workers P | None \<Rightarrow> [])
     @ (case sw_workers_end W of WorkersRaised e \<Rightarrow> [ShutdownWorkers e] | _ \<Rightarrow> [])"

definition summary :: "shutdown_world \<Rightarrow> write_key list \<Rightarrow> failure list \<Rightarrow> summary_part list" where
  "summary W pending failures =
     (if pending \<noteq> [] \<and> sw_write_clients W then [UnwrittenBuffers pending] else [])
     @ map Failure failures
     @ (if sw_workers_end W = WorkersEnded \<and> (failures \<noteq> [] \<or> pending \<noteq> [] \<or> sw_debug W) then [WorkersShutDown] else [])"

text \<open>The accounts: audit, flush, release, audit again, clear. The two audits share the set of
  checksums whose manual references were reported.\<close>

definition close_accounts ::
  "surroundings \<Rightarrow> shutdown_world \<Rightarrow> holder_ref list \<Rightarrow> process \<Rightarrow> process \<times> report \<times> write_key list \<times> failure list"
where
  "close_accounts K W registry p =
     (let s = pr_session p;
          (w1, told) = audit_reference_accounting False (ses_cache s) (map (holder_at s) registry) True (Some {});
          (pending, failed, bw) = flush_buffers_short_then_long (sw_writer_loaded W) (fst (sw_flushes W)) (snd (sw_flushes W)) (pr_writer p);
          (s1, wr) = release_all K registry s;
          (w2, _) = audit_reference_accounting False (ses_cache s1) [] True told;
          s2 = s1\<lparr>ses_cache := force_clear_reference_accounting (k_now K) (ses_cache s1)\<rparr>
      in (p\<lparr>pr_session := s2, pr_writer := bw, pr_module_closed := True\<rparr>,
          \<lparr>rp_audit = w1, rp_releases = wr, rp_audit_after = w2, rp_summary = []\<rparr>, pending, failed))"

definition close :: "surroundings \<Rightarrow> shutdown_world \<Rightarrow> holder_ref list \<Rightarrow> bool \<Rightarrow> process \<Rightarrow> process \<times> report" where
  "close K W registry from_atexit p =
     (if pr_closed p \<or> pr_closing p then (p, silent)
      else if sw_is_worker W \<or> \<not> sw_main_process W then (p, silent)
      else if from_atexit \<and> \<not> sw_require_close W then (p\<lparr>pr_closed := True, pr_closing := False\<rparr>, silent)
      else
        let p1 = run_close_hooks W (p\<lparr>pr_closing := True, pr_closed := True\<rparr>);
            (p2, rep, pending, flush_failures) = close_accounts K W registry p1;
            failures = settle_workers W @ flush_failures
              @ (case sw_pool W of Some P \<Rightarrow> sweep_worker_shared_memory P | None \<Rightarrow> []) @ sw_tracker W
        in (p2\<lparr>pr_closing := False\<rparr>, rep\<lparr>rp_summary := summary W pending failures\<rparr>))"

section \<open>What the releases do\<close>

lemma decref_refholder_manual: "manual_count (snd (decref_refholder now c bc)) j = manual_count bc j"
proof (cases "dget (bc_strong bc) c")
  case None
  then show ?thesis by (simp add: decref_refholder_def Let_def manual_count_def)
next
  case (Some e)
  let ?e = "e\<lparr>se_bridge := False\<rparr>" and ?b = "bc\<lparr>bc_refholders := ddel c (bc_refholders bc)\<rparr>"
  have "manual_count (put_entry c ?e ?b) j = manual_count bc j" using Some by (simp add: manual_count_def)
  then show ?thesis using Some manual_demote [of "put_entry c ?e ?b" c ?e now j]
    by (simp add: decref_refholder_def Let_def manual_count_def)
qed

lemma give_hold_runs: "give_hold K c (h, bc) = (Inr (), (h, snd (decref_refholder (k_now K) c bc)))"
  by (simp add: give_hold_def)

lemma release_expr_runs:
  "\<exists>x' bc'. release_expr K (x, bc) = (Inr (), (x', bc')) \<and> x_released x' \<and> manual_count bc' = manual_count bc
     \<and> (x_released x \<longrightarrow> x' = x \<and> bc' = bc)"
  by (cases "x_released x"; cases "x_input_refheld x"; cases "x_refheld x"; cases "x_result x")
     (auto simp: release_expr_def look_def change_def obind_def when_some_def give_hold_runs decref_refholder_manual fun_eq_iff)

lemma release_cell_runs:
  "\<exists>c' bc'. release_cell K (c, bc) = (Inr (), (c', bc')) \<and> c_released c' \<and> manual_count bc' = manual_count bc
     \<and> (c_released c \<longrightarrow> c' = c \<and> bc' = bc)"
  by (cases "c_released c"; cases "ref_checksum (c_ref c)"; cases "c_result c")
     (auto simp: release_cell_def set_result_checksum_def look_def change_def obind_def when_some_def give_hold_runs
       decref_refholder_manual fun_eq_iff)

definition released_at :: "session \<Rightarrow> holder_ref \<Rightarrow> bool" where
  "released_at s h =
     (case h of
        ExprRef i \<Rightarrow> (case dget (ses_exprs s) i of Some x \<Rightarrow> x_released x | None \<Rightarrow> True)
      | CellRef i \<Rightarrow> (case dget (ses_cells s) i of Some c \<Rightarrow> c_released c | None \<Rightarrow> True))"

lemma released_at_cache: "released_at (s\<lparr>ses_cache := bc\<rparr>) h = released_at s h"
  by (cases h) (simp_all add: released_at_def)

lemma dset_same: "dget D i = Some x \<Longrightarrow> dset i x D = D"
  by (induction D) (auto split: if_splits)

lemma dkeys_dset_present: "dget D i = Some x \<Longrightarrow> map (f \<circ> fst) (dset i y D) = map (f \<circ> fst) D"
  by (induction D) (auto split: if_splits)

definition release_effect :: "session \<Rightarrow> session \<Rightarrow> bool" where
  "release_effect s t \<longleftrightarrow> session_ok t \<and> holder_refs t = holder_refs s
     \<and> manual_count (ses_cache t) = manual_count (ses_cache s) \<and> (\<forall>h. released_at s h \<longrightarrow> released_at t h)"

lemma release_holder_runs:
  assumes ok: "session_ok s"
  shows "\<exists>t. release_holder K h s = (Inr (), t) \<and> release_effect s t \<and> released_at t h"
proof (cases h)
  case (ExprRef i)
  show ?thesis
  proof (cases "dget (ses_exprs s) i")
    case None
    then show ?thesis using ok by (simp add: ExprRef release_holder_def release_effect_def released_at_def)
  next
    case (Some x)
    obtain x' bc' where run: "release_expr K (x, ses_cache s) = (Inr (), (x', bc'))" "x_released x'"
        "manual_count bc' = manual_count (ses_cache s)" "x_released x \<longrightarrow> x' = x \<and> bc' = ses_cache s"
      using release_expr_runs [of K x "ses_cache s"] by blast
    let ?t = "s\<lparr>ses_exprs := dset i x' (ses_exprs s), ses_cache := bc'\<rparr>"
    have step: "release_holder K h s = (Inr (), ?t)" using Some run by (simp add: ExprRef release_holder_def)
    have "session_ok ?t"
    proof (cases "x_released x")
      case True
      with ok run Some show ?thesis by (simp add: dset_same)
    next
      case False
      have "session_step K (OnExprs (Call i ReleaseExpr)) s = ?t"
        using Some run by (simp add: session_step_def object_step_def expr_run_def)
      with session_ok_step [OF ok, of "OnExprs (Call i ReleaseExpr)" K] False Some show ?thesis
        by (simp add: act_in_use_def in_use_def)
    qed
    with step run Some show ?thesis
      by (auto simp: ExprRef release_effect_def released_at_def holder_refs_def dkeys_dset_present split: holder_ref.split)
  qed
next
  case (CellRef i)
  show ?thesis
  proof (cases "dget (ses_cells s) i")
    case None
    then show ?thesis using ok by (simp add: CellRef release_holder_def release_effect_def released_at_def)
  next
    case (Some c)
    obtain c' bc' where run: "release_cell K (c, ses_cache s) = (Inr (), (c', bc'))" "c_released c'"
        "manual_count bc' = manual_count (ses_cache s)" "c_released c \<longrightarrow> c' = c \<and> bc' = ses_cache s"
      using release_cell_runs [of K c "ses_cache s"] by blast
    let ?t = "s\<lparr>ses_cells := dset i c' (ses_cells s), ses_cache := bc'\<rparr>"
    have step: "release_holder K h s = (Inr (), ?t)" using Some run by (simp add: CellRef release_holder_def)
    have "session_ok ?t"
    proof (cases "c_released c")
      case True
      with ok run Some show ?thesis by (simp add: dset_same)
    next
      case False
      have "session_step K (OnCells (Call i ReleaseCell)) s = ?t"
        using Some run by (simp add: session_step_def object_step_def cell_run_def)
      with session_ok_step [OF ok, of "OnCells (Call i ReleaseCell)" K] False Some show ?thesis
        by (simp add: act_in_use_def in_use_def)
    qed
    with step run Some show ?thesis
      by (auto simp: CellRef release_effect_def released_at_def holder_refs_def dkeys_dset_present split: holder_ref.split)
  qed
qed

lemma release_effect_trans: "release_effect s t \<Longrightarrow> release_effect t r \<Longrightarrow> release_effect s r"
  by (auto simp: release_effect_def)

lemma release_all_runs:
  "session_ok s \<Longrightarrow> \<exists>t. release_all K hs s = (t, []) \<and> release_effect s t \<and> (\<forall>h\<in>set hs. released_at t h)"
proof (induction hs arbitrary: s)
  case Nil
  then show ?case by (simp add: release_effect_def)
next
  case (Cons h hs)
  obtain t where t: "release_holder K h s = (Inr (), t)" "release_effect s t" "released_at t h"
    using release_holder_runs [OF Cons.prems, of K h] by blast
  then have "session_ok t" by (simp add: release_effect_def)
  from Cons.IH [OF this] obtain r where r: "release_all K hs t = (r, [])" "release_effect t r" "\<forall>h\<in>set hs. released_at r h" by blast
  then have "released_at r h" using t(3) by (simp add: release_effect_def)
  with t r release_effect_trans [OF t(2) r(2)] show ?case by simp
qed

section \<open>The registry\<close>

lemma claim_count_perm: "mset hs = mset hs' \<Longrightarrow> claim_count hs c = claim_count hs' c"
  unfolding claim_count_def by (metis mset_map sum_mset_sum_list)

lemma holders_listed:
  assumes "dict_wf (ses_exprs s)" and "dict_wf (ses_cells s)"
  shows "map (holder_at s) (holder_refs s) = session_holders s"
proof -
  have "dget (ses_exprs s) i = Some x" if "(i, x) \<in> set (ses_exprs s)" for i x
    using dget_eq_iff [OF assms(1)] that by simp
  moreover have "dget (ses_cells s) i = Some x" if "(i, x) \<in> set (ses_cells s)" for i x
    using dget_eq_iff [OF assms(2)] that by simp
  ultimately show ?thesis by (auto simp: holder_refs_def session_holders_def holder_at_def)
qed

lemma registry_wf:
  assumes "distinct registry" and "mset registry = mset (holder_refs s)"
  shows "dict_wf (ses_exprs s)" and "dict_wf (ses_cells s)"
proof -
  have "distinct (holder_refs s)" using assms mset_eq_imp_distinct_iff by blast
  then show "dict_wf (ses_exprs s)" "dict_wf (ses_cells s)"
    by (auto simp: holder_refs_def dict_wf_def distinct_map inj_on_def)
qed

lemma released_claims:
  assumes "dict_wf (ses_exprs s)" and "dict_wf (ses_cells s)" and "\<forall>h\<in>set (holder_refs s). released_at s h"
  shows "claim_count (session_holders s) c = 0"
proof -
  have "x_released x" if "(i, x) \<in> set (ses_exprs s)" for i x
  proof -
    from that have "ExprRef i \<in> set (holder_refs s)" by (force simp: holder_refs_def)
    with assms(3) have "released_at s (ExprRef i)" by blast
    moreover have "dget (ses_exprs s) i = Some x" using dget_eq_iff [OF assms(1)] that by simp
    ultimately show ?thesis by (simp add: released_at_def)
  qed
  moreover have "c_released x" if "(i, x) \<in> set (ses_cells s)" for i x
  proof -
    from that have "CellRef i \<in> set (holder_refs s)" by (force simp: holder_refs_def)
    with assms(3) have "released_at s (CellRef i)" by blast
    moreover have "dget (ses_cells s) i = Some x" using dget_eq_iff [OF assms(2)] that by simp
    ultimately show ?thesis by (simp add: released_at_def)
  qed
  ultimately have "list_all (\<lambda>(i, x). x_released x) (ses_exprs s)" "list_all (\<lambda>(i, x). c_released x) (ses_cells s)"
    by (auto simp: list_all_iff)
  then show ?thesis by (simp add: session_claims exprs.all_released cells.all_released)
qed

lemma no_count_warnings:
  assumes "bc_inv bc" and "list_all well_behaved hs" and "\<And>c. refholder_count bc c = claim_count hs c"
  shows "w \<in> set (fst (audit_reference_accounting False bc hs wm warned)) \<longleftrightarrow>
      (\<exists>c. manual_told wm bc warned c \<and> w = UnmatchedManual c (manual_count bc c))"
    and "snd (audit_reference_accounting False bc hs wm warned) = map_option (\<lambda>W. W \<union> {c. manual_told wm bc warned c}) warned"
  using audit_spec [OF assms(1,2)] in_count_warnings [OF assms(2)] assms(3) by auto

text \<open>The accounts close: what the audits say and what is left.\<close>

lemma close_accounts_runs:
  assumes ok: "session_ok (pr_session p)" and reg: "distinct registry" "mset registry = mset (holder_refs (pr_session p))"
    and run: "close_accounts K W registry p = (p', rep, pending, failures)"
  defines "bc \<equiv> ses_cache (pr_session p)"
  shows "w \<in> set (rp_audit rep) \<longleftrightarrow> (\<exists>c. w = UnmatchedManual c (manual_count bc c) \<and> 0 < manual_count bc c)"
    and "rp_releases rep = []" and "rp_audit_after rep = []"
    and "refholder_count (ses_cache (pr_session p')) c = 0" and "manual_count (ses_cache (pr_session p')) c = 0"
    and "\<forall>h\<in>set registry. released_at (pr_session p') h"
    and "pr_closed p' = pr_closed p"
proof -
  let ?s = "pr_session p"
  obtain t where t: "release_all K registry ?s = (t, [])" "release_effect ?s t" "\<forall>h\<in>set registry. released_at t h"
    using release_all_runs [OF ok, of K registry] by blast
  have tok: "session_ok t" and trefs: "holder_refs t = holder_refs ?s"
    and tman: "manual_count (ses_cache t) = manual_count bc" using t(2) by (simp_all add: release_effect_def bc_def)
  note books = session_books [OF ok, folded bc_def] session_books [OF tok]
  have inv: "bc_inv bc" "bc_inv (ses_cache t)" using books by (simp_all add: claims_ok_def)
  let ?hs = "map (holder_at ?s) registry"
  have "mset ?hs = mset (session_holders ?s)"
    using holders_listed [OF registry_wf [OF reg]] reg(2) by (metis mset_map)
  then have hs: "claim_count ?hs c = refholder_count bc c" for c
    using claim_count_perm [of ?hs "session_holders ?s" c] books(1) by simp
  have behave: "list_all well_behaved ?hs"
    by (auto simp: list_all_iff well_behaved_def holder_at_def holder_of_def split: holder_ref.split)
  note one = no_count_warnings(1) [OF inv(1) behave hs [symmetric], of _ True "Some {}"]
    no_count_warnings(2) [OF inv(1) behave hs [symmetric], of True "Some {}"]
  have wf: "dict_wf (ses_exprs t)" "dict_wf (ses_cells t)"
    using registry_wf [OF reg(1), of t] reg(2) trefs by simp_all
  have "\<forall>h\<in>set (holder_refs t). released_at t h" using t(3) reg(2) trefs by (metis set_mset_mset)
  then have none: "refholder_count (ses_cache t) c = claim_count [] c" for c
    using released_claims [OF wf] books(2) by (simp add: claim_count_def)
  have "list_all well_behaved []" by simp
  note two = no_count_warnings(1) [OF inv(2) this none, of _ True "Some {c. 0 < manual_count bc c}"]
  have quiet: "fst (audit_reference_accounting False (ses_cache t) [] True (Some {c. 0 < manual_count bc c})) = []"
  proof -
    have "w \<notin> set (fst (audit_reference_accounting False (ses_cache t) [] True (Some {c. 0 < manual_count bc c})))" for w
      using two [of w] by (auto simp: manual_told_def tman)
    then show ?thesis by (metis list.set_intros(1) neq_Nil_conv)
  qed
  obtain w1 told where a1: "audit_reference_accounting False bc ?hs True (Some {}) = (w1, told)" by fastforce
  have told: "told = Some {c. 0 < manual_count bc c}" using one(2) a1 by (simp add: manual_told_def)
  have w1: "w \<in> set w1 \<longleftrightarrow> (\<exists>c. w = UnmatchedManual c (manual_count bc c) \<and> 0 < manual_count bc c)" for w
    using one(1) [of w] a1 by (auto simp: manual_told_def)
  have res: "rp_audit rep = w1" "rp_releases rep = []" "rp_audit_after rep = []" "pr_closed p' = pr_closed p"
      "pr_session p' = t\<lparr>ses_cache := force_clear_reference_accounting (k_now K) (ses_cache t)\<rparr>"
    using run a1 t(1) quiet by (auto simp: close_accounts_def Let_def bc_def told split: prod.splits)
  note clear = force_clear_spec [OF inv(2), of "k_now K"]
  show "w \<in> set (rp_audit rep) \<longleftrightarrow> (\<exists>c. w = UnmatchedManual c (manual_count bc c) \<and> 0 < manual_count bc c)"
    using w1 res by simp
  show "rp_releases rep = []" "rp_audit_after rep = []" "pr_closed p' = pr_closed p" using res by simp_all
  show "refholder_count (ses_cache (pr_session p')) c = 0" using clear(2) by (simp add: res refholder_count_def)
  show "manual_count (ses_cache (pr_session p')) c = 0"
    using clear(3) [of c] by (simp add: res manual_count_def cleared_def split: option.split bind_split)
  show "\<forall>h\<in>set registry. released_at (pr_session p') h"
    using t(3) by (simp add: res released_at_cache)
qed

text \<open>C23: closing settles every account. If the books of the session are in order when its
  activity has ended, and the registry lists its objects, then \<open>close\<close> reports no refholder,
  every manual reference exactly in the first audit, nothing in the second; the objects are
  released without an exception, no count of any kind is left in the cache, and closing again
  does nothing.\<close>

theorem close_settles_the_accounts:
  assumes "\<not> pr_closed p" and "\<not> pr_closing p" and "\<not> sw_is_worker W" and "sw_main_process W"
    and "from_atexit \<longrightarrow> sw_require_close W"
    and "p1 = run_close_hooks W (p\<lparr>pr_closing := True, pr_closed := True\<rparr>)" and "session_ok (pr_session p1)"
    and "distinct registry" and "mset registry = mset (holder_refs (pr_session p1))"
  shows "let (p', rep) = close K W registry from_atexit p; bc = ses_cache (pr_session p1) in
    (\<forall>w. w \<in> set (rp_audit rep) \<longleftrightarrow> (\<exists>c. w = UnmatchedManual c (manual_count bc c) \<and> 0 < manual_count bc c))
    \<and> rp_releases rep = [] \<and> rp_audit_after rep = []
    \<and> (\<forall>h\<in>set registry. released_at (pr_session p') h)
    \<and> (\<forall>c. refholder_count (ses_cache (pr_session p')) c = 0 \<and> manual_count (ses_cache (pr_session p')) c = 0)
    \<and> pr_closed p' \<and> close K W' registry' from_atexit' p' = (p', silent)"
proof -
  obtain p2 rep pending ff where run: "close_accounts K W registry p1 = (p2, rep, pending, ff)" by (metis prod_cases4)
  note acc = close_accounts_runs [OF assms(7-9) run]
  have "pr_closed p1" by (simp add: assms(6) run_close_hooks_def split_beta Let_def)
  then have closed: "pr_closed p2" using acc(7) by simp
  obtain sm where c: "close K W registry from_atexit p = (p2\<lparr>pr_closing := False\<rparr>, rep\<lparr>rp_summary := sm\<rparr>)"
    using assms(1-5) run by (auto simp: close_def Let_def assms(6) [symmetric])
  show ?thesis
    using acc(1-6) closed unfolding c by (auto simp: close_def)
qed

definition tiny_flush :: flush_world where
  "tiny_flush = \<lparr>fw_remote = False, fw_meanwhile = id, fw_stopping = id, fw_known = False, fw_bad_url = None, fw_clients = (\<lambda>_. [])\<rparr>"

definition tiny_shutdown :: shutdown_world where
  "tiny_shutdown = \<lparr>sw_is_worker = False, sw_main_process = True, sw_require_close = True, sw_hooks = [], sw_pool = None,
     sw_workers_end = NoWorkers, sw_writer_loaded = True, sw_flushes = (tiny_flush, tiny_flush), sw_tracker = [],
     sw_write_clients = False, sw_debug = False\<rparr>"

definition tiny_process :: process where
  "tiny_process = \<lparr>pr_session = session_run tiny_surroundings
       [OnCells (Build 0 (MakeCell (Some CtBytes) (ChecksumInput (ArgChecksum small)) None None None))] (new_session 2),
     pr_writer = writer_init, pr_closing = False, pr_closed = False, pr_module_closed = False\<rparr>"

theorem close_settles_the_accounts_witness:
  "let (p', rep) = close tiny_surroundings tiny_shutdown [CellRef 0] True tiny_process in
     refholder_count (ses_cache (pr_session tiny_process)) small = 1
     \<and> refholder_count (ses_cache (pr_session p')) small = 0 \<and> rp_audit_after rep = []"
proof -
  let ?acts = "[OnCells (Build 0 (MakeCell (Some CtBytes) (ChecksumInput (ArgChecksum small)) None None None))]"
  let ?p1 = "run_close_hooks tiny_shutdown (tiny_process\<lparr>pr_closing := True, pr_closed := True\<rparr>)"
  have "used_well tiny_surroundings ?acts (new_session 2)" by code_simp
  then have ok: "session_ok (pr_session tiny_process)"
    by (simp add: tiny_process_def session_ok_run [OF session_ok_new])
  have p1: "pr_session ?p1 = pr_session tiny_process" by (simp add: run_close_hooks_def tiny_shutdown_def)
  have refs: "holder_refs (pr_session tiny_process) = [CellRef 0]" by code_simp
  have "refholder_count (ses_cache (pr_session tiny_process)) small = 1" by code_simp
  moreover have "\<not> pr_closed tiny_process" "\<not> pr_closing tiny_process" by (simp_all add: tiny_process_def)
  moreover have "\<not> sw_is_worker tiny_shutdown" "sw_main_process tiny_shutdown" "True \<longrightarrow> sw_require_close tiny_shutdown"
    by (simp_all add: tiny_shutdown_def)
  moreover have "session_ok (pr_session ?p1)" "mset [CellRef 0] = mset (holder_refs (pr_session ?p1))"
    using ok refs by (simp_all add: p1)
  ultimately show ?thesis
    using close_settles_the_accounts [of tiny_process tiny_shutdown True ?p1 "[CellRef 0]" tiny_surroundings
        tiny_shutdown "[]" True] by (simp add: Let_def split_beta)
qed

end
