(* ===== verification/ValueTypes.thy ===== *)
theory ValueTypes
  imports Values
begin

text \<open>
  The typing of values by celltypes: what kind of Python object \<open>Buffer.get_value\<close> hands out
  for each celltype of \<open>checksum/celltypes.py\<close>.
\<close>

section \<open>Values of a celltype\<close>

text \<open>What JSON can say.\<close>

fun json_value :: "'nd pyval \<Rightarrow> bool" where
  "json_value (VList vs) = list_all json_value vs"
| "json_value (VDict kvs) = list_all (\<lambda>(k, v). json_value v) kvs"
| "json_value (VBytes b) = False"
| "json_value (VArray a) = False"
| "json_value (VChecksum c) = False"
| "json_value v = True"

definition is_checksum_value :: "'nd pyval \<Rightarrow> bool" where
  "is_checksum_value v = (case v of VChecksum _ \<Rightarrow> True | _ \<Rightarrow> False)"

definition celltype_value :: "celltype \<Rightarrow> 'nd pyval \<Rightarrow> bool" where
  "celltype_value ct v =
     (if ct \<in> set text_types2 \<or> ct = CtStr then \<exists>t. v = VStr t
      else if ct = CtInt then \<exists>i. v = VInt i
      else if ct = CtFloat then \<exists>x. v = VFloat x
      else if ct = CtBool then \<exists>b. v = VBool b
      else if ct = CtBytes then \<exists>b. v = VBytes b
      else if ct = CtChecksum then \<exists>c. v = VChecksum c
      else if ct = CtBinary then \<exists>a. v = VArray a
      else if ct = CtPlain \<or> ct = CtModule then json_value v
      else if ct \<in> set DEEP_CELLTYPES then \<exists>kvs. v = VDict kvs \<and> list_all (\<lambda>(k, m). is_checksum_value m) kvs
      else ct = CtMixed)"

text \<open>The contracts of the parsers.\<close>

definition parses_json :: "'nd lib \<Rightarrow> bool" where
  "parses_json L \<longleftrightarrow> (\<forall>t v. orjson_loads L t = Inr v \<longrightarrow> json_value v)"

definition reads_arrays :: "'nd codec \<Rightarrow> bool" where
  "reads_arrays K \<longleftrightarrow> (\<forall>b v. mixed_loads K b = Inr (v, ''pure-binary'') \<longrightarrow> (\<exists>a. v = VArray a))"

section \<open>Every branch\<close>

lemma scalar_value:
  "parse_scalar K b ct = Inr v \<Longrightarrow> ct \<in> {CtStr, CtInt, CtFloat, CtBool} \<Longrightarrow> celltype_value ct v"
  by (auto simp: parse_scalar_def celltype_value_def text_types2_def rbind_Inr_iff split: if_splits pyval.splits)

lemma plain_value: "parses_json (c_lib K) \<Longrightarrow> parse_plain K b = Inr v \<Longrightarrow> json_value v"
  unfolding parses_json_def
  by (cases "decode_text b"; cases "orjson_loads (c_lib K) (strip_nl (projr (decode_text b)))")
     (auto simp: parse_plain_def split: if_splits)

lemma branch_value:
  assumes "parses_json (c_lib K)" and "reads_arrays K" and "fst (parse_branch K b c ct s) = Inr v" and "ct \<in> set celltypes"
  shows "celltype_value ct v"
proof (cases "ct \<in> set text_types2")
  case True
  with assms(3) show ?thesis
    by (auto simp: parse_branch_def celltype_value_def obind_def otry_def split: sum.splits prod.splits)
next
  case False
  with assms show ?thesis
    by (auto simp: parse_branch_def celltype_value_def text_types2_def rbind_Inr_iff reads_arrays_def deserialize_mixed_def
        plain_value celltypes_def DEEP_CELLTYPES_def split: if_splits sum.splits dest: scalar_value)
qed

lemma virtual_typed:
  "virtual sha c ct = Inr (Some v) \<Longrightarrow> (ct \<noteq> CtBytes \<and> v = VNone \<and> null_checksum sha c) \<or> celltype_value ct v"
  by (auto simp: virtual_eq virtual_value_hex_def celltype_value_def text_types2_def DEEP_CELLTYPES_def Let_def split: if_splits)

lemma parse_value:
  assumes "parses_json (e_lib E)" and "reads_arrays (e_codec E)" and "fst (parse_buffer E b c ct s) = Inr v"
  shows "(ct \<noteq> CtBytes \<and> v = VNone \<and> null_checksum (e_sha E) c) \<or> celltype_value ct v"
proof (cases "virtual (e_sha E) c ct :: 'a pyval option result")
  case (Inr ov)
  show ?thesis
  proof (cases ov)
    case None
    with assms Inr show ?thesis
      by (auto simp: parse_buffer_def obind_def split: if_splits sum.splits prod.splits option.splits intro: branch_value)
  next
    case (Some w)
    with assms(3) Inr virtual_typed [of "e_sha E" c ct w] show ?thesis by (auto simp: parse_buffer_def split: if_splits)
  qed
qed (use assms(3) in \<open>auto simp: parse_buffer_def split: if_splits\<close>)

lemma deep_items_value: "deep_items True kvs = Inr r \<Longrightarrow> list_all (\<lambda>(k, m). is_checksum_value m) r"
  by (induction True kvs arbitrary: r rule: deep_items.induct)
     (auto simp: rbind_Inr_iff deep_member_def is_checksum_value_def split: pyval.splits if_splits)

lemma deep_value:
  "ct \<in> set DEEP_CELLTYPES \<Longrightarrow> validate_deep_structure True v = Inr w \<Longrightarrow> celltype_value ct w"
  by (auto simp: validate_deep_structure_def celltype_value_def DEEP_CELLTYPES_def text_types2_def rbind_Inr_iff
      dest: deep_items_value split: pyval.splits)



end
