(* ===== verification/TemprefLife.thy ===== *)
theory TemprefLife
  imports BufferCache
begin

text \<open>
  How long a tempref lasts: the decay of \<open>TempRef.current_interest\<close> against
  \<open>TEMPREF_MINIMAL_INTEREST\<close>, as the eviction pass compares them.
\<close>

lemma interest_until:
  assumes "1 < f" and "0 < v" and "1 / 128 \<le> i" and "t0 \<le> now"
  shows "TEMPREF_MINIMAL_INTEREST \<le> current_interest now
      \<lparr>tr_interest = i, tr_fade_factor = f, tr_fade_interval = v, tr_refreshed = t0\<rparr>
    \<longleftrightarrow> now \<le> t0 + v * log f (128 * i)"
proof (cases "now = t0")
  case True
  have "0 \<le> log f (128 * i)" using assms by simp
  with True assms show ?thesis by (simp add: current_interest_def TEMPREF_MINIMAL_INTEREST_def)
next
  case False
  let ?x = "(now - t0) / v"
  have pos: "0 < f powr ?x" using assms(1) by simp
  have "TEMPREF_MINIMAL_INTEREST \<le> i / f powr ?x \<longleftrightarrow> f powr ?x \<le> 128 * i"
    using pos by (simp add: TEMPREF_MINIMAL_INTEREST_def field_simps)
  also have "\<dots> \<longleftrightarrow> ?x \<le> log f (128 * i)" using assms by (simp add: le_log_iff)
  also have "\<dots> \<longleftrightarrow> now \<le> t0 + v * log f (128 * i)" using assms(2) by (simp add: field_simps)
  finally show ?thesis using False assms by (simp add: current_interest_def Let_def)
qed

lemma tempref_new_entry:
  assumes "dget (bc_strong bc) c = None" and "b_checksum b = Some c"
  shows "\<exists>e. dget (bc_strong (snd (tempref_op sha t0 c (Some b) i f v bc))) c = Some e \<and> se_buffer e = Some b
    \<and> se_manual e = 0 \<and> \<not> se_bridge e
    \<and> se_tempref e = Some \<lparr>tr_interest = i, tr_fade_factor = f, tr_fade_interval = v, tr_refreshed = t0\<rparr>"
  using assms
  by (simp add: tempref_op_def ensure_entry_def checked_own settle_entry_def new_entry_def on_entry_def update_tempref_def Let_def)



end
