(* ===== verification/CellProjection.thy ===== *)
theory CellProjection
  imports Evaluation HolderClaims
begin

text \<open>
  Writing through projections of standalone cells (\<open>cell_class.py\<close>): \<open>cell.a[0] = v\<close> finds
  the root cell and the path, reads the root's value, changes it in place along the path, and
  writes it back. The readers are the steps of \<open>Evaluation\<close>.
\<close>

section \<open>Changing a value in place\<close>

text \<open>What Python does where the container is an array, the index a slice or the key no
  string: assignment, deletion, and what an array holds after one of its items was changed.\<close>

record 'nd mutators =
  mu_setitem :: "'nd pyval \<Rightarrow> path_step \<Rightarrow> 'nd pyval \<Rightarrow> 'nd pyval result"
  mu_delitem :: "'nd pyval \<Rightarrow> path_step \<Rightarrow> 'nd pyval result"
  mu_changed :: "'nd pyval \<Rightarrow> path_step \<Rightarrow> 'nd pyval \<Rightarrow> 'nd pyval"

definition list_place :: "'a list \<Rightarrow> lit \<Rightarrow> nat result" where
  "list_place xs l =
     (case lit_index l of
        None \<Rightarrow> Inl TypeError
      | Some i \<Rightarrow>
          let j = (if i < 0 then i + int (length xs) else i)
          in if 0 \<le> j \<and> j < int (length xs) then Inr (nat j) else Inl IndexError)"

text \<open>\<open>parent[st] = v\<close>: the container afterwards.\<close>

fun set_item :: "'nd mutators \<Rightarrow> 'nd pyval \<Rightarrow> path_step \<Rightarrow> 'nd pyval \<Rightarrow> 'nd pyval result" where
  "set_item M (VDict kvs) (Item (LStr k)) v = Inr (VDict (dset k v kvs))"
| "set_item M (VDict kvs) st v = mu_setitem M (VDict kvs) st v"
| "set_item M (VList vs) (Item l) v = rbind (list_place vs l) (\<lambda>n. Inr (VList (vs[n := v])))"
| "set_item M (VList vs) st v = mu_setitem M (VList vs) st v"
| "set_item M (VArray a) st v = mu_setitem M (VArray a) st v"
| "set_item M x st v = Inl TypeError"

text \<open>\<open>del parent[st]\<close>\<close>

fun del_item :: "'nd mutators \<Rightarrow> 'nd pyval \<Rightarrow> path_step \<Rightarrow> 'nd pyval result" where
  "del_item M (VDict kvs) (Item (LStr k)) =
     (case dget kvs k of None \<Rightarrow> Inl KeyError | Some _ \<Rightarrow> Inr (VDict (ddel k kvs)))"
| "del_item M (VDict kvs) st = mu_delitem M (VDict kvs) st"
| "del_item M (VList vs) (Item l) = rbind (list_place vs l) (\<lambda>n. Inr (VList (take n vs @ drop (Suc n) vs)))"
| "del_item M (VList vs) st = mu_delitem M (VList vs) st"
| "del_item M (VArray a) st = mu_delitem M (VArray a) st"
| "del_item M x st = Inl TypeError"

text \<open>What the container holds once the object \<open>parent[st]\<close> was changed in place: an item of
  a dictionary or list is that object, a slice of a list is a copy.\<close>

fun changed :: "'nd mutators \<Rightarrow> 'nd pyval \<Rightarrow> path_step \<Rightarrow> 'nd pyval \<Rightarrow> 'nd pyval" where
  "changed M (VDict kvs) (Item (LStr k)) child = VDict (dset k child kvs)"
| "changed M (VList vs) (Item l) child = (case list_place vs l of Inr n \<Rightarrow> VList (vs[n := child]) | Inl _ \<Rightarrow> VList vs)"
| "changed M (VArray a) st child = mu_changed M (VArray a) st child"
| "changed M x st child = x"

text \<open>The walk down the path, with the mutation \<open>f\<close> at its last step. When the root had no
  input (\<open>bootstrap\<close>), a missing key gets an empty dictionary on the way.\<close>

definition provide :: "bool \<Rightarrow> 'nd pyval \<Rightarrow> path_step \<Rightarrow> 'nd pyval" where
  "provide bootstrap x st =
     (case (x, st) of
        (VDict kvs, Item (LStr k)) \<Rightarrow>
          if bootstrap \<and> dget kvs k = None then VDict (dset k (VDict []) kvs) else x
      | _ \<Rightarrow> x)"

fun mutate_at ::
  "'nd mutators \<Rightarrow> 'nd world \<Rightarrow> bool \<Rightarrow> ('nd pyval \<Rightarrow> path_step \<Rightarrow> 'nd pyval result) \<Rightarrow> path_step list \<Rightarrow> 'nd pyval \<Rightarrow> 'nd pyval result"
where
  "mutate_at M W bootstrap f [] x = Inl IndexError"
| "mutate_at M W bootstrap f [st] x = f x st"
| "mutate_at M W bootstrap f (st # st' # path) x =
     (let x1 = provide bootstrap x st in
      rbind (subscript W x1 st) (\<lambda>child.
      rbind (mutate_at M W bootstrap f (st' # path) child) (\<lambda>child'. Inr (changed M x1 st child'))))"

section \<open>The root of a handle\<close>

definition AuthorityError :: exc where "AuthorityError = OtherError ''AuthorityError''"
definition ValueUnavailableError :: exc where "ValueUnavailableError = OtherError ''ValueUnavailableError''"

text \<open>\<open>_standalone_write_handle\<close> and \<open>_standalone_write_info\<close>: the root, the path to the handle,
  and whether a conversion lies between.\<close>

definition is_handle :: "cell \<Rightarrow> bool" where
  "is_handle c \<longleftrightarrow> c_component c \<noteq> None \<or> c_conversion c"

fun write_info_upto :: "nat \<Rightarrow> cells \<Rightarrow> nat \<Rightarrow> path_step list \<Rightarrow> bool \<Rightarrow> nat \<times> path_step list \<times> bool" where
  "write_info_upto n D i path conversion =
     (case dget D i of
        None \<Rightarrow> (i, path, conversion)
      | Some c \<Rightarrow>
          if \<not> is_handle c then (i, path, conversion)
          else
            (let path1 = (case c_component c of Some st \<Rightarrow> st # path | None \<Rightarrow> path);
                 conversion1 = (conversion \<or> c_conversion c)
             in case (n, c_ref c) of
                  (Suc m, RefCell j) \<Rightarrow> write_info_upto m D j path1 conversion1
                | _ \<Rightarrow> (i, path1, conversion1)))"

definition write_info :: "cells \<Rightarrow> nat \<Rightarrow> path_step list \<Rightarrow> nat \<times> path_step list \<times> bool" where
  "write_info D i extra =
     (case write_info_upto (length D) D i [] False of (j, path, conversion) \<Rightarrow> (j, path @ extra, conversion))"

definition same_endpoint :: "cells \<Rightarrow> nat \<Rightarrow> path_step list \<Rightarrow> nat \<Rightarrow> bool" where
  "same_endpoint D i extra k =
     (case (write_info D i extra, write_info D k []) of
        ((j, path, conversion), (j', path', conversion')) \<Rightarrow>
          \<not> conversion \<and> \<not> conversion' \<and> j = j' \<and> path = path')"

section \<open>Writing\<close>

text \<open>What the write meets outside the cell: the expression built when the root's checksum is
  read and what it has to show, the values checksums resolve to, the checksums values are
  serialized to, the conversion of a checksum, and the checksum of a validated buffer.\<close>

record 'nd writing =
  wr_object :: nat
  wr_outcome :: "checksum option result"
  wr_resolve :: "checksum \<Rightarrow> celltype \<Rightarrow> 'nd pyval result"
  wr_serialize :: "'nd pyval \<Rightarrow> celltype \<Rightarrow> checksum result"
  wr_convert :: "checksum \<Rightarrow> celltype \<Rightarrow> celltype \<Rightarrow> checksum option result"
  wr_checked :: "bytes \<Rightarrow> celltype \<Rightarrow> checksum result"

text \<open>\<open>target.value\<close>\<close>

definition read_value :: "surroundings \<Rightarrow> cells \<Rightarrow> 'nd writing \<Rightarrow> (cell, 'nd pyval) hop" where
  "read_value K D R =
     obind (read_checksum K D (wr_object R) (wr_outcome R)) (\<lambda>shown.
     obind look (\<lambda>c.
       case shown of None \<Rightarrow> oret VNone | Some d \<Rightarrow> olift (wr_resolve R d (c_celltype c))))"

definition string_step :: "path_step \<Rightarrow> bool" where
  "string_step st = (case st of Item (LStr _) \<Rightarrow> True | _ \<Rightarrow> False)"

definition write_root :: "surroundings \<Rightarrow> cells \<Rightarrow> 'nd writing \<Rightarrow> 'nd pyval \<Rightarrow> (cell, unit) hop" where
  "write_root K D R v = obind look (\<lambda>c. write_value K D (wr_serialize R v (c_celltype c)) False)"

text \<open>\<open>_standalone_commit\<close>, on the root.\<close>

definition commit ::
  "surroundings \<Rightarrow> 'nd mutators \<Rightarrow> 'nd world \<Rightarrow> cells \<Rightarrow> 'nd writing \<Rightarrow> path_step list \<Rightarrow> 'nd pyval \<Rightarrow> (cell, unit) hop"
where
  "commit K M W D R path v =
     (if path = [] then write_root K D R v
      else
        obind (read_value K D R) (\<lambda>x.
        obind look (\<lambda>c.
        obind
          (if x \<noteq> VNone then oret x
           else if c_ref c = RefNone \<and> list_all string_step path then oret (VDict [])
           else oraise ValueUnavailableError) (\<lambda>root.
        obind (olift (mutate_at M W (c_ref c = RefNone) (\<lambda>y st. set_item M y st v) path root)) (\<lambda>root'.
          write_root K D R root')))))"

text \<open>\<open>_standalone_delete\<close>, on the root.\<close>

definition delete_at ::
  "surroundings \<Rightarrow> 'nd mutators \<Rightarrow> 'nd world \<Rightarrow> cells \<Rightarrow> 'nd writing \<Rightarrow> path_step list \<Rightarrow> (cell, unit) hop"
where
  "delete_at K M W D R path =
     (if path = [] then oraise ValueError
      else
        obind (read_value K D R) (\<lambda>root.
        if root = VNone then oraise ValueUnavailableError
        else
          obind (olift (mutate_at M W False (del_item M) path root)) (\<lambda>root'. write_root K D R root')))"

text \<open>The cells with the cache: an operation on the cell \<open>j\<close> among them.\<close>

type_synonym 'a cells_op = "(cells \<times> buffer_cache, exc, 'a) op"

definition on_cell :: "nat \<Rightarrow> (cells \<Rightarrow> (cell, 'a) hop) \<Rightarrow> 'a cells_op" where
  "on_cell j m s =
     (case dget (fst s) j of
        None \<Rightarrow> (Inl KeyError, s)
      | Some c \<Rightarrow> (case m (fst s) (c, snd s) of (r, (c', bc)) \<Rightarrow> (r, (dset j c' (fst s), bc))))"

text \<open>Every write finds its root, refuses to pass a conversion, and asks for authority first.\<close>

definition through_handle ::
  "nat \<Rightarrow> path_step list \<Rightarrow> (cell \<Rightarrow> cell \<Rightarrow> path_step list \<Rightarrow> cells \<Rightarrow> (cell, unit) hop) \<Rightarrow> unit cells_op"
where
  "through_handle i extra m s =
     (case write_info (fst s) i extra of
        (j, path, conversion) \<Rightarrow>
          if conversion then (Inl AuthorityError, s)
          else
            case (dget (fst s) i, dget (fst s) j) of
              (Some self, Some target) \<Rightarrow>
                (case check_write_authority target False of
                   Inl e \<Rightarrow> (Inl e, s)
                 | Inr _ \<Rightarrow> on_cell j (m self target path) s)
            | _ \<Rightarrow> (Inl KeyError, s))"

definition deep_cell :: "cell \<Rightarrow> bool" where
  "deep_cell c \<longleftrightarrow> c_celltype c \<in> set DEEP_CELLTYPES"

text \<open>What is put into the root: the checksum itself in a deep cell, its value elsewhere.\<close>

definition member :: "'nd writing \<Rightarrow> cell \<Rightarrow> cell \<Rightarrow> checksum \<Rightarrow> 'nd pyval result" where
  "member R self target d = (if deep_cell target then Inr (VChecksum d) else wr_resolve R d (c_celltype self))"

definition standalone_write_value ::
  "surroundings \<Rightarrow> 'nd mutators \<Rightarrow> 'nd world \<Rightarrow> 'nd writing \<Rightarrow> nat \<Rightarrow> path_step list \<Rightarrow> 'nd pyval \<Rightarrow> unit cells_op"
where
  "standalone_write_value K M W R i extra v =
     through_handle i extra (\<lambda>self target path D.
       obind (olift (wr_serialize R v (c_celltype self))) (\<lambda>d.
       obind (olift (member R self target d)) (commit K M W D R path)))"

definition standalone_write_checksum ::
  "surroundings \<Rightarrow> 'nd mutators \<Rightarrow> 'nd world \<Rightarrow> 'nd writing \<Rightarrow> nat \<Rightarrow> ck_arg \<Rightarrow> celltype option \<Rightarrow> unit cells_op"
where
  "standalone_write_checksum K M W R i a ict =
     through_handle i [] (\<lambda>self target path D.
       if a = ArgNone then oraise ValueError
       else
         obind (olift (checksum_init a)) (\<lambda>d0.
         obind (case ict of
                  Some t \<Rightarrow> if t \<noteq> c_celltype self then olift (wr_convert R d0 t (c_celltype self)) else oret (Some d0)
                | None \<Rightarrow> oret (Some d0)) (\<lambda>od.
           case od of
             None \<Rightarrow> oraise AttributeError
           | Some d \<Rightarrow>
               obind (olift (wr_resolve R d (c_celltype self))) (\<lambda>x.
                 commit K M W D R path (if deep_cell target then VChecksum d else x)))))"

definition standalone_write_buffer ::
  "surroundings \<Rightarrow> 'nd mutators \<Rightarrow> 'nd world \<Rightarrow> 'nd writing \<Rightarrow> nat \<Rightarrow> bytes option \<Rightarrow> unit cells_op"
where
  "standalone_write_buffer K M W R i b =
     through_handle i [] (\<lambda>self target path D.
       case b of
         None \<Rightarrow> oraise ValueError
       | Some content \<Rightarrow>
           obind (olift (wr_checked R content (c_celltype self))) (\<lambda>d.
           obind (olift (member R self target d)) (commit K M W D R path)))"

definition standalone_delete ::
  "surroundings \<Rightarrow> 'nd mutators \<Rightarrow> 'nd world \<Rightarrow> 'nd writing \<Rightarrow> nat \<Rightarrow> path_step list \<Rightarrow> unit cells_op"
where
  "standalone_delete K M W R i extra =
     through_handle i extra (\<lambda>self target path D. delete_at K M W D R path)"

text \<open>\<open>cell.a += v\<close> (\<open>_augmented\<close>), with what reading the handle itself meets, and the
  operator of Python; then the assignment of the handle to its own place, which does nothing.\<close>

definition augmented ::
  "surroundings \<Rightarrow> 'nd mutators \<Rightarrow> 'nd world \<Rightarrow> 'nd writing \<Rightarrow> 'nd writing \<Rightarrow> ('nd pyval \<Rightarrow> 'nd pyval result) \<Rightarrow> nat
     \<Rightarrow> unit cells_op"
where
  "augmented K M W R_self R operate i s =
     (case write_info (fst s) i [] of
        (j, path, conversion) \<Rightarrow>
          if conversion then (Inl AuthorityError, s)
          else
            case dget (fst s) j of
              None \<Rightarrow> (Inl KeyError, s)
            | Some target \<Rightarrow>
                (case check_write_authority target False of
                   Inl e \<Rightarrow> (Inl e, s)
                 | Inr _ \<Rightarrow>
                     obind (on_cell i (\<lambda>D. read_value K D R_self)) (\<lambda>current.
                     obind (olift (operate current)) (\<lambda>updated.
                       on_cell j (\<lambda>D. commit K M W D R path updated))) s))"

definition assign_cell :: "unit cells_op \<Rightarrow> nat \<Rightarrow> path_step list \<Rightarrow> nat \<Rightarrow> unit cells_op" where
  "assign_cell write i extra k s = (if same_endpoint (fst s) i extra k then (Inr (), s) else write s)"

section \<open>Laws of places\<close>

text \<open>A container with places: what was put at a place is there, and the places apart from it
  are as before. The laws hold along paths.\<close>

locale places =
  fixes get :: "'v \<Rightarrow> 'k \<Rightarrow> 'e + 'v" and put :: "'v \<Rightarrow> 'k \<Rightarrow> 'v \<Rightarrow> 'e + 'v"
    and apart :: "'k \<Rightarrow> 'k \<Rightarrow> bool"
  assumes get_put: "put x k v = Inr y \<Longrightarrow> get y k = Inr v"
    and get_other: "put x k v = Inr y \<Longrightarrow> apart k j \<Longrightarrow> get y j = get x j"
begin

fun path_get :: "'k list \<Rightarrow> 'v \<Rightarrow> 'e + 'v" where
  "path_get [] x = Inr x"
| "path_get (k # ks) x = rbind (get x k) (path_get ks)"

fun path_put :: "'k list \<Rightarrow> 'v \<Rightarrow> 'v \<Rightarrow> 'e + 'v" where
  "path_put [] x v = Inr v"
| "path_put [k] x v = put x k v"
| "path_put (k # l # ks) x v = rbind (get x k) (\<lambda>c. rbind (path_put (l # ks) c v) (put x k))"

fun diverge :: "'k list \<Rightarrow> 'k list \<Rightarrow> bool" where
  "diverge (k # ks) (j # js) = (apart k j \<or> (k = j \<and> diverge ks js))"
| "diverge ks js = False"

lemma path_get_put: "path_put ks x v = Inr y \<Longrightarrow> path_get ks y = Inr v"
proof (induction ks x v arbitrary: y rule: path_put.induct)
  case (3 k l ks x v)
  then obtain c c' where c: "get x k = Inr c" "path_put (l # ks) c v = Inr c'" "put x k c' = Inr y"
    by (auto simp: rbind_Inr_iff)
  with "3.IH" [OF c(2)] get_put [OF c(3)] show ?case by simp
qed (auto simp: get_put)

lemma path_get_other: "path_put ks x v = Inr y \<Longrightarrow> diverge ks js \<Longrightarrow> path_get js y = path_get js x"
proof (induction ks x v arbitrary: y js rule: path_put.induct)
  case (2 k x v)
  then show ?case by (cases js) (auto simp: get_other)
next
  case (3 k l ks x v)
  then obtain c c' where c: "get x k = Inr c" "path_put (l # ks) c v = Inr c'" "put x k c' = Inr y"
    by (auto simp: rbind_Inr_iff)
  from "3.prems"(2) obtain j js' where js: "js = j # js'" by (cases js) auto
  show ?case
  proof (cases "apart k j")
    case True
    with get_other [OF c(3)] js show ?thesis by simp
  next
    case False
    with "3.prems"(2) js have "j = k" "diverge (l # ks) js'" by auto
    with "3.IH" [OF c(2)] c(1) get_put [OF c(3)] js show ?thesis by simp
  qed
qed auto

end

text \<open>The places of a dictionary are its string keys, those of a list its indices.\<close>

fun fits :: "'nd pyval \<Rightarrow> path_step \<Rightarrow> bool" where
  "fits (VDict kvs) (Item (LStr k)) = True"
| "fits (VList vs) (Item l) = (lit_index l \<noteq> None)"
| "fits x st = False"

fun apart_steps :: "path_step \<Rightarrow> path_step \<Rightarrow> bool" where
  "apart_steps (Item (LStr k)) (Item (LStr j)) = (k \<noteq> j)"
| "apart_steps (Item a) (Item b) = (case (lit_index a, lit_index b) of
     (Some i, Some j) \<Rightarrow> i \<noteq> j \<and> (0 \<le> i \<longleftrightarrow> 0 \<le> j) | _ \<Rightarrow> False)"
| "apart_steps s t = False"

definition put_item :: "'nd pyval \<Rightarrow> path_step \<Rightarrow> 'nd pyval \<Rightarrow> 'nd pyval result" where
  "put_item x st v =
     (case (x, st) of
        (VDict kvs, Item (LStr k)) \<Rightarrow> Inr (VDict (dset k v kvs))
      | (VList vs, Item l) \<Rightarrow> rbind (list_place vs l) (\<lambda>n. Inr (VList (vs[n := v])))
      | _ \<Rightarrow> Inl TypeError)"

lemma list_place_Inr:
  "list_place xs l = Inr n \<longleftrightarrow> (\<exists>i. lit_index l = Some i \<and> n < length xs \<and> int n = (if i < 0 then i + int (length xs) else i))"
proof -
  have "(if 0 \<le> j \<and> j < int (length xs) then Inr (nat j) else Inl IndexError) = Inr n \<longleftrightarrow> n < length xs \<and> int n = j" for j
    by (cases "0 \<le> j \<and> j < int (length xs)") (simp_all add: nat_eq_iff, linarith+)
  then show ?thesis by (cases "lit_index l") (simp_all add: list_place_def Let_def)
qed

lemma take_item_place: "take_item xs l = rbind (list_place xs l) (\<lambda>n. Inr (xs ! n))"
  by (auto simp: take_item_def list_place_def Let_def split: option.split)

lemma put_item_cases:
  assumes "put_item x st v = Inr y"
  obtains kvs k where "x = VDict kvs" "st = Item (LStr k)" "y = VDict (dset k v kvs)"
  | vs l n i where "x = VList vs" "st = Item l" "list_place vs l = Inr n" "y = VList (vs[n := v])" "lit_index l = Some i"
proof (cases x)
  case (VDict kvs)
  from assms obtain k where "st = Item (LStr k)" "y = VDict (dset k v kvs)"
    by (auto simp: put_item_def VDict split: path_step.splits lit.splits)
  with VDict that(1) show ?thesis by blast
next
  case (VList vs)
  from assms obtain l n where l: "st = Item l" "list_place vs l = Inr n" "y = VList (vs[n := v])"
    by (auto simp: put_item_def VList rbind_Inr_iff split: path_step.splits)
  then obtain i where "lit_index l = Some i" by (auto simp: list_place_Inr)
  with VList l that(2) show ?thesis by blast
qed (use assms in \<open>simp_all add: put_item_def\<close>)

interpretation item_places: places "apply_step W" put_item apart_steps for W
proof
  fix x y v :: "'a pyval" and k j :: path_step
  assume put: "put_item x k v = Inr y"
  then show "apply_step W y k = Inr v"
  proof (cases rule: put_item_cases)
    case (1 kvs key)
    then show ?thesis by (simp add: apply_step_def is_str_key_def string_keyed_def)
  next
    case (2 vs l n i)
    then have "list_place (vs[n := v]) l = Inr n" "n < length vs" by (auto simp: list_place_Inr)
    with 2 show ?thesis
      by (cases l) (auto simp: apply_step_def is_str_key_def take_item_place)
  qed
  show "apply_step W y j = apply_step W x j" if "apart_steps k j" using put
  proof (cases rule: put_item_cases)
    case (1 kvs key)
    with that obtain key' where "j = Item (LStr key')" "key \<noteq> key'"
      by (cases j; cases "case j of Item l \<Rightarrow> l | _ \<Rightarrow> LNone") (auto split: path_step.splits)
    with 1 show ?thesis by (simp add: apply_step_def is_str_key_def string_keyed_def)
  next
    case (2 vs l n i)
    with that obtain l' i' where j: "j = Item l'" "lit_index l' = Some i'" "i \<noteq> i'" "0 \<le> i \<longleftrightarrow> 0 \<le> i'"
      by (cases j; cases l) (auto split: option.splits)
    have "m \<noteq> n" if "list_place vs l' = Inr m" for m
      using that 2 j by (auto simp: list_place_Inr split: if_splits)
    moreover have "list_place (vs[n := v]) l' = list_place vs l'" by (simp add: list_place_def split: option.split)
    ultimately have "take_item (vs[n := v]) l' = take_item vs l'"
      by (cases "list_place vs l'") (auto simp: take_item_place)
    with 2 j show ?thesis by (simp add: apply_step_def is_str_key_def string_keyed_def)
  qed
qed

fun parts_from :: "path_step list \<Rightarrow> path_step list \<Rightarrow> bool" where
  "parts_from (k # ks) (j # js) = (apart_steps k j \<or> (k = j \<and> parts_from ks js))"
| "parts_from ks js = False"

lemma parts_from_diverge: "parts_from ks js = item_places.diverge ks js"
  by (induction ks js rule: parts_from.induct) simp_all

lemma path_get_steps: "item_places.path_get W path x = apply_steps W path x"
  by (induction path arbitrary: x) (auto simp: fun_eq_iff rbind_def split: sum.split)

section \<open>A write reaches its place\<close>

text \<open>Every container on the way is a dictionary under a string key or a list under an index.\<close>

fun along :: "'nd world \<Rightarrow> 'nd pyval \<Rightarrow> path_step list \<Rightarrow> bool" where
  "along W x [] = True"
| "along W x (st # path) = (fits x st \<and> (case subscript W x st of Inr c \<Rightarrow> along W c path | Inl _ \<Rightarrow> True))"

lemma fits_cases:
  assumes "fits x st"
  obtains kvs k where "x = VDict kvs" "st = Item (LStr k)"
  | vs l i where "x = VList vs" "st = Item l" "lit_index l = Some i" "\<not> is_str_key st"
proof (cases x)
  case (VDict kvs)
  with assms obtain k where "st = Item (LStr k)" by (cases st; cases "case st of Item l \<Rightarrow> l | _ \<Rightarrow> LNone") auto
  with VDict that(1) show ?thesis by blast
next
  case (VList vs)
  with assms obtain l i where "st = Item l" "lit_index l = Some i" by (cases st) auto
  moreover from this have "\<not> is_str_key st" by (cases l) (simp_all add: is_str_key_def)
  ultimately show ?thesis using VList that(2) by blast
qed (use assms in simp_all)

lemma fits_set: "fits x st \<Longrightarrow> set_item M x st v = put_item x st v"
  by (erule fits_cases) (simp_all add: put_item_def)

lemma fits_apply: "fits x st \<Longrightarrow> subscript W x st = Inr c \<Longrightarrow> apply_step W x st = Inr c"
  by (erule fits_cases) (auto simp: apply_step_def string_keyed_def)

lemma fits_changed: "fits x st \<Longrightarrow> subscript W x st = Inr c \<Longrightarrow> put_item x st c' = Inr (changed M x st c')"
  by (erule fits_cases) (auto simp: put_item_def take_item_place rbind_Inr_iff split: option.splits)

lemma provide_False [simp]: "provide False x st = x"
  by (simp add: provide_def split: pyval.split path_step.split lit.split)

lemma mutate_is_put:
  "along W x path \<Longrightarrow> mutate_at M W False (\<lambda>y st. set_item M y st v) path x = Inr y \<Longrightarrow> item_places.path_put W path x v = Inr y"
proof (induction path arbitrary: x y)
  case (Cons st path)
  show ?case
  proof (cases path)
    case Nil
    with Cons.prems show ?thesis by (simp add: fits_set)
  next
    case (Cons st' rest)
    with Cons.prems obtain c c' where c: "subscript W x st = Inr c" "fits x st" "along W c path"
        "mutate_at M W False (\<lambda>y st. set_item M y st v) path c = Inr c'" "y = changed M x st c'"
      by (auto simp: rbind_Inr_iff)
    with Cons.IH [OF c(3,4)] Cons fits_apply [OF c(2,1)] fits_changed [OF c(2,1), of c' M] show ?thesis by simp
  qed
qed simp

lemma mutate_reaches:
  assumes "along W x path" and "mutate_at M W False (\<lambda>y st. set_item M y st v) path x = Inr y"
  shows "apply_steps W path y = Inr v"
    and "parts_from path q \<Longrightarrow> apply_steps W q y = apply_steps W q x"
  using item_places.path_get_put [OF mutate_is_put [OF assms]] item_places.path_get_other [OF mutate_is_put [OF assms]]
  by (simp_all add: path_get_steps parts_from_diverge)

text \<open>A fresh root gets the dictionaries on the way.\<close>

lemma bootstrap_reaches:
  "list_all string_step path \<Longrightarrow> path \<noteq> [] \<Longrightarrow>
     \<exists>y. mutate_at M W True (\<lambda>y st. set_item M y st v) path (VDict []) = Inr y \<and> apply_steps W path y = Inr v"
proof (induction path)
  case (Cons st path)
  then obtain k where st: "st = Item (LStr k)" by (cases st; cases "case st of Item l \<Rightarrow> l | _ \<Rightarrow> LNone") (auto simp: string_step_def)
  have step: "apply_step W (VDict [(k, x)]) (Item (LStr k)) = Inr x" for x
    by (simp add: apply_step_def is_str_key_def string_keyed_def)
  show ?case
  proof (cases path)
    case Nil
    with st step show ?thesis by simp
  next
    case (Cons st' rest)
    with Cons.prems Cons.IH obtain y where "mutate_at M W True (\<lambda>y st. set_item M y st v) path (VDict []) = Inr y"
        "apply_steps W path y = Inr v" by auto
    with Cons st step show ?thesis by (simp add: provide_def)
  qed
qed simp

lemma set_result_ref: "c_ref (fst (snd (set_result_checksum K r s))) = c_ref (fst s)"
  by (auto simp: set_result_checksum_def obind_def look_def change_def when_some_def take_hold_def give_hold_def
      split: sum.splits prod.splits option.splits)

lemma write_value_ref:
  assumes "write_value K D (Inr d) detach (c, bc) = (Inr (), (c', bc'))"
  shows "c_ref c' = RefChecksum d"
proof -
  from assms have "replace_input_ref K D (RefChecksum d) (Some (c_celltype c)) (c, bc) = (Inr (), (c', bc'))"
    by (auto simp: write_value_def obind_def look_def split: sum.splits)
  then obtain b1 where "take_hold K d (Some False) (c, bc) = (Inr (), (c, b1))"
    and "obind (set_result_checksum K None) (\<lambda>_. when_some (ref_checksum (c_ref c)) (give_hold K))
      (c\<lparr>c_ref := RefChecksum d, c_input_celltype := Some (c_celltype c), c_exception := None\<rparr>, b1) = (Inr (), (c', bc'))"
    by (auto simp: replace_input_ref_def typed_input_celltype_def ref_checksum_def when_some_def or_option_def obind_def look_def change_def take_hold_def
        split: sum.splits prod.splits if_splits)
  then show ?thesis
    using set_result_ref [of K None "(c\<lparr>c_ref := RefChecksum d, c_input_celltype := Some (c_celltype c), c_exception := None\<rparr>, b1)"]
    by (auto simp: obind_def when_some_def give_hold_def split: sum.splits prod.splits option.splits)
qed

lemma commit_steps:
  assumes "commit K M W D R path v (c, bc) = (Inr (), (c', bc'))" and "path \<noteq> []"
    and "read_value K D R (c, bc) = (Inr whole, (c1, bc1))" and "whole \<noteq> VNone"
  obtains whole' d where "mutate_at M W (c_ref c1 = RefNone) (\<lambda>y st. set_item M y st v) path whole = Inr whole'"
    "wr_serialize R whole' (c_celltype c1) = Inr d" "c_ref c' = RefChecksum d"
proof -
  from assms obtain whole' where m: "mutate_at M W (c_ref c1 = RefNone) (\<lambda>y st. set_item M y st v) path whole = Inr whole'"
    and w: "write_value K D (wr_serialize R whole' (c_celltype c1)) False (c1, bc1) = (Inr (), (c', bc'))"
    by (auto simp: commit_def obind_def look_def write_root_def split: sum.splits)
  from w obtain d where d: "wr_serialize R whole' (c_celltype c1) = Inr d"
    by (cases "wr_serialize R whole' (c_celltype c1)") (auto simp: write_value_def obind_def look_def split: sum.splits)
  with w m that write_value_ref show ?thesis by metis
qed

text \<open>C26: what is written through a projection is read back through it. When the containers on
  the way are dictionaries and lists, a committed write leaves the root cell with the checksum
  of a value that has the new value at the end of the path, as the steps of an expression read
  it, and that reads as before along every path that parts from it.\<close>

theorem projection_write_is_read_back:
  assumes "commit K M W D R path v (c, bc) = (Inr (), (c', bc'))" and "path \<noteq> []"
    and "read_value K D R (c, bc) = (Inr whole, (c1, bc1))" and "whole \<noteq> VNone" and "c_ref c1 \<noteq> RefNone"
    and "along W whole path"
  shows "\<exists>whole' d. wr_serialize R whole' (c_celltype c1) = Inr d \<and> c_ref c' = RefChecksum d
    \<and> apply_steps W path whole' = Inr v
    \<and> (\<forall>q. parts_from path q \<longrightarrow> apply_steps W q whole' = apply_steps W q whole)"
proof -
  obtain whole' d where "mutate_at M W False (\<lambda>y st. set_item M y st v) path whole = Inr whole'"
    "wr_serialize R whole' (c_celltype c1) = Inr d" "c_ref c' = RefChecksum d"
    using commit_steps [OF assms(1-4)] assms(5) by auto
  with mutate_reaches [OF assms(6)] show ?thesis by blast
qed

definition tiny_mutators :: "unit mutators" where
  "tiny_mutators = \<lparr>mu_setitem = (\<lambda>_ _ _. Inl TypeError), mu_delitem = (\<lambda>_ _. Inl TypeError), mu_changed = (\<lambda>x _ _. x)\<rparr>"

definition tiny_list :: "unit pyval" where
  "tiny_list = VList [VInt 1, VDict [(u ''a'', VInt 2)]]"

text \<open>A root that shows \<open>tiny_list\<close>; the changed value, and that one, have checksums.\<close>

definition tiny_writing :: "unit writing" where
  "tiny_writing = \<lparr>wr_object = 0, wr_outcome = Inr None, wr_resolve = (\<lambda>_ _. Inr tiny_list),
     wr_serialize = (\<lambda>v _. Inr (if v = tiny_list then small else Checksum [])),
     wr_convert = (\<lambda>_ _ _. Inr None), wr_checked = (\<lambda>_ _. Inl TypeError)\<rparr>"

definition tiny_plain_cell :: cell where
  "tiny_plain_cell = \<lparr>c_ref = RefChecksum small, c_input_celltype = Some CtPlain, c_celltype = CtPlain, c_path = [], c_component = None,
     c_conversion = False, c_validator = None, c_language = None, c_scratch = False, c_exception = None, c_result = None,
     c_recipe = None, c_expression = None, c_released = False\<rparr>"

definition plain_surroundings :: surroundings where
  "plain_surroundings = \<lparr>k_sha = pad_sha, k_now = 0, k_unicode = ascii_unicode, k_leval = digit_leval, k_repr = digit_repr\<rparr>"

definition tiny_committed :: "(exc + unit) \<times> cell \<times> buffer_cache" where
  "tiny_committed = commit plain_surroundings tiny_mutators tiny_world [] tiny_writing [Item (LInt 1), Item (LStr (u ''a''))]
     (VInt 9) (tiny_plain_cell, cache_init 2)"

theorem projection_write_is_read_back_witness:
  "\<exists>whole'. apply_steps tiny_world [Item (LInt 1), Item (LStr (u ''a''))] whole' = Inr (VInt 9)
    \<and> apply_steps tiny_world [Item (LInt 0)] whole' = Inr (VInt 1)"
proof -
  let ?path = "[Item (LInt 1), Item (LStr (u ''a''))]"
  have run: "fst tiny_committed = Inr ()" by code_simp
  obtain c' bc' where c: "snd tiny_committed = (c', bc')" by (rule prod.exhaust)
  have "commit plain_surroundings tiny_mutators tiny_world [] tiny_writing ?path (VInt 9) (tiny_plain_cell, cache_init 2)
      = (Inr (), (c', bc'))"
    using run c unfolding tiny_committed_def by (metis prod.collapse)
  moreover have "read_value plain_surroundings [] tiny_writing (tiny_plain_cell, cache_init 2) =
      (Inr tiny_list, (tiny_plain_cell\<lparr>c_recipe := Some (recipe_key [] tiny_plain_cell)\<rparr>, cache_init 2))"
    by code_simp
  moreover have "tiny_list \<noteq> VNone" "c_ref (tiny_plain_cell\<lparr>c_recipe := Some (recipe_key [] tiny_plain_cell)\<rparr>) \<noteq> RefNone"
    "along tiny_world tiny_list ?path"
    by (code_simp, code_simp, code_simp)
  ultimately obtain whole' where w: "apply_steps tiny_world ?path whole' = Inr (VInt 9)"
    "\<forall>q. parts_from ?path q \<longrightarrow> apply_steps tiny_world q whole' = apply_steps tiny_world q tiny_list"
    using projection_write_is_read_back by blast
  have "parts_from ?path [Item (LInt 0)]" by code_simp
  with w(2) have "apply_steps tiny_world [Item (LInt 0)] whole' = apply_steps tiny_world [Item (LInt 0)] tiny_list" by blast
  also have "\<dots> = Inr (VInt 1)" by code_simp
  finally show ?thesis using w(1) by blast
qed

section \<open>A write that is lost\<close>

fun walk :: "'nd world \<Rightarrow> path_step list \<Rightarrow> 'nd pyval \<Rightarrow> 'nd pyval result" where
  "walk W [] x = Inr x"
| "walk W (st # path) x = rbind (subscript W x st) (walk W path)"

lemma changed_same: "fits x st \<Longrightarrow> subscript W x st = Inr c \<Longrightarrow> changed M x st c = x"
proof (erule fits_cases)
  fix kvs k assume "subscript W x st = Inr c" and x: "x = VDict kvs" "st = Item (LStr k)"
  then have "dget kvs k = Some c" by (auto split: option.splits)
  moreover have "dget kvs k = Some c \<Longrightarrow> dset k c kvs = kvs" for kvs :: "(ustr \<times> 'a pyval) list"
    by (induction kvs) (auto split: if_splits)
  ultimately show "changed M x st c = x" using x by simp
next
  fix vs l assume "subscript W x st = Inr c" and x: "x = VList vs" "st = Item l"
  then obtain n where "list_place vs l = Inr n" "c = vs ! n" by (auto simp: take_item_place rbind_Inr_iff)
  then show "changed M x st c = x" using x by simp
qed

lemma mutate_past_slice:
  "along W x front \<Longrightarrow> walk W front x = Inr (VList vs) \<Longrightarrow>
     mutate_at M W False f (front @ Slice a b d # st # path) x = Inr y \<Longrightarrow> y = x"
proof (induction front arbitrary: x y)
  case (Cons s front)
  from Cons.prems obtain c where c: "subscript W x s = Inr c" "fits x s" "along W c front" "walk W front c = Inr (VList vs)"
    by (auto simp: rbind_Inr_iff)
  obtain s' rest where tail: "front @ Slice a b d # st # path = s' # rest" by (cases front) auto
  from Cons.prems(3) c(1) obtain c' where "mutate_at M W False f (s' # rest) c = Inr c'" "y = changed M x s c'"
    by (auto simp: tail rbind_Inr_iff)
  with Cons.IH [OF c(3,4)] tail changed_same [OF c(2,1)] show ?case by simp
qed (auto simp: rbind_Inr_iff)



section \<open>The claims\<close>

lemma books_commit:
  assumes "cell_live c"
  shows "keeps_books cell_live cell_claims c (commit K M W D R path v)"
    and "keeps_books cell_live cell_claims c (delete_at K M W D R path)"
  using assms unfolding commit_def delete_at_def write_root_def read_value_def
  by (auto intro!: cell_books books_writes books_read_checksum simp del: op_simps split: option.split)

end
