(* ===== verification/ValueCaches.thy ===== *)
theory ValueCaches
  imports Values Lru
begin

text \<open>
  The caches before \<open>serialize\<close> and \<open>parse_buffer\<close> (\<open>checksum/serialize.py\<close>,
  \<open>checksum/parse_buffer.py\<close>) and the constructors of \<open>buffer_class.py\<close> that go through
  them. \<open>serialize_cache\<close> goes by the identity of a value, so here values are objects with
  an identity and a content that the program may change. Both caches are \<open>lrucache2\<close>, by
  \<open>lru_refines_dictionary\<close> the bounded dictionary of \<open>Lru\<close>.
\<close>

section \<open>Objects\<close>

text \<open>What an entry of \<open>serialize_cache\<close> holds: bytes, from \<open>serialize\<close>, or the
  \<open>Buffer\<close> itself, from \<open>parse_buffer\<close>; and the value, so that its identity stays taken.\<close>

datatype payload = RawBytes bytes | BufferObject bytes

record 'nd objects =
  oj_value :: "nat \<Rightarrow> 'nd pyval"
  oj_held :: "nat list"
  oj_serialized :: "(nat \<times> celltype, payload \<times> nat) lru_spec"
  oj_parsed :: "(checksum \<times> celltype, nat) lru_spec"
  oj_state :: vstate

text \<open>\<open>oj_held\<close> are the objects that the program refers to, \<open>cached_ids\<close> those that a
  cache refers to. Neither kind dies, so a new object has none of their identities, unless
  Python shares an immutable value.\<close>

definition cached_ids :: "'nd objects \<Rightarrow> nat list" where
  "cached_ids s = map (snd \<circ> snd) (lp_items (oj_serialized s)) @ map snd (lp_items (oj_parsed s))"

text \<open>\<open>serialize_cache = lrucache2(10)\<close>, \<open>parse_buffer_cache = lrucache2(10)\<close>\<close>

definition first_objects :: "vstate \<Rightarrow> 'nd objects" where
  "first_objects vs = \<lparr>oj_value = (\<lambda>_. VNone), oj_held = [], oj_serialized = new_spec 10 False,
     oj_parsed = new_spec 10 False, oj_state = vs\<rparr>"

type_synonym ('nd, 'a) jop = "('nd objects, exc, 'a) op"

definition put_object :: "nat \<Rightarrow> 'nd pyval \<Rightarrow> 'nd objects \<Rightarrow> 'nd objects" where
  "put_object n v s = s\<lparr>oj_value := (oj_value s)(n := v)\<rparr>"

definition hold_object :: "nat \<Rightarrow> 'nd objects \<Rightarrow> 'nd objects" where
  "hold_object n s = s\<lparr>oj_held := n # oj_held s\<rparr>"

section \<open>Serializing\<close>

definition serialize_sync :: "'nd codec \<Rightarrow> nat \<Rightarrow> celltype \<Rightarrow> bool \<Rightarrow> ('nd, payload) jop" where
  "serialize_sync K i ct use_cache s =
     (case (if use_cache then dget (lp_items (oj_serialized s)) (i, ct) else None) of
        Some (p, j) \<Rightarrow> (Inr p, s\<lparr>oj_serialized := spec_put (i, ct) (p, j) (oj_serialized s)\<rparr>)
      | None \<Rightarrow>
          (case Values.serialize K (oj_value s i) ct of
             Inl e \<Rightarrow> (Inl e, s)
           | Inr b \<Rightarrow>
               (Inr (RawBytes b),
                if use_cache then s\<lparr>oj_serialized := spec_set (i, ct) (RawBytes b, i) (oj_serialized s)\<rparr> else s)))"

definition serialize_async :: "'nd codec \<Rightarrow> nat \<Rightarrow> celltype \<Rightarrow> bool \<Rightarrow> ('nd, payload) jop" where
  "serialize_async K i ct use_cache s =
     (if oj_value s i = VNone then (Inl AssertionError, s) else serialize_sync K i ct use_cache s)"

text \<open>\<open>Buffer(value, celltype)\<close>, the content of the new buffer; the dictionary of a deep
  celltype is rewritten into a new one, the object \<open>n\<close>.\<close>

definition hexed :: "'nd pyval \<Rightarrow> celltype \<Rightarrow> 'nd pyval option" where
  "hexed v ct =
     (case v of
        VDict kvs \<Rightarrow>
          if ct \<in> set DEEP_CELLTYPES then
            Some (VDict (map (\<lambda>(k, m). (k, case m of VChecksum c \<Rightarrow> VStr (hex c) | _ \<Rightarrow> m)) kvs))
          else None
      | _ \<Rightarrow> None)"

definition is_checksum :: "'nd pyval \<Rightarrow> bool" where
  "is_checksum v = (case v of VChecksum _ \<Rightarrow> True | _ \<Rightarrow> False)"

definition buffer_init :: "'nd codec \<Rightarrow> nat \<Rightarrow> celltype \<Rightarrow> nat \<Rightarrow> ('nd, payload) jop" where
  "buffer_init K i ct n s =
     (if is_checksum (oj_value s i) \<and> ct \<noteq> CtChecksum then (Inl TypeError, s)
      else
        let (j, s1) = (case hexed (oj_value s i) ct of None \<Rightarrow> (i, s) | Some v \<Rightarrow> (n, put_object n v s))
        in obind (olift (map_celltype ct)) (\<lambda>ct'. serialize_sync K j ct' True) s1)"

definition buffer_from_async :: "'nd codec \<Rightarrow> nat \<Rightarrow> celltype \<Rightarrow> bool \<Rightarrow> ('nd, payload) jop" where
  "buffer_from_async K i ct use_cache =
     obind (olift (map_celltype ct)) (\<lambda>ct'. serialize_async K i ct' use_cache)"

section \<open>Parsing\<close>

text \<open>\<open>parse_buffer\<close>: the value of the buffer is the object \<open>n\<close>, unless a cached one is
  returned. A cached \<open>None\<close> is no hit.\<close>

definition parse_hit :: "checksum \<Rightarrow> celltype \<Rightarrow> 'nd objects \<Rightarrow> nat option" where
  "parse_hit c ct s =
     (case dget (lp_items (oj_parsed s)) (c, ct) of
        Some j \<Rightarrow> if oj_value s j \<noteq> VNone then Some j else None
      | None \<Rightarrow> None)"

definition touch_parsed :: "checksum \<Rightarrow> celltype \<Rightarrow> 'nd objects \<Rightarrow> 'nd objects" where
  "touch_parsed c ct s =
     (case dget (lp_items (oj_parsed s)) (c, ct) of
        Some j \<Rightarrow> s\<lparr>oj_parsed := spec_put (c, ct) j (oj_parsed s)\<rparr> | None \<Rightarrow> s)"

definition parse_anew :: "'nd env \<Rightarrow> bytes \<Rightarrow> checksum \<Rightarrow> celltype \<Rightarrow> bool \<Rightarrow> nat \<Rightarrow> ('nd, nat) jop" where
  "parse_anew E x c ct copy n s =
     (case parse_buffer E x c ct (oj_state s) of
        (Inl e, vs) \<Rightarrow> (Inl e, s\<lparr>oj_state := vs\<rparr>)
      | (Inr v, vs) \<Rightarrow>
          let s1 = hold_object n (put_object n v (s\<lparr>oj_state := vs\<rparr>));
              s2 = (if ct \<notin> set text_types2 \<and> \<not> copy then s1\<lparr>oj_parsed := spec_set (c, ct) n (oj_parsed s1)\<rparr> else s1);
              s3 = (if \<not> copy then s2\<lparr>oj_serialized := spec_set (n, ct) (BufferObject x, n) (oj_serialized s2)\<rparr> else s2)
          in (Inr n, s3))"

definition parse_sync :: "'nd env \<Rightarrow> bytes \<Rightarrow> checksum \<Rightarrow> celltype \<Rightarrow> bool \<Rightarrow> nat \<Rightarrow> ('nd, nat) jop" where
  "parse_sync E x c ct copy n s =
     (let s1 = touch_parsed c ct s in
      case parse_hit c ct s of
        Some j \<Rightarrow>
          if copy then (Inr n, hold_object n (put_object n (oj_value s1 j) s1)) else (Inr j, hold_object j s1)
      | None \<Rightarrow> parse_anew E x c ct copy n s1)"

definition parse_async :: "'nd env \<Rightarrow> bytes \<Rightarrow> checksum \<Rightarrow> celltype \<Rightarrow> bool \<Rightarrow> nat \<Rightarrow> ('nd, nat) jop" where
  "parse_async E x c ct copy n s =
     (let s1 = touch_parsed c ct s in
      case parse_hit c ct s of
        Some j \<Rightarrow> if copy then parse_anew E x c ct copy n s1 else (Inr j, hold_object j s1)
      | None \<Rightarrow> parse_anew E x c ct copy n s1)"

section \<open>Programs\<close>

datatype 'nd call =
    Create nat "'nd pyval"
  | Drop nat
  | Change nat "'nd pyval"
  | SerializeSync nat celltype bool
  | SerializeAsync nat celltype bool
  | BufferOf nat celltype nat
  | FromAsync nat celltype bool
  | ParseSync bytes checksum celltype bool nat
  | ParseAsync bytes checksum celltype bool nat

datatype reply = Done | Payload payload | Object nat

fun perform :: "'nd env \<Rightarrow> 'nd call \<Rightarrow> ('nd, reply) jop" where
  "perform E (Create n v) s = (Inr Done, hold_object n (put_object n v s))"
| "perform E (Drop n) s = (Inr Done, s\<lparr>oj_held := remove1 n (oj_held s)\<rparr>)"
| "perform E (Change i v) s = (Inr Done, put_object i v s)"
| "perform E (SerializeSync i ct c) s = answering Payload (serialize_sync (e_codec E) i ct c) s"
| "perform E (SerializeAsync i ct c) s = answering Payload (serialize_async (e_codec E) i ct c) s"
| "perform E (BufferOf i ct n) s = answering Payload (buffer_init (e_codec E) i ct n) s"
| "perform E (FromAsync i ct c) s = answering Payload (buffer_from_async (e_codec E) i ct c) s"
| "perform E (ParseSync x c ct copy n) s = answering Object (parse_sync E x c ct copy n) s"
| "perform E (ParseAsync x c ct copy n) s = answering Object (parse_async E x c ct copy n) s"

text \<open>The same without caches.\<close>

definition plain_bytes :: "bytes result \<Rightarrow> reply result" where
  "plain_bytes r = rbind r (\<lambda>b. Inr (Payload (RawBytes b)))"

definition plain_parse :: "'nd env \<Rightarrow> bytes \<Rightarrow> checksum \<Rightarrow> celltype \<Rightarrow> nat \<Rightarrow> ('nd, reply) jop" where
  "plain_parse E x c ct n s =
     (case parse_buffer E x c ct (oj_state s) of
        (Inl e, vs) \<Rightarrow> (Inl e, s\<lparr>oj_state := vs\<rparr>)
      | (Inr v, vs) \<Rightarrow> (Inr (Object n), hold_object n (put_object n v (s\<lparr>oj_state := vs\<rparr>))))"

fun direct :: "'nd env \<Rightarrow> 'nd call \<Rightarrow> ('nd, reply) jop" where
  "direct E (SerializeSync i ct c) s = (plain_bytes (Values.serialize (e_codec E) (oj_value s i) ct), s)"
| "direct E (SerializeAsync i ct c) s =
     (if oj_value s i = VNone then Inl AssertionError
      else plain_bytes (Values.serialize (e_codec E) (oj_value s i) ct), s)"
| "direct E (BufferOf i ct n) s =
     (plain_bytes (buffer_of (e_codec E) (oj_value s i) ct),
      if is_checksum (oj_value s i) \<and> ct \<noteq> CtChecksum then s
      else case hexed (oj_value s i) ct of None \<Rightarrow> s | Some v \<Rightarrow> put_object n v s)"
| "direct E (FromAsync i ct c) s =
     (rbind (map_celltype ct) (\<lambda>ct'.
        if oj_value s i = VNone then Inl AssertionError
        else plain_bytes (Values.serialize (e_codec E) (oj_value s i) ct')), s)"
| "direct E (ParseSync x c ct copy n) s = plain_parse E x c ct n s"
| "direct E (ParseAsync x c ct copy n) s = plain_parse E x c ct n s"
| "direct E c s = perform E c s"

text \<open>A careful program changes no object that a cache refers to, and never reads a value with
  \<open>copy=False\<close>.\<close>

definition sharing :: "'nd call \<Rightarrow> bool" where
  "sharing c = (case c of ParseSync _ _ _ copy _ \<Rightarrow> \<not> copy | ParseAsync _ _ _ copy _ \<Rightarrow> \<not> copy | _ \<Rightarrow> False)"

definition untouched :: "'nd objects \<Rightarrow> 'nd objects \<Rightarrow> bool" where
  "untouched s s' \<longleftrightarrow> list_all (\<lambda>i. oj_value s' i = oj_value s i) (cached_ids s)"

fun careful :: "'nd env \<Rightarrow> 'nd call list \<Rightarrow> 'nd objects \<Rightarrow> bool" where
  "careful E [] s = True"
| "careful E (c # cs) s =
     (\<not> sharing c \<and> untouched s (snd (perform E c s)) \<and> careful E cs (snd (perform E c s)))"

section \<open>What a careful program sees\<close>

text \<open>Every entry is what serializing its object gives.\<close>

definition right_entry :: "'nd codec \<Rightarrow> (nat \<Rightarrow> 'nd pyval) \<Rightarrow> (nat \<times> celltype) \<times> payload \<times> nat \<Rightarrow> bool" where
  "right_entry K m e \<longleftrightarrow>
     snd (snd e) = fst (fst e)
     \<and> (\<exists>b. fst (snd e) = RawBytes b \<and> Values.serialize K (m (fst (fst e))) (snd (fst e)) = Inr b)"

definition faithful :: "'nd codec \<Rightarrow> 'nd objects \<Rightarrow> bool" where
  "faithful K s \<longleftrightarrow> lp_items (oj_parsed s) = [] \<and> (\<forall>e \<in> set (lp_items (oj_serialized s)). right_entry K (oj_value s) e)"

definition same_objects :: "'nd objects \<Rightarrow> 'nd objects \<Rightarrow> bool" where
  "same_objects s t \<longleftrightarrow> oj_value s = oj_value t \<and> oj_held s = oj_held t \<and> oj_state s = oj_state t"

lemma object_ops [simp]:
  "oj_value (put_object n v s) = (oj_value s)(n := v)" "oj_held (put_object n v s) = oj_held s"
  "oj_serialized (put_object n v s) = oj_serialized s" "oj_parsed (put_object n v s) = oj_parsed s"
  "oj_state (put_object n v s) = oj_state s"
  "oj_value (hold_object n s) = oj_value s" "oj_held (hold_object n s) = n # oj_held s"
  "oj_serialized (hold_object n s) = oj_serialized s" "oj_parsed (hold_object n s) = oj_parsed s"
  "oj_state (hold_object n s) = oj_state s"
  by (simp_all add: put_object_def hold_object_def)

lemma items_put: "set (lp_items (spec_put k v p)) \<subseteq> insert (k, v) (set (lp_items p))"
proof -
  have "set (lp_items (spec_put k v p)) \<subseteq> set ((k, v) # ddel k (lp_items p))"
    by (auto simp: spec_put_def Let_def dest: in_set_takeD)
  moreover have "set (ddel k (lp_items p)) \<subseteq> set (lp_items p)"
    by (auto simp: AList.delete_eq)
  ultimately show ?thesis by auto
qed

lemma items_set: "set (lp_items (spec_set k v p)) \<subseteq> insert (k, v) (set (lp_items p))"
  using items_put [of k v p] by (auto simp: spec_set_def)

lemma faithful_change:
  assumes "faithful K s" and "untouched s s'" and "lp_items (oj_parsed s') = []"
    and "oj_serialized s' = oj_serialized s"
  shows "faithful K s'"
  unfolding faithful_def
proof (intro conjI ballI)
  fix e assume "e \<in> set (lp_items (oj_serialized s'))"
  with assms have e: "e \<in> set (lp_items (oj_serialized s))" "right_entry K (oj_value s) e"
    by (auto simp: faithful_def)
  then have "snd (snd e) \<in> set (cached_ids s)" by (force simp: cached_ids_def)
  with assms(2) e(2) have "oj_value s' (fst (fst e)) = oj_value s (fst (fst e))"
    by (auto simp: untouched_def list_all_iff right_entry_def)
  with e(2) show "right_entry K (oj_value s') e" by (simp add: right_entry_def)
qed (fact assms(3))

lemma faithful_entry:
  assumes "faithful K s" and "right_entry K (oj_value s) (k, v)"
    and "set (lp_items p) \<subseteq> insert (k, v) (set (lp_items (oj_serialized s)))"
  shows "faithful K (s\<lparr>oj_serialized := p\<rparr>)"
  using assms by (auto simp: faithful_def)

lemma serialize_sync_faithful:
  assumes "faithful K s" and "serialize_sync K i ct use_cache s = (r, s')"
  shows "r = rbind (Values.serialize K (oj_value s i) ct) (\<lambda>b. Inr (RawBytes b))
    \<and> faithful K s' \<and> same_objects s s'"
proof (cases "if use_cache then dget (lp_items (oj_serialized s)) (i, ct) else None")
  case None
  show ?thesis
  proof (cases "Values.serialize K (oj_value s i) ct")
    case (Inr b)
    have "faithful K (s\<lparr>oj_serialized := spec_set (i, ct) (RawBytes b, i) (oj_serialized s)\<rparr>)"
      using assms(1) _ items_set by (rule faithful_entry) (simp add: right_entry_def Inr)
    with None Inr assms show ?thesis by (auto simp: serialize_sync_def same_objects_def split: if_splits)
  qed (use None assms in \<open>simp add: serialize_sync_def same_objects_def\<close>)
next
  case (Some pj)
  obtain p j where pj: "pj = (p, j)" by (cases pj)
  with Some have "((i, ct), p, j) \<in> set (lp_items (oj_serialized s))" by (auto dest: dget_in_set split: if_splits)
  with assms(1) have e: "right_entry K (oj_value s) ((i, ct), p, j)" by (auto simp: faithful_def)
  have "faithful K (s\<lparr>oj_serialized := spec_put (i, ct) (p, j) (oj_serialized s)\<rparr>)"
    using assms(1) e items_put by (rule faithful_entry)
  with assms(2) Some pj e show ?thesis by (auto simp: serialize_sync_def same_objects_def right_entry_def)
qed

lemma buffer_of_hexed:
  "buffer_of K v ct =
     (if is_checksum v \<and> ct \<noteq> CtChecksum then Inl TypeError
      else rbind (map_celltype ct) (Values.serialize K (case hexed v ct of Some w \<Rightarrow> w | None \<Rightarrow> v)))"
  by (auto simp: buffer_of_def hexed_def is_checksum_def Let_def split: pyval.split)

lemma same_objects_refl [simp]: "same_objects s s"
  by (simp add: same_objects_def)

text \<open>One call: the answer of the caches is the answer without them.\<close>

lemma serialize_call:
  assumes "faithful K s" and "answering Payload (serialize_sync K i ct use_cache) s = (r, s')"
  shows "r = plain_bytes (Values.serialize K (oj_value s i) ct) \<and> faithful K s' \<and> same_objects s s'"
proof -
  obtain q s1 where q: "serialize_sync K i ct use_cache s = (q, s1)" by (rule prod.exhaust)
  with serialize_sync_faithful [OF assms(1) q] assms(2) show ?thesis
    by (cases "Values.serialize K (oj_value s i) ct") (auto simp: answering_def obind_def plain_bytes_def)
qed

lemma no_hit: "lp_items (oj_parsed s) = [] \<Longrightarrow> parse_hit c ct s = None \<and> touch_parsed c ct s = s"
  by (simp add: parse_hit_def touch_parsed_def)

definition agrees :: "'nd env \<Rightarrow> 'nd call \<Rightarrow> 'nd objects \<Rightarrow> 'nd objects \<Rightarrow> bool" where
  "agrees E c s t \<longleftrightarrow>
     fst (perform E c s) = fst (direct E c t) \<and> faithful (e_codec E) (snd (perform E c s))
     \<and> same_objects (snd (perform E c s)) (snd (direct E c t))"

lemma agreesI:
  "perform E c s = (r, s') \<Longrightarrow> direct E c t = (q, t') \<Longrightarrow> r = q \<and> faithful (e_codec E) s' \<and> same_objects s' t'
     \<Longrightarrow> agrees E c s t"
  by (simp add: agrees_def)

lemma same_objects_put: "same_objects s t \<Longrightarrow> same_objects (put_object n v s) (put_object n v t)"
  by (simp add: same_objects_def)

lemma agrees_buffer_of:
  assumes "faithful (e_codec E) s" and "same_objects s t" and "untouched s (snd (perform E (BufferOf i ct n) s))"
  shows "agrees E (BufferOf i ct n) s t"
proof -
  let ?K = "e_codec E" and ?v = "oj_value s i"
  have v: "oj_value t i = ?v" using assms(2) by (simp add: same_objects_def)
  show ?thesis
  proof (cases "is_checksum ?v \<and> ct \<noteq> CtChecksum")
    case True
    with assms(1,2) v show ?thesis
      by (simp add: agrees_def buffer_init_def answering_def obind_def buffer_of_hexed plain_bytes_def)
  next
    case False
    define j where "j = (case hexed ?v ct of None \<Rightarrow> i | Some w \<Rightarrow> n)"
    define s1 where "s1 = (case hexed ?v ct of None \<Rightarrow> s | Some w \<Rightarrow> put_object n w s)"
    define t1 where "t1 = (case hexed ?v ct of None \<Rightarrow> t | Some w \<Rightarrow> put_object n w t)"
    have t1: "direct E (BufferOf i ct n) t = (plain_bytes (buffer_of ?K ?v ct), t1)"
      using False v by (auto simp: t1_def split: option.split)
    have same: "same_objects s1 t1" using assms(2) by (simp add: s1_def t1_def same_objects_put split: option.split)
    have content: "buffer_of ?K ?v ct = rbind (map_celltype ct) (Values.serialize ?K (oj_value s1 j))"
      using False by (auto simp: buffer_of_hexed s1_def j_def split: option.split)
    have init: "buffer_init ?K i ct n s = obind (olift (map_celltype ct)) (\<lambda>ct'. serialize_sync ?K j ct' True) s1"
      using False by (auto simp: buffer_init_def s1_def j_def split: option.split)
    show ?thesis
    proof (cases "map_celltype ct")
      case (Inl e)
      with init have p: "perform E (BufferOf i ct n) s = (Inl e, s1)" by (simp add: answering_def obind_def)
      with assms(3) have "untouched s s1" by simp
      then have "faithful ?K s1" by (rule faithful_change [OF assms(1)]) (use assms(1) in \<open>auto simp: s1_def faithful_def split: option.split\<close>)
      with Inl content same show ?thesis by (intro agreesI [OF p t1]) (simp add: plain_bytes_def)
    next
      case (Inr ct')
      obtain r s' where r: "answering Payload (serialize_sync ?K j ct' True) s1 = (r, s')" by (rule prod.exhaust)
      with init Inr have p: "perform E (BufferOf i ct n) s = (r, s')" by (simp add: answering_def obind_def)
      have "oj_value s' = oj_value s1"
        using r by (auto simp: answering_def obind_def serialize_sync_def split: option.splits sum.splits if_splits)
      with assms(3) p have "untouched s s1" by (simp add: untouched_def)
      then have "faithful ?K s1" by (rule faithful_change [OF assms(1)]) (use assms(1) in \<open>auto simp: s1_def faithful_def split: option.split\<close>)
      from serialize_call [OF this r] Inr content same show ?thesis
        by (intro agreesI [OF p t1]) (simp add: same_objects_def)
    qed
  qed
qed

lemma agrees_async:
  assumes "faithful K s"
  shows "fst (answering Payload (serialize_async K i ct c) s)
      = (if oj_value s i = VNone then Inl AssertionError else plain_bytes (Values.serialize K (oj_value s i) ct))
    \<and> faithful K (snd (answering Payload (serialize_async K i ct c) s))
    \<and> same_objects s (snd (answering Payload (serialize_async K i ct c) s))"
proof (cases "oj_value s i = VNone")
  case True
  with assms show ?thesis by (simp add: serialize_async_def answering_def obind_def)
next
  case False
  obtain r s' where r: "answering Payload (serialize_sync K i ct c) s = (r, s')" by (rule prod.exhaust)
  with False have "answering Payload (serialize_async K i ct c) s = (r, s')"
    by (simp add: serialize_async_def answering_def obind_def)
  with serialize_call [OF assms r] False show ?thesis by simp
qed

lemma agrees_parse:
  assumes "faithful (e_codec E) s" and "same_objects s t" and "parse_anew E x c ct True n s = (r, s')"
    and "untouched s s'"
  shows "fst (plain_parse E x c ct n t) = rbind r (\<lambda>i. Inr (Object i)) \<and> faithful (e_codec E) s'
    \<and> same_objects s' (snd (plain_parse E x c ct n t))"
proof -
  obtain q vs where q: "parse_buffer E x c ct (oj_state s) = (q, vs)" by (rule prod.exhaust)
  have "faithful (e_codec E) s'"
    using assms(1,4) by (rule faithful_change)
      (use assms(1,3) q in \<open>auto simp: parse_anew_def faithful_def Let_def split: sum.splits\<close>)
  with assms(2,3) q show ?thesis
    by (auto simp: parse_anew_def plain_parse_def same_objects_def Let_def split: sum.splits)
qed

lemma call_agrees:
  assumes "faithful (e_codec E) s" and "same_objects s t" and "\<not> sharing c" and "untouched s (snd (perform E c s))"
  shows "agrees E c s t"
proof (cases c)
  case (BufferOf i ct n)
  with agrees_buffer_of [OF assms(1,2)] assms(4) show ?thesis by simp
next
  case (SerializeSync i ct u)
  obtain r s' where r: "answering Payload (serialize_sync (e_codec E) i ct u) s = (r, s')" by (rule prod.exhaust)
  with serialize_call [OF assms(1) r] assms(2) SerializeSync show ?thesis
    by (simp add: agrees_def same_objects_def)
next
  case (SerializeAsync i ct u)
  with agrees_async [OF assms(1)] assms(2) show ?thesis by (auto simp: agrees_def same_objects_def)
next
  case (FromAsync i ct u)
  show ?thesis
  proof (cases "map_celltype ct")
    case (Inl e)
    with FromAsync assms(1,2) show ?thesis by (simp add: agrees_def buffer_from_async_def answering_def obind_def)
  next
    case (Inr ct')
    then have "answering Payload (buffer_from_async (e_codec E) i ct u) s = answering Payload (serialize_async (e_codec E) i ct' u) s"
      by (simp add: buffer_from_async_def answering_def obind_def)
    with agrees_async [OF assms(1), of i ct' u] assms(2) FromAsync Inr show ?thesis
      by (auto simp: agrees_def same_objects_def)
  qed
next
  case (ParseSync x d ct copy n)
  obtain r s' where r: "parse_anew E x d ct True n s = (r, s')" by (rule prod.exhaust)
  have p: "perform E c s = (rbind r (\<lambda>i. Inr (Object i)), s')"
    using assms(1,3) r ParseSync
    by (cases r) (simp_all add: parse_sync_def no_hit faithful_def sharing_def answering_def obind_def)
  with assms(4) have "untouched s s'" by simp
  from agrees_parse [OF assms(1,2) r this] p ParseSync show ?thesis by (simp add: agrees_def)
next
  case (ParseAsync x d ct copy n)
  obtain r s' where r: "parse_anew E x d ct True n s = (r, s')" by (rule prod.exhaust)
  have p: "perform E c s = (rbind r (\<lambda>i. Inr (Object i)), s')"
    using assms(1,3) r ParseAsync
    by (cases r) (simp_all add: parse_async_def no_hit faithful_def sharing_def answering_def obind_def)
  with assms(4) have "untouched s s'" by simp
  from agrees_parse [OF assms(1,2) r this] p ParseAsync show ?thesis by (simp add: agrees_def)
next
  case (Create n v)
  have "faithful (e_codec E) (snd (perform E c s))"
    using assms(1,4) by (rule faithful_change) (use assms(1) Create in \<open>simp_all add: faithful_def\<close>)
  with assms(2) Create show ?thesis by (simp add: agrees_def same_objects_def)
next
  case (Change i v)
  have "faithful (e_codec E) (snd (perform E c s))"
    using assms(1,4) by (rule faithful_change) (use assms(1) Change in \<open>simp_all add: faithful_def\<close>)
  with assms(2) Change show ?thesis by (simp add: agrees_def same_objects_def)
next
  case (Drop n)
  with assms show ?thesis by (auto simp: agrees_def same_objects_def faithful_def)
qed


lemma runs_agree:
  "faithful (e_codec E) s \<Longrightarrow> same_objects s t \<Longrightarrow> careful E cs s \<Longrightarrow>
     fst (run_calls (perform E) cs s) = fst (run_calls (direct E) cs t)"
proof (induction cs arbitrary: s t)
  case (Cons c cs)
  obtain r s' where p: "perform E c s = (r, s')" by (rule prod.exhaust)
  obtain q t' where d: "direct E c t = (q, t')" by (rule prod.exhaust)
  from Cons.prems have "agrees E c s t" by (auto intro: call_agrees)
  with p d have "r = q" "faithful (e_codec E) s'" "same_objects s' t'" by (auto simp: agrees_def)
  with Cons.IH [of s' t'] Cons.prems(3) p d show ?case by (simp add: split_beta)
qed simp

text \<open>C31: the caches before \<open>serialize\<close> and \<open>parse_buffer\<close> cannot be seen by a program
  that changes no value it has serialized and reads none with \<open>copy=False\<close>: every call of
  \<open>serialize\<close>, \<open>Buffer(value, celltype)\<close>, \<open>Buffer.from_async\<close> and the parsers answers as
  it does without caches, whatever identities objects take once others have died.\<close>

theorem careful_programs_see_no_cache:
  assumes "careful E cs (first_objects vs)"
  shows "fst (run_calls (perform E) cs (first_objects vs)) = fst (run_calls (direct E) cs (first_objects vs))"
proof -
  have "faithful (e_codec E) (first_objects vs)" by (simp add: faithful_def first_objects_def new_spec_def)
  then show ?thesis using assms by (intro runs_agree) simp_all
qed

definition greeting_calls :: "unit call list" where
  "greeting_calls = [Create 0 (VStr (u ''hi'')), SerializeSync 0 CtText True, BufferOf 0 CtText 7, Create 1 (VStr (u ''ho'')),
     Change 1 (VStr (u ''hi'')), SerializeAsync 1 CtText True, Drop 1, SerializeSync 0 CtText True]"

theorem careful_programs_see_no_cache_witness:
  "fst (run_calls (perform tiny_env) greeting_calls (first_objects tiny_state))
     = fst (run_calls (direct tiny_env) greeting_calls (first_objects tiny_state))
   \<and> length (lp_items (oj_serialized (snd (run_calls (perform tiny_env) greeting_calls (first_objects tiny_state))))) = 2"
proof -
  have "careful tiny_env greeting_calls (first_objects tiny_state)" by code_simp
  from careful_programs_see_no_cache [OF this] show ?thesis by (rule conjI) code_simp
qed

section \<open>What a changed value serializes to\<close>

text \<open>The place of a key in the order of use; a call moves it down by one at most.\<close>

definition kept :: "nat \<Rightarrow> 'k \<Rightarrow> 'v \<Rightarrow> ('k, 'v) lru_spec \<Rightarrow> bool" where
  "kept n k x p \<longleftrightarrow> (\<exists>l r. lp_items p = l @ (k, x) # r \<and> k \<notin> fst ` set l \<and> length l < n)"

lemma kept_dget: "kept n k x p \<Longrightarrow> dget (lp_items p) k = Some x"
  by (force simp: kept_def map_add_def split: option.splits dest: dget_in_set)

lemma kept_Suc: "kept n k x p \<Longrightarrow> kept (Suc n) k x p"
  by (force simp: kept_def)

lemma kept_put_same: "0 < lp_size p \<Longrightarrow> kept (Suc n) k x (spec_put k x p)"
  unfolding kept_def spec_put_def Let_def
  by (intro exI [of _ "[]"] exI [of _ "take (lp_size p - 1) (ddel k (lp_items p))"]) (cases "lp_size p"; simp)

lemma kept_put_other:
  assumes "kept n k x p" and "k' \<noteq> k" and "n < lp_size p"
  shows "kept (Suc n) k x (spec_put k' v p)"
proof -
  obtain l r where l: "lp_items p = l @ (k, x) # r" "k \<notin> fst ` set l" "length l < n"
    using assms(1) by (auto simp: kept_def)
  let ?l = "(k', v) # ddel k' l"
  have d: "ddel k' (lp_items p) = ddel k' l @ (k, x) # ddel k' r"
    using assms(2) l(1) by (simp add: AList.delete_eq)
  have n: "length ?l \<le> n" using l(3) length_ddel_le [of k' l] by simp
  with assms(3) obtain q where q: "lp_size p = length ?l + Suc q" by (metis add_Suc_right le_trans less_imp_Suc_add add.commute less_le_trans not_less)
  have "lp_items (spec_put k' v p) = take (lp_size p) (?l @ (k, x) # ddel k' r)"
    by (simp add: spec_put_def Let_def d)
  also have "\<dots> = ?l @ (k, x) # take q (ddel k' r)" by (simp only: q take_append) simp
  finally have "lp_items (spec_put k' v p) = ?l @ (k, x) # take q (ddel k' r)" .
  moreover have "k \<notin> fst ` set ?l" using l(2) assms(2) by (auto simp: AList.delete_eq)
  ultimately show ?thesis using n unfolding kept_def
    by (intro exI [of _ ?l] exI [of _ "take q (ddel k' r)"]) auto
qed

lemma size_put [simp]: "lp_size (spec_put k v p) = lp_size p" "lp_size (spec_set k v p) = lp_size p"
  "lp_disabled (spec_put k v p) = lp_disabled p" "lp_disabled (spec_set k v p) = lp_disabled p"
  by (simp_all add: spec_put_def spec_set_def Let_def)

text \<open>The entry of the object \<open>i\<close> stays while fewer calls are made than the cache has places.\<close>

definition remembers :: "nat \<Rightarrow> nat \<Rightarrow> celltype \<Rightarrow> payload \<times> nat \<Rightarrow> nat \<Rightarrow> 'nd objects \<Rightarrow> bool" where
  "remembers n i ct x m s \<longleftrightarrow>
     kept n (i, ct) x (oj_serialized s) \<and> lp_size (oj_serialized s) = m \<and> \<not> lp_disabled (oj_serialized s)"

lemma remembers_Suc: "remembers n i ct x m s \<Longrightarrow> remembers (Suc n) i ct x m s"
  by (auto simp: remembers_def kept_Suc)

lemma remembers_same:
  "remembers n i ct x m s \<Longrightarrow> oj_serialized s' = oj_serialized s \<Longrightarrow> remembers n i ct x m s'"
  by (simp add: remembers_def)

lemma remembers_put:
  assumes "remembers n i ct x m s" and "n < m" and "k \<noteq> (i, ct) \<or> v = x"
    and "oj_serialized s' = spec_put k v (oj_serialized s)"
  shows "remembers (Suc n) i ct x m s'"
  using assms kept_put_other [of n "(i, ct)" x "oj_serialized s" k v] kept_put_same [of "oj_serialized s" n "(i, ct)" x]
  by (cases "k = (i, ct)") (auto simp: remembers_def)

lemma remembers_serialize:
  assumes "remembers n i ct x m s" and "n < m"
  shows "remembers (Suc n) i ct x m (snd (serialize_sync K j ct' use_cache s))"
proof (cases "if use_cache then dget (lp_items (oj_serialized s)) (j, ct') else None")
  case None
  show ?thesis
  proof (cases "Values.serialize K (oj_value s j) ct'")
    case (Inl e)
    with None assms show ?thesis by (simp add: serialize_sync_def remembers_Suc)
  next
    case (Inr b)
    show ?thesis
    proof (cases use_cache)
      case True
      with None have "(j, ct') \<noteq> (i, ct)" using kept_dget [of n "(i, ct)" x] assms(1) by (auto simp: remembers_def)
      with True None Inr assms show ?thesis
        by (intro remembers_put [where k = "(j, ct')" and v = "(RawBytes b, j)"])
          (auto simp: serialize_sync_def spec_set_def remembers_def)
    qed (use None Inr assms in \<open>simp add: serialize_sync_def remembers_Suc\<close>)
  qed
next
  case (Some pj)
  obtain p q where pj: "pj = (p, q)" by (cases pj)
  with Some have "(j, ct') \<noteq> (i, ct) \<or> (p, q) = x"
    using kept_dget [of n "(i, ct)" x "oj_serialized s"] assms(1) by (auto simp: remembers_def split: if_splits)
  then show ?thesis using assms Some pj
    by (intro remembers_put [where k = "(j, ct')" and v = "(p, q)"]) (auto simp: serialize_sync_def)
qed

lemma remembers_async:
  "remembers n i ct x m s \<Longrightarrow> n < m \<Longrightarrow> remembers (Suc n) i ct x m (snd (serialize_async K j ct' use_cache s))"
  by (simp add: serialize_async_def remembers_serialize remembers_Suc)

lemma snd_answering [simp]: "snd (answering f m s) = snd (m s)"
  by (simp add: answering_def obind_def split: prod.split sum.split)

lemma serialized_touch [simp]: "oj_serialized (touch_parsed c ct s) = oj_serialized s"
  by (simp add: touch_parsed_def split: option.split)

lemma remembers_parse_anew:
  assumes "remembers n i ct x m s" and "n < m" and "copy \<or> n' \<noteq> i"
  shows "remembers (Suc n) i ct x m (snd (parse_anew E b c ct' copy n' s))"
proof -
  obtain q vs where q: "parse_buffer E b c ct' (oj_state s) = (q, vs)" by (rule prod.exhaust)
  show ?thesis
  proof (cases "isl q \<or> copy")
    case True
    with q have "oj_serialized (snd (parse_anew E b c ct' copy n' s)) = oj_serialized s"
      by (auto simp: parse_anew_def Let_def split: sum.split)
    with assms(1) show ?thesis by (intro remembers_Suc) (rule remembers_same)
  next
    case False
    with q have "oj_serialized (snd (parse_anew E b c ct' copy n' s)) = spec_put (n', ct') (BufferObject b, n') (oj_serialized s)"
      using assms(1) by (cases q) (auto simp: parse_anew_def Let_def spec_set_def remembers_def)
    with assms False show ?thesis by (intro remembers_put [where k = "(n', ct')"]) auto
  qed
qed

definition reads_onto :: "nat \<Rightarrow> 'nd call \<Rightarrow> bool" where
  "reads_onto i c = (case c of ParseSync _ _ _ copy n \<Rightarrow> \<not> copy \<and> n = i | ParseAsync _ _ _ copy n \<Rightarrow> \<not> copy \<and> n = i | _ \<Rightarrow> False)"

lemma remembers_call:
  assumes "remembers n i ct x m s" and "n < m" and "\<not> reads_onto i c"
  shows "remembers (Suc n) i ct x m (snd (perform E c s))"
proof (cases c)
  case (BufferOf j ct' n')
  have "remembers n i ct x m (put_object n' v s)" for v by (rule remembers_same [OF assms(1)]) simp
  with assms(1,2) BufferOf show ?thesis
    by (simp add: buffer_init_def obind_def remembers_serialize remembers_Suc split: option.split sum.split prod.split)
next
  case (FromAsync j ct' u)
  with assms show ?thesis
    by (cases "map_celltype ct'") (simp_all add: buffer_from_async_def obind_def remembers_async remembers_Suc)
next
  case (ParseSync b d ct' copy n')
  have t: "remembers n i ct x m (touch_parsed d ct' s)" by (rule remembers_same [OF assms(1)]) simp
  show ?thesis
  proof (cases "parse_hit d ct' s")
    case None
    with t ParseSync assms(2,3) show ?thesis by (simp add: parse_sync_def reads_onto_def remembers_parse_anew)
  next
    case (Some j)
    with ParseSync have "oj_serialized (snd (perform E c s)) = oj_serialized s" by (simp add: parse_sync_def Let_def)
    with assms(1) show ?thesis by (intro remembers_Suc) (rule remembers_same)
  qed
next
  case (ParseAsync b d ct' copy n')
  have t: "remembers n i ct x m (touch_parsed d ct' s)" by (rule remembers_same [OF assms(1)]) simp
  show ?thesis
  proof (cases "parse_hit d ct' s = None \<or> copy")
    case True
    with t ParseAsync assms(2,3) show ?thesis
      by (auto simp: parse_async_def reads_onto_def remembers_parse_anew Let_def split: option.split)
  next
    case False
    with ParseAsync have "oj_serialized (snd (perform E c s)) = oj_serialized s" by (auto simp: parse_async_def Let_def)
    with assms(1) show ?thesis by (intro remembers_Suc) (rule remembers_same)
  qed
qed (use assms in \<open>auto simp: remembers_serialize remembers_async intro!: remembers_Suc intro: remembers_same\<close>)

lemma remembers_run:
  "remembers n i ct x m s \<Longrightarrow> n + length cs \<le> m \<Longrightarrow> list_all (\<lambda>c. \<not> reads_onto i c) cs \<Longrightarrow>
     remembers (n + length cs) i ct x m (snd (run_calls (perform E) cs s))"
proof (induction cs arbitrary: n s)
  case (Cons c cs)
  then have "remembers (Suc n) i ct x m (snd (perform E c s))" by (intro remembers_call) auto
  from Cons.IH [OF this] Cons.prems show ?case by (simp add: split_beta)
qed simp

text \<open>C32: a value that was changed after it was serialized keeps its old bytes. Whatever a program
  does in the next nine calls, among them any change of the value, serializing it again for the
  same celltype gives the bytes it gave the first time.\<close>

theorem changed_value_keeps_its_old_bytes:
  assumes "serialize_sync (e_codec E) i ct True s = (Inr p, s1)" and "\<not> lp_disabled (oj_serialized s)"
    and "length cs < lp_size (oj_serialized s)" and "list_all (\<lambda>c. \<not> reads_onto i c) cs"
  shows "fst (serialize_sync (e_codec E) i ct True (snd (run_calls (perform E) cs s1))) = Inr p"
proof -
  have "\<exists>j. remembers (Suc 0) i ct (p, j) (lp_size (oj_serialized s)) s1"
    using assms(1-3) kept_put_same [of "oj_serialized s" 0 "(i, ct)"]
    by (force simp: serialize_sync_def remembers_def spec_set_def split: option.splits sum.splits)
  then obtain j where "remembers (Suc 0) i ct (p, j) (lp_size (oj_serialized s)) s1" ..
  from remembers_run [OF this _ assms(4), of E] assms(3)
  have "dget (lp_items (oj_serialized (snd (run_calls (perform E) cs s1)))) (i, ct) = Some (p, j)"
    by (auto simp: remembers_def dest: kept_dget)
  then show ?thesis by (simp add: serialize_sync_def)
qed

theorem changed_value_keeps_its_old_bytes_witness:
  "\<exists>s s1 b. serialize_sync tiny_codec 0 CtText True s = (Inr (RawBytes b), s1)
    \<and> fst (serialize_sync tiny_codec 0 CtText True (snd (run_calls (perform tiny_env) [Change 0 (VStr (u ''ho''))] s1))) = Inr (RawBytes b)
    \<and> Values.serialize tiny_codec (oj_value (snd (run_calls (perform tiny_env) [Change 0 (VStr (u ''ho''))] s1)) 0) CtText \<noteq> Inr b"
proof -
  let ?s = "put_object 0 (VStr (u ''hi'')) (first_objects tiny_state)" and ?cs = "[Change 0 (VStr (u ''ho''))]"
  have b: "Values.serialize tiny_codec (VStr (u ''hi'')) CtText = Inr (ascii (''hi'' @ nl))" by code_simp
  then obtain s1 where s1: "serialize_sync (e_codec tiny_env) 0 CtText True ?s = (Inr (RawBytes (ascii (''hi'' @ nl))), s1)"
    by (simp add: serialize_sync_def first_objects_def new_spec_def tiny_env_def)
  have c: "\<not> lp_disabled (oj_serialized ?s)" "length ?cs < lp_size (oj_serialized ?s)" "list_all (\<lambda>c. \<not> reads_onto 0 c) ?cs"
    by (simp_all add: first_objects_def new_spec_def reads_onto_def)
  have "Values.serialize tiny_codec (oj_value (snd (run_calls (perform tiny_env) ?cs s1)) 0) CtText
      = Values.serialize tiny_codec (VStr (u ''ho'')) CtText" by simp
  also have "\<dots> \<noteq> Inr (ascii (''hi'' @ nl))" by code_simp
  finally show ?thesis
    using changed_value_keeps_its_old_bytes [OF s1 c] s1 by (force simp: tiny_env_def)
qed

text \<open>A value read with \<open>copy=False\<close> serializes to a Buffer, not to bytes.\<close>

lemma shared_value_serializes_to_a_buffer:
  assumes "parse_anew E b c ct False n s = (Inr n, s1)" and "\<not> lp_disabled (oj_serialized s)"
    and "0 < lp_size (oj_serialized s)"
  shows "fst (serialize_sync K n ct True s1) = Inr (BufferObject b)"
proof -
  obtain v vs where "parse_buffer E b c ct (oj_state s) = (Inr v, vs)"
    using assms(1) by (auto simp: parse_anew_def split: prod.splits sum.splits)
  with assms have "oj_serialized s1 = spec_put (n, ct) (BufferObject b, n) (oj_serialized s)"
    by (auto simp: parse_anew_def Let_def spec_set_def)
  then have "dget (lp_items (oj_serialized s1)) (n, ct) = Some (BufferObject b, n)"
    using kept_put_same [OF assms(3), of 0, THEN kept_dget] by simp
  then show ?thesis by (simp add: serialize_sync_def)
qed

end
