(* ===== verification/NestedRecords.thy ===== *)
theory NestedRecords
  imports ResultRecords
begin

text \<open>
  A nested expression all of whose steps are on record: both evaluations of
  \<open>NestedEvaluation\<close> answer with the record, whatever they are asked with.
\<close>

section \<open>A chain on record\<close>

text \<open>The result that the records give an expression on an expression on a checksum, without a
  validator on the way.\<close>

definition recorded_step :: "(bytes \<Rightarrow> checksum) \<Rightarrow> (cache_key, checksum) dict \<Rightarrow> xdef \<Rightarrow> checksum \<Rightarrow> checksum option" where
  "recorded_step sha R x c =
     (if validated x \<or> canonical_checksum sha c (xd_input x) \<noteq> c then None
      else dget R (ExpressionCacheKey (hex c) (xd_path x) (xd_input x) (xd_celltype x)))"

fun on_record :: "(bytes \<Rightarrow> checksum) \<Rightarrow> (cache_key, checksum) dict \<Rightarrow> xdef \<Rightarrow> checksum option" where
  "on_record sha R (XDef (Concrete c) p t t' v l) = recorded_step sha R (XDef (Concrete c) p t t' v l) c"
| "on_record sha R (XDef (Nested i y) p t t' v l) =
     (case on_record sha R y of None \<Rightarrow> None | Some c \<Rightarrow> recorded_step sha R (XDef (Nested i y) p t t' v l) c)"
| "on_record sha R x = None"

text \<open>A run that returns and leaves the records alone.\<close>

definition answers :: "(bytes \<Rightarrow> checksum) \<Rightarrow> eval_state \<times> bool \<Rightarrow> 'a eop \<Rightarrow> eval_state \<Rightarrow> 'a \<Rightarrow> bool" where
  "answers sha z m s r \<longleftrightarrow> (\<exists>s'. m s = (Inr r, s') \<and> es_cache s' = es_cache s \<and> eval_ok sha z s')"

lemma answers_bind: "answers sha z m s x \<Longrightarrow> (\<And>s'. es_cache s' = es_cache s \<Longrightarrow> eval_ok sha z s' \<Longrightarrow> answers sha z (f x) s' r) \<Longrightarrow>
    answers sha z (obind m f) s r"
  by (fastforce simp: answers_def obind_def)

lemma answers_ret: "eval_ok sha z s \<Longrightarrow> answers sha z (oret r) s r"
  by (simp add: answers_def oret_def)

lemma answers_tempref: "eval_ok sha z s \<Longrightarrow> w_sha W = sha \<Longrightarrow> answers sha z (tempref W c None) s ()"
  by (erule tempref_runs [of sha z s W c]) (auto simp: answers_def)

lemma answers_hold: "eval_ok sha z s \<Longrightarrow> w_sha W = sha \<Longrightarrow> answers sha z (hold W r) s (Some r)"
  unfolding hold_def by (blast intro: answers_bind answers_tempref answers_ret)

lemma answers_result_hold:
  "eval_ok sha z s \<Longrightarrow> w_sha W = sha \<Longrightarrow> answers sha z (tempref_expression_result W r None False) s ()"
  unfolding tempref_expression_result_def option.case if_False
  by (rule answers_bind [OF answers_tempref]) (simp_all add: answers_ret)

lemma answers_cached: "eval_ok sha z s \<Longrightarrow> answers sha z (cached_result k) s (dget (es_cache s) k)"
  by (simp add: answers_def cached_result_def)

lemma answers_node:
  assumes "eval_ok sha z s" and "w_sha W = sha" and "recorded_step sha (es_cache s) x c = Some r"
  shows "answers sha z (evaluate_node W j place False run_source x (Some c) remake) s (Some r)"
proof -
  from assms(3) have "\<not> validated x"
    and k: "dget (es_cache s) (ExpressionCacheKey (hex c) (xd_path x) (xd_input x) (xd_celltype x)) = Some r"
    by (auto simp: recorded_step_def split: if_splits)
  then have "answers sha z (answer_on_record W place False x c) s (Some r)"
    unfolding answer_on_record_def
    by (intro answers_bind [OF answers_cached [OF assms(1)]]) (simp add: answers_ret)
  then show ?thesis unfolding evaluate_node_def option.case
    by (rule answers_bind) (simp add: answers_hold assms(2))
qed

lemma answers_node_async:
  assumes "eval_ok sha z s" and "w_sha (g_world G) = sha" and "recorded_step sha (es_cache s) x c = Some r"
  shows "answers sha z (evaluate_node_async G j d place scratch (Some False) run_source x (Some c) again) s (Some r)"
proof -
  let ?k = "expression_key sha c (xd_path x) (xd_input x) (xd_celltype x)" and ?W = "g_world G"
  from assms(3) have v: "\<not> validated x" and k: "dget (es_cache s) (cache_key_of ?k) = Some r"
    by (auto simp: recorded_step_def expression_key_def cache_key_of_def split: if_splits)
  have known: "answers sha z (unless_known G False ?k f) s r" for f
    unfolding unless_known_def
  proof (rule answers_bind [OF answers_tempref [OF assms(1,2)]])
    fix s1 assume s1: "es_cache s1 = es_cache s" "eval_ok sha z s1"
    have "answers sha z (answer_with G False r) s2 (Answered r)" if "eval_ok sha z s2" for s2
      unfolding answer_with_def usable_anywhere_def if_False
      by (rule answers_bind [OF answers_ret [OF that]], simp, rule answers_bind [OF answers_result_hold])
        (simp_all add: assms(2) answers_ret)
    then have "answers sha z (known_result G False ?k) s1 (Answered r)"
      unfolding known_result_def using k s1 by (intro answers_bind [OF answers_cached]) simp_all
    then show "answers sha z (obind (known_result G False ?k)
        (\<lambda>known. case known of Answered r \<Rightarrow> oret r | Known ok \<Rightarrow> obind (needs_input_placed ?W ?k) (f ok))) s1 r"
      by (rule answers_bind) (simp add: answers_ret)
  qed
  have "answers sha z (evaluate_expression_placed G j d place scratch (Some False) ag c (xd_path x) (xd_input x) (xd_celltype x)) s r" for ag
    using known assms(2) by (cases ag) (simp_all add: evaluate_expression_placed.simps wants_bytes_def Let_def)
  then show ?thesis
    using v unfolding evaluate_node_async_def
    by (simp, intro answers_bind) (auto intro: answers_hold assms(2))
qed

lemma internal_answers:
  "eval_ok sha z s \<Longrightarrow> w_sha W = sha \<Longrightarrow> on_record sha (es_cache s) x = Some r \<Longrightarrow>
     answers sha z (evaluate_internal W T J place True (Some False) run_source x) s (Some r)"
proof (induction sha "es_cache s" x arbitrary: s r rule: on_record.induct)
  case (2 sha i y p t t' v l)
  then obtain c where c: "on_record sha (es_cache s) y = Some c"
    "recorded_step sha (es_cache s) (XDef (Nested i y) p t t' v l) c = Some r"
    by (auto split: option.splits)
  show ?case unfolding evaluate_internal.simps Let_def wants_bytes_def option.case
    by (rule answers_bind [OF 2(1) [OF refl 2(2,3) c(1)]]) (rule answers_node, auto simp: 2(3) c(2))
qed (simp_all add: wants_bytes_def Let_def answers_node)

lemma internal_async_answers:
  "eval_ok sha z s \<Longrightarrow> w_sha (g_world G) = sha \<Longrightarrow> on_record sha (es_cache s) x = Some r \<Longrightarrow>
     answers sha z (evaluate_internal_async G T J D place scratch (Some False) run_source x) s (Some r)"
proof (induction sha "es_cache s" x arbitrary: scratch s r rule: on_record.induct)
  case (2 sha i y p t t' v l)
  then obtain c where c: "on_record sha (es_cache s) y = Some c"
    "recorded_step sha (es_cache s) (XDef (Nested i y) p t t' v l) c = Some r"
    by (auto split: option.splits)
  show ?case unfolding evaluate_internal_async.simps Let_def
    by (rule answers_bind [OF 2(1) [OF refl 2(2,3) c(1)]]) (rule answers_node_async, auto simp: 2(3) c(2))
qed (simp_all add: Let_def answers_node_async)


definition identity_on_request :: xdef where
  "identity_on_request = XDef (Nested 0 (XDef (Concrete sevens) [] CtStr CtChecksum None None)) [] CtChecksum CtChecksum None None"

abbreviation two_requests :: "unit request list" where
  "two_requests \<equiv> [tiny_request, LocalRequest tiny_world OnItsOwn False (pad_sha sevens_hex) [] CtChecksum CtChecksum]"


end
