(* ===== verification/ExpressionFusion.thy ===== *)
theory ExpressionFusion
  imports ExpressionTree ResultRecords
begin

text \<open>
  What the constructor of \<open>Expression\<close> does to a projection of a projection, and of a
  conversion: when the fused path means the same, and what cannot be built any more.
\<close>

section \<open>One projection instead of two\<close>

lemma pass_Inr:
  "fst (obind m f s) = Inr r \<Longrightarrow> \<exists>x s1. m s = (Inr x, s1) \<and> fst (f x s1) = Inr r"
  by (cases "m s" rule: prod.exhaust) (simp add: obind_def split: sum.splits)

lemma new_buffer_digest: "new_buffer W b s = (Inr y, s') \<Longrightarrow> checksum_of W y = w_sha W b"
  by (auto simp: new_buffer_def get_checksum_def plain_buffer_def calculate_checksum_def checksum_of_def obind_def
      on_store_def oret_def buffer_get_checksum_def Let_def split: sum.splits prod.splits option.splits)

text \<open>What a projection returned, read off its run.\<close>

lemma path_outcome:
  assumes "fst (evaluate_path W k x steps s) = Inr r" and "ek_source k \<notin> set DEEP_CELLTYPES"
  obtains v w b where "fst (deserialize_for_expression W x (ek_source k) s) = Inr v"
    and "apply_steps W steps v = Inr w" and "serialize_expression_result (w_codec W) w (ek_target k) = Inr b"
    and "r = w_sha W b"
proof -
  let ?t = "ek_target k"
  from otry_returned [OF assms(1) [unfolded evaluate_path_def]] assms(1)
  obtain v s1 where v: "deserialize_for_expression W x (ek_source k) s = (Inr v, s1)"
    and rest: "fst (obind (if ek_source k = CtBinary
                   \<and> (case v of VArray a \<Rightarrow> np_dims (w_codec W) a = 0 | _ \<Rightarrow> True)
                   \<and> \<not> ((case v of VArray a \<Rightarrow> w_fields W a | _ \<Rightarrow> False) \<and> list_all is_str_key steps)
                then oraise ExpressionEvaluationError else oret ()) (\<lambda>_.
             obind (olift (apply_steps W steps v)) (\<lambda>w.
             obind (olift (serialize_expression_result (w_codec W) w ?t)) (\<lambda>b.
             obind (new_buffer W b) (\<lambda>y.
             obind (record_expression_result W (cache_key_of k) (checksum_of W y)) (\<lambda>_.
             obind (keep_result_buffer (checksum_of W y) y) (\<lambda>_.
             obind (tempref_expression_result W (checksum_of W y) (Some y) True) (\<lambda>_.
               oret (checksum_of W y)))))))) s1) = Inr r"
    using assms(2) by (auto simp: evaluate_path_def dest!: pass_Inr)
  from rest obtain w b y s2 s3 where w: "apply_steps W steps v = Inr w"
      "serialize_expression_result (w_codec W) w ?t = Inr b" "new_buffer W b s2 = (Inr y, s3)" "r = checksum_of W y"
    by (auto dest!: pass_Inr)
  have "checksum_of W y = w_sha W b"
    using w(3) new_buffer_digest by blast
  with that v w show ?thesis by simp
qed

text \<open>What a buffer reads as does not depend on when it is read.\<close>

lemma branch_once:
  "fst (parse_branch K b c ct s) = Inr v \<Longrightarrow> fst (parse_branch K b c ct t) = Inr v' \<Longrightarrow> v = v'"
  unfolding parse_branch_def
  by (auto simp: obind_def otry_def oret_def olift_def oraise_def split: if_splits sum.splits prod.splits)

lemma parse_read:
  fixes E :: "'nd env"
  assumes "fst (parse_buffer E b c ct s) = Inr v"
  shows "(virtual (e_sha E) c ct :: 'nd pyval option result) = Inr (Some v)
    \<or> ((virtual (e_sha E) c ct :: 'nd pyval option result) = Inr None
      \<and> (\<exists>s1. fst (parse_branch (e_codec E) b c ct s1) = Inr v))"
  using assms
  by (cases "virtual (e_sha E) c ct :: 'nd pyval option result")
    (auto simp: parse_buffer_def oret_def oraise_def dest!: pass_Inr split: if_splits option.splits)

lemma parse_once: "fst (parse_buffer E b c ct s) = Inr v \<Longrightarrow> fst (parse_buffer E b c ct t) = Inr v' \<Longrightarrow> v = v'"
  by (drule parse_read, drule parse_read) (auto intro: branch_once)

lemma checksum_once:
  assumes "get_checksum W x s = (Inr y, s')"
  shows "b_content y = b_content x"
    and "b_checksum y = Some (case b_checksum x of Some c \<Rightarrow> c | None \<Rightarrow> w_sha W (b_content x))"
  using assms
  by (auto simp: get_checksum_def calculate_checksum_def obind_def oret_def on_store_def Let_def buffer_get_checksum_def
      split: sum.splits prod.splits option.splits)

lemma get_value_once:
  assumes "fst (get_value W x ct s) = Inr v" and "fst (get_value W x ct t) = Inr v'"
  shows "v = v'"
proof -
  define c where "c = (case b_checksum x of Some c \<Rightarrow> c | None \<Rightarrow> w_sha W (b_content x))"
  have "\<exists>ct' w s1. map_celltype ct = Inr ct' \<and> fst (parse_buffer (w_env W) (b_content x) c ct' s1) = Inr w
      \<and> (if ct \<in> set DEEP_CELLTYPES then validate_deep_structure True w else Inr w) = Inr v"
    if "fst (get_value W x ct s) = Inr v" for s v
  proof -
    from that obtain ct' y s1 w s2 where g: "map_celltype ct = Inr ct'" "get_checksum W x s1 = (Inr y, s2)"
        "fst (on_values (parse_buffer (w_env W) (b_content y)
       (case b_checksum y of Some c \<Rightarrow> c | None \<Rightarrow> w_sha W (b_content y)) ct') s2) = Inr w"
        "(if ct \<in> set DEEP_CELLTYPES then validate_deep_structure True w else Inr w) = Inr v"
      unfolding get_value_def by (auto simp: olift_def oret_def dest!: pass_Inr split: if_splits)
    from g(3) have "fst (parse_buffer (w_env W) (b_content x) c ct' (es_values s2)) = Inr w"
      using checksum_once [OF g(2)] by (simp add: on_values_def Let_def split_beta c_def)
    with g show ?thesis by blast
  qed
  from this [OF assms(1)] this [OF assms(2)] parse_once show ?thesis by (metis Inr_inject)
qed

lemma deserialize_once:
  assumes "fst (deserialize_for_expression W x ct s) = Inr v" and "fst (deserialize_for_expression W x ct t) = Inr v'"
    and "ct \<notin> set DEEP_CELLTYPES"
  shows "v = v'"
  using assms get_value_once [of W x ct s v t v'] by (auto simp: deserialize_for_expression_def oret_def dest!: pass_Inr split: if_splits)

lemma apply_steps_append: "apply_steps W (ps @ qs) v = rbind (apply_steps W ps v) (apply_steps W qs)"
  by (induction ps arbitrary: v) (simp_all add: rbind_def split: sum.split)

lemma fused_construct:
  assumes "new_expression K rs (Nested i (XDef (Concrete c) p t t None None)) (Some q) None (Some t') ArgNone None = Inr x"
    and "t \<notin> set DEEP_CELLTYPES" and "p \<noteq> []"
  shows "x = XDef (Concrete (canonical_checksum (k_sha K) c t)) (fuse_paths p q) t t' None None"
  using assms
  by (auto simp: new_expression_def construct_def source_celltype_def or_option_def drop_dummy_def fuse_source_def
      canonical_source_def validator_of_def rbind_Inr_iff Let_def)


definition tiny_surroundings :: surroundings where
  "tiny_surroundings = \<lparr>k_sha = pad_sha, k_now = 0, k_unicode = ascii_unicode, k_leval = digit_leval, k_repr = digit_repr\<rparr>"


text \<open>Where the intermediate value does not read back, the two differ: a text that ends in a
  newline loses it in its buffer, but not inside one projection.\<close>

lemma fused_projection_keeps_newline:
  "let y = plain_buffer (ascii (''a'' @ nl @ ''b'' @ nl)); z = plain_buffer (ascii (''a'' @ nl)); c = pad_sha (b_content y);
       k = (\<lambda>c p. \<lparr>ek_input = c, ek_path = p, ek_source = CtText, ek_target = CtText\<rparr>)
   in fst (evaluate_path tiny_world (k c (u ''[0:2]'')) y [Slice (Some (LInt 0)) (Some (LInt 2)) None] tiny_start) = Inr (pad_sha (b_content z))
    \<and> fst (evaluate_path tiny_world (k (pad_sha (b_content z)) (u ''[1]'')) z [Item (LInt 1)] tiny_start) = Inl ExpressionEvaluationError
    \<and> fst (evaluate_path tiny_world (k c (u ''[0:2][1]'')) y [Slice (Some (LInt 0)) (Some (LInt 2)) None, Item (LInt 1)] tiny_start)
        = Inr (pad_sha (ascii nl))"
  by code_simp

section \<open>A copy that is refused\<close>

text \<open>C30: a projection behind a conversion that keeps the buffer cannot be copied. When such a
  conversion stands between an expression and the projection, the constructor skips it but keeps
  its celltype for the input; every construction from the new expression's own fields (a copy, an
  item, a slice, a conversion) is then refused with a \<open>ValueError\<close>, since the celltype is not
  that of the source.\<close>

theorem skipped_conversion_cannot_be_copied:
  assumes "new_expression K rs (Nested i (XDef (Nested j z) [] t t' None None)) (Some q) ict ct v l = Inr x"
    and "xd_celltype z = t" and "t \<noteq> t'" and "(t, t') \<in> set (conversion_trivial @ conversion_reinterpret)"
    and "t \<notin> set DEEP_CELLTYPES" and "q \<noteq> []"
  shows "rebuild K rs x = Inl ValueError \<and> expr_getitem K rs x st = Inl ValueError
    \<and> expr_as_celltype K rs x t'' = Inl ValueError"
proof -
  have "xd_source x = Nested j z \<and> xd_input x = t'"
    using assms
    by (auto simp: new_expression_def construct_def source_celltype_def or_option_def drop_dummy_def fuse_source_def
        canonical_source_def rbind_Inr_iff Let_def split: if_splits option.splits)
  then have "rebuild K rs y = Inl ValueError" if "xd_source y = xd_source x" "xd_input y = xd_input x" for y
    using that assms(2,3) by (simp add: rebuild_def new_expression_def construct_def source_celltype_def)
  then show ?thesis
    by (simp add: expr_getitem_def expr_item_def expr_slice_def expr_as_celltype_def with_path_def with_celltype_def split: path_step.split)
qed

definition plain_as_text :: xdef where
  "plain_as_text = XDef (Concrete sevens) [] CtPlain CtText None None"

theorem skipped_conversion_cannot_be_copied_witness:
  "\<exists>x. new_expression tiny_surroundings (\<lambda>_. None) (Nested 1 (XDef (Nested 0 plain_as_text) [] CtText CtBytes None None))
      (Some (u ''[0]'')) None (Some CtBytes) ArgNone None = Inr x
    \<and> rebuild tiny_surroundings (\<lambda>_. None) x = Inl ValueError"
proof -
  have run: "new_expression tiny_surroundings (\<lambda>_. None) (Nested 1 (XDef (Nested 0 plain_as_text) [] CtText CtBytes None None))
      (Some (u ''[0]'')) None (Some CtBytes) ArgNone None = Inr (XDef (Nested 0 plain_as_text) (u ''[0]'') CtBytes CtBytes None None)"
    by code_simp
  have "xd_celltype plain_as_text = CtText" "CtText \<noteq> CtBytes" "u ''[0]'' \<noteq> []"
    "(CtText, CtBytes) \<in> set (conversion_trivial @ conversion_reinterpret)" "CtText \<notin> set DEEP_CELLTYPES"
    by code_simp+
  from skipped_conversion_cannot_be_copied [OF run this(1,2,4,5,3)] run show ?thesis by blast
qed

end
