(* ===== verification/Canonical.thy ===== *)
theory Canonical
  imports Values
begin

text \<open>
  The canonical bytes of a mounted file, \<open>checksum/canonical.py\<close>: the file is read by the
  contract of its celltype and serialized again.
\<close>

definition FILE_CELLTYPES :: "celltype list" where
  "FILE_CELLTYPES = [CtText, CtPython, CtIPython, CtYaml, CtPlain, CtStr, CtInt, CtFloat, CtBool, CtBytes, CtBinary, CtMixed]"

definition CODE_CELLTYPES :: "celltype list" where
  "CODE_CELLTYPES = [CtText, CtPython, CtIPython, CtYaml]"

definition canon_T :: "'nd env \<Rightarrow> bytes \<Rightarrow> celltype \<Rightarrow> bytes vop" where
  "canon_T E content ct =
     (if ct \<notin> set FILE_CELLTYPES then oraise TypeError
      else if content = [] \<or> content = NULL_BUFFER then oret NULL_BUFFER
      else if ct = CtBytes then oret content
      else
        obind
          (if ct \<in> set CODE_CELLTYPES then olift (rbind (decode_text content) (\<lambda>t. Inr (VStr t)))
           else parse_buffer E content (e_sha E content) ct) (\<lambda>v.
          olift (serialize (e_codec E) v ct)))"

section \<open>Canonical text\<close>

text \<open>A text file is its text with one newline at the end, an empty or null file is null; the
  canonical bytes of canonical bytes are themselves. Nothing is parsed, and no state is changed.\<close>

lemma code_serialize:
  assumes "ct \<in> set CODE_CELLTYPES" and "py_str K (VStr t) = Inr t"
  shows "serialize K (VStr t) ct = encode_text (strip_nl t @ [10])"
  using assms
  by (auto simp: CODE_CELLTYPES_def serialize_def celltypes_def text_types_def serialize_text_def)

lemma code_file: "ct \<in> set CODE_CELLTYPES \<Longrightarrow> ct \<in> set FILE_CELLTYPES \<and> ct \<noteq> CtBytes"
  by (auto simp: CODE_CELLTYPES_def FILE_CELLTYPES_def)

lemma canon_text:
  assumes "ct \<in> set CODE_CELLTYPES" and "\<And>t. py_str (e_codec E) (VStr t) = Inr t"
  shows "canon_T E content ct s =
    (if content = [] \<or> content = NULL_BUFFER then Inr NULL_BUFFER
     else rbind (decode_text content) (\<lambda>t. encode_text (strip_nl t @ [10])), s)"
  using code_file [OF assms(1)] code_serialize [OF assms(1) assms(2)] assms(1)
  by (auto simp: canon_T_def obind_def oret_def olift_def rbind_def split: sum.split)

theorem canonical_text_is_canonical:
  assumes "ct \<in> set CODE_CELLTYPES" and "\<And>t. py_str (e_codec E) (VStr t) = Inr t"
    and "canon_T E content ct s = (Inr b, s')"
  shows "canon_T E b ct s' = (Inr b, s') \<and> s' = s \<and> b \<noteq> []"
proof -
  have null: "NULL_BUFFER \<noteq> []" by code_simp
  have "b = NULL_BUFFER \<or> (\<exists>t. encode (strip_nl t @ [10]) = Some b)"
    using assms(3) unfolding canon_text [OF assms(1,2)]
    by (auto simp: encode_text_def rbind_Inr_iff split: if_splits option.splits)
  then show ?thesis
  proof
    assume "b = NULL_BUFFER"
    with assms(3) null show ?thesis unfolding canon_text [OF assms(1,2)] by simp
  next
    assume "\<exists>t. encode (strip_nl t @ [10]) = Some b"
    then obtain t where t: "encode (strip_nl t @ [10]) = Some b" ..
    then have "b \<noteq> []" by (auto dest: decode_encode simp: decode_def utf8_decode_nat.simps)
    moreover have "rbind (decode_text b) (\<lambda>t. encode_text (strip_nl t @ [10])) = Inr b"
      by (simp add: decode_text_def encode_text_def decode_encode [OF t] t)
    ultimately show ?thesis using assms(3) unfolding canon_text [OF assms(1,2)] by auto
  qed
qed

end
