(* ===== verification/Spec2Isabelle.thy ===== *)
theory Spec2Isabelle
  imports CellJoin ErrorEnvelope BufferWriter ResultRecords CellRecipe Shutdown ValueTypes TemprefLife CellProjection ValueCaches
    NestedRecords ExpressionFusion Canonical
begin

text \<open>
  Verification of \<open>seamless-core\<close> (\<open>src/seamless\<close>): content-addressed values. A
  buffer is bytes, a checksum its SHA-256 digest, and a celltype says how a buffer reads as
  a value. The parts modelled here, in the order of their theories:

  \<^item> \<open>Prelude\<close>: results (an exception or a value), operations on a state that may raise
    (\<open>oret\<close>, \<open>oraise\<close>, \<open>obind\<close>, \<open>otry\<close>: state changes made before an
    exception stay), Python dictionaries as ordered association lists, and the interfaces
    \<open>keyed_store\<close>, \<open>inductive_invariant\<close> (reachable states of a step relation) and
    \<open>counted_claims\<close>, each interpreted on the model.
  \<^item> \<open>PyText\<close>: strings as lists of code points, UTF-8, hexadecimal.
  \<^item> \<open>Checksums\<close>: \<open>checksum_class.py\<close> (construction, order, recursive validation),
    \<open>checksum/null.py\<close>, \<open>checksum/virtual.py\<close>, and the exceptions.
  \<^item> \<open>Conversions\<close>: the tables of \<open>checksum/conversion.py\<close> and their import-time check.
  \<^item> \<open>HashTypes\<close>: \<open>checksum/hash_type.py\<close>, the 13-bit description of a buffer, the
    classifier, and the cache that only ever tightens (interface \<open>tightening\<close>).
  \<^item> \<open>ExpressionPath\<close>: the path language of \<open>checksum/expression.py\<close> and
    \<open>expression_class.py\<close> (parse, spell, fuse, validate against celltypes).
  \<^item> \<open>HashTypeValidation\<close>: \<open>checksum/hash_type_validation.py\<close>, what a HashType proves
    impossible.
  \<^item> \<open>Values\<close>: \<open>checksum/serialize.py\<close>, \<open>checksum/parse_buffer.py\<close>,
    \<open>checksum/deep.py\<close>, and the constructor and reader of \<open>buffer_class.py\<close>.
  \<^item> \<open>ValueCaches\<close>: the caches by identity before \<open>serialize\<close> and \<open>parse_buffer\<close>, over
    values that have an identity and may be changed.
  \<^item> \<open>Convert\<close>: \<open>checksum/convert.py\<close>, from celltype to celltype, and its dry run.
  \<^item> \<open>EvictionCost\<close>: \<open>caching/eviction_cost.py\<close>, the dependency graph and its prices.
  \<^item> \<open>BufferCache\<close>: \<open>caching/buffer_cache.py\<close>, weak and strong cache, claims, temprefs,
    eviction.
  \<^item> \<open>BufferSource\<close>: \<open>caching/buffer_source.py\<close>, the registered stores, their lookups and
    the sharing of pending lookups.
  \<^item> \<open>BufferWriter\<close>: \<open>caching/buffer_writer.py\<close>, the queue, the worker's life, flush.
  \<^item> \<open>ReferenceLifecycle\<close>: \<open>reference_lifecycle.py\<close>, who holds what, and the audit.
  \<^item> \<open>SharedEvaluation\<close>: the registries of running evaluations of
    \<open>checksum/expression.py\<close>: joining, leaving, lingering, the claims on inputs.
  \<^item> \<open>Lru\<close>: \<open>util/pylru.py\<close> and the \<open>lrucache2\<close> of \<open>util\<close>, the ring of
    nodes and the dictionary it refines.
  \<^item> \<open>Evaluation\<close>: the evaluation of an expression, \<open>checksum/expression.py\<close>, with
    \<open>resolve\<close> and \<open>resolution\<close> of \<open>checksum_class.py\<close>; \<open>Placement\<close>: where it
    runs, for expressions and celljoins; \<open>Fingertip\<close>: \<open>Checksum.fingertip\<close>, the recovery
    of a lost buffer. \<open>EvalTriples\<close> and \<open>PlacementTriples\<close> hold the triples of their
    operations, \<open>ResultRecords\<close> what holds after any sequence of requests.
  \<^item> \<open>ExpressionTree\<close>: an Expression as a definition, \<open>expression_class.py\<close>: its
    constructor, which fuses it with the expression it is built on, its navigation, copies and
    keys, and \<open>Cell.build\<close>; \<open>NestedEvaluation\<close>: \<open>_evaluate_internal\<close> of an expression on
    expressions or transformations, and of a CellJoin object. \<open>ExpressionFusion\<close> and
    \<open>NestedRecords\<close> hold what was proved of them.
  \<^item> \<open>Holders\<close>: the objects of \<open>expression_class.py\<close>, \<open>celljoin_class.py\<close> and
    \<open>cell_class.py\<close> as owners of claims; \<open>HolderClaims\<close>: the claims as a resource with a
    frame; \<open>HolderRuns\<close>: any number of objects over one cache (interface
    \<open>claim_holder\<close>); \<open>CellRecipe\<close>: when a cell forgets its result; \<open>CellProjection\<close>:
    writing through \<open>cell.a[0]\<close> into the value of the root cell (interface \<open>places\<close>).
  \<^item> \<open>CellJoin\<close>: \<open>checksum/celljoin.py\<close>, definitions, parsing, evaluation.
  \<^item> \<open>ErrorEnvelope\<close>: \<open>error_envelope.py\<close>, exceptions as text and back.
  \<^item> \<open>Canonical\<close>: \<open>checksum/canonical.py\<close>, the canonical bytes of a file.
  \<^item> \<open>Shutdown\<close>: \<open>close\<close> of \<open>shutdown.py\<close> with its phases: hooks, workers, audit,
    the two flushes of \<open>BufferWriter\<close>, the release of every holder, the second audit,
    the clearing of the cache.
  \<^item> \<open>ValueTypes\<close> and \<open>TemprefLife\<close> state what spans \<open>Values\<close> and \<open>BufferCache\<close>: the
    kind of value each celltype reads as, and how long a tempref keeps a buffer.

  How they interact: \<open>Convert\<close> reads values with \<open>Values.parse_buffer\<close>, which asks
  \<open>HashTypeValidation\<close>, which reads and writes the HashType cache and follows the tables
  of \<open>Conversions\<close>. \<open>BufferCache\<close> holds the cost coordinator as part of its state and
  calls it where the code does. \<open>Evaluation\<close> runs on the state of the others: the HashType
  cache, the buffer cache, the records, the digest cache (an ordered dictionary as \<open>Lru\<close>
  specifies it); what sharing came to for a caller (\<open>SharedEvaluation\<close>) is its argument
  \<open>joined\<close>. \<open>Holders\<close> take and give claims in the buffer cache, and the audit of
  \<open>ReferenceLifecycle\<close> compares what they report with what the cache counts; what their
  evaluations came to is an argument. A definition bears the name of the function it models;
  methods of a class are operations on the record of its fields, and a helper that models a
  block of a function says which.

  What the code takes from libraries is an argument: \<open>sha\<close> (hashlib), \<open>lib\<close> (orjson,
  json, float, the header of a numpy file), \<open>codec\<close> (the serializers, parsers and
  constructors of Python, IPython, YAML, numpy and the mixed stream), \<open>unicode\<close> (character
  classes), \<open>leval\<close> and \<open>py_repr\<close> (\<open>ast.literal_eval\<close>, \<open>repr\<close>), \<open>hash_db\<close>
  (the remote HashType database), the callbacks of the stores, the HTTP requests, the clock. What a theorem needs of them is a hypothesis, met by a
  concrete instance in its witness.

  What the lemmas show. \<open>Conversions\<close>: every pair of celltypes is classified once and
  resolves to at most three elementary rules. \<open>HashTypes\<close>: packing is faithful, writes
  tighten, truthful writers converge, verdicts are stable, the classifier reports only what a
  parse established. \<open>HashTypeValidation\<close>: a refusal is a proof. \<open>ExpressionPath\<close>: paths
  read back as they were spelled, but for keys with a colon. \<open>Values\<close>: round trips, and
  failed reads are \<open>ValueError\<close>s. \<open>ValueCaches\<close>: whoever changes no value once serialized may
  forget the caches, as all other theories do; a changed value keeps its old bytes. \<open>Convert\<close>: a result carries the digest of its content,
  the dry run tells the truth, the shape check and the engine agree. \<open>EvictionCost\<close> and
  \<open>BufferCache\<close>: the books balance in every reachable state, eviction is safe, dirtying is
  exact, and a deferred publication can be lost. \<open>SharedEvaluation\<close>: an evaluation is stopped
  only when unused, inputs are claimed while it runs, and everything settles. \<open>BufferSource\<close>
  and \<open>BufferWriter\<close>: lookups are exact and shared safely; every queued write settles, and a
  failed one is not retried. \<open>Lru\<close>: the ring refines the ordered dictionary.
  \<open>ResultRecords\<close>: Hoare triples for every operation of \<open>Evaluation\<close>, by which bytes are
  found under their own digest only, a record is never rewritten, and an expression has one result;
  \<open>NestedRecords\<close>: a nested expression on record answers with its record, wherever it is told
  to run; \<open>ExpressionFusion\<close>: a fused projection returns what its parts return, if the value
  between them reads back, and a projection behind a skipped conversion cannot be copied;
  \<open>Fingertip\<close>: records that lead back to themselves are followed for ever. \<open>HolderRuns\<close>: the
  books of expressions and cells balance until one is used after its release; \<open>CellRecipe\<close>:
  a change anywhere upstream is seen. \<open>CellProjection\<close>: what is written along keys and indices is
  read back and nothing else changes, what is written through a slice is lost. \<open>Shutdown\<close>:
  \<open>close\<close> leaves no count of any kind.
  \<open>CellJoin\<close>, \<open>ErrorEnvelope\<close>, \<open>ReferenceLifecycle\<close>: round trips, overlays, an
  exact audit.

  Bounds. The loop of \<open>check_pair\<close> ends because each round adds a classified pair to
  \<open>done\<close>; the recursion of \<open>convert\<close> and of \<open>conversion_feasible\<close> follows ranks
  computed from the tables. The release cascade \<open>detach_fuel\<close> gets one unit per recorded
  dependency list, and each call removes one; \<open>ensure_cost\<close> gets two units per list and
  one spare, and \<open>get_cost_returns\<close> shows that this is always enough. \<open>fingertip\<close> gets the depth of
  Python's recursion, and running out of it is the \<open>RecursionError\<close> of the code.
  \<open>recipe_upto\<close> and \<open>miswired_upto\<close> follow at most as many links as there are cells,
  which is all of them when no cell is its own input.

  Not modelled: locks (an operation is atomic), closing event loops (a loop stays open, and its
  callbacks run in any order), the \<open>RuntimeError\<close> of a closed loop, the remote clients, the
  eviction and writer threads beyond the interleaving of their steps (a settled promise is part
  of the turn that settles it), error messages and logging, floating point rounding of interests
  and costs (reals), the memo by \<open>id\<close> before the digest function, the HashType registration repeated by a store that
  builds a Buffer, the managers and decorators of \<open>pylru\<close> (used nowhere), the mixed stream
  format, the closing of remote clients and worker handles, the unlinking of shared memory and
  the resource tracker in \<open>shutdown.py\<close> beyond the outcomes they report, cells bound to a workflow
  (they delegate every call), what a transformation does when an expression tells it to compute
  (its outcome is a parameter). Tasks that are gathered run one after another, a remote service answers the same throughout a request, and the
  cancellation of a caller is modelled in \<open>SharedEvaluation\<close> only.
\<close>

end
